(* ===== verification/Prelude.thy ===== *)
theory Prelude
  imports Main "HOL-Library.Char_ord" "HOL-Library.List_Lexorder"
begin

text \<open>
  Shared vocabulary of the development: named collections for the automation, the string
  order of Go (byte-wise lexicographic, as \<open>HOL-Library.List_Lexorder\<close> orders lists),
  decimal formatting and scanning of fixed-width fields, association lists used as Go maps
  or SQL tables, and the nanosecond durations of package time.
\<close>

named_theorems key_simps \<open>rewriting of calendar keys and their order\<close>
named_theorems inv_intros \<open>preservation lemmas of component invariants\<close>
named_theorems frame_simps \<open>fields an operation leaves alone\<close>

section \<open>Durations (package time), in nanoseconds\<close>

abbreviation (input) ns_second :: int where "ns_second \<equiv> 1000000000"
abbreviation (input) ns_minute :: int where "ns_minute \<equiv> 60000000000"
abbreviation (input) ns_hour :: int where "ns_hour \<equiv> 3600000000000"
abbreviation (input) ns_day :: int where "ns_day \<equiv> 86400000000000"

section \<open>Strings in byte order\<close>

lemma append_less_append_iff [key_simps]:
  fixes xs xs' ys ys' :: "'a::linorder list"
  assumes "length xs = length xs'"
  shows "xs @ ys < xs' @ ys' \<longleftrightarrow> xs < xs' \<or> xs = xs' \<and> ys < ys'"
  using assms by (induction xs xs' rule: list_induct2) auto

lemma append_le_append_iff [key_simps]:
  fixes xs xs' ys ys' :: "'a::linorder list"
  assumes "length xs = length xs'"
  shows "xs @ ys \<le> xs' @ ys' \<longleftrightarrow> xs < xs' \<or> xs = xs' \<and> ys \<le> ys'"
  using assms by (auto simp: le_less append_less_append_iff)

lemma empty_string_le [simp]: "([] :: 'a::linorder list) \<le> s"
  by (cases s) auto

lemma le_empty_string [simp]: "(s :: 'a::linorder list) \<le> [] \<longleftrightarrow> s = []"
  by (cases s) auto

section \<open>Decimal fields\<close>

definition digit :: "nat \<Rightarrow> char" where
  "digit n = char_of (48 + n mod 10)"

definition is_digit :: "char \<Rightarrow> bool" where
  "is_digit c \<longleftrightarrow> 48 \<le> (of_char c :: nat) \<and> (of_char c :: nat) \<le> 57"

definition digit_val :: "char \<Rightarrow> nat" where
  "digit_val c = of_char c - 48"

text \<open>The last \<open>w\<close> decimal digits of a number: Go's zero-padded field when it fits.\<close>

fun padded :: "nat \<Rightarrow> nat \<Rightarrow> string" where
  "padded 0 n = []"
| "padded (Suc w) n = padded w (n div 10) @ [digit (n mod 10)]"

fun num_of :: "string \<Rightarrow> nat \<Rightarrow> nat" where
  "num_of [] acc = acc"
| "num_of (c # cs) acc = num_of cs (acc * 10 + digit_val c)"

lemma of_char_digit [simp]: "(of_char (digit n) :: nat) = 48 + n mod 10"
  by (simp add: digit_def)

lemma is_digit_digit [simp]: "is_digit (digit n)"
  unfolding is_digit_def of_char_digit using mod_less_divisor [of 10 n] by linarith

lemma digit_val_digit [simp]: "digit_val (digit n) = n mod 10"
  by (simp add: digit_val_def)

lemma digit_less_iff [key_simps]: "digit m < digit n \<longleftrightarrow> m mod 10 < n mod 10"
  by (simp add: less_char_def)

lemma digit_eq_iff [key_simps]: "digit m = digit n \<longleftrightarrow> m mod 10 = n mod 10"
  by (metis digit_val_digit digit_def)

lemma length_padded [simp]: "length (padded w n) = w"
  by (induction w n rule: padded.induct) auto

lemma padded_digits: "c \<in> set (padded w n) \<Longrightarrow> is_digit c"
  by (induction w n rule: padded.induct) auto

lemma num_of_append: "num_of (xs @ ys) acc = num_of ys (num_of xs acc)"
  by (induction xs arbitrary: acc) auto

lemma num_of_padded: "n < 10 ^ w \<Longrightarrow> num_of (padded w n) 0 = n"
  by (induction w n rule: padded.induct) (auto simp: num_of_append)

lemma less_div_mod_10:
  "(m::nat) < n \<longleftrightarrow> m div 10 < n div 10 \<or> m div 10 = n div 10 \<and> m mod 10 < n mod 10"
proof -
  define a b c d where v: "a = m div 10" "b = m mod 10" "c = n div 10" "d = n mod 10"
  have "m = 10 * a + b" "n = 10 * c + d" "b < 10" "d < 10" by (simp_all add: v)
  then have "m < n \<longleftrightarrow> a < c \<or> a = c \<and> b < d" by linarith
  then show ?thesis by (simp only: v)
qed

lemma padded_less_iff [key_simps]:
  "m < 10 ^ w \<Longrightarrow> n < 10 ^ w \<Longrightarrow> padded w m < padded w n \<longleftrightarrow> m < n"
proof (induction w arbitrary: m n)
  case 0
  then show ?case by simp
next
  case (Suc w)
  then have lt: "m div 10 < 10 ^ w" "n div 10 < 10 ^ w" by auto
  have "padded (Suc w) m < padded (Suc w) n \<longleftrightarrow>
      m div 10 < n div 10 \<or> padded w (m div 10) = padded w (n div 10) \<and> m mod 10 < n mod 10"
    using lt by (simp add: append_less_append_iff Suc.IH [OF lt] digit_less_iff)
  moreover have "padded w (m div 10) = padded w (n div 10) \<longleftrightarrow> m div 10 = n div 10"
    by (metis lt num_of_padded)
  moreover have "m < n \<longleftrightarrow> m div 10 < n div 10 \<or> m div 10 = n div 10 \<and> m mod 10 < n mod 10"
    by (rule less_div_mod_10)
  ultimately show ?case by simp
qed

lemma padded_eq_iff [key_simps]:
  "m < 10 ^ w \<Longrightarrow> n < 10 ^ w \<Longrightarrow> padded w m = padded w n \<longleftrightarrow> m = n"
  using num_of_padded by metis

lemma num_of_bound: "num_of s acc < (acc + 1) * 10 ^ length s" if "\<forall>c \<in> set s. is_digit c"
  using that
proof (induction s arbitrary: acc)
  case Nil
  then show ?case by simp
next
  case (Cons c s)
  have d: "digit_val c \<le> 9"
    using Cons.prems by (auto simp: is_digit_def digit_val_def)
  have "num_of s (acc * 10 + digit_val c) < (acc * 10 + digit_val c + 1) * 10 ^ length s"
    using Cons by simp
  also have "\<dots> \<le> ((acc + 1) * 10) * 10 ^ length s"
    using d by (intro mult_right_mono) auto
  finally show ?case by (simp add: algebra_simps)
qed

lemma padded_num_of: "\<forall>c \<in> set s. is_digit c \<Longrightarrow> padded (length s) (num_of s 0) = s"
proof (induction s rule: rev_induct)
  case Nil
  then show ?case by simp
next
  case (snoc c s)
  have d: "digit_val c < 10" and c: "digit (digit_val c) = c"
    using snoc.prems by (auto simp: is_digit_def digit_val_def digit_def)
  then show ?case using snoc by (simp add: num_of_append)
qed

text \<open>Scan exactly \<open>w\<close> digits off the front (Go's fixed-width numeric fields).\<close>

definition take_digits :: "nat \<Rightarrow> string \<Rightarrow> (nat \<times> string) option" where
  "take_digits w s =
     (if w \<le> length s \<and> list_all is_digit (take w s)
      then Some (num_of (take w s) 0, drop w s) else None)"

definition expect :: "char \<Rightarrow> string \<Rightarrow> string option" where
  "expect c s = (case s of [] \<Rightarrow> None | x # xs \<Rightarrow> if x = c then Some xs else None)"

lemma take_digits_padded [key_simps]:
  "n < 10 ^ w \<Longrightarrow> take_digits w (padded w n @ rest) = Some (n, rest)"
  by (auto simp: take_digits_def num_of_padded list_all_iff padded_digits)

lemma take_digits_Some:
  assumes "take_digits w s = Some (n, rest)"
  shows "s = padded w n @ rest \<and> n < 10 ^ w"
proof -
  have w: "w \<le> length s" and d: "\<forall>c \<in> set (take w s). is_digit c"
    and n: "n = num_of (take w s) 0" and r: "rest = drop w s"
    using assms by (auto simp: take_digits_def list_all_iff split: if_splits)
  have "padded w n = take w s" using padded_num_of [OF d] w n by simp
  moreover have "n < 10 ^ w" using num_of_bound [OF d, of 0] w n by simp
  ultimately show ?thesis using r by simp
qed

lemma expect_Cons [key_simps]: "expect c (x # xs) = (if x = c then Some xs else None)"
  by (simp add: expect_def)

lemma expect_Some: "expect c s = Some r \<longleftrightarrow> s = c # r"
  by (auto simp: expect_def split: list.splits)

end
