(* ===== verification/Calendar.thy ===== *)
theory Calendar
  imports Prelude
begin

text \<open>
  The part of Go's package time the program relies on: the proleptic Gregorian calendar
  (\<open>time.Date\<close>, \<open>AddDate\<close>, \<open>Time.Date\<close>), formatting and strict parsing with the layouts
  2006-01-02, 2006-01 and 2006, and locations. An instant is a number of nanoseconds since
  the Unix epoch; a location is its offset function (instant to nanoseconds east of UTC),
  the content of the tz database. Go's int is a 64-bit integer; years, months and days stay
  far from its bounds and are unbounded integers here.
\<close>

section \<open>Dates\<close>

datatype date = Date (dyear: int) (dmonth: int) (dday: int)

instantiation date :: linorder
begin

definition less_date_def:
  "d < e \<longleftrightarrow> dyear d < dyear e \<or> dyear d = dyear e \<and>
     (dmonth d < dmonth e \<or> dmonth d = dmonth e \<and> dday d < dday e)"

definition less_eq_date_def: "(d :: date) \<le> e \<longleftrightarrow> d < e \<or> d = e"

instance
  by standard (auto simp: less_date_def less_eq_date_def intro: date.expand)

end

definition is_leap :: "int \<Rightarrow> bool" where
  "is_leap y \<longleftrightarrow> y mod 4 = 0 \<and> (y mod 100 \<noteq> 0 \<or> y mod 400 = 0)"

definition leap_day :: "int \<Rightarrow> int" where
  "leap_day y = (if is_leap y then 1 else 0)"

text \<open>Days before month \<open>m\<close> of a year with \<open>l\<close> leap days (0 or 1).\<close>

definition month_start :: "int \<Rightarrow> int \<Rightarrow> int" where
  "month_start l m =
     (if m \<le> 1 then 0 else if m = 2 then 31 else if m = 3 then 59 + l else if m = 4 then 90 + l
      else if m = 5 then 120 + l else if m = 6 then 151 + l else if m = 7 then 181 + l
      else if m = 8 then 212 + l else if m = 9 then 243 + l else if m = 10 then 273 + l
      else if m = 11 then 304 + l else if m = 12 then 334 + l else 365 + l)"

definition days_in :: "int \<Rightarrow> int \<Rightarrow> int" where
  "days_in y m = month_start (leap_day y) (m + 1) - month_start (leap_day y) m"

definition year_start :: "int \<Rightarrow> int" where
  "year_start y = (let z = y - 1 in 365 * z + z div 4 - z div 100 + z div 400)"

definition valid_date :: "date \<Rightarrow> bool" where
  "valid_date d \<longleftrightarrow> 1 \<le> dmonth d \<and> dmonth d \<le> 12 \<and> 1 \<le> dday d \<and>
     dday d \<le> days_in (dyear d) (dmonth d)"

text \<open>The day number (0001-01-01 is 0) and its inverse.\<close>

definition day_number :: "date \<Rightarrow> int" where
  "day_number d = year_start (dyear d) + month_start (leap_day (dyear d)) (dmonth d) + dday d - 1"

definition month_of :: "int \<Rightarrow> int \<Rightarrow> int" where
  "month_of l yd =
     (if yd < month_start l 2 then 1 else if yd < month_start l 3 then 2
      else if yd < month_start l 4 then 3 else if yd < month_start l 5 then 4
      else if yd < month_start l 6 then 5 else if yd < month_start l 7 then 6
      else if yd < month_start l 8 then 7 else if yd < month_start l 9 then 8
      else if yd < month_start l 10 then 9 else if yd < month_start l 11 then 10
      else if yd < month_start l 12 then 11 else 12)"

definition date_of :: "int \<Rightarrow> date" where
  "date_of n =
     (let a = n div 146097; r = n mod 146097;
          b = min 3 (r div 36524); r = r - 36524 * b;
          c = r div 1461; r = r - 1461 * c;
          e = min 3 (r div 365); yd = r - 365 * e;
          y = 400 * a + 100 * b + 4 * c + e + 1;
          m = month_of (leap_day y) yd
      in Date y m (yd - month_start (leap_day y) m + 1))"

text \<open>\<open>time.Date\<close> normalises months and days that are out of range.\<close>

definition norm_days :: "int \<Rightarrow> int \<Rightarrow> int \<Rightarrow> int" where
  "norm_days y m d = (let y' = y + (m - 1) div 12; m' = (m - 1) mod 12 + 1
     in year_start y' + month_start (leap_day y') m' + d - 1)"

section \<open>The day number determines the date\<close>

lemma leap_day_01: "leap_day y = 0 \<or> leap_day y = 1"
  by (simp add: leap_day_def)

lemma year_start_Suc: "year_start (y + 1) = year_start y + 365 + leap_day y"
proof -
  have s: "y div k = (y - 1) div k + (if y mod k = 0 then 1 else 0)" if "1 < k" for k :: int
  proof (cases "y mod k = 0")
    case True
    then obtain q where q: "y = k * q" by auto
    have "(k * q - 1) div k = q - 1"
      by (rule int_div_pos_eq [where r = "k - 1"]) (use that in \<open>auto simp: algebra_simps\<close>)
    with True q that show ?thesis by simp
  next
    case False
    have m: "0 \<le> y mod k" "y mod k < k" using that by auto
    have "(y - 1) div k = y div k"
    proof (rule int_div_pos_eq [where r = "y mod k - 1"])
      show "y - 1 = k * (y div k) + (y mod k - 1)" by simp
    qed (use False m in auto)
    with False show ?thesis by simp
  qed
  define A B C where "A = (y mod 4 = 0)" and "B = (y mod 100 = 0)" and "C = (y mod 400 = 0)"
  define q4 q100 q400 where "q4 = (y - 1) div 4" and "q100 = (y - 1) div 100"
    and "q400 = (y - 1) div 400"
  note ABC = A_def [symmetric] B_def [symmetric] C_def [symmetric]
    q4_def [symmetric] q100_def [symmetric] q400_def [symmetric]
  have "(100 :: int) dvd 400" "(4 :: int) dvd 100" by simp_all
  then have imp: "C \<Longrightarrow> B" "B \<Longrightarrow> A"
    unfolding A_def B_def C_def mod_eq_0_iff_dvd by (blast intro: dvd_trans)+
  have g: "1 < (4 :: int)" "1 < (100 :: int)" "1 < (400 :: int)" by simp_all
  note e = s [of 4, OF g(1), unfolded ABC] s [of 100, OF g(2), unfolded ABC]
    s [of 400, OF g(3), unfolded ABC]
  have "year_start (y + 1) = 365 * y + y div 4 - y div 100 + y div 400"
    by (simp only: year_start_def Let_def add_diff_cancel_right')
  moreover have "year_start y = 365 * (y - 1) + q4 - q100 + q400"
    by (simp only: year_start_def Let_def ABC)
  moreover have "leap_day y = (if A \<and> (\<not> B \<or> C) then 1 else 0)"
    by (simp only: leap_day_def is_leap_def ABC)
  ultimately show ?thesis using imp unfolding e by (cases A; cases B; cases C; simp)
qed

lemma year_start_mono: "y \<le> y' \<Longrightarrow> year_start y \<le> year_start y'"
proof (induction y' rule: int_ge_induct)
  case base
  then show ?case by simp
next
  case (step i)
  then show ?case using year_start_Suc [of i] leap_day_01 [of i] by linarith
qed

lemma month_start_Suc_le:
  "1 \<le> m \<Longrightarrow> m < m' \<Longrightarrow> m' \<le> 13 \<Longrightarrow> 0 \<le> l \<Longrightarrow> month_start l (m + 1) \<le> month_start l m'"
proof -
  assume a: "1 \<le> m" "m < m'" "m' \<le> 13" "0 \<le> l"
  then consider "m = 1" | "m = 2" | "m = 3" | "m = 4" | "m = 5" | "m = 6" | "m = 7" | "m = 8"
    | "m = 9" | "m = 10" | "m = 11" | "m = 12" by atomize_elim arith
  then show ?thesis by cases (use a in \<open>simp_all add: month_start_def\<close>)
qed

lemma month_start_13: "month_start l 13 = 365 + l"
  by (simp add: month_start_def)

lemma day_number_year_end:
  assumes "valid_date d" shows "day_number d < year_start (dyear d + 1)"
proof -
  have "month_start (leap_day (dyear d)) (dmonth d + 1) \<le> month_start (leap_day (dyear d)) 13"
    using assms leap_day_01 [of "dyear d"]
    by (cases "dmonth d = 12") (auto simp: valid_date_def intro!: month_start_Suc_le)
  then show ?thesis using assms
    by (simp add: day_number_def valid_date_def days_in_def year_start_Suc month_start_13)
qed

lemma month_start_nonneg: "0 \<le> l \<Longrightarrow> 0 \<le> month_start l m"
  by (simp add: month_start_def)

lemma day_number_mono:
  assumes "valid_date d" "valid_date e" "d < e"
  shows "day_number d < day_number e"
proof (cases "dyear d < dyear e")
  case True
  then have "year_start (dyear d + 1) \<le> year_start (dyear e)" by (intro year_start_mono) simp
  moreover have "0 \<le> month_start (leap_day (dyear e)) (dmonth e)"
    using leap_day_01 [of "dyear e"] by (intro month_start_nonneg) auto
  ultimately show ?thesis using day_number_year_end [OF assms(1)] assms(2)
    by (simp add: day_number_def valid_date_def)
next
  case False
  with assms(3) have y: "dyear d = dyear e" by (auto simp: less_date_def)
  show ?thesis
  proof (cases "dmonth d < dmonth e")
    case True
    then have "month_start (leap_day (dyear e)) (dmonth d + 1)
        \<le> month_start (leap_day (dyear e)) (dmonth e)"
      using assms(1,2) leap_day_01 [of "dyear e"]
      by (intro month_start_Suc_le) (auto simp: valid_date_def)
    with assms(1,2) y show ?thesis by (simp add: day_number_def valid_date_def days_in_def)
  next
    case False
    with assms(3) y show ?thesis by (auto simp: less_date_def day_number_def)
  qed
qed

lemma day_number_less_iff [key_simps]:
  "valid_date d \<Longrightarrow> valid_date e \<Longrightarrow> day_number d < day_number e \<longleftrightarrow> d < e"
  using day_number_mono by (metis less_irrefl less_trans neq_iff)

lemma day_number_inj:
  "valid_date d \<Longrightarrow> valid_date e \<Longrightarrow> day_number d = day_number e \<Longrightarrow> d = e"
  using day_number_mono by (metis less_irrefl neq_iff)

section \<open>Every day number is the number of its date\<close>

lemma month_of_range:
  assumes "0 \<le> yd" "yd < 365 + l" "0 \<le> l" "l \<le> 1"
  shows "1 \<le> month_of l yd \<and> month_of l yd \<le> 12 \<and>
    month_start l (month_of l yd) \<le> yd \<and> yd < month_start l (month_of l yd + 1)"
  using assms by (simp add: month_of_def month_start_def)

lemma min3_div:
  fixes r k :: int
  assumes "0 \<le> r" "0 < k"
  shows "0 \<le> min 3 (r div k)" "min 3 (r div k) \<le> 3" "0 \<le> r - k * min 3 (r div k)"
    "min 3 (r div k) < 3 \<longrightarrow> r - k * min 3 (r div k) < k"
proof -
  show "0 \<le> min 3 (r div k)" using assms by (simp add: pos_imp_zdiv_nonneg_iff)
  have m: "r - k * (r div k) = r mod k" by (simp add: minus_mult_div_eq_mod)
  show "0 \<le> r - k * min 3 (r div k)"
  proof (cases "r div k \<le> 3")
    case True
    then show ?thesis using m assms by (simp add: min_def)
  next
    case False
    then have "k * 3 \<le> k * (r div k)" using assms by (intro mult_left_mono) auto
    then have "k * 3 \<le> r" using m pos_mod_sign [of k r] assms by linarith
    with False show ?thesis by (simp add: min_def)
  qed
  show "min 3 (r div k) < 3 \<longrightarrow> r - k * min 3 (r div k) < k"
    using m assms by (simp add: min_def)
qed simp

lemma date_of_split:
  obtains y m yd where "date_of n = Date y m (yd - month_start (leap_day y) m + 1)"
    and "m = month_of (leap_day y) yd" and "0 \<le> yd" and "yd < 365 + leap_day y"
    and "n = year_start y + yd"
proof -
  define a r1 where "a = n div 146097" and "r1 = n mod 146097"
  define b where "b = min 3 (r1 div 36524)"
  define r2 where "r2 = r1 - 36524 * b"
  define c r3 where "c = r2 div 1461" and "r3 = r2 - 1461 * c"
  define e where "e = min 3 (r3 div 365)"
  define yd where "yd = r3 - 365 * e"
  define y where "y = 400 * a + 100 * b + 4 * c + e + 1"
  have n: "n = 146097 * a + r1" "0 \<le> r1" "r1 < 146097" by (simp_all add: a_def r1_def)
  have b: "0 \<le> b" "b \<le> 3" "0 \<le> r2" "r2 \<le> 36524" "b < 3 \<longrightarrow> r2 < 36524"
    using min3_div [of r1 36524] n(2,3) unfolding b_def [symmetric] r2_def [symmetric]
    by (auto simp: r2_def)
  have c: "0 \<le> c" "c \<le> 24" "0 \<le> r3" "r3 \<le> 1460" "c = 24 \<and> b < 3 \<longrightarrow> r3 < 1460"
  proof -
    have m: "r3 = r2 mod 1461" by (simp add: r3_def c_def minus_mult_div_eq_mod)
    show "0 \<le> r3" "r3 \<le> 1460" using m pos_mod_bound [of 1461 r2] by auto
    show "0 \<le> c" using b by (simp add: c_def pos_imp_zdiv_nonneg_iff)
    have "r2 = 1461 * c + r3" by (simp add: r3_def)
    with b \<open>0 \<le> r3\<close> show "c \<le> 24" "c = 24 \<and> b < 3 \<longrightarrow> r3 < 1460" by linarith+
  qed
  have e: "0 \<le> e" "e \<le> 3" "0 \<le> yd" "yd \<le> 365" "e < 3 \<longrightarrow> yd < 365" "yd = 365 \<longrightarrow> r3 = 1460"
    using min3_div [of r3 365] c(3,4) unfolding e_def [symmetric] yd_def [symmetric]
    by (auto simp: yd_def)
  have z: "y - 1 = 400 * a + 100 * b + 4 * c + e" by (simp add: y_def)
  have "(y - 1) div 4 = 100 * a + 25 * b + c"
    by (rule int_div_pos_eq [where r = e]) (use z e in auto)
  moreover have "(y - 1) div 100 = 4 * a + b"
    by (rule int_div_pos_eq [where r = "4 * c + e"]) (use z b c e in auto)
  moreover have "(y - 1) div 400 = a"
    by (rule int_div_pos_eq [where r = "100 * b + 4 * c + e"]) (use z b c e in auto)
  ultimately have "year_start y = 365 * (y - 1) + (100 * a + 25 * b + c) - (4 * a + b) + a"
    by (simp only: year_start_def Let_def)
  moreover have "r1 = 36524 * b + 1461 * c + 365 * e + yd" by (simp add: yd_def r3_def r2_def)
  ultimately have ys: "n = year_start y + yd"
    unfolding n(1) y_def by (simp add: algebra_simps)
  have "yd = 365 \<longrightarrow> is_leap y"
  proof
    assume "yd = 365"
    with e c have "e = 3" and cb: "c = 24 \<longrightarrow> b = 3" using b(2) by auto
    then have y4: "y = 4 * (100 * a + 25 * b + c + 1)" by (simp add: y_def)
    have "y mod 100 = 0 \<longrightarrow> y mod 400 = 0"
    proof
      assume "y mod 100 = 0"
      then have "100 dvd 4 * (25 * (4 * a + b) + (c + 1))" using y4
        by (simp add: mod_eq_0_iff_dvd algebra_simps)
      then have "25 dvd 25 * (4 * a + b) + (c + 1)" by presburger
      then have "25 dvd c + 1" by (simp add: dvd_add_right_iff)
      with c have "c = 24" by (auto dest: zdvd_imp_le)
      with cb y4 have "y = 400 * (a + 1)" by simp
      then show "y mod 400 = 0" by simp
    qed
    with y4 show "is_leap y" by (simp add: is_leap_def)
  qed
  then have lt: "yd < 365 + leap_day y" using e by (cases "yd = 365") (auto simp: leap_day_def)
  have "date_of n = Date y (month_of (leap_day y) yd)
      (yd - month_start (leap_day y) (month_of (leap_day y) yd) + 1)"
    unfolding date_of_def Let_def y_def yd_def e_def r3_def c_def r2_def b_def a_def r1_def ..
  from that [OF this refl e(3) lt ys] show thesis .
qed

lemma valid_date_of [simp]: "valid_date (date_of n)"
proof -
  obtain y m yd where d: "date_of n = Date y m (yd - month_start (leap_day y) m + 1)"
    and m: "m = month_of (leap_day y) yd" and r: "0 \<le> yd" "yd < 365 + leap_day y"
    by (rule date_of_split)
  from month_of_range [OF r] leap_day_01 [of y] show ?thesis
    by (auto simp: d m valid_date_def days_in_def)
qed

lemma day_number_date_of [simp]: "day_number (date_of n) = n"
proof -
  obtain y m yd where "date_of n = Date y m (yd - month_start (leap_day y) m + 1)"
    and "n = year_start y + yd" by (rule date_of_split)
  then show ?thesis by (simp add: day_number_def)
qed

lemma date_of_day_number [simp]: "valid_date d \<Longrightarrow> date_of (day_number d) = d"
  by (rule day_number_inj) auto

lemma date_of_less_iff [key_simps]: "date_of m < date_of n \<longleftrightarrow> m < n"
  using day_number_less_iff [of "date_of m" "date_of n"] by simp

lemma norm_days_valid [key_simps]:
  "1 \<le> m \<Longrightarrow> m \<le> 12 \<Longrightarrow> norm_days y m (d + n) = day_number (Date y m d) + n"
proof -
  assume m: "1 \<le> m" "m \<le> 12"
  have "(m - 1) div 12 = 0" "(m - 1) mod 12 = m - 1" using m by auto
  then show ?thesis by (simp add: norm_days_def day_number_def)
qed

section \<open>Formatting and parsing\<close>

fun dec_len :: "nat \<Rightarrow> nat" where
  "dec_len n = (if n < 10 then 1 else Suc (dec_len (n div 10)))"

declare dec_len.simps [simp del]

text \<open>Package time's \<open>appendInt\<close>: a sign, then at least \<open>w\<close> zero-padded digits.\<close>

definition append_int :: "int \<Rightarrow> nat \<Rightarrow> string" where
  "append_int x w = (let n = nat \<bar>x\<bar> in
     (if x < 0 then ''-'' else []) @ padded (max w (dec_len n)) n)"

definition fmt_year :: "int \<Rightarrow> string" where
  "fmt_year y = append_int y 4"

definition fmt_month :: "int \<Rightarrow> int \<Rightarrow> string" where
  "fmt_month y m = append_int y 4 @ ''-'' @ append_int m 2"

fun fmt_day :: "date \<Rightarrow> string" where
  "fmt_day (Date y m d) = append_int y 4 @ ''-'' @ append_int m 2 @ ''-'' @ append_int d 2"

definition parse_year :: "string \<Rightarrow> int option" where
  "parse_year s = (case take_digits 4 s of
     Some (y, r) \<Rightarrow> if r = [] then Some (int y) else None | None \<Rightarrow> None)"

definition parse_ym :: "string \<Rightarrow> (int \<times> int \<times> string) option" where
  "parse_ym s = (case take_digits 4 s of None \<Rightarrow> None | Some (y, r) \<Rightarrow>
     (case expect CHR ''-'' r of None \<Rightarrow> None | Some r \<Rightarrow>
       (case take_digits 2 r of None \<Rightarrow> None | Some (m, r) \<Rightarrow>
         if m = 0 \<or> 12 < m then None else Some (int y, int m, r))))"

definition parse_month :: "string \<Rightarrow> (int \<times> int) option" where
  "parse_month s = (case parse_ym s of
     Some (y, m, r) \<Rightarrow> if r = [] then Some (y, m) else None | None \<Rightarrow> None)"

definition parse_day :: "string \<Rightarrow> date option" where
  "parse_day s = (case parse_ym s of None \<Rightarrow> None | Some (y, m, r) \<Rightarrow>
     (case expect CHR ''-'' r of None \<Rightarrow> None | Some r \<Rightarrow>
       (case take_digits 2 r of None \<Rightarrow> None | Some (d, r) \<Rightarrow>
         if r = [] \<and> 1 \<le> d \<and> int d \<le> days_in y m then Some (Date y m (int d)) else None)))"

lemma dec_len_le: "n < 10 ^ w \<Longrightarrow> 0 < w \<Longrightarrow> dec_len n \<le> w"
proof (induction n arbitrary: w rule: dec_len.induct)
  case (1 n)
  show ?case
  proof (cases "n < 10")
    case True
    with 1 show ?thesis by (simp add: dec_len.simps [of n])
  next
    case False
    then obtain v where w: "w = Suc v" using "1.prems" by (cases w) auto
    have "n div 10 < 10 ^ v" using "1.prems" by (simp add: w)
    moreover have "0 < v" using False "1.prems"(1) by (cases v) (auto simp: w)
    ultimately show ?thesis using False "1.IH" by (simp add: dec_len.simps [of n] w)
  qed
qed

lemma append_int_padded [key_simps]:
  "0 \<le> x \<Longrightarrow> x < 10 ^ w \<Longrightarrow> 0 < w \<Longrightarrow> append_int x w = padded w (nat x)"
proof -
  assume x: "0 \<le> x" "x < 10 ^ w" "0 < w"
  then have "nat x < 10 ^ w" by (simp add: nat_less_iff)
  then have "dec_len (nat x) \<le> w" using x by (intro dec_len_le)
  with x show ?thesis by (simp add: append_int_def max_def)
qed

definition year_ok :: "int \<Rightarrow> bool" where
  "year_ok y \<longleftrightarrow> 0 \<le> y \<and> y \<le> 9999"

lemma append_year_padded [key_simps]: "year_ok y \<Longrightarrow> append_int y 4 = padded 4 (nat y)"
  by (rule append_int_padded) (auto simp: year_ok_def)

lemma append_two_padded [key_simps]: "0 \<le> x \<Longrightarrow> x \<le> 99 \<Longrightarrow> append_int x 2 = padded 2 (nat x)"
  by (rule append_int_padded) auto

lemma days_in_le: "1 \<le> m \<Longrightarrow> m \<le> 12 \<Longrightarrow> days_in y m \<le> 31"
proof -
  assume a: "1 \<le> m" "m \<le> 12"
  then consider "m = 1" | "m = 2" | "m = 3" | "m = 4" | "m = 5" | "m = 6" | "m = 7" | "m = 8"
    | "m = 9" | "m = 10" | "m = 11" | "m = 12" by atomize_elim arith
  then show ?thesis
    by cases (use leap_day_01 [of y] in \<open>auto simp: days_in_def month_start_def\<close>)
qed

lemma valid_first: "1 \<le> m \<Longrightarrow> m \<le> 12 \<Longrightarrow> valid_date (Date y m 1)"
proof -
  assume a: "1 \<le> m" "m \<le> 12"
  then consider "m = 1" | "m = 2" | "m = 3" | "m = 4" | "m = 5" | "m = 6" | "m = 7" | "m = 8"
    | "m = 9" | "m = 10" | "m = 11" | "m = 12" by atomize_elim arith
  then have "1 \<le> days_in y m"
    by cases (use leap_day_01 [of y] in \<open>auto simp: days_in_def month_start_def\<close>)
  with a show ?thesis by (simp add: valid_date_def)
qed

lemma fmt_day_padded:
  assumes "valid_date d" "year_ok (dyear d)"
  shows "fmt_day d = padded 4 (nat (dyear d)) @ ''-'' @ padded 2 (nat (dmonth d)) @ ''-'' @
    padded 2 (nat (dday d))"
proof (cases d)
  case (Date y m k)
  with assms days_in_le [of m y] have "1 \<le> m" "m \<le> 12" "1 \<le> k" "k \<le> 31"
    by (auto simp: valid_date_def)
  with assms show ?thesis by (simp add: Date key_simps)
qed

lemma fmt_month_padded:
  "year_ok y \<Longrightarrow> 1 \<le> m \<Longrightarrow> m \<le> 12 \<Longrightarrow> fmt_month y m = padded 4 (nat y) @ ''-'' @ padded 2 (nat m)"
  by (simp add: fmt_month_def key_simps)

lemma fmt_year_padded: "year_ok y \<Longrightarrow> fmt_year y = padded 4 (nat y)"
  by (simp add: fmt_year_def key_simps)

lemma valid_date_bounds:
  "valid_date d \<Longrightarrow> 1 \<le> dmonth d \<and> dmonth d \<le> 12 \<and> 1 \<le> dday d \<and> dday d \<le> 31"
  using days_in_le [of "dmonth d" "dyear d"] by (auto simp: valid_date_def)

lemma fmt_day_less_iff [key_simps]:
  assumes "valid_date d" "valid_date e" "year_ok (dyear d)" "year_ok (dyear e)"
  shows "fmt_day d < fmt_day e \<longleftrightarrow> d < e"
  using assms(3,4) valid_date_bounds [OF assms(1)] valid_date_bounds [OF assms(2)]
  by (simp add: fmt_day_padded assms append_less_append_iff padded_less_iff padded_eq_iff
      year_ok_def nat_less_iff eq_nat_nat_iff less_date_def conj_disj_distribL) auto

lemma fmt_month_less_iff [key_simps]:
  assumes "year_ok y" "year_ok y'" "1 \<le> m" "m \<le> 12" "1 \<le> m'" "m' \<le> 12"
  shows "fmt_month y m < fmt_month y' m' \<longleftrightarrow> y < y' \<or> y = y' \<and> m < m'"
  using assms
  by (simp add: fmt_month_padded append_less_append_iff padded_less_iff padded_eq_iff
      year_ok_def nat_less_iff eq_nat_nat_iff conj_disj_distribL) auto

lemma fmt_year_less_iff [key_simps]:
  "year_ok y \<Longrightarrow> year_ok y' \<Longrightarrow> fmt_year y < fmt_year y' \<longleftrightarrow> y < y'"
  by (simp add: fmt_year_padded padded_less_iff year_ok_def nat_less_iff) auto

lemma parse_ym_fmt:
  assumes "year_ok y" "1 \<le> m" "m \<le> 12"
  shows "parse_ym (padded 4 (nat y) @ CHR ''-'' # padded 2 (nat m) @ r) = Some (y, m, r)"
  using assms by (auto simp: parse_ym_def take_digits_padded expect_Cons year_ok_def)

lemma parse_year_fmt [key_simps]: "year_ok y \<Longrightarrow> parse_year (fmt_year y) = Some y"
  using take_digits_padded [of "nat y" 4 "[]"]
  by (simp add: parse_year_def fmt_year_padded year_ok_def nat_less_iff)

lemma parse_month_fmt [key_simps]:
  "year_ok y \<Longrightarrow> 1 \<le> m \<Longrightarrow> m \<le> 12 \<Longrightarrow> parse_month (fmt_month y m) = Some (y, m)"
  using parse_ym_fmt [of y m "[]"] by (simp add: parse_month_def fmt_month_padded)

lemma parse_day_fmt [key_simps]:
  assumes "valid_date d" "year_ok (dyear d)"
  shows "parse_day (fmt_day d) = Some d"
proof -
  note b = valid_date_bounds [OF assms(1)]
  have "take_digits 2 (padded 2 (nat (dday d))) = Some (nat (dday d), [])"
    using take_digits_padded [of "nat (dday d)" 2 "[]"] b by (simp add: nat_less_iff)
  with b assms show ?thesis
    by (simp add: parse_day_def fmt_day_padded parse_ym_fmt expect_Cons valid_date_def Suc_le_eq)
qed

lemma parse_year_Some: "parse_year s = Some y \<Longrightarrow> year_ok y \<and> s = fmt_year y"
  by (auto simp: parse_year_def fmt_year_padded year_ok_def dest!: take_digits_Some
      split: option.splits if_splits)

lemma parse_ym_Some:
  assumes "parse_ym s = Some (y, m, r)"
  shows "year_ok y \<and> 1 \<le> m \<and> m \<le> 12 \<and> s = padded 4 (nat y) @ ''-'' @ padded 2 (nat m) @ r"
  using assms
  by (auto simp: parse_ym_def year_ok_def expect_Some dest!: take_digits_Some
      split: option.splits if_splits)

lemma parse_month_Some:
  "parse_month s = Some (y, m) \<Longrightarrow> year_ok y \<and> 1 \<le> m \<and> m \<le> 12 \<and> s = fmt_month y m"
  by (auto simp: parse_month_def fmt_month_padded dest!: parse_ym_Some
      split: option.splits if_splits prod.splits)

lemma parse_day_Some:
  assumes "parse_day s = Some d"
  shows "valid_date d \<and> year_ok (dyear d) \<and> s = fmt_day d"
proof -
  obtain y m r r' k where ym: "parse_ym s = Some (y, m, r)" and r: "expect CHR ''-'' r = Some r'"
    and k: "take_digits 2 r' = Some (k, [])" "1 \<le> k" "int k \<le> days_in y m"
    and d: "d = Date y m (int k)"
    using assms by (auto simp: parse_day_def split: option.splits if_splits prod.splits)
  note y = parse_ym_Some [OF ym]
  have v: "valid_date d" "year_ok (dyear d)" using y k by (auto simp: d valid_date_def)
  have "r' = padded 2 k @ []" using take_digits_Some [OF k(1)] by blast
  with r have "s = fmt_day d" using y fmt_day_padded [OF v] by (simp add: expect_Some d)
  with v show ?thesis by blast
qed

section \<open>Instants and locations\<close>

type_synonym zone = "int \<Rightarrow> int"

definition utc :: zone where "utc = (\<lambda>_. 0)"

definition epoch_day :: int where "epoch_day = 719162"

lemma epoch_day_1970: "epoch_day = day_number (Date 1970 1 1)"
  by (simp add: epoch_day_def day_number_def year_start_def month_start_def)

definition local_time :: "zone \<Rightarrow> int \<Rightarrow> int" where
  "local_time z t = t + z t"

definition day_index :: "zone \<Rightarrow> int \<Rightarrow> int" where
  "day_index z t = local_time z t div ns_day + epoch_day"

definition civil :: "zone \<Rightarrow> int \<Rightarrow> date" where
  "civil z t = date_of (day_index z t)"

definition clock_ns :: "zone \<Rightarrow> int \<Rightarrow> int" where
  "clock_ns z t = local_time z t mod ns_day"

text \<open>
  \<open>time.Date\<close> looks the offset up at the wall-clock value read as UTC, and again at the
  instant that offset gives; in a gap or an overlap it settles on one of the two offsets.
\<close>

definition time_date :: "zone \<Rightarrow> int \<Rightarrow> int \<Rightarrow> int \<Rightarrow> int \<Rightarrow> int" where
  "time_date z y m d tod =
     (let u = (norm_days y m d - epoch_day) * ns_day + tod in u - z (u - z u))"

definition add_date :: "zone \<Rightarrow> int \<Rightarrow> int \<Rightarrow> int \<Rightarrow> int \<Rightarrow> int" where
  "add_date z t ny nm nd = (case civil z t of Date y m d \<Rightarrow>
     time_date z (y + ny) (m + nm) (d + nd) (clock_ns z t))"

definition midnight_utc :: "date \<Rightarrow> int" where
  "midnight_utc d = (day_number d - epoch_day) * ns_day"

lemma day_div_mod:
  "0 \<le> tod \<Longrightarrow> tod < ns_day \<Longrightarrow> (k * ns_day + tod) div ns_day = k"
  "0 \<le> tod \<Longrightarrow> tod < ns_day \<Longrightarrow> (k * ns_day + tod) mod ns_day = tod"
  by (rule int_div_pos_eq [where r = tod]; simp) (simp add: mod_add_left_eq [symmetric])

lemma civil_utc_midnight [simp]: "valid_date d \<Longrightarrow> civil utc (midnight_utc d) = d"
  by (simp add: civil_def day_index_def local_time_def utc_def midnight_utc_def)

lemma clock_utc_midnight [simp]: "clock_ns utc (midnight_utc d) = 0"
  by (simp add: clock_ns_def local_time_def utc_def midnight_utc_def)

lemma civil_time_date_utc:
  "0 \<le> tod \<Longrightarrow> tod < ns_day \<Longrightarrow> civil utc (time_date utc y m d tod) = date_of (norm_days y m d)"
  using day_div_mod(1) [of tod "norm_days y m d - epoch_day"]
  by (simp add: civil_def day_index_def local_time_def utc_def time_date_def Let_def
      del: left_diff_distrib_numeral)

lemma civil_add_days_utc [key_simps]:
  assumes "valid_date d"
  shows "civil utc (add_date utc (midnight_utc d) 0 0 n) = date_of (day_number d + n)"
  using assms norm_days_valid [of "dmonth d" "dyear d" "dday d" n]
  by (cases d) (simp add: add_date_def civil_time_date_utc valid_date_def)

end
