(* ===== verification/Period.thy ===== *)
theory Period
  imports Calendar
begin

text \<open>
  internal/period/period.go: the day, month and year keys of an instant, arithmetic on
  keys, the bounds of a period and the lists of periods between two keys. A key error is
  the Go \<open>KeyError\<close> with its level name and the rejected key. The generic loop of
  \<open>stepBetween\<close> takes the step function as an argument and may run forever for some
  argument, so it is a partial function; the interface \<open>period_step\<close> says which step
  functions make it return, and both steps of the program satisfy it.
\<close>

section \<open>Levels and periods\<close>

datatype level = Daily | Monthly | Yearly | Total

fun level_string :: "level \<Rightarrow> string" where
  "level_string Daily = ''daily''"
| "level_string Monthly = ''monthly''"
| "level_string Yearly = ''yearly''"
| "level_string Total = ''total''"

text \<open>The order of Go's \<open>iota\<close> constants.\<close>

instantiation level :: linorder
begin

fun level_rank :: "level \<Rightarrow> nat" where
  "level_rank Daily = 0" | "level_rank Monthly = 1" | "level_rank Yearly = 2"
| "level_rank Total = 3"

definition less_level_def: "(a :: level) < b \<longleftrightarrow> level_rank a < level_rank b"
definition less_eq_level_def: "(a :: level) \<le> b \<longleftrightarrow> level_rank a \<le> level_rank b"

instance
proof
  fix a b :: level
  show "a \<le> b \<Longrightarrow> b \<le> a \<Longrightarrow> a = b"
    by (cases a; cases b) (simp_all add: less_eq_level_def)
qed (auto simp: less_level_def less_eq_level_def)

end

record period =
  p_at :: int
  p_day :: string
  p_month :: string
  p_year :: string

definition period_of :: "zone \<Rightarrow> int \<Rightarrow> period" where
  "period_of z t = (case civil z t of Date y m d \<Rightarrow>
     \<lparr>p_at = t, p_day = fmt_day (Date y m d), p_month = fmt_month y m, p_year = fmt_year y\<rparr>)"

fun period_key :: "period \<Rightarrow> level \<Rightarrow> string" where
  "period_key p Daily = p_day p"
| "period_key p Monthly = p_month p"
| "period_key p Yearly = p_year p"
| "period_key p Total = []"

datatype key_error = KeyError (ke_level: string) (ke_key: string)

section \<open>Key arithmetic\<close>

definition add_days :: "string \<Rightarrow> int \<Rightarrow> key_error + string" where
  "add_days day n = (case parse_day day of
     None \<Rightarrow> Inl (KeyError ''day'' day)
   | Some d \<Rightarrow> Inr (fmt_day (civil utc (add_date utc (midnight_utc d) 0 0 n))))"

definition month_start_time :: "int \<times> int \<Rightarrow> int" where
  "month_start_time ym = midnight_utc (Date (fst ym) (snd ym) 1)"

definition month_key_at :: "int \<Rightarrow> string" where
  "month_key_at t = (case civil utc t of Date y m d \<Rightarrow> fmt_month y m)"

definition year_key_at :: "int \<Rightarrow> string" where
  "year_key_at t = (case civil utc t of Date y m d \<Rightarrow> fmt_year y)"

definition month_bounds :: "string \<Rightarrow> key_error + string \<times> string" where
  "month_bounds month = (case parse_month month of
     None \<Rightarrow> Inl (KeyError ''month'' month)
   | Some ym \<Rightarrow> let t = month_start_time ym in
       Inr (fmt_day (civil utc t), fmt_day (civil utc (add_date utc t 0 1 (-1)))))"

definition year_bounds :: "string \<Rightarrow> key_error + string \<times> string" where
  "year_bounds year = (case parse_year year of
     None \<Rightarrow> Inl (KeyError ''year'' year)
   | Some y \<Rightarrow> let t = midnight_utc (Date y 1 1) in
       Inr (fmt_day (civil utc t), fmt_day (civil utc (add_date utc t 1 0 (-1)))))"

definition add_months :: "string \<Rightarrow> int \<Rightarrow> key_error + string" where
  "add_months month n = (case parse_month month of
     None \<Rightarrow> Inl (KeyError ''month'' month)
   | Some ym \<Rightarrow> Inr (month_key_at (add_date utc (month_start_time ym) 0 n 0)))"

definition add_years :: "string \<Rightarrow> int \<Rightarrow> key_error + string" where
  "add_years year n = (case parse_year year of
     None \<Rightarrow> Inl (KeyError ''year'' year)
   | Some y \<Rightarrow> Inr (year_key_at (add_date utc (midnight_utc (Date y 1 1)) n 0 0)))"

text \<open>
  \<open>stepBetween\<close>: the loop runs while the step succeeds and the key is not past
  \<open>through\<close>; an error of the step ends it and is returned. \<open>None\<close> is a loop that does
  not end.
\<close>

partial_function (option) step_loop ::
  "(string \<Rightarrow> int \<Rightarrow> key_error + string) \<Rightarrow> string \<Rightarrow> key_error + string \<Rightarrow> string list
    \<Rightarrow> (key_error + string list) option" where
  "step_loop step through cur out =
     (case cur of Inl e \<Rightarrow> Some (Inl e)
      | Inr c \<Rightarrow> if c \<le> through then step_loop step through (step c 1) (out @ [c])
                 else Some (Inr out))"

definition step_between ::
  "string \<Rightarrow> string \<Rightarrow> (string \<Rightarrow> int \<Rightarrow> key_error + string)
    \<Rightarrow> (key_error + string list) option" where
  "step_between after through step =
     (if after = [] then Some (Inr [through]) else step_loop step through (step after 1) [])"

text \<open>Both callers always return (see \<open>months_between_returns\<close>, \<open>years_between_returns\<close>).\<close>

definition months_between :: "string \<Rightarrow> string \<Rightarrow> key_error + string list" where
  "months_between after through = the (step_between after through add_months)"

definition years_between :: "string \<Rightarrow> string \<Rightarrow> key_error + string list" where
  "years_between after through = the (step_between after through add_years)"

section \<open>Keys as numbers\<close>

text \<open>Every day, month and year of the years 0 to 9999 has a key; a key is its number.\<close>

definition day_key :: "int \<Rightarrow> string" where
  "day_key n = fmt_day (date_of n)"

definition month_key :: "int \<Rightarrow> string" where
  "month_key i = fmt_month (i div 12) (i mod 12 + 1)"

definition day_ok :: "int \<Rightarrow> bool" where
  "day_ok n \<longleftrightarrow> year_ok (dyear (date_of n))"

lemma day_key_less_iff [key_simps]:
  "day_ok m \<Longrightarrow> day_ok n \<Longrightarrow> day_key m < day_key n \<longleftrightarrow> m < n"
  by (simp add: day_key_def day_ok_def key_simps)

lemma day_key_le_iff [key_simps]:
  "day_ok m \<Longrightarrow> day_ok n \<Longrightarrow> day_key m \<le> day_key n \<longleftrightarrow> m \<le> n"
  using day_key_less_iff [of n m] by (simp flip: not_less)

lemma day_key_inj [key_simps]:
  "day_ok m \<Longrightarrow> day_ok n \<Longrightarrow> day_key m = day_key n \<longleftrightarrow> m = n"
  using day_key_less_iff [of m n] day_key_less_iff [of n m] by (metis less_irrefl neq_iff)

lemma day_okI: "-366 \<le> n \<Longrightarrow> n < 3652059 \<Longrightarrow> day_ok n"
proof -
  assume n: "-366 \<le> n" "n < 3652059"
  define d where "d = date_of n"
  have v: "valid_date d" "day_number d = n" by (simp_all add: d_def)
  have y: "year_start 0 = -366" "year_start 10000 = 3652059"
    by (simp_all add: year_start_def Let_def)
  have "0 \<le> dyear d"
  proof (rule ccontr)
    assume "\<not> 0 \<le> dyear d"
    then have "year_start (dyear d + 1) \<le> year_start 0" by (intro year_start_mono) simp
    with day_number_year_end [OF v(1)] v(2) n y show False by simp
  qed
  moreover have "dyear d \<le> 9999"
  proof (rule ccontr)
    assume "\<not> dyear d \<le> 9999"
    then have "year_start 10000 \<le> year_start (dyear d)" by (intro year_start_mono) simp
    moreover have "0 \<le> month_start (leap_day (dyear d)) (dmonth d)"
      using leap_day_01 [of "dyear d"] by (intro month_start_nonneg) auto
    ultimately show False using v n y by (simp add: day_number_def valid_date_def)
  qed
  ultimately show ?thesis by (simp add: day_ok_def year_ok_def d_def)
qed

lemma add_days_key [key_simps]: "day_ok m \<Longrightarrow> add_days (day_key m) n = Inr (day_key (m + n))"
  by (simp add: add_days_def day_key_def day_ok_def key_simps)

lemma add_days_dom:
  assumes "add_days s n = Inr k"
  obtains m where "day_ok m" "s = day_key m" "k = day_key (m + n)"
proof -
  obtain d where d: "parse_day s = Some d"
    using assms by (auto simp: add_days_def split: option.splits)
  note p = parse_day_Some [OF d]
  then have "day_ok (day_number d)" "s = day_key (day_number d)"
    by (auto simp: day_ok_def day_key_def)
  moreover from this assms have "k = day_key (day_number d + n)" by (simp add: key_simps)
  ultimately show thesis using that by blast
qed

lemma month_index:
  fixes y m :: int assumes "1 \<le> m" "m \<le> 12"
  shows "(12 * y + m - 1) div 12 = y" "(12 * y + m - 1) mod 12 = m - 1"
  by (rule int_div_pos_eq [where r = "m - 1"]; use assms in simp)
    (use assms mod_mult_self4 [of 12 y "m - 1"] in \<open>simp add: algebra_simps\<close>)

lemma month_key_less_iff [key_simps]:
  assumes "0 \<le> i" "i < 120000" "0 \<le> j" "j < 120000"
  shows "month_key i < month_key j \<longleftrightarrow> i < j"
proof -
  have y: "year_ok (i div 12)" "year_ok (j div 12)" using assms by (auto simp: year_ok_def)
  have m: "1 \<le> i mod 12 + 1" "i mod 12 + 1 \<le> 12" "1 \<le> j mod 12 + 1" "j mod 12 + 1 \<le> 12"
    using pos_mod_bound [of 12 i] pos_mod_bound [of 12 j] by simp_all
  have "month_key i < month_key j \<longleftrightarrow> i div 12 < j div 12 \<or> i div 12 = j div 12 \<and> i mod 12 < j mod 12"
    unfolding month_key_def fmt_month_less_iff [OF y m] by (simp only: add_less_cancel_right)
  also have "\<dots> \<longleftrightarrow> i < j"
  proof -
    define a b c d where v: "a = i div 12" "b = i mod 12" "c = j div 12" "d = j mod 12"
    have "i = 12 * a + b" "j = 12 * c + d" "0 \<le> b" "b < 12" "0 \<le> d" "d < 12" by (simp_all add: v)
    then have "(a < c \<or> a = c \<and> b < d) = (i < j)" by linarith
    then show ?thesis by (simp only: v)
  qed
  finally show ?thesis .
qed

lemma month_key_at_midnight:
  "1 \<le> m \<Longrightarrow> m \<le> 12 \<Longrightarrow>
    month_key_at (add_date utc (month_start_time (y, m)) 0 n 0) = month_key (12 * y + m - 1 + n)"
proof -
  assume m: "1 \<le> m" "m \<le> 12"
  define i where "i = 12 * y + m - 1 + n"
  have i: "i = m + n - 1 + y * 12" by (simp add: i_def)
  have d: "(m + n - 1) div 12 + y = i div 12" "(m + n - 1) mod 12 = i mod 12"
    unfolding i by simp_all
  have "norm_days y (m + n) 1 = day_number (Date (i div 12) (i mod 12 + 1) 1)"
    using d by (simp add: norm_days_def day_number_def Let_def add.commute [of y])
  then have "civil utc (add_date utc (month_start_time (y, m)) 0 n 0)
      = Date (i div 12) (i mod 12 + 1) 1"
    using valid_first [OF m] valid_first [of "i mod 12 + 1" "i div 12"]
    by (simp add: month_start_time_def add_date_def civil_time_date_utc)
  then show ?thesis by (simp add: month_key_at_def month_key_def i_def)
qed

lemma add_months_key [key_simps]:
  "0 \<le> i \<Longrightarrow> i < 120000 \<Longrightarrow> add_months (month_key i) n = Inr (month_key (i + n))"
proof -
  assume i: "0 \<le> i" "i < 120000"
  have m: "1 \<le> i mod 12 + 1" "i mod 12 + 1 \<le> 12" using pos_mod_bound [of 12 i] by simp_all
  have "year_ok (i div 12)" using i by (auto simp: year_ok_def)
  with m have "parse_month (month_key i) = Some (i div 12, i mod 12 + 1)"
    by (simp add: month_key_def parse_month_fmt)
  with month_key_at_midnight [OF m, of "i div 12" n] show ?thesis
    by (simp add: add_months_def)
qed

lemma add_months_dom:
  assumes "add_months s n = Inr k"
  obtains i where "0 \<le> i" "i < 120000" "s = month_key i"
proof -
  obtain y m where p: "parse_month s = Some (y, m)"
    using assms by (auto simp: add_months_def split: option.splits)
  from parse_month_Some [OF p] have r: "year_ok y" "1 \<le> m" "m \<le> 12" "s = fmt_month y m" by auto
  with month_index [of m y] have "s = month_key (12 * y + m - 1)" by (simp add: month_key_def)
  moreover have "0 \<le> 12 * y + m - 1" "12 * y + m - 1 < 120000" using r by (auto simp: year_ok_def)
  ultimately show thesis using that by blast
qed

lemma add_years_key [key_simps]:
  "year_ok y \<Longrightarrow> add_years (fmt_year y) n = Inr (fmt_year (y + n))"
proof -
  assume y: "year_ok y"
  have "civil utc (add_date utc (midnight_utc (Date y 1 1)) n 0 0) = Date (y + n) 1 1"
    using valid_first [of 1 y] valid_first [of 1 "y + n"] norm_days_valid [of 1 "y + n" 1 0]
    by (simp add: add_date_def civil_time_date_utc)
  with y show ?thesis by (simp add: add_years_def year_key_at_def key_simps)
qed

lemma add_years_dom:
  assumes "add_years s n = Inr k"
  obtains y where "year_ok y" "s = fmt_year y"
  using assms by (auto simp: add_years_def split: option.splits dest!: parse_year_Some)

text \<open>The first key past the year 9999 has five digits and does not parse.\<close>

lemma length_padded_year: "year_ok y \<Longrightarrow> length (fmt_year y) = 4"
  by (simp add: fmt_year_padded)

lemma length_append_10000: "length (append_int 10000 4) = 5"
  by (simp add: append_int_def dec_len.simps)

lemma parse_year_10000: "parse_year (fmt_year 10000) = None"
proof (rule ccontr)
  assume "parse_year (fmt_year 10000) \<noteq> None"
  then obtain y where "parse_year (fmt_year 10000) = Some y" by blast
  from parse_year_Some [OF this] have "length (fmt_year 10000) = 4"
    using length_padded_year by metis
  then show False by (simp add: fmt_year_def length_append_10000)
qed

lemma parse_month_120000: "parse_month (month_key 120000) = None"
proof (rule ccontr)
  assume "parse_month (month_key 120000) \<noteq> None"
  then obtain y m where "parse_month (month_key 120000) = Some (y, m)" by auto
  from parse_month_Some [OF this] have "length (month_key 120000) = 7"
    by (auto simp: fmt_month_padded)
  moreover have "append_int 1 2 = padded 2 1" by (simp add: append_int_padded)
  ultimately show False by (simp add: month_key_def fmt_month_def length_append_10000)
qed

section \<open>The loop between two keys\<close>

text \<open>
  What \<open>stepBetween\<close> needs of its step function: keys \<open>key lo .. key hi\<close> in ascending
  order below \<open>hi\<close>, the step moves to the next key, it accepts only keys below \<open>hi\<close>, and
  it rejects \<open>key hi\<close>.
\<close>

locale period_step =
  fixes step :: "string \<Rightarrow> int \<Rightarrow> key_error + string"
    and key :: "int \<Rightarrow> string" and lo hi :: int
  assumes step_key: "lo \<le> i \<Longrightarrow> i < hi \<Longrightarrow> step (key i) 1 = Inr (key (i + 1))"
    and step_end: "\<exists>e. step (key hi) 1 = Inl e"
    and step_dom: "step s 1 = Inr k \<Longrightarrow> \<exists>i. lo \<le> i \<and> i < hi \<and> s = key i"
    and key_less: "lo \<le> i \<Longrightarrow> i < hi \<Longrightarrow> lo \<le> j \<Longrightarrow> j < hi \<Longrightarrow> key i < key j \<longleftrightarrow> i < j"
    and key_nonempty: "lo \<le> i \<Longrightarrow> i < hi \<Longrightarrow> key i \<noteq> []"
begin

lemma loop_returns: "lo \<le> i \<Longrightarrow> i \<le> hi \<Longrightarrow> \<exists>r. step_loop step through (Inr (key i)) out = Some r"
proof (induction "nat (hi - i)" arbitrary: i out)
  case 0
  then have "i = hi" by simp
  with step_end show ?case by (auto simp: step_loop.simps)
next
  case (Suc n)
  then have "i < hi" by simp
  then show ?case
    using Suc.hyps(1) [of "i + 1" "out @ [key i]"] Suc.hyps(2) Suc.prems
    by (subst step_loop.simps) (simp add: step_key)
qed

lemma between_returns: "\<exists>r. step_between after through step = Some r"
proof (cases "step after 1")
  case (Inl e)
  then show ?thesis by (simp add: step_between_def step_loop.simps)
next
  case (Inr k)
  then obtain i where i: "lo \<le> i" "i < hi" "after = key i" using step_dom by blast
  then show ?thesis using loop_returns [of "i + 1"] by (simp add: step_between_def step_key)
qed

lemma loop_upto:
  "lo \<le> i \<Longrightarrow> lo \<le> j \<Longrightarrow> i \<le> j + 1 \<Longrightarrow> j + 1 < hi \<Longrightarrow>
    step_loop step (key j) (Inr (key i)) out = Some (Inr (out @ map key [i..j]))"
proof (induction "nat (j + 1 - i)" arbitrary: i out)
  case 0
  then have i: "i = j + 1" by simp
  with 0 have "\<not> key i \<le> key j" using key_less [of j i] by (simp flip: not_less)
  with i show ?case by (simp add: step_loop.simps)
next
  case (Suc n)
  then have "i \<le> j" by simp
  with Suc.prems have "key i \<le> key j" using key_less [of j i] by (simp flip: not_less)
  with Suc \<open>i \<le> j\<close> Suc.hyps(1) [of "i + 1" "out @ [key i]"] show ?case
    by (subst step_loop.simps) (simp add: step_key upto_rec1)
qed

lemma between_keys:
  assumes "lo \<le> i" "i \<le> j" "j + 1 < hi"
  shows "step_between (key i) (key j) step = Some (Inr (map key [i + 1..j]))"
  using assms loop_upto [of "i + 1" j "[]"] by (simp add: step_between_def key_nonempty step_key)

end

lemma fmt_year_nonempty: "year_ok y \<Longrightarrow> fmt_year y \<noteq> []"
  using length_padded_year by fastforce

lemma month_key_nonempty: "month_key i \<noteq> []"
  by (simp add: month_key_def fmt_month_def)

interpretation months: period_step add_months month_key 0 120000
proof
  show "\<exists>e. add_months (month_key 120000) 1 = Inl e"
    by (simp add: add_months_def parse_month_120000)
qed (auto simp: key_simps month_key_nonempty elim: add_months_dom)

interpretation years: period_step add_years fmt_year 0 10000
proof
  show "\<exists>e. add_years (fmt_year 10000) 1 = Inl e"
    by (simp add: add_years_def parse_year_10000)
  show "\<exists>i. 0 \<le> i \<and> i < 10000 \<and> s = fmt_year i" if "add_years s 1 = Inr k" for s k
    using that by (elim add_years_dom) (auto simp: year_ok_def)
qed (auto simp: key_simps year_ok_def fmt_year_nonempty)

section \<open>Bounds of a period\<close>

definition month_first :: "int \<Rightarrow> int" where
  "month_first i = day_number (Date (i div 12) (i mod 12 + 1) 1)"

definition month_index_of :: "int \<Rightarrow> int" where
  "month_index_of n = (case date_of n of Date y m d \<Rightarrow> 12 * y + m - 1)"

lemma norm_days_month: "norm_days y m d = month_first (12 * y + m - 1) + d - 1"
proof -
  have i: "12 * y + m - 1 = m - 1 + y * 12" by simp
  show ?thesis unfolding i month_first_def norm_days_def
    by (simp add: day_number_def Let_def add.commute)
qed

lemma month_bounds_key [key_simps]:
  assumes "0 \<le> i" "i < 120000"
  shows "month_bounds (month_key i) = Inr (day_key (month_first i), day_key (month_first (i + 1) - 1))"
proof -
  define y m where "y = i div 12" and "m = i mod 12 + 1"
  have m: "1 \<le> m" "m \<le> 12" using pos_mod_bound [of 12 i] by (simp_all add: m_def)
  have i: "12 * y + m - 1 = i" by (simp add: y_def m_def)
  have y: "year_ok y" using assms by (auto simp: year_ok_def y_def)
  have p: "parse_month (month_key i) = Some (y, m)"
    unfolding month_key_def y_def [symmetric] m_def [symmetric]
    by (rule parse_month_fmt [OF y m])
  have f: "civil utc (midnight_utc (Date y m 1)) = date_of (month_first i)"
    using valid_first [OF m] by (simp add: month_first_def y_def m_def)
  have "civil utc (add_date utc (midnight_utc (Date y m 1)) 0 1 (-1))
      = date_of (month_first (i + 1) - 1)"
    using valid_first [OF m] i [symmetric]
    by (simp add: add_date_def civil_time_date_utc norm_days_month)
  with p f show ?thesis
    by (simp add: month_bounds_def month_start_time_def day_key_def Let_def)
qed

lemma year_bounds_key [key_simps]:
  assumes "year_ok y"
  shows "year_bounds (fmt_year y) = Inr (day_key (year_start y), day_key (year_start (y + 1) - 1))"
proof -
  have f: "day_number (Date y 1 1) = year_start y" for y
    by (simp add: day_number_def month_start_def)
  have "civil utc (midnight_utc (Date y 1 1)) = date_of (year_start y)"
    using valid_first [of 1 y] f [of y] by (metis civil_utc_midnight date_of_day_number order_refl one_le_numeral)
  moreover have "civil utc (add_date utc (midnight_utc (Date y 1 1)) 1 0 (-1))
      = date_of (year_start (y + 1) - 1)"
    using valid_first [of 1 y] norm_days_valid [of 1 "y + 1" 1 "-1"]
    by (simp add: add_date_def civil_time_date_utc f)
  ultimately show ?thesis using assms
    by (simp add: year_bounds_def key_simps day_key_def Let_def)
qed

lemma period_of_keys:
  "period_of z t = \<lparr>p_at = t, p_day = day_key (day_index z t),
     p_month = month_key (month_index_of (day_index z t)),
     p_year = fmt_year (dyear (civil z t))\<rparr>"
proof (cases "date_of (day_index z t)")
  case (Date y m d)
  have "1 \<le> m" "m \<le> 12" using valid_date_of [of "day_index z t"] Date by (auto simp: valid_date_def)
  with Date month_index [of m y] show ?thesis
    by (simp add: period_of_def civil_def day_key_def month_key_def month_index_of_def)
qed

section \<open>Properties of package period\<close>

text \<open>A string parses as a day key exactly when it is the formatted key of a valid date of
  the years 0 to 9999: parsing and formatting are inverse to each other.\<close>

theorem parse_day_iff:
  "parse_day s = Some d \<longleftrightarrow> valid_date d \<and> year_ok (dyear d) \<and> s = fmt_day d"
  using parse_day_Some parse_day_fmt by blast

text \<open>MonthsBetween and YearsBetween return for every pair of strings: the loop of
  stepBetween ends because the key grows until it no longer parses.\<close>

theorem months_years_between_return:
  "(\<exists>r. step_between after through add_months = Some r) \<and>
   (\<exists>r. step_between after through add_years = Some r)"
  using months.between_returns years.between_returns by blast

text \<open>MonthsBetween lists exactly the months after the first key up to and including the
  last one, oldest first, for every pair of months whose successor still has a key.\<close>

theorem months_between_keys:
  assumes "0 \<le> i" "i \<le> j" "j + 1 < 120000"
  shows "months_between (month_key i) (month_key j) = Inr (map month_key [i + 1..j])"
  using months.between_keys [OF assms] by (simp add: months_between_def)

theorem months_between_keys_witness:
  "months_between (month_key 24300) (month_key 24303) = Inr (map month_key [24301..24303])"
  using months_between_keys [of 24300 24303] by simp

lemma years_between_keys:
  "0 \<le> y \<Longrightarrow> y \<le> y' \<Longrightarrow> y' + 1 < 10000 \<Longrightarrow>
    years_between (fmt_year y) (fmt_year y') = Inr (map fmt_year [y + 1..y'])"
  using years.between_keys [of y y'] by (simp add: years_between_def)

lemma months_between_empty [simp]: "months_between [] m = Inr [m]"
  and years_between_empty [simp]: "years_between [] y = Inr [y]"
  by (simp_all add: months_between_def years_between_def step_between_def)

end
