(* ===== verification/Float64.thy ===== *)
theory Float64
  imports Complex_Main Prelude "HOL-Library.Log_Nat"
begin

text \<open>
  Go's \<open>float64\<close> (IEEE 754 binary64) over the rationals: a value is NaN, an infinity, a
  finite rational or the negative zero. Every arithmetic operation computes the exact
  rational result and rounds it to nearest, ties to even, with the 53-bit significand, the
  minimum exponent -1074 of subnormals and overflow to infinity. Only what the source uses
  is modelled: the four operations, comparisons, conversions from integers and float32
  bits, \<open>math.Round\<close>, \<open>math.Abs\<close> and the NaN/Inf tests.
\<close>

section \<open>Values\<close>

datatype float64 = NaN | Inf bool | Fin rat | NegZero

fun fval :: "float64 \<Rightarrow> rat" where
  "fval (Fin r) = r"
| "fval _ = 0"

fun is_finite :: "float64 \<Rightarrow> bool" where
  "is_finite (Fin r) = True"
| "is_finite NegZero = True"
| "is_finite _ = False"

fun fneg_sign :: "float64 \<Rightarrow> bool" where
  "fneg_sign NaN = False"
| "fneg_sign (Inf s) = s"
| "fneg_sign (Fin r) = (r < 0)"
| "fneg_sign NegZero = True"

section \<open>Rounding to nearest even\<close>

definition pow2 :: "int \<Rightarrow> rat" where
  "pow2 k = (if 0 \<le> k then 2 ^ nat k else 1 / 2 ^ nat (- k))"

text \<open>The binary exponent of a positive rational: \<open>2 ^ e \<le> r < 2 ^ (e + 1)\<close>.\<close>

definition ilog2 :: "rat \<Rightarrow> int" where
  "ilog2 r = (case quotient_of r of (p, q) \<Rightarrow>
     let e = bitlen p - bitlen q in if r < pow2 e then e - 1 else e)"

definition round_even :: "rat \<Rightarrow> int" where
  "round_even x = (let f = \<lfloor>x\<rfloor>; d = x - of_int f in
     if d < 1 / 2 then f else if d > 1 / 2 then f + 1 else if even f then f else f + 1)"

definition ulp_exp :: "rat \<Rightarrow> int" where
  "ulp_exp a = max (ilog2 a - 52) (-1074)"

definition rnd :: "rat \<Rightarrow> float64" where
  "rnd r = (if r = 0 then Fin 0 else
     let a = \<bar>r\<bar>; t = ulp_exp a; v = of_int (round_even (a / pow2 t)) * pow2 t in
     if pow2 1024 \<le> v then Inf (r < 0)
     else if v = 0 then (if r < 0 then NegZero else Fin 0)
     else Fin (if r < 0 then - v else v))"

section \<open>Operations\<close>

fun fneg :: "float64 \<Rightarrow> float64" where
  "fneg NaN = NaN"
| "fneg (Inf s) = Inf (\<not> s)"
| "fneg NegZero = Fin 0"
| "fneg (Fin r) = (if r = 0 then NegZero else Fin (- r))"

fun fadd :: "float64 \<Rightarrow> float64 \<Rightarrow> float64" where
  "fadd NaN y = NaN"
| "fadd x NaN = NaN"
| "fadd (Inf s) (Inf t) = (if s = t then Inf s else NaN)"
| "fadd (Inf s) y = Inf s"
| "fadd x (Inf t) = Inf t"
| "fadd NegZero NegZero = NegZero"
| "fadd x y = rnd (fval x + fval y)"

definition fsub :: "float64 \<Rightarrow> float64 \<Rightarrow> float64" where
  "fsub x y = fadd x (fneg y)"

definition signed_zero :: "bool \<Rightarrow> float64" where
  "signed_zero s = (if s then NegZero else Fin 0)"

definition fmul :: "float64 \<Rightarrow> float64 \<Rightarrow> float64" where
  "fmul x y = (let s = (fneg_sign x \<noteq> fneg_sign y) in
     if x = NaN \<or> y = NaN then NaN
     else if is_finite x \<and> is_finite y then
       (if fval x = 0 \<or> fval y = 0 then signed_zero s else rnd (fval x * fval y))
     else if (is_finite x \<and> fval x = 0) \<or> (is_finite y \<and> fval y = 0) then NaN
     else Inf s)"

definition fdiv :: "float64 \<Rightarrow> float64 \<Rightarrow> float64" where
  "fdiv x y = (let s = (fneg_sign x \<noteq> fneg_sign y) in
     if x = NaN \<or> y = NaN then NaN
     else if is_finite x then
       (if \<not> is_finite y then signed_zero s
        else if fval y = 0 then (if fval x = 0 then NaN else Inf s)
        else if fval x = 0 then signed_zero s
        else rnd (fval x / fval y))
     else if is_finite y then Inf s else NaN)"

text \<open>Comparisons: false whenever an operand is NaN; both zeros are equal.\<close>

fun fless :: "float64 \<Rightarrow> float64 \<Rightarrow> bool" where
  "fless NaN y = False"
| "fless x NaN = False"
| "fless (Inf s) (Inf t) = (s \<and> \<not> t)"
| "fless (Inf s) y = s"
| "fless x (Inf t) = (\<not> t)"
| "fless x y = (fval x < fval y)"

fun fle :: "float64 \<Rightarrow> float64 \<Rightarrow> bool" where
  "fle NaN y = False"
| "fle x NaN = False"
| "fle (Inf s) (Inf t) = (s \<or> \<not> t)"
| "fle (Inf s) y = s"
| "fle x (Inf t) = (\<not> t)"
| "fle x y = (fval x \<le> fval y)"

definition feq :: "float64 \<Rightarrow> float64 \<Rightarrow> bool" where
  "feq x y = (fle x y \<and> fle y x)"

text \<open>Conversions: \<open>float64(n)\<close> of an integer, and the exact value of float32 bits.\<close>

definition f_of_int :: "int \<Rightarrow> float64" where
  "f_of_int n = rnd (of_int n)"

definition f_of_float32_bits :: "nat \<Rightarrow> float64" where
  "f_of_float32_bits w = (let s = 2 ^ 31 \<le> w; e = w div 2 ^ 23 mod 256; m = w mod 2 ^ 23;
      sg = (\<lambda>v. Fin (if s then - v else v)) in
     if e = 255 then (if m = 0 then Inf s else NaN)
     else if e = 0 then (if m = 0 then signed_zero s else sg (of_nat m * pow2 (-149)))
     else sg (of_nat (2 ^ 23 + m) * pow2 (int e - 150)))"

text \<open>\<open>math.Round\<close>: half away from zero, keeping the sign of a zero result.\<close>

fun fround :: "float64 \<Rightarrow> float64" where
  "fround (Fin r) = (let n = \<lfloor>\<bar>r\<bar> + 1 / 2\<rfloor> in
     if n = 0 then signed_zero (r < 0) else Fin (if r < 0 then - of_int n else of_int n))"
| "fround x = x"

fun fabs :: "float64 \<Rightarrow> float64" where
  "fabs NaN = NaN"
| "fabs (Inf s) = Inf False"
| "fabs NegZero = Fin 0"
| "fabs (Fin r) = Fin \<bar>r\<bar>"

section \<open>Order\<close>

lemma fless_finite [simp]:
  "is_finite x \<Longrightarrow> is_finite y \<Longrightarrow> fless x y \<longleftrightarrow> fval x < fval y"
  by (cases x; cases y) auto

lemma fle_finite [simp]:
  "is_finite x \<Longrightarrow> is_finite y \<Longrightarrow> fle x y \<longleftrightarrow> fval x \<le> fval y"
  by (cases x; cases y) auto

lemma not_fle_iff: "x \<noteq> NaN \<Longrightarrow> y \<noteq> NaN \<Longrightarrow> \<not> fle x y \<longleftrightarrow> fless y x"
  by (cases x; cases y) auto

lemma fle_refl: "fle x x \<longleftrightarrow> x \<noteq> NaN"
  by (cases x) auto

lemma fle_trans: "fle x y \<Longrightarrow> fle y z \<Longrightarrow> fle x z"
  by (cases x; cases y; cases z) auto

lemma fless_imp_fle: "fless x y \<Longrightarrow> fle x y"
  by (cases x; cases y) auto

lemma fless_irrefl [simp]: "\<not> fless x x"
  by (cases x) auto

lemma fless_not_fle: "fless x y \<Longrightarrow> \<not> fle y x"
  by (cases x; cases y) auto

lemma fle_fless_trans: "fle x y \<Longrightarrow> fless y z \<Longrightarrow> fless x z"
  by (cases x; cases y; cases z) auto

lemma fless_trans: "fless x y \<Longrightarrow> fless y z \<Longrightarrow> fless x z"
  by (cases x; cases y; cases z) auto

lemma fle_NaN [simp]: "\<not> fle NaN x" "\<not> fle x NaN" "\<not> fless NaN x" "\<not> fless x NaN"
  by (cases x; simp)+

section \<open>Rounding is exact on small integers\<close>

lemma pow2_pos [simp]: "0 < pow2 k"
  by (simp add: pow2_def)

lemma pow2_nat: "pow2 (int n) = 2 ^ n"
  by (simp add: pow2_def)

lemma pow2_add: "pow2 (a + b) = pow2 a * pow2 b"
proof -
  have *: "pow2 k = power_int 2 k" for k
    by (simp add: pow2_def power_int_def inverse_eq_divide power_one_over)
  show ?thesis by (simp add: * power_int_add)
qed

lemma round_even_of_int [simp]: "round_even (of_int n) = n"
  by (simp add: round_even_def)

lemma rnd_0 [simp]: "rnd 0 = Fin 0"
  by (simp add: rnd_def)

lemma rnd_sign: "0 \<le> r \<Longrightarrow> rnd r \<noteq> NaN \<and> \<not> fneg_sign (rnd r)"
proof -
  assume r: "0 \<le> r"
  have "0 \<le> round_even (r / pow2 (ulp_exp r))"
  proof -
    have "0 \<le> r / pow2 (ulp_exp r)" using r by (simp add: less_imp_le)
    then have "0 \<le> \<lfloor>r / pow2 (ulp_exp r)\<rfloor>" by simp
    then show ?thesis by (simp add: round_even_def Let_def)
  qed
  then have "0 \<le> (of_int (round_even (r / pow2 (ulp_exp r))) :: rat) * pow2 (ulp_exp r)"
    by (intro mult_nonneg_nonneg) (auto simp: less_imp_le)
  with r show ?thesis by (auto simp: rnd_def Let_def)
qed

lemma bitlen_pos: "0 < n \<Longrightarrow> 0 < bitlen n"
  by (metis bitlen_eq_zero_iff bitlen_nonneg less_le not_less)

lemma ilog2_nat:
  assumes "0 < n" shows "ilog2 (of_int n) = bitlen n - 1"
proof -
  have q: "quotient_of (of_int n) = (n, 1)" by (simp add: quotient_of_int)
  have b1: "bitlen 1 = 1" by (simp add: bitlen_def floorlog_def)
  have "2 ^ nat (bitlen n - 1) \<le> n" using assms bitlen_bounds by blast
  then have "(of_int (2 ^ nat (bitlen n - 1)) :: rat) \<le> of_int n" by (simp only: of_int_le_iff)
  moreover have "0 \<le> bitlen n - 1" using assms bitlen_pos by simp
  ultimately have "\<not> (of_int n :: rat) < pow2 (bitlen n - 1)" by (simp add: pow2_def not_less)
  then show ?thesis by (simp add: ilog2_def q b1 Let_def)
qed

lemma f_of_int_exact:
  assumes "\<bar>n\<bar> < 2 ^ 53"
  shows "f_of_int n = Fin (of_int n)"
proof (cases "n = 0")
  case True
  then show ?thesis by (simp add: f_of_int_def)
next
  case False
  define a where "a = \<bar>n\<bar>"
  have a: "0 < a" "a < 2 ^ 53" using False assms by (auto simp: a_def)
  have bl: "bitlen a \<le> 53" using a bitlen_le_iff_power [of a 53] by simp
  have bp: "0 < bitlen a" using a bitlen_pos by simp
  define t where "t = ulp_exp (of_int a)"
  have t: "t \<le> 0" "-52 \<le> t" using bl bp a by (simp_all add: t_def ulp_exp_def ilog2_nat)
  define q :: rat where "q = 2 ^ nat (- t)"
  have pt: "pow2 t * q = 1"
    using t by (cases "t = 0") (auto simp: pow2_def q_def)
  have p0: "pow2 t \<noteq> 0" using pow2_pos [of t] by linarith
  have "1 / pow2 t = q" using pt p0 by (simp only: divide_eq_eq mult.commute) simp
  then have "(of_int a :: rat) / pow2 t = of_int a * q"
    by (simp only: divide_inverse mult_1_left)
  also have "\<dots> = of_int (a * 2 ^ nat (- t))" by (simp only: q_def of_int_mult of_int_power of_int_numeral)
  finally have re: "round_even (of_int a / pow2 t) = a * 2 ^ nat (- t)"
    by (simp only: round_even_of_int)
  have v: "of_int (round_even (of_int a / pow2 t)) * pow2 t = (of_int a :: rat)"
  proof -
    have "of_int (a * 2 ^ nat (- t)) * pow2 t = (of_int a :: rat) * (q * pow2 t)"
      by (simp only: q_def of_int_mult of_int_power of_int_numeral mult.assoc)
    also have "\<dots> = of_int a" using pt by (simp only: mult.commute [of q] mult_1_right)
    finally show ?thesis by (simp only: re)
  qed
  have "(of_int a :: rat) < of_int (2 ^ 53)" using a by (simp only: of_int_less_iff)
  then have "\<not> pow2 1024 \<le> (of_int a :: rat)" by (simp add: pow2_def)
  then have lt: "(pow2 1024 \<le> (of_int a :: rat)) = False" by (rule eq_False [THEN iffD2])
  have ab: "\<bar>of_int n :: rat\<bar> = of_int a" by (simp add: a_def)
  have nz: "((of_int n :: rat) = 0) = False" "((of_int a :: rat) = 0) = False"
    using False a by auto
  have sgn: "(if (of_int n :: rat) < 0 then - of_int a else of_int a) = (of_int n :: rat)"
    by (auto simp: a_def)
  show ?thesis
    unfolding f_of_int_def rnd_def Let_def ab t_def [symmetric] v nz lt if_False sgn ..
qed

section \<open>The exponent and the value of a rounding\<close>

lemma pow2_strict_mono: "pow2 a < pow2 b \<longleftrightarrow> a < b"
proof -
  have *: "pow2 k = power_int 2 k" for k
    by (simp add: pow2_def power_int_def inverse_eq_divide power_one_over)
  have "a < b \<Longrightarrow> pow2 a < pow2 b" for a b
    unfolding * by (rule power_int_strict_increasing) auto
  then show ?thesis by (metis less_asym linorder_neqE)
qed

lemma pow2_bitlen:
  assumes "0 < n" shows "pow2 (bitlen n - 1) \<le> of_int n" "of_int n < pow2 (bitlen n)"
proof -
  have b: "2 ^ nat (bitlen n - 1) \<le> n" "n < 2 ^ nat (bitlen n)" "0 < bitlen n"
    using assms bitlen_bounds bitlen_pos by auto
  from b(1) have "(of_int (2 ^ nat (bitlen n - 1)) :: rat) \<le> of_int n"
    by (simp only: of_int_le_iff)
  then show "pow2 (bitlen n - 1) \<le> of_int n" using b(3) by (simp add: pow2_def)
  from b(2) have "(of_int n :: rat) < of_int (2 ^ nat (bitlen n))"
    by (simp only: of_int_less_iff)
  then show "of_int n < pow2 (bitlen n)" using b(3) by (simp add: pow2_def)
qed

lemma ilog2_bounds:
  assumes "0 < r" shows "pow2 (ilog2 r) \<le> r \<and> r < pow2 (ilog2 r + 1)"
proof -
  obtain p q where pq: "quotient_of r = (p, q)" by fastforce
  have q: "0 < q" using pq quotient_of_denom_pos by blast
  have r: "r = of_int p / of_int q" using pq by (rule quotient_of_div)
  have p: "0 < p" using assms q by (simp add: r zero_less_divide_iff)
  define e where "e = bitlen p - bitlen q"
  have qr: "(0 :: rat) < of_int q" using q by simp
  have up: "r < pow2 (e + 1)"
  proof -
    have "of_int p < pow2 (bitlen p)" using p by (rule pow2_bitlen)
    also have "\<dots> = pow2 (e + 1) * pow2 (bitlen q - 1)"
      by (simp add: e_def flip: pow2_add)
    also have "\<dots> \<le> pow2 (e + 1) * of_int q"
      by (intro mult_left_mono pow2_bitlen q less_imp_le [OF pow2_pos])
    finally show ?thesis using qr by (simp only: r pos_divide_less_eq)
  qed
  have lo: "pow2 (e - 1) \<le> r"
  proof -
    have "pow2 (e - 1) * of_int q \<le> pow2 (e - 1) * pow2 (bitlen q)"
      by (intro mult_left_mono less_imp_le [OF pow2_bitlen(2)] q less_imp_le [OF pow2_pos])
    also have "\<dots> = pow2 (bitlen p - 1)" by (simp add: e_def flip: pow2_add)
    also have "\<dots> \<le> of_int p" using p by (rule pow2_bitlen)
    finally show ?thesis using qr by (simp add: r pos_le_divide_eq)
  qed
  show ?thesis using up lo by (simp add: ilog2_def pq e_def [symmetric] Let_def)
qed

lemma ilog2_eqI: "pow2 e \<le> r \<Longrightarrow> r < pow2 (e + 1) \<Longrightarrow> ilog2 r = e"
proof -
  assume e: "pow2 e \<le> r" "r < pow2 (e + 1)"
  have "0 < r" using e pow2_pos [of e] by linarith
  then have b: "pow2 (ilog2 r) \<le> r" "r < pow2 (ilog2 r + 1)" using ilog2_bounds by auto
  have "pow2 e < pow2 (ilog2 r + 1)" "pow2 (ilog2 r) < pow2 (e + 1)" using e b by linarith+
  then show ?thesis by (simp add: pow2_strict_mono)
qed

lemma round_even_eqI:
  assumes "\<bar>x - of_int n\<bar> < 1 / 2" shows "round_even x = n"
proof -
  have "\<lfloor>x\<rfloor> = n \<or> \<lfloor>x\<rfloor> = n - 1" using assms by linarith
  then show ?thesis using assms by (auto simp: round_even_def Let_def)
qed

text \<open>Evaluating a rounding, given the exponent of its argument.\<close>

lemma rnd_normal:
  assumes "pow2 e \<le> r" "r < pow2 (e + 1)" "-1022 \<le> e" "e < 1023"
    "round_even (r / pow2 (e - 52)) = n" "0 < n" "n \<le> 2 ^ 53"
  shows "rnd r = Fin (of_int n * pow2 (e - 52))"
proof -
  have r0: "0 < r" using assms(1) pow2_pos [of e] by linarith
  have t: "ulp_exp r = e - 52" using assms(1-3) by (simp add: ulp_exp_def ilog2_eqI)
  have v: "0 < of_int n * pow2 (e - 52)" using assms(6) by simp
  have "of_int n * pow2 (e - 52) \<le> of_int (2 ^ 53) * pow2 (e - 52)"
    by (intro mult_right_mono less_imp_le [OF pow2_pos]) (simp only: of_int_le_iff assms(7))
  also have "(of_int (2 ^ 53) :: rat) = pow2 53" by (simp add: pow2_def)
  also have "pow2 53 * pow2 (e - 52) = pow2 (e + 1)"
    by (simp add: add.commute flip: pow2_add)
  also have "\<dots> < pow2 1024" using assms(4) by (simp add: pow2_strict_mono)
  finally show ?thesis using r0 v by (simp add: rnd_def t assms(5) Let_def)
qed

end
