(* ===== verification/Registers.thy ===== *)
theory Registers
  imports Period Float64 "HOL-Library.Word" "HOL-Library.AList"
begin

text \<open>
  internal/solis/types.go and registry.go: register metadata, the validated registry with
  its indexes, and the planning of Modbus read blocks. Go maps are association lists with
  distinct keys; addresses and register counts are 16-bit words whose arithmetic wraps.
\<close>

section \<open>Data types and stores\<close>

datatype data_type = Uint16 | Int16 | Uint32 | Int32 | Float32 | BoolReg

fun data_type_string :: "data_type \<Rightarrow> string" where
  "data_type_string Uint16 = ''Uint16''"
| "data_type_string Int16 = ''Int16''"
| "data_type_string Uint32 = ''Uint32''"
| "data_type_string Int32 = ''Int32''"
| "data_type_string Float32 = ''Float32''"
| "data_type_string BoolReg = ''Bool''"

fun data_type_count :: "data_type \<Rightarrow> 16 word" where
  "data_type_count Uint32 = 2"
| "data_type_count Int32 = 2"
| "data_type_count Float32 = 2"
| "data_type_count _ = 1"

text \<open>\<open>StoreOther\<close> stands for an integer outside the six constants of the enumeration.\<close>

datatype store = StoreNone | StoreDaily | StoreMonthly | StoreYearly | StoreTotal | StoreStatus
  | StoreOther int

fun store_string :: "store \<Rightarrow> string" where
  "store_string StoreNone = ''none''"
| "store_string StoreDaily = ''daily''"
| "store_string StoreMonthly = ''monthly''"
| "store_string StoreYearly = ''yearly''"
| "store_string StoreTotal = ''total''"
| "store_string StoreStatus = ''status''"
| "store_string (StoreOther n) = ''invalid''"

fun store_level :: "store \<Rightarrow> level option" where
  "store_level StoreDaily = Some Daily"
| "store_level StoreMonthly = Some Monthly"
| "store_level StoreYearly = Some Yearly"
| "store_level StoreTotal = Some Total"
| "store_level _ = None"

fun store_for_level :: "level \<Rightarrow> store" where
  "store_for_level Daily = StoreDaily"
| "store_for_level Monthly = StoreMonthly"
| "store_for_level Yearly = StoreYearly"
| "store_for_level Total = StoreTotal"

lemma store_level_for_level [simp]: "store_level (store_for_level l) = Some l"
  by (cases l) auto

lemma store_level_Some: "store_level s = Some l \<longleftrightarrow> s = store_for_level l"
  by (cases s; cases l) auto

definition store_energy :: "store \<Rightarrow> bool" where
  "store_energy s = (store_level s \<noteq> None)"

section \<open>Registers\<close>

record register =
  reg_key :: string
  reg_name :: string
  reg_address :: "16 word"
  reg_type :: data_type
  reg_scale :: float64
  reg_unit :: string
  reg_store :: store
  reg_net :: bool

text \<open>Go's zero value, what a failed lookup yields next to \<open>false\<close>.\<close>

definition zero_register :: register where
  "zero_register = \<lparr>reg_key = [], reg_name = [], reg_address = 0, reg_type = Uint16,
     reg_scale = Fin 0, reg_unit = [], reg_store = StoreNone, reg_net = False\<rparr>"

definition reg_count :: "register \<Rightarrow> 16 word" where
  "reg_count r = data_type_count (reg_type r)"

definition polled :: "register \<Rightarrow> bool" where
  "polled r \<longleftrightarrow> reg_address r \<noteq> 0"

definition computed :: "register \<Rightarrow> bool" where
  "computed r = (case reg_store r of StoreMonthly \<Rightarrow> True | StoreYearly \<Rightarrow> True | StoreTotal \<Rightarrow> True
     | _ \<Rightarrow> reg_net r)"

definition needs_address :: "register \<Rightarrow> bool" where
  "needs_address r \<longleftrightarrow> reg_store r = StoreStatus \<or> (reg_store r = StoreDaily \<and> \<not> reg_net r)"

definition polled_daily :: "register \<Rightarrow> bool" where
  "polled_daily r \<longleftrightarrow> reg_store r = StoreDaily \<and> \<not> reg_net r \<and> polled r"

record edge =
  e_level :: level
  e_source :: string
  e_target :: string

record net_pair =
  n_level :: level
  n_export :: string
  n_import :: string
  n_target :: string

record block =
  b_start :: "16 word"
  b_count :: "16 word"

section \<open>The registry\<close>

text \<open>The reason of a \<open>RegistryError\<close>, one constructor per message of the source.\<close>

datatype reason = NeedsKeyAndScale | InvalidStore | RunsPastEnd | NetMustBeComputed
  | ComputedHasAddress | MustBePolled | DuplicateKey | DuplicateAddress | Overlaps string
  | DefinitionCount nat | NoYearlyEdge string | BadEdgeSource | BadEdgeTarget
  | BadNetSource | BadNetTarget

datatype registry_error = RegistryError (rerr_key: string) (rerr_reason: reason)

record registry =
  g_regs :: "register list"
  g_by_key :: "(string \<times> register) list"
  g_by_addr :: "(16 word \<times> register) list"
  g_edges :: "edge list"
  g_nets :: "net_pair list"
  g_blocks :: "block list"

definition net_addressing_ok :: "register \<Rightarrow> bool" where
  "net_addressing_ok r \<longleftrightarrow> \<not> reg_net r \<or> (\<not> polled r \<and> store_energy (reg_store r))"

definition validate_addressing :: "register \<Rightarrow> registry_error option" where
  "validate_addressing r =
     (if \<not> net_addressing_ok r then Some (RegistryError (reg_key r) NetMustBeComputed)
      else if computed r \<and> polled r then Some (RegistryError (reg_key r) ComputedHasAddress)
      else if needs_address r \<and> \<not> polled r then Some (RegistryError (reg_key r) MustBePolled)
      else None)"

definition address_space :: nat where "address_space = 2 ^ 16"

definition validate_register :: "register \<Rightarrow> registry_error option" where
  "validate_register r =
     (if reg_key r = [] \<or> feq (reg_scale r) (Fin 0)
        then Some (RegistryError (reg_key r) NeedsKeyAndScale)
      else if (case reg_store r of StoreOther n \<Rightarrow> True | _ \<Rightarrow> False)
        then Some (RegistryError (reg_key r) InvalidStore)
      else if unat (reg_address r) + unat (reg_count r) > address_space
        then Some (RegistryError (reg_key r) RunsPastEnd)
      else validate_addressing r)"

text \<open>\<open>index\<close>: the loop over the registers, filling both maps.\<close>

fun index_regs :: "register list \<Rightarrow> (string \<times> register) list \<Rightarrow> (16 word \<times> register) list \<Rightarrow>
    registry_error + (string \<times> register) list \<times> (16 word \<times> register) list" where
  "index_regs [] bk ba = Inr (bk, ba)"
| "index_regs (r # rs) bk ba =
     (case validate_register r of Some e \<Rightarrow> Inl e | None \<Rightarrow>
      if map_of bk (reg_key r) \<noteq> None then Inl (RegistryError (reg_key r) DuplicateKey)
      else let bk = AList.update (reg_key r) r bk in
      if polled r then
        (if map_of ba (reg_address r) \<noteq> None
           then Inl (RegistryError (reg_key r) DuplicateAddress)
         else index_regs rs bk (AList.update (reg_address r) r ba))
      else index_regs rs bk ba)"

definition registry_polled :: "register list \<Rightarrow> register list" where
  "registry_polled regs = sort_key reg_address (filter polled regs)"

fun validate_overlaps :: "register list \<Rightarrow> registry_error option" where
  "validate_overlaps (p # q # rs) =
     (if unat (reg_address p) + unat (reg_count p) > unat (reg_address q)
        then Some (RegistryError (reg_key p) (Overlaps (reg_key q)))
      else validate_overlaps (q # rs))"
| "validate_overlaps _ = None"

definition edges_at :: "edge list \<Rightarrow> level \<Rightarrow> edge list" where
  "edges_at es l = filter (\<lambda>e. e_level e = l) es"

definition nets_at :: "net_pair list \<Rightarrow> level \<Rightarrow> net_pair list" where
  "nets_at ns l = filter (\<lambda>n. n_level n = l) ns"

definition validate_total_sources :: "edge list \<Rightarrow> registry_error option" where
  "validate_total_sources es =
     (let yearly = map e_source (edges_at es Yearly) in
      case filter (\<lambda>e. e_source e \<notin> set yearly) (edges_at es Total) of
        [] \<Rightarrow> None | e # _ \<Rightarrow> Some (RegistryError (e_target e) (NoYearlyEdge (e_source e))))"

definition validate_edge :: "(string \<times> register) list \<Rightarrow> edge \<Rightarrow> registry_error option" where
  "validate_edge bk e =
     (if (case map_of bk (e_source e) of None \<Rightarrow> True | Some src \<Rightarrow> \<not> polled_daily src)
        then Some (RegistryError (e_source e) BadEdgeSource)
      else if (case map_of bk (e_target e) of None \<Rightarrow> True | Some dst \<Rightarrow>
          reg_net dst \<or> reg_store dst \<noteq> store_for_level (e_level e) \<or> e_level e = Daily)
        then Some (RegistryError (e_target e) BadEdgeTarget)
      else None)"

definition is_store :: "(string \<times> register) list \<Rightarrow> string \<Rightarrow> store \<Rightarrow> bool \<Rightarrow> bool" where
  "is_store bk key st net = (case map_of bk key of None \<Rightarrow> False
     | Some reg \<Rightarrow> reg_store reg = st \<and> reg_net reg = net)"

definition validate_net :: "(string \<times> register) list \<Rightarrow> net_pair \<Rightarrow> registry_error option" where
  "validate_net bk n = (let want = store_for_level (n_level n) in
     if \<not> is_store bk (n_export n) want False then Some (RegistryError (n_export n) BadNetSource)
     else if \<not> is_store bk (n_import n) want False
       then Some (RegistryError (n_import n) BadNetSource)
     else if \<not> is_store bk (n_target n) want True
       then Some (RegistryError (n_target n) BadNetTarget)
     else None)"

fun first_error :: "('a \<Rightarrow> registry_error option) \<Rightarrow> 'a list \<Rightarrow> registry_error option" where
  "first_error f [] = None"
| "first_error f (x # xs) = (case f x of Some e \<Rightarrow> Some e | None \<Rightarrow> first_error f xs)"

text \<open>\<open>countDefinitions\<close>: the definitions of a target key, once every edge and pair is valid.\<close>

definition count_definitions ::
  "(string \<times> register) list \<Rightarrow> edge list \<Rightarrow> net_pair list \<Rightarrow> registry_error + (string \<Rightarrow> nat)" where
  "count_definitions bk es ns =
     (case first_error (validate_edge bk) es of Some e \<Rightarrow> Inl e | None \<Rightarrow>
      case first_error (validate_net bk) ns of Some e \<Rightarrow> Inl e | None \<Rightarrow>
        Inr (\<lambda>k. count_list (map e_target es @ map n_target ns) k))"

definition validate_computed ::
  "register list \<Rightarrow> (string \<times> register) list \<Rightarrow> edge list \<Rightarrow> net_pair list
    \<Rightarrow> registry_error option" where
  "validate_computed regs bk es ns =
     (case count_definitions bk es ns of Inl e \<Rightarrow> Some e | Inr defined \<Rightarrow>
        first_error (\<lambda>r. if computed r \<and> defined (reg_key r) \<noteq> 1
          then Some (RegistryError (reg_key r) (DefinitionCount (defined (reg_key r))))
          else None) regs)"

section \<open>Read blocks\<close>

text \<open>
  \<open>PlanBlocks\<close>: the loop extends the last block or starts a new one; \<open>plan_extend\<close> carries
  the last block. All sums and differences are 16-bit.
\<close>

definition block_of :: "register \<Rightarrow> block" where
  "block_of r = \<lparr>b_start = reg_address r, b_count = reg_count r\<rparr>"

fun plan_extend :: "16 word \<Rightarrow> 16 word \<Rightarrow> block \<Rightarrow> register list \<Rightarrow> block list" where
  "plan_extend max_gap max_len cur [] = [cur]"
| "plan_extend max_gap max_len cur (r # rs) =
     (let end = reg_address r + reg_count r; cur_end = b_start cur + b_count cur in
      if cur_end \<le> reg_address r \<and> reg_address r - cur_end \<le> max_gap \<and>
         end - b_start cur \<le> max_len
      then plan_extend max_gap max_len (cur\<lparr>b_count := end - b_start cur\<rparr>) rs
      else cur # plan_extend max_gap max_len (block_of r) rs)"

fun plan_blocks :: "register list \<Rightarrow> 16 word \<Rightarrow> 16 word \<Rightarrow> block list" where
  "plan_blocks [] max_gap max_len = []"
| "plan_blocks (r # rs) max_gap max_len = plan_extend max_gap max_len (block_of r) rs"

definition max_block_len :: "16 word" where "max_block_len = 125"
definition max_block_gap :: "16 word" where "max_block_gap = 32"

definition new_registry_of ::
  "register list \<Rightarrow> edge list \<Rightarrow> net_pair list \<Rightarrow> registry_error + registry" where
  "new_registry_of regs es ns =
     (case index_regs regs [] [] of Inl e \<Rightarrow> Inl e | Inr (bk, ba) \<Rightarrow>
      case validate_overlaps (registry_polled regs) of Some e \<Rightarrow> Inl e | None \<Rightarrow>
      case validate_computed regs bk es ns of Some e \<Rightarrow> Inl e | None \<Rightarrow>
      case validate_total_sources es of Some e \<Rightarrow> Inl e | None \<Rightarrow>
        Inr \<lparr>g_regs = regs, g_by_key = bk, g_by_addr = ba, g_edges = es, g_nets = ns,
             g_blocks = plan_blocks (registry_polled regs) max_block_gap max_block_len\<rparr>)"

section \<open>Lookups\<close>

definition by_key :: "registry \<Rightarrow> string \<Rightarrow> register option" where
  "by_key g k = map_of (g_by_key g) k"

definition by_address :: "registry \<Rightarrow> 16 word \<Rightarrow> register option" where
  "by_address g a = map_of (g_by_addr g) a"

definition registry_keys :: "registry \<Rightarrow> string list" where
  "registry_keys g = sort (map reg_key (g_regs g))"

definition by_store :: "registry \<Rightarrow> store \<Rightarrow> register list" where
  "by_store g s = filter (\<lambda>r. reg_store r = s) (g_regs g)"

definition daily_keys :: "registry \<Rightarrow> string list" where
  "daily_keys g = map reg_key (filter (\<lambda>r. reg_store r = StoreDaily \<and> \<not> reg_net r) (g_regs g))"

definition registry_edges :: "registry \<Rightarrow> level \<Rightarrow> edge list" where
  "registry_edges g l = edges_at (g_edges g) l"

definition registry_nets :: "registry \<Rightarrow> level \<Rightarrow> net_pair list" where
  "registry_nets g l = nets_at (g_nets g) l"

section \<open>The plan covers every register\<close>

definition covers :: "block \<Rightarrow> register \<Rightarrow> bool" where
  "covers b r \<longleftrightarrow> unat (b_start b) \<le> unat (reg_address r) \<and>
     unat (reg_address r) + unat (reg_count r) \<le> unat (b_start b) + unat (b_count b)"

definition block_ok :: "16 word \<Rightarrow> block \<Rightarrow> bool" where
  "block_ok max_len b \<longleftrightarrow> b_start b \<noteq> 0 \<and> 0 < b_count b \<and> b_count b \<le> max_len \<and>
     unat (b_start b) + unat (b_count b) \<le> 65536"

text \<open>Registers in ascending order from address \<open>e\<close> on, none past the address space.\<close>

fun reg_chain :: "nat \<Rightarrow> register list \<Rightarrow> bool" where
  "reg_chain e [] \<longleftrightarrow> e \<le> 65536"
| "reg_chain e (r # rs) \<longleftrightarrow> e \<le> unat (reg_address r) \<and> polled r \<and>
     reg_chain (unat (reg_address r) + unat (reg_count r)) rs"

lemma unat_lt16: "unat (a :: 16 word) < 65536"
  using unsigned_less [of a] by simp

lemma reg_chain_le: "reg_chain e rs \<Longrightarrow> e \<le> 65536"
proof (cases rs)
  case (Cons r rs')
  assume "reg_chain e rs"
  with Cons have "e \<le> unat (reg_address r)" by simp
  also have "unat (reg_address r) < 65536" by (rule unat_lt16)
  finally show ?thesis by simp
qed simp

lemma unat_reg_count: "unat (reg_count r) = 1 \<or> unat (reg_count r) = 2"
  by (cases "reg_type r") (simp_all add: reg_count_def)

lemma unat_add16: "unat (a :: 16 word) + unat b < 65536 \<Longrightarrow> unat (a + b) = unat a + unat b"
  by (simp add: unat_word_ariths)

lemma unat_sub16: "(b :: 16 word) \<le> a \<Longrightarrow> unat (a - b) = unat a - unat b"
  by (simp add: unat_sub)

lemma plan_extend_covers:
  assumes "block_ok max_len cur" "reg_chain (unat (b_start cur) + unat (b_count cur)) rs"
    "2 \<le> max_len"
  shows "(\<forall>r \<in> set rs. \<exists>b \<in> set (plan_extend max_gap max_len cur rs). covers b r) \<and>
    (\<exists>b \<in> set (plan_extend max_gap max_len cur rs). b_start b = b_start cur \<and> b_count cur \<le> b_count b) \<and>
    (\<forall>b \<in> set (plan_extend max_gap max_len cur rs). block_ok max_len b)"
  using assms(1,2)
proof (induction rs arbitrary: cur)
  case Nil
  then show ?case by simp
next
  case (Cons r rs)
  let ?a = "reg_address r" and ?n = "reg_count r" and ?s = "b_start cur" and ?c = "b_count cur"
  have le: "unat ?s + unat ?c \<le> unat ?a" and p: "?a \<noteq> 0"
    and ch: "reg_chain (unat ?a + unat ?n) rs"
    using Cons.prems by (auto simp: polled_def)
  have top: "unat ?a + unat ?n \<le> 65536" using ch by (rule reg_chain_le)
  have lt: "unat ?s + unat ?c < 65536" using le unat_lt16 [of ?a] by simp
  have s0: "0 < unat ?s" using Cons.prems by (auto simp: block_ok_def unat_gt_0)
  have sa: "?s \<le> ?a" using le by (simp add: word_le_nat_alt)
  have n0: "0 < ?n" using unat_reg_count [of r] by (auto simp: word_less_nat_alt)
  define d where "d = ?a + ?n - ?s"
  have d: "unat d = unat ?a + unat ?n - unat ?s"
  proof -
    have "d = (?a - ?s) + ?n" by (simp add: d_def)
    moreover have "unat (?a - ?s) = unat ?a - unat ?s" using sa by (rule unat_sub16)
    moreover have "unat (?a - ?s) + unat ?n < 65536" using top s0 sa
      by (simp add: unat_sub16 word_le_nat_alt)
    ultimately show ?thesis using sa by (simp add: unat_add16 word_le_nat_alt)
  qed
  show ?case
  proof (cases "?s + ?c \<le> ?a \<and> ?a - (?s + ?c) \<le> max_gap \<and> d \<le> max_len")
    case True
    define cur' where "cur' = cur\<lparr>b_count := d\<rparr>"
    have ok: "block_ok max_len cur'"
      using True Cons.prems(1) d top s0 n0 sa unat_reg_count [of r]
      by (auto simp: block_ok_def cur'_def word_less_nat_alt word_le_nat_alt)
    have "unat (b_start cur') + unat (b_count cur') = unat ?a + unat ?n"
      using d sa by (simp add: cur'_def word_le_nat_alt)
    with Cons.IH [OF ok] ch have ih:
      "\<forall>x \<in> set rs. \<exists>b \<in> set (plan_extend max_gap max_len cur' rs). covers b x"
      "\<exists>b \<in> set (plan_extend max_gap max_len cur' rs). b_start b = ?s \<and> d \<le> b_count b"
      "\<forall>b \<in> set (plan_extend max_gap max_len cur' rs). block_ok max_len b"
      by (auto simp: cur'_def)
    then obtain b where b: "b \<in> set (plan_extend max_gap max_len cur' rs)" "b_start b = ?s"
      "d \<le> b_count b" by blast
    have "covers b r" "?c \<le> b_count b" using b d sa le
      by (auto simp: covers_def word_le_nat_alt)
    moreover have "plan_extend max_gap max_len cur (r # rs) = plan_extend max_gap max_len cur' rs"
      using True by (simp add: d_def cur'_def Let_def)
    ultimately show ?thesis using ih b by auto
  next
    case False
    have ok: "block_ok max_len (block_of r)"
      using p n0 top unat_reg_count [of r] assms(3)
      by (auto simp: block_ok_def block_of_def word_le_nat_alt)
    with Cons.IH [of "block_of r"] ch have ih:
      "\<forall>x \<in> set rs. \<exists>b \<in> set (plan_extend max_gap max_len (block_of r) rs). covers b x"
      "\<exists>b \<in> set (plan_extend max_gap max_len (block_of r) rs). b_start b = ?a \<and> ?n \<le> b_count b"
      "\<forall>b \<in> set (plan_extend max_gap max_len (block_of r) rs). block_ok max_len b"
      by (auto simp: block_of_def)
    moreover have "\<And>b. b_start b = ?a \<Longrightarrow> ?n \<le> b_count b \<Longrightarrow> covers b r"
      by (simp add: covers_def word_le_nat_alt)
    moreover have "plan_extend max_gap max_len cur (r # rs)
        = cur # plan_extend max_gap max_len (block_of r) rs"
      using False by (auto simp: d_def Let_def)
    ultimately show ?thesis using Cons.prems(1) by auto
  qed
qed

lemma plan_blocks_covers:
  assumes "reg_chain 0 regs" "2 \<le> max_len"
  shows "(\<forall>r \<in> set regs. \<exists>b \<in> set (plan_blocks regs max_gap max_len). covers b r) \<and>
    (\<forall>b \<in> set (plan_blocks regs max_gap max_len). block_ok max_len b)"
proof (cases regs)
  case (Cons r rs)
  have ch: "reg_chain (unat (reg_address r) + unat (reg_count r)) rs" and p: "polled r"
    using assms(1) Cons by auto
  have ok: "block_ok max_len (block_of r)"
    using p unat_reg_count [of r] reg_chain_le [OF ch] assms(2)
    by (auto simp: block_ok_def block_of_def polled_def word_le_nat_alt word_less_nat_alt)
  have "unat (b_start (block_of r)) + unat (b_count (block_of r))
      = unat (reg_address r) + unat (reg_count r)" by (simp add: block_of_def)
  with plan_extend_covers [OF ok _ assms(2), of rs max_gap] ch have ih:
    "\<forall>x \<in> set rs. \<exists>b \<in> set (plan_extend max_gap max_len (block_of r) rs). covers b x"
    "\<exists>b \<in> set (plan_extend max_gap max_len (block_of r) rs).
       b_start b = reg_address r \<and> reg_count r \<le> b_count b"
    "\<forall>b \<in> set (plan_extend max_gap max_len (block_of r) rs). block_ok max_len b"
    by (auto simp: block_of_def)
  moreover have "\<And>b. b_start b = reg_address r \<Longrightarrow> reg_count r \<le> b_count b \<Longrightarrow> covers b r"
    by (simp add: covers_def word_le_nat_alt)
  ultimately have "\<exists>b \<in> set (plan_extend max_gap max_len (block_of r) rs). covers b r" by blast
  with ih show ?thesis unfolding Cons plan_blocks.simps by simp
qed simp

section \<open>What a validated registry satisfies\<close>

lemma first_error_None: "first_error f xs = None \<longleftrightarrow> (\<forall>x \<in> set xs. f x = None)"
  by (induction xs) (auto split: option.splits)

lemma alist_update_new: "map_of al k = None \<Longrightarrow> AList.update k v al = al @ [(k, v)]"
  by (induction al) (auto split: if_splits)

lemma index_regs_Inr:
  "index_regs rs bk ba = Inr (bk', ba') \<Longrightarrow>
    bk' = bk @ map (\<lambda>r. (reg_key r, r)) rs \<and>
    ba' = ba @ map (\<lambda>r. (reg_address r, r)) (filter polled rs) \<and>
    (\<forall>r \<in> set rs. validate_register r = None) \<and>
    (distinct (map fst bk) \<longrightarrow> distinct (map fst bk')) \<and>
    (distinct (map fst ba) \<longrightarrow> distinct (map fst ba'))"
proof (induction rs arbitrary: bk ba)
  case Nil
  then show ?case by simp
next
  case (Cons r rs)
  define bk1 ba1 where "bk1 = bk @ [(reg_key r, r)]"
    and "ba1 = (if polled r then ba @ [(reg_address r, r)] else ba)"
  have v: "validate_register r = None"
    using Cons.prems by (cases "validate_register r") auto
  have k: "map_of bk (reg_key r) = None"
    using Cons.prems v by (cases "map_of bk (reg_key r)") (auto simp: Let_def)
  have a: "polled r \<longrightarrow> map_of ba (reg_address r) = None"
    using Cons.prems v k by (cases "map_of ba (reg_address r)") (auto simp: Let_def)
  have rec: "index_regs rs bk1 ba1 = Inr (bk', ba')"
    using Cons.prems v k a
    by (cases "polled r") (simp_all add: Let_def alist_update_new bk1_def ba1_def)
  have "distinct (map fst bk) \<longrightarrow> distinct (map fst bk1)"
    "distinct (map fst ba) \<longrightarrow> distinct (map fst ba1)"
    using k a by (auto simp: bk1_def ba1_def map_of_eq_None_iff)
  note d = this
  have eq: "bk1 @ map (\<lambda>r. (reg_key r, r)) rs = bk @ map (\<lambda>r. (reg_key r, r)) (r # rs)"
    "ba1 @ map (\<lambda>r. (reg_address r, r)) (filter polled rs)
      = ba @ map (\<lambda>r. (reg_address r, r)) (filter polled (r # rs))"
    by (auto simp add: bk1_def ba1_def)
  note ih = Cons.IH [OF rec, unfolded eq]
  have "\<forall>x \<in> set (r # rs). validate_register x = None"
    using ih [THEN conjunct2, THEN conjunct2, THEN conjunct1] v by simp
  with ih d show ?case by blast
qed

lemma overlaps_chain:
  assumes "validate_overlaps (p # rs) = None"
    "\<forall>r \<in> set (p # rs). polled r \<and> unat (reg_address r) + unat (reg_count r) \<le> 65536"
  shows "reg_chain (unat (reg_address p) + unat (reg_count p)) rs"
  using assms
proof (induction rs arbitrary: p)
  case Nil
  then show ?case by simp
next
  case (Cons q rs)
  then show ?case by (auto split: if_splits)
qed

lemma validate_register_end:
  "validate_register r = None \<Longrightarrow> unat (reg_address r) + unat (reg_count r) \<le> 65536"
  by (auto simp: validate_register_def address_space_def split: if_splits)

lemma new_registry_parts:
  assumes "new_registry_of regs es ns = Inr g"
  shows "g_regs g = regs \<and> g_edges g = es \<and> g_nets g = ns \<and>
    g_blocks g = plan_blocks (registry_polled regs) max_block_gap max_block_len \<and>
    g_by_key g = map (\<lambda>r. (reg_key r, r)) regs \<and> distinct (map reg_key regs) \<and>
    g_by_addr g = map (\<lambda>r. (reg_address r, r)) (filter polled regs) \<and>
    distinct (map reg_address (filter polled regs)) \<and>
    (\<forall>r \<in> set regs. validate_register r = None) \<and>
    validate_overlaps (registry_polled regs) = None \<and>
    validate_total_sources es = None \<and> validate_computed regs (g_by_key g) es ns = None"
  using assms index_regs_Inr [of regs "[]" "[]"]
  by (auto simp: new_registry_of_def comp_def split: sum.splits prod.splits option.splits)

lemma map_of_keyed:
  "distinct (map f xs) \<Longrightarrow> map_of (map (\<lambda>x. (f x, x)) xs) k = Some x \<longleftrightarrow> x \<in> set xs \<and> f x = k"
  by (induction xs) (auto, metis image_eqI)

lemma reg_chain_polled:
  assumes "new_registry_of regs es ns = Inr g"
  shows "reg_chain 0 (registry_polled regs)"
proof -
  note parts = new_registry_parts [OF assms]
  have "\<forall>r \<in> set (registry_polled regs).
      polled r \<and> unat (reg_address r) + unat (reg_count r) \<le> 65536"
    using parts validate_register_end by (auto simp: registry_polled_def)
  with parts overlaps_chain show ?thesis
    by (cases "registry_polled regs") auto
qed

text \<open>Conversely, a table that meets the conditions is accepted.\<close>

lemma index_regs_ok:
  "\<forall>r \<in> set rs. validate_register r = None \<Longrightarrow>
    distinct (map fst bk @ map reg_key rs) \<Longrightarrow>
    distinct (map fst ba @ map reg_address (filter polled rs)) \<Longrightarrow>
    index_regs rs bk ba = Inr (bk @ map (\<lambda>r. (reg_key r, r)) rs,
      ba @ map (\<lambda>r. (reg_address r, r)) (filter polled rs))"
proof (induction rs arbitrary: bk ba)
  case Nil
  then show ?case by simp
next
  case (Cons r rs)
  have k: "map_of bk (reg_key r) = None" using Cons.prems by (auto simp: map_of_eq_None_iff)
  have a: "polled r \<Longrightarrow> map_of ba (reg_address r) = None"
    using Cons.prems by (auto simp: map_of_eq_None_iff)
  show ?case
  proof (cases "polled r")
    case True
    have "index_regs (r # rs) bk ba
        = index_regs rs (bk @ [(reg_key r, r)]) (ba @ [(reg_address r, r)])"
      using Cons.prems(1) k a True by (simp add: Let_def alist_update_new)
    also have "\<dots> = Inr ((bk @ [(reg_key r, r)]) @ map (\<lambda>r. (reg_key r, r)) rs,
        (ba @ [(reg_address r, r)]) @ map (\<lambda>r. (reg_address r, r)) (filter polled rs))"
      using Cons.prems True by (intro Cons.IH) auto
    finally show ?thesis using True by simp
  next
    case False
    have "index_regs (r # rs) bk ba = index_regs rs (bk @ [(reg_key r, r)]) ba"
      using Cons.prems(1) k False by (simp add: Let_def alist_update_new)
    also have "\<dots> = Inr ((bk @ [(reg_key r, r)]) @ map (\<lambda>r. (reg_key r, r)) rs,
        ba @ map (\<lambda>r. (reg_address r, r)) (filter polled rs))"
      using Cons.prems False by (intro Cons.IH) auto
    finally show ?thesis using False by simp
  qed
qed

section \<open>Properties of the registry\<close>

end
