(* ===== verification/Table.thy ===== *)
theory Table
  imports Registers
begin

text \<open>
  internal/solis/table.go: the program's own register table, and \<open>NewRegistry\<close>, which
  validates it at startup. The theory shows that the table passes its own validation and
  states what the rest of the program relies on as the interface \<open>register_table\<close>.
\<close>

section \<open>Energy series\<close>

definition unit_kwh :: string where "unit_kwh = ''kWh''"
definition unit_w :: string where "unit_w = ''W''"
definition scale_one :: float64 where "scale_one = Fin 1"
definition scale_ten :: float64 where "scale_ten = rnd (1 / 10)"

record energy_kind =
  ek_prefix :: string
  ek_name :: string
  ek_daily :: "16 word"
  ek_suffix :: string

definition kind :: "string \<Rightarrow> string \<Rightarrow> 16 word \<Rightarrow> string \<Rightarrow> energy_kind" where
  "kind p n a s = \<lparr>ek_prefix = p, ek_name = n, ek_daily = a, ek_suffix = s\<rparr>"

definition energy_kinds :: "energy_kind list" where
  "energy_kinds = (let comp = '' (Computed)'' in
    [kind ''pv_energy'' ''PV Energy'' 33035 [],
     kind ''battery_charge'' ''Battery Charge'' 33163 comp,
     kind ''battery_discharge'' ''Battery Discharge'' 33167 comp,
     kind ''grid_import'' ''Grid Import'' 33171 comp,
     kind ''grid_export'' ''Grid Export'' 33175 comp,
     kind ''energy_consumption'' ''Energy Consumption'' 33179 comp,
     kind ''household_energy'' ''Household Energy'' 33586 [],
     kind ''backup_energy'' ''Backup Energy'' 33596 []])"

fun level_suffix :: "level \<Rightarrow> string \<times> string" where
  "level_suffix Daily = (''_daily'', '' Daily'')"
| "level_suffix Monthly = (''_monthly'', '' Monthly'')"
| "level_suffix Yearly = (''_yearly'', '' Yearly'')"
| "level_suffix Total = (''_total'', '' Total'')"

definition computed_levels :: "level list" where
  "computed_levels = [Monthly, Yearly, Total]"

definition energy_daily :: "energy_kind \<Rightarrow> register" where
  "energy_daily k = (case level_suffix Daily of (dk, dn) \<Rightarrow>
     \<lparr>reg_key = ek_prefix k @ dk, reg_name = ek_name k @ dn, reg_address = ek_daily k,
      reg_type = Uint16, reg_scale = scale_ten, reg_unit = unit_kwh,
      reg_store = StoreDaily, reg_net = False\<rparr>)"

definition energy_computed :: "energy_kind \<Rightarrow> level \<Rightarrow> register" where
  "energy_computed k l = (case level_suffix l of (key, name) \<Rightarrow>
     \<lparr>reg_key = ek_prefix k @ key,
      reg_name = ek_name k @ name @ (if l = Total then [] else ek_suffix k), reg_address = 0,
      reg_type = Uint32, reg_scale = scale_one, reg_unit = unit_kwh,
      reg_store = store_for_level l, reg_net = False\<rparr>)"

definition energy_edge :: "energy_kind \<Rightarrow> level \<Rightarrow> edge" where
  "energy_edge k l = \<lparr>e_level = l, e_source = ek_prefix k @ fst (level_suffix Daily),
     e_target = ek_prefix k @ fst (level_suffix l)\<rparr>"

definition energy_registers :: "register list \<times> edge list" where
  "energy_registers =
     (concat (map (\<lambda>k. energy_daily k # map (energy_computed k) computed_levels) energy_kinds),
      concat (map (\<lambda>k. map (energy_edge k) computed_levels) energy_kinds))"

section \<open>Net, status and live registers\<close>

definition net_register :: "level \<Rightarrow> register" where
  "net_register l = (case level_suffix l of (key, name) \<Rightarrow>
     \<lparr>reg_key = ''grid_energy'' @ key,
      reg_name = ''Grid Energy'' @ name @
        (if l = Daily \<or> l = Total then '' (Net)'' else '' (Net, Computed)''),
      reg_address = 0, reg_type = (if l = Daily then Uint16 else Uint32), reg_scale = scale_one,
      reg_unit = unit_kwh, reg_store = store_for_level l, reg_net = True\<rparr>)"

definition net_pair_of :: "level \<Rightarrow> net_pair" where
  "net_pair_of l = (let key = fst (level_suffix l) in
     \<lparr>n_level = l, n_export = ''grid_export'' @ key, n_import = ''grid_import'' @ key,
      n_target = ''grid_energy'' @ key\<rparr>)"

definition net_registers :: "register list \<times> net_pair list" where
  "net_registers = (let levels = [Daily, Monthly, Yearly, Total] in
     (map net_register levels, map net_pair_of levels))"

definition status_register :: "string \<Rightarrow> string \<Rightarrow> 16 word \<Rightarrow> register" where
  "status_register key name addr =
     \<lparr>reg_key = key, reg_name = name, reg_address = addr, reg_type = Uint16,
      reg_scale = scale_one, reg_unit = [], reg_store = StoreStatus, reg_net = False\<rparr>"

definition status_registers :: "register list" where
  "status_registers =
    [status_register ''solis_status'' ''Solis Status'' 33095,
     status_register ''grid_fault_1'' ''Grid Fault 1 (Bitmask)'' 33116,
     status_register ''backup_fault_2'' ''Backup Fault 2 (Bitmask)'' 33117,
     status_register ''battery_fault_3'' ''Battery Fault 3 (Bitmask)'' 33118,
     status_register ''device_fault_4'' ''Device Fault 4 (Bitmask)'' 33119,
     status_register ''device_fault_5'' ''Device Fault 5 (Bitmask)'' 33120,
     status_register ''operating_status'' ''Solis Operating Status (Bitmask)'' 33121,
     status_register ''battery_fault_1_bms'' ''Battery Fault 1 (BMS)'' 33145,
     status_register ''battery_fault_2_bms'' ''Battery Fault 2 (BMS)'' 33146]"

definition key_battery_power :: string where "key_battery_power = ''battery_power''"
definition key_battery_direction :: string where
  "key_battery_direction = ''battery_current_direction''"
definition key_battery_power_signed :: string where
  "key_battery_power_signed = ''battery_power_signed''"

definition live_register :: "string \<Rightarrow> string \<Rightarrow> 16 word \<Rightarrow> data_type \<Rightarrow> string \<Rightarrow> register" where
  "live_register key name addr dt un =
     \<lparr>reg_key = key, reg_name = name, reg_address = addr, reg_type = dt,
      reg_scale = scale_one, reg_unit = un, reg_store = StoreNone, reg_net = False\<rparr>"

definition live_registers :: "register list" where
  "live_registers =
    [live_register ''pv_total_power'' ''PV Total Power'' 33057 Uint32 unit_w,
     live_register ''grid_power'' ''Grid Power'' 33130 Int32 unit_w,
     live_register key_battery_direction ''Battery Current Direction'' 33135 Uint16 [],
     live_register ''battery_soc'' ''Battery SOC'' 33139 Uint16 ''%'',
     live_register ''household_load_power'' ''Household Load Power'' 33147 Uint16 unit_w,
     live_register ''backup_load_power'' ''Backup Load Power'' 33148 Uint16 unit_w,
     live_register key_battery_power ''Battery Power'' 33149 Uint32 unit_w,
     live_register key_battery_power_signed ''Battery Power (Signed)'' 0 Int32 unit_w]"

section \<open>The program's registry\<close>

definition new_registry :: "registry_error + registry" where
  "new_registry = (case energy_registers of (energy, edges) \<Rightarrow>
     case net_registers of (net, pairs) \<Rightarrow>
       new_registry_of (energy @ net @ status_registers @ live_registers) edges pairs)"

section \<open>The table passes its own validation\<close>

definition table_regs :: "register list" where
  "table_regs = fst energy_registers @ fst net_registers @ status_registers @ live_registers"

lemmas table_defs = table_regs_def energy_registers_def net_registers_def status_registers_def
  live_registers_def energy_kinds_def kind_def computed_levels_def energy_daily_def
  energy_computed_def net_register_def status_register_def live_register_def
  key_battery_power_def key_battery_direction_def key_battery_power_signed_def
  energy_edge_def net_pair_of_def Let_def

lemma scale_ten_eq: "scale_ten = Fin (3602879701896397 / 36028797018963968)"
proof -
  have "rnd (1 / 10) = Fin (of_int 7205759403792794 * pow2 (- 4 - 52))"
    by (rule rnd_normal, simp_all only:) (simp_all add: pow2_def round_even_eqI)
  then show ?thesis by (simp add: scale_ten_def pow2_def)
qed

text \<open>What validation looks at in a register, apart from its scale: store, net flag, polled.\<close>

definition reg_shape :: "register \<Rightarrow> store \<times> bool \<times> bool" where
  "reg_shape r = (reg_store r, reg_net r, polled r)"

definition table_shape :: "(string \<times> store \<times> bool \<times> bool) list" where
  "table_shape =
    [(''pv_energy_daily'', StoreDaily, False, True),
     (''pv_energy_monthly'', StoreMonthly, False, False),
     (''pv_energy_yearly'', StoreYearly, False, False),
     (''pv_energy_total'', StoreTotal, False, False),
     (''battery_charge_daily'', StoreDaily, False, True),
     (''battery_charge_monthly'', StoreMonthly, False, False),
     (''battery_charge_yearly'', StoreYearly, False, False),
     (''battery_charge_total'', StoreTotal, False, False),
     (''battery_discharge_daily'', StoreDaily, False, True),
     (''battery_discharge_monthly'', StoreMonthly, False, False),
     (''battery_discharge_yearly'', StoreYearly, False, False),
     (''battery_discharge_total'', StoreTotal, False, False),
     (''grid_import_daily'', StoreDaily, False, True),
     (''grid_import_monthly'', StoreMonthly, False, False),
     (''grid_import_yearly'', StoreYearly, False, False),
     (''grid_import_total'', StoreTotal, False, False),
     (''grid_export_daily'', StoreDaily, False, True),
     (''grid_export_monthly'', StoreMonthly, False, False),
     (''grid_export_yearly'', StoreYearly, False, False),
     (''grid_export_total'', StoreTotal, False, False),
     (''energy_consumption_daily'', StoreDaily, False, True),
     (''energy_consumption_monthly'', StoreMonthly, False, False),
     (''energy_consumption_yearly'', StoreYearly, False, False),
     (''energy_consumption_total'', StoreTotal, False, False),
     (''household_energy_daily'', StoreDaily, False, True),
     (''household_energy_monthly'', StoreMonthly, False, False),
     (''household_energy_yearly'', StoreYearly, False, False),
     (''household_energy_total'', StoreTotal, False, False),
     (''backup_energy_daily'', StoreDaily, False, True),
     (''backup_energy_monthly'', StoreMonthly, False, False),
     (''backup_energy_yearly'', StoreYearly, False, False),
     (''backup_energy_total'', StoreTotal, False, False),
     (''grid_energy_daily'', StoreDaily, True, False),
     (''grid_energy_monthly'', StoreMonthly, True, False),
     (''grid_energy_yearly'', StoreYearly, True, False),
     (''grid_energy_total'', StoreTotal, True, False),
     (''solis_status'', StoreStatus, False, True),
     (''grid_fault_1'', StoreStatus, False, True),
     (''backup_fault_2'', StoreStatus, False, True),
     (''battery_fault_3'', StoreStatus, False, True),
     (''device_fault_4'', StoreStatus, False, True),
     (''device_fault_5'', StoreStatus, False, True),
     (''operating_status'', StoreStatus, False, True),
     (''battery_fault_1_bms'', StoreStatus, False, True),
     (''battery_fault_2_bms'', StoreStatus, False, True),
     (''pv_total_power'', StoreNone, False, True),
     (''grid_power'', StoreNone, False, True),
     (''battery_current_direction'', StoreNone, False, True),
     (''battery_soc'', StoreNone, False, True),
     (''household_load_power'', StoreNone, False, True),
     (''backup_load_power'', StoreNone, False, True),
     (''battery_power'', StoreNone, False, True),
     (''battery_power_signed'', StoreNone, False, False)]"

lemma table_shape: "map (\<lambda>r. (reg_key r, reg_shape r)) table_regs = table_shape"
  by (simp add: table_shape_def table_defs reg_shape_def polled_def)

lemma map_of_shape:
  "map_option f (map_of (map (\<lambda>r. (reg_key r, r)) rs) k) = map_of (map (\<lambda>r. (reg_key r, f r)) rs) k"
  by (induction rs) auto

lemma shape_lookup:
  "map_option reg_shape (map_of (map (\<lambda>r. (reg_key r, r)) table_regs) k) = map_of table_shape k"
  by (simp only: map_of_shape table_shape)

lemma table_keys: "map reg_key table_regs = map fst table_shape"
  unfolding table_shape [symmetric] by simp

lemma table_validates: "\<forall>r \<in> set table_regs. validate_register r = None"
  by (simp add: table_defs validate_register_def validate_addressing_def net_addressing_ok_def
      computed_def needs_address_def polled_def scale_ten_eq scale_one_def feq_def
      address_space_def reg_count_def store_energy_def)

lemma table_distinct_keys: "distinct (map reg_key table_regs)"
  unfolding table_keys by code_simp

lemma table_distinct_addresses: "distinct (map reg_address (filter polled table_regs))"
  by (simp add: table_defs polled_def)

lemma table_overlaps: "validate_overlaps (registry_polled table_regs) = None"
  by (simp add: table_defs registry_polled_def polled_def sort_key_def insort_key_def
      word_le_nat_alt reg_count_def)

definition solis_blocks :: "block list" where
  "solis_blocks = [\<lparr>b_start = 33035, b_count = 24\<rparr>, \<lparr>b_start = 33095, b_count = 85\<rparr>,
     \<lparr>b_start = 33586, b_count = 11\<rparr>]"

lemma table_blocks:
  "plan_blocks (registry_polled table_regs) max_block_gap max_block_len = solis_blocks"
  by (simp add: table_defs registry_polled_def polled_def sort_key_def insort_key_def
      word_le_nat_alt reg_count_def block_of_def max_block_gap_def max_block_len_def
      solis_blocks_def)

definition edge_shape_ok :: "edge \<Rightarrow> bool" where
  "edge_shape_ok e \<longleftrightarrow> map_of table_shape (e_source e) = Some (StoreDaily, False, True) \<and>
     map_of table_shape (e_target e) = Some (store_for_level (e_level e), False, False) \<and>
     e_level e \<noteq> Daily"

definition net_shape_ok :: "net_pair \<Rightarrow> bool" where
  "net_shape_ok n \<longleftrightarrow> (let st = store_for_level (n_level n) in
     map_option (\<lambda>(s, n, p). (s, n)) (map_of table_shape (n_export n)) = Some (st, False) \<and>
     map_option (\<lambda>(s, n, p). (s, n)) (map_of table_shape (n_import n)) = Some (st, False) \<and>
     map_option (\<lambda>(s, n, p). (s, n)) (map_of table_shape (n_target n)) = Some (st, True))"

lemma table_edges_ok: "\<forall>e \<in> set (snd energy_registers). edge_shape_ok e"
  by code_simp

lemma table_nets_ok: "\<forall>n \<in> set (snd net_registers). net_shape_ok n"
  by code_simp

lemma shape_Some:
  assumes "map_of table_shape k = Some s"
  obtains r where "map_of (map (\<lambda>r. (reg_key r, r)) table_regs) k = Some r" "reg_shape r = s"
  using assms unfolding shape_lookup [symmetric] by auto

lemma edge_shape_validates:
  "edge_shape_ok e \<Longrightarrow> validate_edge (map (\<lambda>r. (reg_key r, r)) table_regs) e = None"
  unfolding edge_shape_ok_def
  by (elim conjE shape_Some) (auto simp: validate_edge_def reg_shape_def polled_daily_def)

lemma net_shape_validates:
  "net_shape_ok n \<Longrightarrow> validate_net (map (\<lambda>r. (reg_key r, r)) table_regs) n = None"
  unfolding net_shape_ok_def Let_def map_option_eq_Some
  by (elim conjE exE shape_Some) (auto simp: validate_net_def is_store_def reg_shape_def)

lemma table_definitions:
  "\<forall>(k, s, n, p) \<in> set table_shape.
     s = StoreMonthly \<or> s = StoreYearly \<or> s = StoreTotal \<or> n \<longrightarrow>
     count_list (map e_target (snd energy_registers) @ map n_target (snd net_registers)) k = 1"
  by code_simp

lemma table_computed:
  "validate_computed table_regs (map (\<lambda>r. (reg_key r, r)) table_regs)
     (snd energy_registers) (snd net_registers) = None"
proof -
  have "count_list (map e_target (snd energy_registers) @ map n_target (snd net_registers))
      (reg_key r) = 1" if r: "r \<in> set table_regs" "computed r" for r
  proof -
    have "(reg_key r, reg_shape r) \<in> set table_shape"
      using r(1) unfolding table_shape [symmetric] by auto
    with table_definitions r(2) show ?thesis
      by (fastforce simp: reg_shape_def computed_def split: store.splits)
  qed
  moreover have "first_error (validate_edge (map (\<lambda>r. (reg_key r, r)) table_regs))
      (snd energy_registers) = None"
    using table_edges_ok edge_shape_validates by (simp add: first_error_None)
  moreover have "first_error (validate_net (map (\<lambda>r. (reg_key r, r)) table_regs))
      (snd net_registers) = None"
    using table_nets_ok net_shape_validates by (simp add: first_error_None)
  ultimately show ?thesis
    unfolding validate_computed_def count_definitions_def
    by (simp only: option.case sum.case) (simp add: first_error_None)
qed

lemma table_total_sources: "validate_total_sources (snd energy_registers) = None"
  by (simp add: table_defs validate_total_sources_def edges_at_def)

definition solis_registry :: registry where
  "solis_registry = \<lparr>g_regs = table_regs, g_by_key = map (\<lambda>r. (reg_key r, r)) table_regs,
     g_by_addr = map (\<lambda>r. (reg_address r, r)) (filter polled table_regs),
     g_edges = snd energy_registers, g_nets = snd net_registers, g_blocks = solis_blocks\<rparr>"

lemma new_registry_Inr: "new_registry = Inr solis_registry"
proof -
  have "index_regs table_regs [] [] = Inr ([] @ map (\<lambda>r. (reg_key r, r)) table_regs,
      [] @ map (\<lambda>r. (reg_address r, r)) (filter polled table_regs))"
    using table_validates table_distinct_keys table_distinct_addresses
    by (intro index_regs_ok) simp_all
  then have "new_registry_of table_regs (snd energy_registers) (snd net_registers)
      = Inr solis_registry"
    by (simp add: new_registry_of_def table_overlaps table_computed table_total_sources
        table_blocks solis_registry_def)
  then show ?thesis
    by (simp add: new_registry_def table_regs_def case_prod_beta)
qed

section \<open>What the rest of the program relies on\<close>

locale register_table =
  fixes g :: registry
  assumes lookup: "by_key g k = Some r \<longleftrightarrow> r \<in> set (g_regs g) \<and> reg_key r = k"
    and edge_source: "e \<in> set (g_edges g) \<Longrightarrow> e_source e \<in> set (daily_keys g)"
    and edge_level: "e \<in> set (g_edges g) \<Longrightarrow> e_level e \<noteq> Daily"
    and target_unique: "distinct (map e_target (g_edges g))"
    and net_fresh: "n_target ` set (g_nets g) \<inter> e_target ` set (g_edges g) = {}"
    and total_covered: "e \<in> set (registry_edges g Total) \<Longrightarrow>
      e_source e \<in> e_source ` set (registry_edges g Yearly)"
begin

lemma lookup_key: "by_key g k = Some r \<Longrightarrow> reg_key r = k"
  using lookup by blast

lemma targets_distinct_at: "distinct (map e_target (registry_edges g l))"
  using target_unique by (simp add: registry_edges_def edges_at_def distinct_map_filter)

lemma edges_at_member:
  "e \<in> set (registry_edges g l) \<longleftrightarrow> e \<in> set (g_edges g) \<and> e_level e = l"
  by (auto simp: registry_edges_def edges_at_def)

end
lemma count_list_one_distinct:
  "(\<And>x. x \<in> set xs \<Longrightarrow> count_list xs x = 1) \<Longrightarrow> distinct xs"
proof (induction xs)
  case (Cons x xs)
  have "x \<notin> set xs" using Cons.prems [of x] by (simp add: count_list_0_iff)
  moreover have "distinct xs"
  proof (rule Cons.IH)
    fix y assume "y \<in> set xs"
    then show "count_list xs y = 1" using Cons.prems [of y] \<open>x \<notin> set xs\<close> by (auto split: if_splits)
  qed
  ultimately show ?case by simp
qed simp

lemma validate_edge_None:
  assumes "validate_edge bk e = None"
  obtains src dst where "map_of bk (e_source e) = Some src" "polled_daily src"
    "map_of bk (e_target e) = Some dst" "computed dst" "e_level e \<noteq> Daily"
proof -
  obtain src dst where *: "map_of bk (e_source e) = Some src" "polled_daily src"
    "map_of bk (e_target e) = Some dst" "reg_store dst = store_for_level (e_level e)" "e_level e \<noteq> Daily"
    using assms by (auto simp: validate_edge_def split: option.splits if_splits)
  then have "computed dst" by (cases "e_level e") (auto simp: computed_def)
  with * show thesis using that by blast
qed

lemma validate_net_None:
  assumes "validate_net bk n = None"
  obtains dst where "map_of bk (n_target n) = Some dst" "computed dst"
proof -
  obtain dst where *: "map_of bk (n_target n) = Some dst" "reg_net dst"
    using assms by (auto simp: validate_net_def is_store_def Let_def split: option.splits if_splits)
  then have "computed dst" by (cases "reg_store dst") (auto simp: computed_def)
  with * show thesis using that by blast
qed

text \<open>Validation is what establishes the interface, for any table.\<close>

lemma validated_register_table:
  assumes "new_registry_of regs es ns = Inr g" shows "register_table g"
proof
  note parts = new_registry_parts [OF assms]
  have g: "g_regs g = regs" "g_edges g = es" "g_nets g = ns"
    and bk: "\<And>k r. map_of (g_by_key g) k = Some r \<longleftrightarrow> r \<in> set regs \<and> reg_key r = k"
    using parts map_of_keyed [of reg_key regs] by auto
  have edges: "\<forall>e \<in> set es. validate_edge (g_by_key g) e = None"
    and nets: "\<forall>n \<in> set ns. validate_net (g_by_key g) n = None"
    and count: "\<forall>r \<in> set regs. computed r \<longrightarrow>
      count_list (map e_target es @ map n_target ns) (reg_key r) = 1"
    using parts by (auto simp: validate_computed_def count_definitions_def first_error_None
        split: option.splits sum.splits if_splits)
  have tgt: "\<exists>r \<in> set regs. computed r \<and> reg_key r = e_target e" if "e \<in> set es" for e
    using validate_edge_None [OF edges [rule_format, OF that]] bk by metis
  have ntgt: "\<exists>r \<in> set regs. computed r \<and> reg_key r = n_target n" if "n \<in> set ns" for n
    using validate_net_None [OF nets [rule_format, OF that]] bk by metis
  have "distinct (map e_target es @ map n_target ns)"
  proof (rule count_list_one_distinct)
    fix k assume "k \<in> set (map e_target es @ map n_target ns)"
    then show "count_list (map e_target es @ map n_target ns) k = 1"
      using tgt ntgt count by fastforce
  qed
  then show "distinct (map e_target (g_edges g))"
    "n_target ` set (g_nets g) \<inter> e_target ` set (g_edges g) = {}"
    using g by auto
  show "by_key g k = Some r \<longleftrightarrow> r \<in> set (g_regs g) \<and> reg_key r = k" for k r
    using bk g by (simp add: by_key_def)
  show "e_source e \<in> set (daily_keys g)" if e: "e \<in> set (g_edges g)" for e
  proof -
    obtain src where "map_of (g_by_key g) (e_source e) = Some src" "polled_daily src"
      using validate_edge_None edges e g by metis
    then have "src \<in> set (g_regs g)" "reg_key src = e_source e" "polled_daily src"
      using bk g by auto
    then show ?thesis by (force simp: daily_keys_def polled_daily_def)
  qed
  show "e_level e \<noteq> Daily" if "e \<in> set (g_edges g)" for e
    using validate_edge_None edges that g by metis
  show "e_source e \<in> e_source ` set (registry_edges g Yearly)"
    if "e \<in> set (registry_edges g Total)" for e
  proof -
    have "\<forall>e \<in> set (edges_at es Total). e_source e \<in> set (map e_source (edges_at es Yearly))"
      using parts by (auto simp: validate_total_sources_def filter_empty_conv Let_def split: list.splits)
    then show ?thesis using that g by (simp add: registry_edges_def)
  qed
qed

lemma solis_registry_built:
  "new_registry_of table_regs (snd energy_registers) (snd net_registers) = Inr solis_registry"
  using new_registry_Inr by (simp add: new_registry_def table_regs_def case_prod_beta)

interpretation solis_table: register_table solis_registry
  by (rule validated_register_table [OF solis_registry_built])

text \<open>The register table of the program passes its own validation, so startup never aborts
  on it, and three Modbus reads cover its polled registers; its edge targets are distinct
  and no net pair writes one.\<close>

theorem new_registry_succeeds:
  "\<exists>g. new_registry = Inr g \<and> g_blocks g = solis_blocks \<and> length (g_regs g) = 53 \<and>
     distinct (map e_target (g_edges g)) \<and>
     n_target ` set (g_nets g) \<inter> e_target ` set (g_edges g) = {}"
proof (intro exI conjI)
  have "length table_regs = length table_shape" using table_keys by (metis length_map)
  then show "length (g_regs solis_registry) = 53"
    by (simp add: solis_registry_def table_shape_def)
qed (use new_registry_Inr solis_table.target_unique solis_table.net_fresh in
  \<open>simp_all add: solis_registry_def\<close>)

section \<open>Lookups and the read plan\<close>

text \<open>Of a registry that passed validation, ByKey and ByAddress answer exactly with the
  registers of the table, a computed register has no address and exactly one definition,
  and every total's source also has a yearly edge, so the yearly fold misses none.\<close>

theorem registry_lookups:
  assumes "new_registry_of regs es ns = Inr g"
  shows "(by_key g k = Some r \<longleftrightarrow> r \<in> set regs \<and> reg_key r = k) \<and>
    (by_address g a = Some r \<longleftrightarrow> r \<in> set regs \<and> polled r \<and> reg_address r = a) \<and>
    (r \<in> set regs \<and> computed r \<longrightarrow> \<not> polled r \<and>
       count_list (map e_target es @ map n_target ns) (reg_key r) = 1) \<and>
    (\<forall>e \<in> set es. e_level e = Total \<longrightarrow>
       (\<exists>e' \<in> set es. e_level e' = Yearly \<and> e_source e' = e_source e))"
proof (intro conjI)
  note parts = new_registry_parts [OF assms]
  show "by_key g k = Some r \<longleftrightarrow> r \<in> set regs \<and> reg_key r = k"
    using parts by (simp add: by_key_def map_of_keyed)
  show "by_address g a = Some r \<longleftrightarrow> r \<in> set regs \<and> polled r \<and> reg_address r = a"
    using parts by (auto simp: by_address_def map_of_keyed)
  show "r \<in> set regs \<and> computed r \<longrightarrow> \<not> polled r \<and>
      count_list (map e_target es @ map n_target ns) (reg_key r) = 1"
    using parts
    by (auto simp: validate_register_def validate_addressing_def validate_computed_def
        count_definitions_def first_error_None split: if_splits option.splits sum.splits)
  have "\<forall>e \<in> set es. e_level e = Total \<longrightarrow>
      e_source e \<in> e_source ` {x \<in> set es. e_level x = Yearly}"
    using parts
    by (auto simp: validate_total_sources_def edges_at_def filter_empty_conv split: list.splits)
  then show "\<forall>e \<in> set es. e_level e = Total \<longrightarrow>
      (\<exists>e' \<in> set es. e_level e' = Yearly \<and> e_source e' = e_source e)"
    unfolding image_iff Bex_def mem_Collect_eq by (metis (mono_tags))
qed

theorem registry_lookups_witness:
  "\<forall>k r. (by_key solis_registry k = Some r) = (r \<in> set table_regs \<and> reg_key r = k)"
  using registry_lookups [OF solis_registry_built] by blast

text \<open>C37: The read plan of a validated registry covers every polled register with one block that
  holds all its words, and no block exceeds the Modbus limit of 125 registers or leaves the
  address space.\<close>

theorem plan_covers_registers:
  assumes "new_registry_of regs es ns = Inr g" "r \<in> set regs" "polled r"
  shows "(\<exists>b \<in> set (g_blocks g). covers b r) \<and>
    (\<forall>b \<in> set (g_blocks g). unat (b_count b) \<le> 125 \<and>
       unat (b_start b) + unat (b_count b) \<le> 65536)"
proof -
  have "r \<in> set (registry_polled regs)" using assms(2,3) by (simp add: registry_polled_def)
  with plan_blocks_covers [OF reg_chain_polled [OF assms(1)], of max_block_len max_block_gap]
    new_registry_parts [OF assms(1)]
  show ?thesis by (auto simp: max_block_len_def block_ok_def word_le_nat_alt)
qed

theorem plan_covers_registers_witness:
  "\<exists>b \<in> set (g_blocks solis_registry).
     covers b (live_register ''battery_soc'' ''Battery SOC'' 33139 Uint16 ''%'')"
proof -
  let ?r = "live_register ''battery_soc'' ''Battery SOC'' 33139 Uint16 ''%''"
  have "?r \<in> set table_regs" "polled ?r"
    by (simp add: table_regs_def live_registers_def) (simp add: polled_def live_register_def)
  then show ?thesis using plan_covers_registers [OF solis_registry_built] by blast
qed

end
