(* ===== verification/Aggregation.thy ===== *)
theory Aggregation
  imports Table
begin

text \<open>
  internal/aggregation: the arithmetic of periods (aggregation.go) and the recompute plan
  (plan.go), shared by the live aggregator and the backfill. \<open>Values\<close> maps are association
  lists; the plan is also given as a specification on day, month and year numbers, which
  \<open>BuildPlan\<close> refines.
\<close>

section \<open>Period values\<close>

type_synonym vals = "(string \<times> float64) list"

text \<open>Indexing a map: zero for an absent key.\<close>

definition getv :: "vals \<Rightarrow> string \<Rightarrow> float64" where
  "getv m k = (case map_of m k of Some v \<Rightarrow> v | None \<Rightarrow> Fin 0)"

definition source_keys :: "edge list \<Rightarrow> string list" where
  "source_keys es = sort (remdups (map e_source es))"

definition apply_edges :: "edge list \<Rightarrow> vals \<Rightarrow> vals" where
  "apply_edges es sms = foldl (\<lambda>out e. AList.update (e_target e) (getv sms (e_source e)) out) [] es"

definition apply_net :: "net_pair list \<Rightarrow> vals \<Rightarrow> vals" where
  "apply_net pairs values = foldl (\<lambda>out p.
     case (map_of values (n_export p), map_of values (n_import p)) of
       (Some e, Some i) \<Rightarrow> AList.update (n_target p) (fsub e i) out
     | _ \<Rightarrow> out) [] pairs"

definition totals :: "edge list \<Rightarrow> vals \<Rightarrow> vals \<Rightarrow> vals" where
  "totals es baseline since = foldl (\<lambda>out e.
     AList.update (e_target e) (fadd (getv baseline (e_target e)) (getv since (e_source e))) out) [] es"

definition fold_values :: "vals \<Rightarrow> vals \<Rightarrow> vals" where
  "fold_values baseline add = foldl (\<lambda>out (k, v). AList.update k (fadd (getv out k) v) out) baseline add"

definition add_offsets :: "vals \<Rightarrow> vals \<Rightarrow> vals" where
  "add_offsets values offsets = map (\<lambda>(k, v). (k, fadd v (getv offsets k))) values"

definition merge_values :: "vals list \<Rightarrow> vals" where
  "merge_values maps = foldl (\<lambda>out m. foldl (\<lambda>out (k, v). AList.update k v out) out m) [] maps"

section \<open>The recompute plan\<close>

definition max_net_days :: int where "max_net_days = 62"

record watermarks =
  frozen_month :: string
  frozen_year :: string
  frozen_net_day :: string
  closed_through :: string

record job =
  j_level :: level
  j_key :: string
  j_from :: string
  j_to :: string
  j_freeze :: bool

record plan =
  pl_days :: "job list"
  pl_months :: "job list"
  pl_years :: "job list"
  pl_skipped :: "string \<times> string"

definition skipped_net_days :: "period \<Rightarrow> watermarks \<Rightarrow> string \<times> string" where
  "skipped_net_days p w = (case add_days (p_day p) (- max_net_days) of
       Inl e \<Rightarrow> ([], [])
     | Inr flr \<Rightarrow>
         if frozen_net_day w = [] \<or> flr \<le> frozen_net_day w then ([], [])
         else (case add_days (frozen_net_day w) 1 of
             Inl e \<Rightarrow> ([], [])
           | Inr lo \<Rightarrow> (lo, flr)))"

text \<open>
  The loop of \<open>dayJobs\<close> steps day by day from the start while the key is at most today's,
  one job per day (\<open>step_loop\<close> is that loop; it always returns, see \<open>day_loop_returns\<close>).
\<close>

definition day_job :: "watermarks \<Rightarrow> string \<Rightarrow> job" where
  "day_job w day = \<lparr>j_level = Daily, j_key = day, j_from = day, j_to = day,
     j_freeze = (closed_through w \<noteq> [] \<and> day \<le> closed_through w)\<rparr>"

definition day_jobs :: "period \<Rightarrow> watermarks \<Rightarrow> key_error + job list" where
  "day_jobs p w = (case add_days (p_day p) (- max_net_days) of
       Inl e \<Rightarrow> Inl e
     | Inr flr \<Rightarrow>
         let start = (if frozen_net_day w = [] \<or> frozen_net_day w < flr then flr
                      else frozen_net_day w) in
         case the (step_loop add_days (p_day p) (add_days start 1) []) of
           Inl e \<Rightarrow> Inl e
         | Inr days \<Rightarrow> Inr (map (day_job w) days))"

definition bounded_job :: "period \<Rightarrow> watermarks \<Rightarrow> level \<Rightarrow> string \<Rightarrow> key_error + job" where
  "bounded_job p w l key =
     (case (if l = Monthly then month_bounds key else year_bounds key) of
        Inl e \<Rightarrow> Inl e
      | Inr (lo, hi) \<Rightarrow> Inr \<lparr>j_level = l, j_key = key, j_from = lo,
          j_to = (if p_day p < hi then p_day p else hi),
          j_freeze = (closed_through w \<noteq> [] \<and> hi \<le> closed_through w)\<rparr>)"

fun bounded_jobs :: "period \<Rightarrow> watermarks \<Rightarrow> level \<Rightarrow> string list \<Rightarrow> key_error + job list" where
  "bounded_jobs p w l [] = Inr []"
| "bounded_jobs p w l (k # ks) = (case bounded_job p w l k of Inl e \<Rightarrow> Inl e
     | Inr j \<Rightarrow> (case bounded_jobs p w l ks of Inl e \<Rightarrow> Inl e | Inr js \<Rightarrow> Inr (j # js)))"

definition period_jobs :: "period \<Rightarrow> watermarks \<Rightarrow> level \<Rightarrow> string \<Rightarrow> key_error + job list" where
  "period_jobs p w l frozen =
     (case (case l of
          Monthly \<Rightarrow> months_between frozen (p_month p)
        | Yearly \<Rightarrow> years_between frozen (p_year p)
        | _ \<Rightarrow> Inl (KeyError ''level'' (level_string l))) of
        Inl e \<Rightarrow> Inl e
      | Inr keys \<Rightarrow> bounded_jobs p w l keys)"

definition build_plan :: "period \<Rightarrow> watermarks \<Rightarrow> key_error + plan" where
  "build_plan p w =
     (case day_jobs p w of Inl e \<Rightarrow> Inl e | Inr days \<Rightarrow>
      case period_jobs p w Monthly (frozen_month w) of Inl e \<Rightarrow> Inl e | Inr months \<Rightarrow>
      case period_jobs p w Yearly (frozen_year w) of Inl e \<Rightarrow> Inl e | Inr years \<Rightarrow>
        Inr \<lparr>pl_days = days, pl_months = months, pl_years = years,
             pl_skipped = skipped_net_days p w\<rparr>)"

section \<open>The loop over days returns\<close>

lemma parse_day_10000: "parse_day (day_key 3652059) = None"
proof (rule ccontr)
  assume "parse_day (day_key 3652059) \<noteq> None"
  then obtain d where d: "parse_day (day_key 3652059) = Some d" by blast
  have "date_of 3652059 = Date 10000 1 1" by code_simp
  then have "length (day_key 3652059) \<noteq> 10"
    by (simp add: day_key_def length_append_10000 append_int_padded)
  moreover have "length (day_key 3652059) = 10"
    using parse_day_Some [OF d] by (simp add: fmt_day_padded)
  ultimately show False by simp
qed

lemma day_ok_iff: "day_ok n \<longleftrightarrow> -366 \<le> n \<and> n < 3652059"
proof
  assume ok: "day_ok n"
  have "year_start 0 = -366" "year_start 10000 = 3652059"
    by (simp_all add: year_start_def Let_def)
  moreover define d where "d = date_of n"
  have v: "valid_date d" "day_number d = n" by (simp_all add: d_def)
  have "year_start 0 \<le> year_start (dyear d)" "year_start (dyear d + 1) \<le> year_start 10000"
    using ok by (auto intro!: year_start_mono simp: day_ok_def year_ok_def d_def)
  moreover have "0 \<le> month_start (leap_day (dyear d)) (dmonth d)"
    using leap_day_01 [of "dyear d"] v by (intro month_start_nonneg) (auto simp: valid_date_def)
  ultimately show "-366 \<le> n \<and> n < 3652059"
    using day_number_year_end [OF v(1)] v by (simp add: day_number_def valid_date_def)
qed (simp add: day_okI)

lemma day_key_nonempty: "day_key n \<noteq> []"
  by (cases "date_of n") (simp add: day_key_def)

interpretation days: period_step add_days day_key "-366" 3652059
proof
  show "\<exists>e. add_days (day_key 3652059) 1 = Inl e"
    by (simp add: add_days_def parse_day_10000)
  show "\<exists>i. -366 \<le> i \<and> i < 3652059 \<and> s = day_key i" if "add_days s 1 = Inr k" for s k
    using that by (elim add_days_dom) (auto simp: day_ok_iff)
qed (auto simp: key_simps day_okI day_key_nonempty)

lemma day_loop_returns: "\<exists>r. step_loop add_days through (add_days start 1) [] = Some r"
proof (cases "add_days start 1")
  case (Inl e)
  then show ?thesis by (simp add: step_loop.simps)
next
  case (Inr k)
  then obtain m where "day_ok m" "k = day_key (m + 1)" by (rule add_days_dom)
  then show ?thesis using days.loop_returns [of "m + 1"] by (simp add: Inr day_ok_iff)
qed

section \<open>The plan on numbers\<close>

text \<open>
  The specification: day \<open>n\<close> is today, the watermarks are optional day, month and year
  numbers. Open days, months and years follow their watermark up to today's; a period is
  frozen when its last day is closed.
\<close>

definition closed_on :: "int option \<Rightarrow> int \<Rightarrow> bool" where
  "closed_on c n = (case c of None \<Rightarrow> False | Some m \<Rightarrow> n \<le> m)"

definition after_mark :: "int option \<Rightarrow> int \<Rightarrow> int list" where
  "after_mark w n = (case w of None \<Rightarrow> [n] | Some m \<Rightarrow> [m + 1..n])"

definition spec_day :: "int option \<Rightarrow> int \<Rightarrow> job" where
  "spec_day c d = \<lparr>j_level = Daily, j_key = day_key d, j_from = day_key d, j_to = day_key d,
     j_freeze = closed_on c d\<rparr>"

definition spec_span :: "level \<Rightarrow> string \<Rightarrow> int \<Rightarrow> int option \<Rightarrow> int \<Rightarrow> int \<Rightarrow> job" where
  "spec_span l key n c lo hi = \<lparr>j_level = l, j_key = key, j_from = day_key lo,
     j_to = day_key (min n (hi - 1)), j_freeze = closed_on c (hi - 1)\<rparr>"

definition spec_month :: "int \<Rightarrow> int option \<Rightarrow> int \<Rightarrow> job" where
  "spec_month n c i = spec_span Monthly (month_key i) n c (month_first i) (month_first (i + 1))"

definition spec_year :: "int \<Rightarrow> int option \<Rightarrow> int \<Rightarrow> job" where
  "spec_year n c y = spec_span Yearly (fmt_year y) n c (year_start y) (year_start (y + 1))"

definition year_of :: "int \<Rightarrow> int" where
  "year_of n = dyear (date_of n)"

definition net_start :: "int option \<Rightarrow> int \<Rightarrow> int" where
  "net_start fd n = (case fd of None \<Rightarrow> n - max_net_days | Some m \<Rightarrow> max m (n - max_net_days))"

definition spec_plan :: "int \<Rightarrow> int option \<Rightarrow> int option \<Rightarrow> int option \<Rightarrow> int option \<Rightarrow> plan" where
  "spec_plan n fm fy fd c =
     \<lparr>pl_days = map (spec_day c) [net_start fd n + 1..n],
      pl_months = map (spec_month n c) (after_mark fm (month_index_of n)),
      pl_years = map (spec_year n c) (after_mark fy (year_of n)),
      pl_skipped = (case fd of None \<Rightarrow> ([], [])
        | Some m \<Rightarrow> if m < n - max_net_days then (day_key (m + 1), day_key (n - max_net_days))
          else ([], []))\<rparr>"

definition mark_key :: "(int \<Rightarrow> string) \<Rightarrow> int option \<Rightarrow> string" where
  "mark_key f w = (case w of None \<Rightarrow> [] | Some n \<Rightarrow> f n)"

definition marks :: "int option \<Rightarrow> int option \<Rightarrow> int option \<Rightarrow> int option \<Rightarrow> watermarks" where
  "marks fm fy fd c = \<lparr>frozen_month = mark_key month_key fm, frozen_year = mark_key fmt_year fy,
     frozen_net_day = mark_key day_key fd, closed_through = mark_key day_key c\<rparr>"

lemma marks_simps [simp]:
  "frozen_month (marks fm fy fd c) = mark_key month_key fm"
  "frozen_year (marks fm fy fd c) = mark_key fmt_year fy"
  "frozen_net_day (marks fm fy fd c) = mark_key day_key fd"
  "closed_through (marks fm fy fd c) = mark_key day_key c"
  "mark_key f None = []" "mark_key f (Some n) = f n"
  by (simp_all add: marks_def mark_key_def)

lemma closed_through_iff:
  "day_ok d \<Longrightarrow> (\<forall>m. c = Some m \<longrightarrow> day_ok m) \<Longrightarrow>
    (mark_key day_key c \<noteq> [] \<and> day_key d \<le> mark_key day_key c) \<longleftrightarrow> closed_on c d"
  by (cases c) (auto simp: closed_on_def day_key_nonempty key_simps)

lemma day_ok_month_first: "0 \<le> i \<Longrightarrow> i < 120000 \<Longrightarrow> day_ok (month_first i)"
  by (auto simp: day_ok_def month_first_def valid_first year_ok_def)

lemma year_start_first: "year_start y = day_number (Date y 1 1)"
  by (simp add: day_number_def month_start_def)

lemma day_ok_year_start: "year_ok y \<Longrightarrow> day_ok (year_start y)"
  by (simp add: day_ok_def year_start_first valid_first)

lemma first_date_number: "day_number (Date 0 1 1) = -366"
  by (simp add: year_start_first [symmetric] year_start_def Let_def)

lemma day_ok_before_first:
  assumes "day_ok (day_number (Date y m 1))" "1 \<le> m" "m \<le> 12" "0 < y \<or> 1 < m"
  shows "day_ok (day_number (Date y m 1) - 1)"
proof -
  have "day_number (Date y m 1) \<noteq> -366"
  proof
    assume *: "day_number (Date y m 1) = -366"
    have "date_of (day_number (Date y m 1)) = Date y m 1" using assms by (simp add: valid_first)
    moreover have "date_of (-366) = Date 0 1 1"
      using first_date_number by (metis date_of_day_number order_refl one_le_numeral valid_first)
    ultimately show False using assms(4) * by simp
  qed
  then show ?thesis using assms(1) by (simp add: day_ok_iff)
qed

lemma day_ok_month_last:
  assumes "0 \<le> i" "i + 1 < 120000" shows "day_ok (month_first (i + 1) - 1)"
proof -
  have "0 < (i + 1) div 12 \<or> 1 < (i + 1) mod 12 + 1" using assms(1)
    by (cases "(i + 1) mod 12 = 0") (use pos_mod_sign [of 12 "i + 1"] in auto)
  then show ?thesis using day_ok_month_first [of "i + 1"] assms pos_mod_bound [of 12 "i + 1"]
      pos_mod_sign [of 12 "i + 1"] unfolding month_first_def
    by (intro day_ok_before_first) auto
qed

lemma day_ok_year_last: "0 \<le> y \<Longrightarrow> y < 9999 \<Longrightarrow> day_ok (year_start (y + 1) - 1)"
  using day_ok_year_start [of "y + 1"] unfolding year_start_first
  by (intro day_ok_before_first) (auto simp: year_ok_def)

lemma min_day_key:
  "day_ok n \<Longrightarrow> day_ok m \<Longrightarrow> (if day_key n < day_key m then day_key n else day_key m) = day_key (min n m)"
  by (simp add: day_key_less_iff min_def not_less)

lemma bounded_month:
  assumes "p_day p = day_key n" "day_ok n" "0 \<le> i" "i + 1 < 120000" "\<forall>m. c = Some m \<longrightarrow> day_ok m"
  shows "bounded_job p (marks fm fy fd c) Monthly (month_key i) = Inr (spec_month n c i)"
proof -
  note last = day_ok_month_last [OF assms(3,4)]
  show ?thesis
    using month_bounds_key [of i] assms min_day_key [OF assms(2) last] closed_through_iff [OF last assms(5)]
    by (simp add: bounded_job_def spec_month_def spec_span_def split del: if_split cong: if_cong)
qed

lemma bounded_year:
  assumes "p_day p = day_key n" "day_ok n" "0 \<le> y" "y < 9999" "\<forall>m. c = Some m \<longrightarrow> day_ok m"
  shows "bounded_job p (marks fm fy fd c) Yearly (fmt_year y) = Inr (spec_year n c y)"
proof -
  note last = day_ok_year_last [OF assms(3,4)]
  have "year_ok y" using assms by (simp add: year_ok_def)
  from year_bounds_key [OF this] show ?thesis
    using assms min_day_key [OF assms(2) last] closed_through_iff [OF last assms(5)]
    by (simp add: bounded_job_def spec_year_def spec_span_def split del: if_split cong: if_cong)
qed

lemma bounded_jobs_map:
  "(\<And>x. x \<in> set xs \<Longrightarrow> bounded_job p w l (key x) = Inr (f x)) \<Longrightarrow>
    bounded_jobs p w l (map key xs) = Inr (map f xs)"
  by (induction xs) auto

lemma month_index_bounds:
  assumes "day_ok n"
  shows "0 \<le> month_index_of n" "month_index_of n div 12 = year_of n"
    "month_index_of n < 12 * year_of n + 12"
proof -
  obtain y m d where d: "date_of n = Date y m d" by (cases "date_of n")
  have "1 \<le> m" "m \<le> 12" using valid_date_of [of n] d by (auto simp: valid_date_def)
  moreover have "0 \<le> y" using assms d by (auto simp: day_ok_def year_ok_def)
  ultimately show "0 \<le> month_index_of n" "month_index_of n div 12 = year_of n"
    "month_index_of n < 12 * year_of n + 12"
    using d month_index [of m y] by (auto simp: month_index_of_def year_of_def)
qed

lemma months_between_keys_aux:
  "0 \<le> i \<Longrightarrow> i \<le> j \<Longrightarrow> j + 1 < 120000 \<Longrightarrow>
    months_between (month_key i) (month_key j) = Inr (map month_key [i + 1..j])"
  using months.between_keys [of i j] by (simp add: months_between_def)

lemma day_jobs_spec:
  assumes n: "p_day p = day_key n" "-304 \<le> n" "n < 3652058"
    and fd: "\<forall>m. fd = Some m \<longrightarrow> day_ok m \<and> m \<le> n"
    and c: "\<forall>m. c = Some m \<longrightarrow> day_ok m"
  shows "day_jobs p (marks fm fy fd c) = Inr (map (spec_day c) [net_start fd n + 1..n])"
proof -
  have ok: "day_ok n" "day_ok (n - 62)" using n by (auto simp: day_ok_iff)
  have start: "(if mark_key day_key fd = [] \<or> mark_key day_key fd < day_key (n - 62)
      then day_key (n - 62) else mark_key day_key fd) = day_key (net_start fd n)"
    using fd ok by (cases fd) (auto simp: net_start_def max_net_days_def day_key_nonempty
        day_key_less_iff max_def)
  have s: "day_ok (net_start fd n)" "net_start fd n \<le> n"
    using fd ok by (auto simp: net_start_def max_net_days_def max_def split: option.splits)
  have loop: "step_loop add_days (day_key n) (add_days (day_key (net_start fd n)) 1) []
      = Some (Inr (map day_key [net_start fd n + 1..n]))"
    using days.loop_upto [of "net_start fd n + 1" n "[]"] s ok n
    by (simp add: add_days_key day_ok_iff)
  have "map (day_job (marks fm fy fd c)) (map day_key [net_start fd n + 1..n])
      = map (spec_day c) [net_start fd n + 1..n]"
    using s ok(1) c closed_through_iff
    by (auto simp: day_job_def spec_day_def day_ok_iff)
  with loop start show ?thesis
    by (simp add: day_jobs_def n(1) max_net_days_def add_days_key [OF ok(1)] Let_def split del: if_split cong: if_cong)
qed

text \<open>C35: BuildPlan refines the plan on numbers: on any day up to the year 9998 and for any
  watermarks not past today it returns exactly one job for every net day after the watermark
  (at most 62), for every month and for every year after its watermark up to the current one,
  each summing from its first day to the earlier of today and its last day, and freezes a
  job exactly when its last day has been closed by every source; the days it gives up on are
  reported.
\<close>

theorem build_plan_refines:
  assumes "day_index z t = n" "-304 \<le> n" "year_of n < 9999"
    "\<forall>m. fm = Some m \<longrightarrow> 0 \<le> m \<and> m \<le> month_index_of n"
    "\<forall>y. fy = Some y \<longrightarrow> 0 \<le> y \<and> y \<le> year_of n"
    "\<forall>m. fd = Some m \<longrightarrow> day_ok m \<and> m \<le> n" "\<forall>m. c = Some m \<longrightarrow> day_ok m"
  shows "build_plan (period_of z t) (marks fm fy fd c) = Inr (spec_plan n fm fy fd c)"
proof -
  let ?p = "period_of z t" and ?w = "marks fm fy fd c"
  have n9: "n < 3652058"
  proof (rule ccontr)
    assume "\<not> n < 3652058"
    then have "year_start 9999 \<le> n" by (simp add: year_start_def Let_def)
    moreover have "n < year_start (year_of n + 1)"
      using day_number_year_end [of "date_of n"] by (simp add: year_of_def)
    moreover have "year_start (year_of n + 1) \<le> year_start 9999"
      using assms(3) by (intro year_start_mono) simp
    ultimately show False by simp
  qed
  have ok: "day_ok n" using assms(2) n9 by (simp add: day_ok_iff)
  then have y0: "0 \<le> year_of n" by (simp add: day_ok_def year_ok_def year_of_def)
  have p: "p_day ?p = day_key n" "p_month ?p = month_key (month_index_of n)"
    "p_year ?p = fmt_year (year_of n)"
    using assms(1) by (simp_all add: period_of_keys year_of_def civil_def)
  note mi = month_index_bounds [OF ok]
  have mi2: "month_index_of n + 1 < 120000" using mi assms(3) by linarith
  have days: "day_jobs ?p ?w = Inr (pl_days (spec_plan n fm fy fd c))"
    using day_jobs_spec [OF p(1) assms(2) n9 assms(6,7)] by (simp add: spec_plan_def)
  have "months_between (frozen_month ?w) (p_month ?p)
      = Inr (map month_key (after_mark fm (month_index_of n)))"
    using assms(4) mi mi2 months_between_keys_aux [of _ "month_index_of n"]
    by (cases fm) (auto simp: after_mark_def p)
  moreover have "bounded_jobs ?p ?w Monthly (map month_key (after_mark fm (month_index_of n)))
      = Inr (map (spec_month n c) (after_mark fm (month_index_of n)))"
    using assms(4) mi mi2
    by (intro bounded_jobs_map bounded_month p(1) ok assms(7))
      (auto simp: after_mark_def split: option.splits)
  ultimately have months: "period_jobs ?p ?w Monthly (frozen_month ?w)
      = Inr (pl_months (spec_plan n fm fy fd c))"
    by (simp add: period_jobs_def spec_plan_def)
  have "years_between (frozen_year ?w) (p_year ?p) = Inr (map fmt_year (after_mark fy (year_of n)))"
    using assms(3,5) y0 years_between_keys [of _ "year_of n"]
    by (cases fy) (auto simp: after_mark_def p)
  moreover have "bounded_jobs ?p ?w Yearly (map fmt_year (after_mark fy (year_of n)))
      = Inr (map (spec_year n c) (after_mark fy (year_of n)))"
    using assms(3,5) y0
    by (intro bounded_jobs_map bounded_year p(1) ok assms(7))
      (auto simp: after_mark_def split: option.splits)
  ultimately have years: "period_jobs ?p ?w Yearly (frozen_year ?w)
      = Inr (pl_years (spec_plan n fm fy fd c))"
    by (simp add: period_jobs_def spec_plan_def)
  have "skipped_net_days ?p ?w = pl_skipped (spec_plan n fm fy fd c)"
  proof -
    have ok62: "day_ok (n - 62)" using assms(2) n9 by (simp add: day_ok_iff)
    show ?thesis using assms(6) ok ok62
      by (cases fd) (auto simp: skipped_net_days_def spec_plan_def p max_net_days_def
          add_days_key day_key_nonempty day_key_le_iff)
  qed
  with days months years show ?thesis
    by (simp add: build_plan_def)
qed

text \<open>2024-02-05 in UTC, January open and closed, the net watermark on 2024-02-02.\<close>

lemma february_2024: "day_index utc (19758 * ns_day) = 738920"
    and february_2024_date: "date_of 738920 = Date 2024 2 5"
  by (simp add: day_index_def local_time_def utc_def epoch_day_def) code_simp

theorem build_plan_refines_witness:
  "build_plan (period_of utc (19758 * ns_day)) (marks (Some 24287) (Some 2023) (Some 738917) (Some 738918))
     = Inr (spec_plan 738920 (Some 24287) (Some 2023) (Some 738917) (Some 738918))"
  by (rule build_plan_refines [OF february_2024])
    (simp_all add: february_2024_date year_of_def month_index_of_def day_okI)

section \<open>Prefixes of day keys\<close>

text \<open>The month and year parts of a day key, which the storage takes by slicing.\<close>

lemma take_day_key:
  assumes "day_ok n"
  shows "take 7 (day_key n) = month_key (month_index_of n)" "take 4 (day_key n) = fmt_year (year_of n)"
proof -
  obtain y m d where d: "date_of n = Date y m d" by (cases "date_of n")
  have v: "valid_date (Date y m d)" "year_ok y" "1 \<le> m" "m \<le> 12"
    using valid_date_of [of n] d assms by (auto simp: day_ok_def valid_date_def)
  have k: "day_key n = padded 4 (nat y) @ ''-'' @ padded 2 (nat m) @ ''-'' @ padded 2 (nat d)"
    using fmt_day_padded [OF v(1)] v(2) by (simp add: day_key_def d)
  have "month_key (month_index_of n) = fmt_month y m"
    using month_index [OF v(3,4), of y] by (simp add: month_key_def month_index_of_def d)
  then show "take 7 (day_key n) = month_key (month_index_of n)"
    using fmt_month_padded [OF v(2-4)] by (simp add: k)
  show "take 4 (day_key n) = fmt_year (year_of n)"
    using fmt_year_padded [OF v(2)] by (simp add: k year_of_def d)
qed

lemma month_index_mono: "m \<le> n \<Longrightarrow> month_index_of m \<le> month_index_of n \<and> year_of m \<le> year_of n"
proof (cases "m = n")
  case False
  assume "m \<le> n"
  with False have "date_of m < date_of n" by (simp add: date_of_less_iff)
  moreover obtain y mo d y' mo' d' where "date_of m = Date y mo d" "date_of n = Date y' mo' d'"
    by (metis date.exhaust)
  ultimately show ?thesis
    using valid_date_of [of m] valid_date_of [of n]
    by (auto simp: month_index_of_def year_of_def less_date_def valid_date_def)
qed simp

end
