(* ===== verification/Store.thy ===== *)
theory Store
  imports Aggregation
begin

text \<open>
  internal/storage: the database, the in-memory copy of its meta table, transactions and the
  errors of the package (errors.go, meta.go, interfaces.go, storage.go).

  A table is an association list over its unique key, in row order; SQL statements are
  functions on the database. \<open>error_data\<close> is a list in id order. A meta row holds a text or
  a float (the code stores the float's shortest decimal text, which parses back to it). The
  database itself is not under src/: a statement of a transaction fails or succeeds as a
  list of faults says, and a failing transaction leaves the database as it was. A NaN is
  stored as NULL and so violates the NOT NULL constraint of its column.
\<close>

section \<open>Errors\<close>

datatype storage_error =
    PeriodClosed (pc_level: string) (pc_key: string) (pc_period: string) (pc_through: string)
  | WriteDomain (wd_writer: string) (wd_key: string) (wd_reason: string)
  | UnknownKey string
  | BadKey key_error
  | BadLevel string
  | MetaParse string
  | DbFailure

fun is_rejection :: "storage_error \<Rightarrow> bool" where
  "is_rejection (PeriodClosed l k p c) = True"
| "is_rejection (WriteDomain w k r) = True"
| "is_rejection (UnknownKey k) = True"
| "is_rejection _ = False"

section \<open>The database\<close>

datatype mval = MText string | MFloat float64

type_synonym rows = "((string \<times> string) \<times> float64 \<times> float64) list"

text \<open>
  Rows map (register key, period) to (value, raw value); totals map a register key to
  (value, raw value, instant); status rows are ((register key, millisecond), raw value).
\<close>

record db =
  d_daily :: rows
  d_monthly :: rows
  d_yearly :: rows
  d_total :: "(string \<times> float64 \<times> float64 \<times> int) list"
  d_error :: "((string \<times> int) \<times> float64) list"
  d_meta :: "(string \<times> mval) list"

record txn =
  tx_db :: db
  tx_faults :: "bool list"

definition exec :: "bool \<Rightarrow> (db \<Rightarrow> db) \<Rightarrow> txn \<Rightarrow> storage_error + txn" where
  "exec ok f tx = (if \<not> ok then Inl DbFailure else
     case tx_faults tx of
       [] \<Rightarrow> Inr \<lparr>tx_db = f (tx_db tx), tx_faults = []\<rparr>
     | b # bs \<Rightarrow> if b then Inl DbFailure else Inr \<lparr>tx_db = f (tx_db tx), tx_faults = bs\<rparr>)"

definition query :: "(db \<Rightarrow> 'a) \<Rightarrow> txn \<Rightarrow> storage_error + 'a \<times> txn" where
  "query f tx = (case exec True (\<lambda>d. d) tx of Inl e \<Rightarrow> Inl e | Inr tx' \<Rightarrow> Inr (f (tx_db tx'), tx'))"

text \<open>\<open>withTx\<close>: begin, run, commit; the database changes only when all three succeed.\<close>

definition with_tx :: "(txn \<Rightarrow> storage_error + 'a \<times> txn) \<Rightarrow> bool list \<Rightarrow> db
    \<Rightarrow> storage_error + 'a \<times> db" where
  "with_tx f faults d = (case exec True (\<lambda>d. d) \<lparr>tx_db = d, tx_faults = faults\<rparr> of
       Inl e \<Rightarrow> Inl e
     | Inr tx \<Rightarrow> (case f tx of Inl e \<Rightarrow> Inl e
         | Inr (a, tx') \<Rightarrow> (case exec True (\<lambda>d. d) tx' of Inl e \<Rightarrow> Inl e
             | Inr tx'' \<Rightarrow> Inr (a, tx_db tx''))))"

section \<open>The meta table in memory\<close>

text \<open>
  Reading a missing watermark of a Go map gives the empty string, so those maps are total;
  presence matters for baselines and offsets.
\<close>

record meta =
  m_cutover :: string
  m_closed :: "string \<Rightarrow> string"
  m_frozen :: "level \<Rightarrow> string"
  m_base_year :: string
  m_base :: "string \<rightharpoonup> float64"
  m_offsets :: "string \<rightharpoonup> float64"
  m_purged :: string

definition new_meta :: meta where
  "new_meta = \<lparr>m_cutover = [], m_closed = (\<lambda>k. []), m_frozen = (\<lambda>l. []), m_base_year = [],
     m_base = Map.empty, m_offsets = Map.empty, m_purged = []\<rparr>"

definition meta_cutover :: string where "meta_cutover = ''v3_cutover_date''"
definition meta_closed_daily :: string where "meta_closed_daily = ''closed:daily:''"
definition meta_closed_net :: string where "meta_closed_net = ''closed:netdaily''"
definition meta_closed_monthly :: string where "meta_closed_monthly = ''closed:monthly''"
definition meta_closed_yearly :: string where "meta_closed_yearly = ''closed:yearly''"
definition meta_baseline :: string where "meta_baseline = ''baseline:''"
definition meta_base_year :: string where "meta_base_year = ''baseline_year''"
definition meta_purged :: string where "meta_purged = ''purged_before''"
definition meta_offset :: string where "meta_offset = ''offset:''"

lemmas meta_key_defs = meta_cutover_def meta_closed_daily_def meta_closed_net_def
  meta_closed_monthly_def meta_closed_yearly_def meta_baseline_def meta_base_year_def
  meta_purged_def meta_offset_def

fun frozen_key :: "level \<Rightarrow> storage_error + string" where
  "frozen_key Daily = Inr meta_closed_net"
| "frozen_key Monthly = Inr meta_closed_monthly"
| "frozen_key Yearly = Inr meta_closed_yearly"
| "frozen_key Total = Inl (BadLevel (level_string Total))"

definition cut_prefix :: "string \<Rightarrow> string \<Rightarrow> string option" where
  "cut_prefix s p = (if take (length p) s = p then Some (drop (length p) s) else None)"

text \<open>A text the code stores is returned as it is; a float text parses to its float.\<close>

fun text_of :: "mval \<Rightarrow> string option" where
  "text_of (MText s) = Some s" | "text_of (MFloat f) = None"

fun float_of :: "mval \<Rightarrow> float64 option" where
  "float_of (MText s) = None" | "float_of (MFloat f) = Some f"

definition apply_prefixed :: "string \<Rightarrow> mval \<Rightarrow> meta \<Rightarrow> storage_error + meta" where
  "apply_prefixed k v m = (case cut_prefix k meta_closed_daily of
       Some key \<Rightarrow> (case text_of v of None \<Rightarrow> Inl (MetaParse k)
         | Some s \<Rightarrow> Inr (m\<lparr>m_closed := (m_closed m)(key := s)\<rparr>))
     | None \<Rightarrow> (case cut_prefix k meta_baseline of
         Some key \<Rightarrow> (case float_of v of None \<Rightarrow> Inl (MetaParse k)
           | Some f \<Rightarrow> Inr (m\<lparr>m_base := (m_base m)(key \<mapsto> f)\<rparr>))
       | None \<Rightarrow> (case cut_prefix k meta_offset of
           Some key \<Rightarrow> (case float_of v of None \<Rightarrow> Inl (MetaParse k)
             | Some f \<Rightarrow> Inr (m\<lparr>m_offsets := (m_offsets m)(key \<mapsto> f)\<rparr>))
         | None \<Rightarrow> Inr m)))"

definition apply_meta :: "string \<Rightarrow> mval \<Rightarrow> meta \<Rightarrow> storage_error + meta" where
  "apply_meta k v m =
     (if k \<in> {meta_cutover, meta_base_year, meta_purged, meta_closed_net, meta_closed_monthly,
         meta_closed_yearly}
      then (case text_of v of None \<Rightarrow> Inl (MetaParse k)
        | Some s \<Rightarrow> Inr (if k = meta_cutover then m\<lparr>m_cutover := s\<rparr>
            else if k = meta_base_year then m\<lparr>m_base_year := s\<rparr>
            else if k = meta_purged then m\<lparr>m_purged := s\<rparr>
            else if k = meta_closed_net then m\<lparr>m_frozen := (m_frozen m)(Daily := s)\<rparr>
            else if k = meta_closed_monthly then m\<lparr>m_frozen := (m_frozen m)(Monthly := s)\<rparr>
            else m\<lparr>m_frozen := (m_frozen m)(Yearly := s)\<rparr>))
      else apply_prefixed k v m)"

fun apply_rows :: "(string \<times> mval) list \<Rightarrow> meta \<Rightarrow> storage_error + meta" where
  "apply_rows [] m = Inr m"
| "apply_rows ((k, v) # rs) m = (case apply_meta k v m of Inl e \<Rightarrow> Inl e
     | Inr m' \<Rightarrow> apply_rows rs m')"

definition load_meta :: "db \<Rightarrow> storage_error + meta" where
  "load_meta d = apply_rows (d_meta d) new_meta"

definition put_meta :: "string \<Rightarrow> mval \<Rightarrow> txn \<Rightarrow> storage_error + txn" where
  "put_meta k v = exec True (\<lambda>d. d\<lparr>d_meta := AList.update k v (d_meta d)\<rparr>)"

text \<open>\<open>advance\<close>: the new value of the watermark, written when it moves forward.\<close>

definition advance :: "txn \<Rightarrow> string \<Rightarrow> string \<Rightarrow> string \<Rightarrow> storage_error + string \<times> txn" where
  "advance tx k cur v = (if v \<le> cur then Inr (cur, tx)
     else (case put_meta k (MText v) tx of Inl e \<Rightarrow> Inl e | Inr tx' \<Rightarrow> Inr (v, tx')))"

section \<open>The storage\<close>

record store =
  s_db :: db
  s_meta :: meta
  s_vacuumed :: "int option"

definition lookup_reg :: "registry \<Rightarrow> string \<Rightarrow> storage_error + register" where
  "lookup_reg g k = (case by_key g k of Some r \<Rightarrow> Inr r | None \<Rightarrow> Inl (UnknownKey k))"

definition raw_of :: "register \<Rightarrow> float64 \<Rightarrow> float64" where
  "raw_of r v = fdiv v (reg_scale r)"

text \<open>
  Loops that skip and collect rejected items: a rejection leaves the state as it was, any
  other error ends the transaction.
\<close>

fun collect_loop :: "('r \<Rightarrow> 's \<Rightarrow> storage_error + 's) \<Rightarrow> 'r list \<Rightarrow> 's \<Rightarrow> storage_error list
    \<Rightarrow> storage_error + storage_error list \<times> 's" where
  "collect_loop f [] s rej = Inr (rej, s)"
| "collect_loop f (r # rs) s rej = (case f r s of
       Inr s' \<Rightarrow> collect_loop f rs s' rej
     | Inl e \<Rightarrow> if is_rejection e then collect_loop f rs s (rej @ [e]) else Inl e)"

text \<open>Loops that stop at the first error.\<close>

fun each :: "('r \<Rightarrow> 's \<Rightarrow> storage_error + 's) \<Rightarrow> 'r list \<Rightarrow> 's \<Rightarrow> storage_error + 's" where
  "each f [] s = Inr s"
| "each f (r # rs) s = (case f r s of Inl e \<Rightarrow> Inl e | Inr s' \<Rightarrow> each f rs s')"

text \<open>Sums: \<open>agg\<close> is SQLite's SUM over the values of the selected rows.\<close>

definition sum_rows :: "(float64 list \<Rightarrow> float64) \<Rightarrow> db \<Rightarrow> string \<Rightarrow> string \<Rightarrow> string \<Rightarrow> float64" where
  "sum_rows agg d key lo hi = (let vs = map (fst \<circ> snd) (filter (\<lambda>((k, day), v).
       k = key \<and> lo \<le> day \<and> day \<le> hi) (d_daily d)) in
     if vs = [] then Fin 0 else agg vs)"

definition close_through :: "registry \<Rightarrow> meta \<Rightarrow> string" where
  "close_through g m = (let ds = map (m_closed m) (daily_keys g) in
     if ds = [] \<or> [] \<in> set ds then [] else fold min (tl ds) (hd ds))"

record close_state =
  cs_cutover :: string
  cs_month :: string
  cs_year :: string
  cs_net_day :: string
  cs_closed :: string
  cs_base_year :: string
  cs_base :: "string \<rightharpoonup> float64"
  cs_offsets :: "string \<rightharpoonup> float64"

definition close_state_of :: "registry \<Rightarrow> store \<Rightarrow> close_state" where
  "close_state_of g s = (let m = s_meta s in
     \<lparr>cs_cutover = m_cutover m, cs_month = m_frozen m Monthly, cs_year = m_frozen m Yearly,
      cs_net_day = m_frozen m Daily, cs_closed = close_through g m, cs_base_year = m_base_year m,
      cs_base = m_base m, cs_offsets = m_offsets m\<rparr>)"

definition offset_key :: "level \<Rightarrow> string \<Rightarrow> string \<Rightarrow> string" where
  "offset_key l p key = level_string l @ '':'' @ p @ '':'' @ key"

section \<open>The meta table and its copy agree\<close>

text \<open>The copy as a function of the rows, pointwise.\<close>

definition mtxt :: "mval option \<Rightarrow> string" where
  "mtxt v = (case v of Some (MText s) \<Rightarrow> s | _ \<Rightarrow> [])"

definition mflt :: "mval option \<Rightarrow> float64 option" where
  "mflt v = (case v of Some (MFloat f) \<Rightarrow> Some f | _ \<Rightarrow> None)"

lemma mtxt_mflt_simps [simp]: "mtxt (Some (MText s)) = s" "mtxt None = []"
  "mflt (Some (MFloat f)) = Some f" "mflt None = None"
  by (simp_all add: mtxt_def mflt_def)

definition meta_view :: "(string \<rightharpoonup> mval) \<Rightarrow> meta" where
  "meta_view M = \<lparr>m_cutover = mtxt (M meta_cutover),
     m_closed = (\<lambda>k. mtxt (M (meta_closed_daily @ k))),
     m_frozen = (\<lambda>l. case l of Daily \<Rightarrow> mtxt (M meta_closed_net)
       | Monthly \<Rightarrow> mtxt (M meta_closed_monthly) | Yearly \<Rightarrow> mtxt (M meta_closed_yearly) | Total \<Rightarrow> []),
     m_base_year = mtxt (M meta_base_year),
     m_base = (\<lambda>k. mflt (M (meta_baseline @ k))),
     m_offsets = (\<lambda>k. mflt (M (meta_offset @ k))),
     m_purged = mtxt (M meta_purged)\<rparr>"

definition text_key :: "string \<Rightarrow> bool" where
  "text_key k \<longleftrightarrow> k \<in> {meta_cutover, meta_base_year, meta_purged, meta_closed_net,
     meta_closed_monthly, meta_closed_yearly} \<or> (\<exists>x. k = meta_closed_daily @ x)"

definition float_key :: "string \<Rightarrow> bool" where
  "float_key k \<longleftrightarrow> (\<exists>x. k = meta_baseline @ x \<or> k = meta_offset @ x)"

definition typed :: "string \<Rightarrow> mval \<Rightarrow> bool" where
  "typed k v \<longleftrightarrow> (text_key k \<longrightarrow> (\<exists>s. v = MText s)) \<and> (float_key k \<longrightarrow> (\<exists>f. v = MFloat f))"

lemma cut_prefix_Some: "cut_prefix k p = Some x \<longleftrightarrow> k = p @ x"
  by (auto simp: cut_prefix_def) (metis append_take_drop_id)

lemma cut_prefix_None: "cut_prefix k p = None \<longleftrightarrow> (\<forall>x. k \<noteq> p @ x)"
  using cut_prefix_Some by (metis not_None_eq)

lemma cut_prefix_append [simp]: "cut_prefix (p @ x) p = Some x"
  by (simp add: cut_prefix_Some)

lemma level_fun_eqI:
  "f Daily = g Daily \<Longrightarrow> f Monthly = g Monthly \<Longrightarrow> f Yearly = g Yearly \<Longrightarrow> f Total = g Total \<Longrightarrow> f = g"
  by (rule ext) (metis level.exhaust)

lemma apply_text:
  "apply_meta meta_cutover (MText s) m = Inr (m\<lparr>m_cutover := s\<rparr>)"
  "apply_meta meta_base_year (MText s) m = Inr (m\<lparr>m_base_year := s\<rparr>)"
  "apply_meta meta_purged (MText s) m = Inr (m\<lparr>m_purged := s\<rparr>)"
  "apply_meta meta_closed_net (MText s) m = Inr (m\<lparr>m_frozen := (m_frozen m)(Daily := s)\<rparr>)"
  "apply_meta meta_closed_monthly (MText s) m = Inr (m\<lparr>m_frozen := (m_frozen m)(Monthly := s)\<rparr>)"
  "apply_meta meta_closed_yearly (MText s) m = Inr (m\<lparr>m_frozen := (m_frozen m)(Yearly := s)\<rparr>)"
  "apply_meta (meta_closed_daily @ x) (MText s) m = Inr (m\<lparr>m_closed := (m_closed m)(x := s)\<rparr>)"
  "apply_meta (meta_baseline @ x) (MFloat f) m = Inr (m\<lparr>m_base := (m_base m)(x \<mapsto> f)\<rparr>)"
  "apply_meta (meta_offset @ x) (MFloat f) m = Inr (m\<lparr>m_offsets := (m_offsets m)(x \<mapsto> f)\<rparr>)"
  by (simp_all add: apply_meta_def apply_prefixed_def cut_prefix_def meta_key_defs)

lemma apply_other:
  assumes "\<not> text_key k" "\<not> float_key k" shows "apply_meta k v m = Inr m"
  using assms unfolding text_key_def float_key_def
  by (auto simp: apply_meta_def apply_prefixed_def cut_prefix_Some split: option.splits)

lemma view_text:
  "meta_view (M(meta_cutover \<mapsto> MText s)) = (meta_view M)\<lparr>m_cutover := s\<rparr>"
  "meta_view (M(meta_base_year \<mapsto> MText s)) = (meta_view M)\<lparr>m_base_year := s\<rparr>"
  "meta_view (M(meta_purged \<mapsto> MText s)) = (meta_view M)\<lparr>m_purged := s\<rparr>"
  "meta_view (M(meta_closed_net \<mapsto> MText s))
     = (meta_view M)\<lparr>m_frozen := (m_frozen (meta_view M))(Daily := s)\<rparr>"
  "meta_view (M(meta_closed_monthly \<mapsto> MText s))
     = (meta_view M)\<lparr>m_frozen := (m_frozen (meta_view M))(Monthly := s)\<rparr>"
  "meta_view (M(meta_closed_yearly \<mapsto> MText s))
     = (meta_view M)\<lparr>m_frozen := (m_frozen (meta_view M))(Yearly := s)\<rparr>"
  "meta_view (M(meta_closed_daily @ x \<mapsto> MText s))
     = (meta_view M)\<lparr>m_closed := (m_closed (meta_view M))(x := s)\<rparr>"
  "meta_view (M(meta_baseline @ x \<mapsto> MFloat f))
     = (meta_view M)\<lparr>m_base := (m_base (meta_view M))(x \<mapsto> f)\<rparr>"
  "meta_view (M(meta_offset @ x \<mapsto> MFloat f))
     = (meta_view M)\<lparr>m_offsets := (m_offsets (meta_view M))(x \<mapsto> f)\<rparr>"
  "meta_view (M(meta_offset @ x := None))
     = (meta_view M)\<lparr>m_offsets := (m_offsets (meta_view M))(x := None)\<rparr>"
  by (simp_all add: meta_view_def meta_key_defs fun_eq_iff split: level.split)

lemma view_other:
  assumes "\<not> text_key k" "\<not> float_key k" shows "meta_view (M(k \<mapsto> v)) = meta_view M"
proof -
  have "meta_cutover \<noteq> k" "meta_base_year \<noteq> k" "meta_purged \<noteq> k" "meta_closed_net \<noteq> k"
    "meta_closed_monthly \<noteq> k" "meta_closed_yearly \<noteq> k" "\<And>x. meta_closed_daily @ x \<noteq> k"
    "\<And>x. meta_baseline @ x \<noteq> k" "\<And>x. meta_offset @ x \<noteq> k"
    using assms unfolding text_key_def float_key_def by blast+
  note * = this [THEN fun_upd_other]
  show ?thesis by (simp only: meta_view_def *)
qed

lemma apply_meta_view:
  assumes "typed k v" shows "apply_meta k v (meta_view M) = Inr (meta_view (M(k \<mapsto> v)))"
proof (cases "text_key k")
  case True
  with assms obtain s where "v = MText s" by (auto simp: typed_def)
  with True show ?thesis unfolding text_key_def by (auto simp: apply_text view_text)
next
  case notext: False
  show ?thesis
  proof (cases "float_key k")
    case True
    with assms obtain f where "v = MFloat f" by (auto simp: typed_def)
    with True show ?thesis unfolding float_key_def by (auto simp: apply_text view_text)
  next
    case False
    with notext show ?thesis by (simp add: apply_other view_other)
  qed
qed

lemma new_meta_view: "new_meta = meta_view Map.empty"
  by (simp add: new_meta_def meta_view_def fun_eq_iff split: level.split)

lemma apply_rows_append:
  "apply_rows (xs @ ys) m = (case apply_rows xs m of Inl e \<Rightarrow> Inl e | Inr m' \<Rightarrow> apply_rows ys m')"
  by (induction xs m rule: apply_rows.induct) (auto split: sum.splits)

lemma apply_rows_view:
  "distinct (map fst xs) \<Longrightarrow> \<forall>(k, v) \<in> set xs. typed k v \<Longrightarrow>
    apply_rows xs new_meta = Inr (meta_view (map_of xs))"
proof (induction xs rule: rev_induct)
  case Nil
  then show ?case by (simp add: new_meta_view)
next
  case (snoc x xs)
  obtain k v where x: "x = (k, v)" by fastforce
  have n: "map_of xs k = None" using snoc.prems(1) x by (simp add: map_of_eq_None_iff)
  then have "map_of (xs @ [(k, v)]) = (map_of xs)(k \<mapsto> v)"
    by (auto simp: fun_eq_iff map_add_def split: option.splits)
  with n show ?case
    using snoc x apply_meta_view [of k v "map_of xs"] by (simp add: apply_rows_append fun_upd_def)
qed

text \<open>The invariant: unique, well-typed meta rows, and the copy is what loading them gives.\<close>

definition coherent :: "db \<Rightarrow> meta \<Rightarrow> bool" where
  "coherent d m \<longleftrightarrow> distinct (map fst (d_meta d)) \<and> (\<forall>(k, v) \<in> set (d_meta d). typed k v) \<and>
     m = meta_view (map_of (d_meta d))"

lemma coherent_load: "coherent d m \<Longrightarrow> load_meta d = Inr m"
  by (simp add: coherent_def load_meta_def apply_rows_view)

lemma set_update: "(k', v') \<in> set (AList.update k v al) \<Longrightarrow> (k', v') = (k, v) \<or> (k', v') \<in> set al"
  by (induction al) (auto split: if_splits)

lemma coherent_put:
  assumes "coherent d m" "typed k v"
  shows "coherent (d\<lparr>d_meta := AList.update k v (d_meta d)\<rparr>) (meta_view ((map_of (d_meta d))(k \<mapsto> v)))"
  using assms by (auto simp: coherent_def distinct_update update_conv' dest: set_update)

lemma typed_keys:
  "typed meta_cutover (MText s)" "typed meta_base_year (MText s)" "typed meta_purged (MText s)"
  "typed meta_closed_net (MText s)" "typed meta_closed_monthly (MText s)"
  "typed meta_closed_yearly (MText s)" "typed (meta_closed_daily @ x) (MText s)"
  "typed (meta_baseline @ x) (MFloat f)" "typed (meta_offset @ x) (MFloat f)"
  by (auto simp: typed_def text_key_def float_key_def meta_key_defs)

lemmas coherent_puts = coherent_put [OF _ typed_keys(1), unfolded view_text]
  coherent_put [OF _ typed_keys(2), unfolded view_text]
  coherent_put [OF _ typed_keys(3), unfolded view_text]
  coherent_put [OF _ typed_keys(4), unfolded view_text]
  coherent_put [OF _ typed_keys(5), unfolded view_text]
  coherent_put [OF _ typed_keys(6), unfolded view_text]
  coherent_put [OF _ typed_keys(7), unfolded view_text]
  coherent_put [OF _ typed_keys(8), unfolded view_text]
  coherent_put [OF _ typed_keys(9), unfolded view_text]

section \<open>Rules for transactions\<close>

lemma exec_Inr: "exec ok f tx = Inr tx' \<Longrightarrow> ok \<and> tx_db tx' = f (tx_db tx)"
  by (auto simp: exec_def split: list.splits if_splits)

lemma exec_quiet [simp]:
  "exec True f \<lparr>tx_db = d, tx_faults = []\<rparr> = Inr \<lparr>tx_db = f d, tx_faults = []\<rparr>"
  by (simp add: exec_def)

lemma query_Inr: "query f tx = Inr (a, tx') \<Longrightarrow> a = f (tx_db tx) \<and> tx_db tx' = tx_db tx"
  by (auto simp: query_def dest!: exec_Inr split: sum.splits)

lemma put_meta_Inr:
  "put_meta k v tx = Inr tx' \<Longrightarrow> tx_db tx' = (tx_db tx)\<lparr>d_meta := AList.update k v (d_meta (tx_db tx))\<rparr>"
  by (auto simp: put_meta_def dest: exec_Inr)

lemma with_tx_Inr:
  assumes "with_tx f faults d = Inr (a, d')"
  obtains tx tx' where "tx_db tx = d" "f tx = Inr (a, tx')" "tx_db tx' = d'"
  using assms by (auto simp: with_tx_def dest!: exec_Inr split: sum.splits prod.splits)

lemma with_tx_quiet:
  assumes "f \<lparr>tx_db = d, tx_faults = []\<rparr> = Inr (a, \<lparr>tx_db = d', tx_faults = []\<rparr>)"
  shows "with_tx f [] d = Inr (a, d')"
  using assms by (simp add: with_tx_def)

lemma collect_loop_inv:
  assumes "collect_loop f rs s rej = Inr (rej', s')" "P s"
    "\<And>r s s'. r \<in> set rs \<Longrightarrow> P s \<Longrightarrow> f r s = Inr s' \<Longrightarrow> P s'"
  shows "P s'"
  using assms
proof (induction rs arbitrary: s rej)
  case (Cons r rs)
  have step: "P s \<Longrightarrow> f q s = Inr s' \<Longrightarrow> P s'" if "q \<in> set rs" for q s s'
    using Cons.prems(3) that by (meson list.set_intros(2))
  show ?case
  proof (cases "f r s")
    case (Inl e)
    with Cons.prems have "collect_loop f rs s (rej @ [e]) = Inr (rej', s')"
      by (auto split: if_splits)
    from Cons.IH [OF this Cons.prems(2)] step show ?thesis by blast
  next
    case (Inr s1)
    have "P s1" using Cons.prems(2,3) Inr by (meson list.set_intros(1))
    moreover have "collect_loop f rs s1 rej = Inr (rej', s')" using Cons.prems(1) Inr by simp
    ultimately show ?thesis using Cons.IH step by blast
  qed
qed auto

lemma each_inv:
  assumes "each f rs s = Inr s'" "P s"
    "\<And>r s s'. r \<in> set rs \<Longrightarrow> P s \<Longrightarrow> f r s = Inr s' \<Longrightarrow> P s'"
  shows "P s'"
  using assms
proof (induction rs arbitrary: s)
  case (Cons r rs)
  have step: "P s \<Longrightarrow> f q s = Inr s' \<Longrightarrow> P s'" if "q \<in> set rs" for q s s'
    using Cons.prems(3) that by (meson list.set_intros(2))
  obtain s1 where 1: "f r s = Inr s1" "each f rs s1 = Inr s'"
    using Cons.prems(1) by (auto split: sum.splits)
  have "P s1" using Cons.prems(2,3) 1 by (meson list.set_intros(1))
  with 1 Cons.IH step show ?case by blast
qed auto

text \<open>An accepted item has its effect at the end of the loop, if later steps keep it.\<close>

lemma collect_loop_establish:
  assumes "collect_loop f rs s rej = Inr (rej', s')" "r \<in> set rs" "I s"
    and keepI: "\<And>q s s'. q \<in> set rs \<Longrightarrow> I s \<Longrightarrow> f q s = Inr s' \<Longrightarrow> I s'"
    and acc: "\<And>s e. I s \<Longrightarrow> f r s = Inl e \<Longrightarrow> \<not> is_rejection e"
    and est: "\<And>s s'. I s \<Longrightarrow> f r s = Inr s' \<Longrightarrow> R s'"
    and keepR: "\<And>q s s'. q \<in> set rs \<Longrightarrow> I s \<Longrightarrow> R s \<Longrightarrow> f q s = Inr s' \<Longrightarrow> R s'"
  shows "R s'"
proof -
  obtain us vs where rs: "rs = us @ r # vs" using assms(2) by (auto dest: split_list)
  have "\<exists>rej1 s1. collect_loop f us s rej = Inr (rej1, s1) \<and>
      collect_loop f (r # vs) s1 rej1 = Inr (rej', s')"
    using assms(1) unfolding rs
  proof (induction us arbitrary: s rej)
    case (Cons u us)
    then show ?case by (cases "f u s") (auto split: if_splits)
  qed simp
  then obtain rej1 s1 where 1: "collect_loop f us s rej = Inr (rej1, s1)"
    "collect_loop f (r # vs) s1 rej1 = Inr (rej', s')" by blast
  have I1: "I s1" using collect_loop_inv [where P = I, OF 1(1) assms(3)] keepI rs by auto
  obtain s2 where 2: "f r s1 = Inr s2" "collect_loop f vs s2 rej1 = Inr (rej', s')"
    using 1(2) acc [OF I1] by (cases "f r s1") (auto split: if_splits)
  have "I s2 \<and> R s2" using 2(1) I1 est keepI [OF assms(2)] by blast
  moreover have "I s' \<and> R s'" if "q \<in> set vs" "I s \<and> R s" "f q s = Inr s'" for q s s'
    using keepI [of q s s'] keepR [of q s s'] that rs by auto
  ultimately have "I s' \<and> R s'"
    by (rule collect_loop_inv [where P = "\<lambda>s. I s \<and> R s", OF 2(2)])
  then show ?thesis ..
qed

text \<open>Where every step succeeds or is rejected the loop runs to its end.\<close>

lemma collect_loop_total:
  assumes "\<And>r s. r \<in> set rs \<Longrightarrow> Q s \<Longrightarrow>
      (\<exists>s'. f r s = Inr s' \<and> Q s') \<or> (\<exists>e. f r s = Inl e \<and> is_rejection e)" "Q s"
  shows "\<exists>rej' s'. collect_loop f rs s rej = Inr (rej', s') \<and> Q s'"
  using assms
proof (induction rs arbitrary: s rej)
  case (Cons r rs)
  have step: "(\<exists>s'. f q s = Inr s' \<and> Q s') \<or> (\<exists>e. f q s = Inl e \<and> is_rejection e)"
    if "q \<in> set rs" "Q s" for q s
    using Cons.prems(1) that by (meson list.set_intros(2))
  have "(\<exists>s'. f r s = Inr s' \<and> Q s') \<or> (\<exists>e. f r s = Inl e \<and> is_rejection e)"
    using Cons.prems by simp
  then show ?case using Cons.IH [OF step] Cons.prems(2) by auto
qed simp

text \<open>Rejections are exactly the reported errors, in order, when nothing fails.\<close>

lemma collect_loop_rejections:
  "collect_loop f rs s rej = Inr (rej', s') \<Longrightarrow> \<forall>e \<in> set rej. is_rejection e \<Longrightarrow>
    \<forall>e \<in> set rej'. is_rejection e"
  by (induction f rs s rej rule: collect_loop.induct) (auto split: sum.splits if_splits)

section \<open>Text order of watermarks\<close>

lemma advance_ge: "advance tx k cur v = Inr (w, tx') \<Longrightarrow> cur \<le> w \<and> v \<le> w \<and> (w = cur \<or> w = v)"
  by (auto simp: advance_def split: if_splits sum.splits)

lemma advance_Inr:
  "advance tx k cur v = Inr (w, tx') \<Longrightarrow>
    tx_db tx' = (if v \<le> cur then tx_db tx
      else (tx_db tx)\<lparr>d_meta := AList.update k (MText v) (d_meta (tx_db tx))\<rparr>) \<and>
    w = (if v \<le> cur then cur else v)"
  by (auto simp: advance_def dest: put_meta_Inr split: if_splits sum.splits)

lemma advance_closed_coherent:
  assumes "coherent (tx_db tx) m" "advance tx (meta_closed_daily @ k) (m_closed m k) v = Inr (w, tx')"
  shows "coherent (tx_db tx') (m\<lparr>m_closed := (m_closed m)(k := w)\<rparr>)"
proof (cases "v \<le> m_closed m k")
  case True
  then show ?thesis using advance_Inr [OF assms(2)] assms(1) by simp
next
  case False
  have m: "meta_view (map_of (d_meta (tx_db tx))) = m" using assms(1) by (simp add: coherent_def)
  show ?thesis
    using advance_Inr [OF assms(2)] False coherent_puts(7) [OF assms(1), of k v] by (simp add: m)
qed

lemma advance_frozen_coherent:
  assumes "coherent (tx_db tx) m" "frozen_key l = Inr k" "advance tx k (m_frozen m l) v = Inr (w, tx')"
  shows "coherent (tx_db tx') (m\<lparr>m_frozen := (m_frozen m)(l := w)\<rparr>)"
proof (cases "v \<le> m_frozen m l")
  case True
  then show ?thesis using advance_Inr [OF assms(3)] assms(1) by simp
next
  case False
  have m: "meta_view (map_of (d_meta (tx_db tx))) = m" using assms(1) by (simp add: coherent_def)
  show ?thesis
    using advance_Inr [OF assms(3)] False coherent_puts(4-6) [OF assms(1), of v] assms(2)
    by (cases l) (auto simp: m)
qed

lemma coherent_frame:
  "coherent d m \<Longrightarrow> d_meta d' = d_meta d \<Longrightarrow> coherent d' m"
  by (simp add: coherent_def)

end
