(* ===== verification/PollerStore.thy ===== *)
theory PollerStore
  imports Store
begin

text \<open>
  internal/storage/poller_store.go: the write domain of the poller. One poll is one
  transaction of max-writes, status changes and day closes; rows outside the domain or in a
  closed day are skipped and reported.
\<close>

record daily_row =
  dr_key :: string
  dr_day :: string
  dr_value :: float64
  dr_raw :: float64

record status_row =
  sr_key :: string
  sr_raw :: float64
  sr_at :: int

record day_close =
  dc_key :: string
  dc_day :: string

record poll_write =
  pw_daily :: "daily_row list"
  pw_status :: "status_row list"
  pw_close :: "day_close list"

record seed =
  sd_daily :: "(string \<times> (string \<times> float64) list) list"
  sd_status :: "(string \<times> float64) list"
  sd_closed :: "string \<Rightarrow> string"

definition writer_poller :: string where "writer_poller = ''poller''"

section \<open>Writes\<close>

text \<open>The upsert keeps the larger value: \<open>WHERE excluded.value > daily_values.value\<close>.\<close>

definition max_upsert :: "string \<Rightarrow> string \<Rightarrow> float64 \<Rightarrow> float64 \<Rightarrow> rows \<Rightarrow> rows" where
  "max_upsert k day v raw rs = (case map_of rs (k, day) of
       Some (old, _) \<Rightarrow> if fless old v then AList.update (k, day) (v, raw) rs else rs
     | None \<Rightarrow> AList.update (k, day) (v, raw) rs)"

definition poller_owned :: "register \<Rightarrow> bool" where
  "poller_owned r \<longleftrightarrow> \<not> (reg_store r \<noteq> StoreDaily \<or> reg_net r)"

definition write_daily :: "registry \<Rightarrow> daily_row \<Rightarrow> meta \<times> txn \<Rightarrow> storage_error + meta \<times> txn" where
  "write_daily g r s = (case s of (m, tx) \<Rightarrow>
     case lookup_reg g (dr_key r) of Inl e \<Rightarrow> Inl e | Inr reg \<Rightarrow>
     if \<not> poller_owned reg then Inl (WriteDomain writer_poller (dr_key r)
       ''only non-net daily registers belong to the poller'')
     else let closed = m_closed m (dr_key r) in
     if dr_day r \<le> closed then Inl (PeriodClosed ''daily'' (dr_key r) (dr_day r) closed)
     else (case exec (dr_value r \<noteq> NaN \<and> dr_raw r \<noteq> NaN)
         (\<lambda>d. d\<lparr>d_daily := max_upsert (dr_key r) (dr_day r) (dr_value r) (dr_raw r) (d_daily d)\<rparr>) tx of
       Inl e \<Rightarrow> Inl e | Inr tx' \<Rightarrow> Inr (m, tx')))"

text \<open>\<open>statusTimestamp\<close>: a fixed-width UTC text, ordered as its millisecond.\<close>

definition status_ms :: "int \<Rightarrow> int" where
  "status_ms t = t div 1000000"

definition write_status :: "registry \<Rightarrow> status_row \<Rightarrow> meta \<times> txn \<Rightarrow> storage_error + meta \<times> txn" where
  "write_status g r s = (case s of (m, tx) \<Rightarrow>
     case lookup_reg g (sr_key r) of Inl e \<Rightarrow> Inl e | Inr reg \<Rightarrow>
     if reg_store reg \<noteq> StoreStatus
       then Inl (WriteDomain writer_poller (sr_key r) ''not a status register'')
     else (case exec (sr_raw r \<noteq> NaN) (\<lambda>d. d\<lparr>d_error :=
           AList.update (sr_key r, status_ms (sr_at r)) (sr_raw r) (d_error d)\<rparr>) tx of
       Inl e \<Rightarrow> Inl e | Inr tx' \<Rightarrow> Inr (m, tx')))"

definition close_day :: "registry \<Rightarrow> day_close \<Rightarrow> meta \<times> txn \<Rightarrow> storage_error + meta \<times> txn" where
  "close_day g c s = (case s of (m, tx) \<Rightarrow>
     case lookup_reg g (dc_key c) of Inl e \<Rightarrow> Inl e | Inr reg \<Rightarrow>
     if \<not> poller_owned reg then Inl (WriteDomain writer_poller (dc_key c)
       ''only non-net daily registers have poller day closes'')
     else (case advance tx (meta_closed_daily @ dc_key c) (m_closed m (dc_key c)) (dc_day c) of
       Inl e \<Rightarrow> Inl e
     | Inr (v, tx') \<Rightarrow> Inr (m\<lparr>m_closed := (m_closed m)(dc_key c := v)\<rparr>, tx')))"

definition apply_poll :: "registry \<Rightarrow> poll_write \<Rightarrow> meta \<times> txn
    \<Rightarrow> storage_error + storage_error list \<times> meta \<times> txn" where
  "apply_poll g w s =
     (case collect_loop (write_daily g) (pw_daily w) s [] of Inl e \<Rightarrow> Inl e | Inr (rej, s) \<Rightarrow>
      case collect_loop (write_status g) (pw_status w) s rej of Inl e \<Rightarrow> Inl e | Inr (rej, s) \<Rightarrow>
      collect_loop (close_day g) (pw_close w) s rej)"

text \<open>The result is the storage error, or the rejected rows of a committed poll.\<close>

definition write_poll :: "registry \<Rightarrow> poll_write \<Rightarrow> bool list \<Rightarrow> store
    \<Rightarrow> (storage_error + storage_error list) \<times> store" where
  "write_poll g w faults s =
     (case with_tx (\<lambda>tx. case apply_poll g w (s_meta s, tx) of Inl e \<Rightarrow> Inl e
          | Inr (rej, m, tx') \<Rightarrow> Inr ((rej, m), tx')) faults (s_db s) of
        Inl e \<Rightarrow> (Inl e, s)
      | Inr ((rej, m), d) \<Rightarrow> (Inr rej, s\<lparr>s_db := d, s_meta := m\<rparr>))"

section \<open>Seed\<close>

definition daily_rows :: "string list \<Rightarrow> db \<Rightarrow> (string \<times> (string \<times> float64) list) list" where
  "daily_rows days d = map (\<lambda>day. (day, map (\<lambda>((k, p), v, raw). (k, v))
     (filter (\<lambda>((k, p), v). p = day) (d_daily d)))) (remdups days)"

text \<open>The value of the last row of each key (rows are in id order).\<close>

definition last_status :: "db \<Rightarrow> (string \<times> float64) list" where
  "last_status d = foldl (\<lambda>out ((k, t), v). AList.update k v out) [] (d_error d)"

definition seed_of :: "store \<Rightarrow> string list \<Rightarrow> seed" where
  "seed_of s days = \<lparr>sd_daily = daily_rows days (s_db s), sd_status = last_status (s_db s),
     sd_closed = m_closed (s_meta s)\<rparr>"

section \<open>Coherence\<close>

lemma write_daily_Inr:
  assumes "write_daily g r (m, tx) = Inr (m', tx')"
  shows "\<exists>reg. by_key g (dr_key r) = Some reg \<and> poller_owned reg \<and> \<not> dr_day r \<le> m_closed m (dr_key r) \<and>
    dr_value r \<noteq> NaN \<and> m' = m \<and> tx_db tx' = (tx_db tx)\<lparr>d_daily :=
      max_upsert (dr_key r) (dr_day r) (dr_value r) (dr_raw r) (d_daily (tx_db tx))\<rparr>"
  using assms
  by (auto simp: write_daily_def lookup_reg_def Let_def dest: exec_Inr
      split: sum.splits option.splits if_splits)

lemma write_status_Inr:
  assumes "write_status g r (m, tx) = Inr (m', tx')"
  shows "m' = m \<and> tx_db tx' = (tx_db tx)\<lparr>d_error :=
    AList.update (sr_key r, status_ms (sr_at r)) (sr_raw r) (d_error (tx_db tx))\<rparr>"
  using assms
  by (auto simp: write_status_def lookup_reg_def dest: exec_Inr
      split: sum.splits option.splits if_splits)

lemma close_day_Inr:
  assumes "close_day g c (m, tx) = Inr (m', tx')"
  shows "\<exists>reg w. by_key g (dc_key c) = Some reg \<and> poller_owned reg \<and>
    advance tx (meta_closed_daily @ dc_key c) (m_closed m (dc_key c)) (dc_day c) = Inr (w, tx') \<and>
    m' = m\<lparr>m_closed := (m_closed m)(dc_key c := w)\<rparr>"
  using assms
  by (auto simp: close_day_def lookup_reg_def split: sum.splits option.splits if_splits)

text \<open>What every step of a poll keeps, by the loops over the three lists.\<close>

lemma apply_poll_inv:
  assumes ap: "apply_poll g w s = Inr (rej, s')" and P: "P s"
    and d: "\<And>r m tx m' tx'. r \<in> set (pw_daily w) \<Longrightarrow> P (m, tx) \<Longrightarrow>
      write_daily g r (m, tx) = Inr (m', tx') \<Longrightarrow> P (m', tx')"
    and st: "\<And>r m tx m' tx'. r \<in> set (pw_status w) \<Longrightarrow> P (m, tx) \<Longrightarrow>
      write_status g r (m, tx) = Inr (m', tx') \<Longrightarrow> P (m', tx')"
    and c: "\<And>r m tx m' tx'. r \<in> set (pw_close w) \<Longrightarrow> P (m, tx) \<Longrightarrow>
      close_day g r (m, tx) = Inr (m', tx') \<Longrightarrow> P (m', tx')"
  shows "P s'"
proof -
  obtain r1 s1 r2 s2 where
    1: "collect_loop (write_daily g) (pw_daily w) s [] = Inr (r1, s1)" and
    2: "collect_loop (write_status g) (pw_status w) s1 r1 = Inr (r2, s2)" and
    3: "collect_loop (close_day g) (pw_close w) s2 r2 = Inr (rej, s')"
    using ap by (auto simp: apply_poll_def split: sum.splits prod.splits)
  have "P s1" using collect_loop_inv [where P = P, OF 1 P] d by auto
  from collect_loop_inv [where P = P, OF 2 this] st have "P s2" by auto
  from collect_loop_inv [where P = P, OF 3 this] c show ?thesis by auto
qed

lemma write_poll_Inr:
  assumes "write_poll g w faults s = (Inr rej, s')"
  shows "\<exists>tx tx'. tx_db tx = s_db s \<and> apply_poll g w (s_meta s, tx) = Inr (rej, s_meta s', tx') \<and>
    tx_db tx' = s_db s'"
proof -
  obtain m d' where w: "with_tx (\<lambda>tx. case apply_poll g w (s_meta s, tx) of Inl e \<Rightarrow> Inl e
      | Inr (rej, m, tx') \<Rightarrow> Inr ((rej, m), tx')) faults (s_db s) = Inr ((rej, m), d')"
    and s': "s' = s\<lparr>s_db := d', s_meta := m\<rparr>"
    using assms by (auto simp: write_poll_def split: sum.splits prod.splits)
  from w obtain tx tx' where tx: "tx_db tx = s_db s" "tx_db tx' = d'"
    and a: "(case apply_poll g w (s_meta s, tx) of Inl e \<Rightarrow> Inl e
      | Inr (rej, m, tx') \<Rightarrow> Inr ((rej, m), tx')) = Inr ((rej, m), tx')"
    by (rule with_tx_Inr)
  from a have "apply_poll g w (s_meta s, tx) = Inr (rej, m, tx')"
    by (auto split: sum.splits prod.splits)
  with tx s' show ?thesis by auto
qed

lemma write_poll_inv:
  assumes wp: "write_poll g w faults s = (res, s')"
    and P: "\<And>tx. tx_db tx = s_db s \<Longrightarrow> P (s_meta s, tx)"
    and d: "\<And>r m tx m' tx'. r \<in> set (pw_daily w) \<Longrightarrow> P (m, tx) \<Longrightarrow>
      write_daily g r (m, tx) = Inr (m', tx') \<Longrightarrow> P (m', tx')"
    and st: "\<And>r m tx m' tx'. r \<in> set (pw_status w) \<Longrightarrow> P (m, tx) \<Longrightarrow>
      write_status g r (m, tx) = Inr (m', tx') \<Longrightarrow> P (m', tx')"
    and c: "\<And>r m tx m' tx'. r \<in> set (pw_close w) \<Longrightarrow> P (m, tx) \<Longrightarrow>
      close_day g r (m, tx) = Inr (m', tx') \<Longrightarrow> P (m', tx')"
  shows "\<exists>tx. tx_db tx = s_db s' \<and> P (s_meta s', tx)"
proof (cases res)
  case (Inl e)
  then have "s' = s" using wp by (auto simp: write_poll_def split: sum.splits prod.splits)
  with P [of "\<lparr>tx_db = s_db s, tx_faults = []\<rparr>"] show ?thesis by force
next
  case (Inr rej)
  with write_poll_Inr wp obtain tx tx' where
    "tx_db tx = s_db s" "apply_poll g w (s_meta s, tx) = Inr (rej, s_meta s', tx')" "tx_db tx' = s_db s'"
    by blast
  with apply_poll_inv [of g w "(s_meta s, tx)" rej "(s_meta s', tx')" P] P d st c
  show ?thesis by auto
qed

definition store_ok :: "store \<Rightarrow> bool" where
  "store_ok s \<longleftrightarrow> coherent (s_db s) (s_meta s)"

lemma write_poll_coherent [inv_intros]:
  assumes "store_ok s" "write_poll g w faults s = (res, s')" shows "store_ok s'"
proof -
  have "\<exists>tx :: txn. tx_db tx = s_db s' \<and> (\<lambda>(m, tx). coherent (tx_db tx) m) (s_meta s', tx)"
    by (rule write_poll_inv [where P = "\<lambda>(m, tx). coherent (tx_db tx) m", OF assms(2)])
      (use assms(1) in \<open>auto simp: store_ok_def dest!: write_daily_Inr write_status_Inr close_day_Inr
        intro: advance_closed_coherent coherent_frame\<close>)
  then show ?thesis by (auto simp: store_ok_def)
qed

section \<open>Properties of a poll\<close>

definition row_accepted :: "registry \<Rightarrow> meta \<Rightarrow> daily_row \<Rightarrow> bool" where
  "row_accepted g m r \<longleftrightarrow> (case by_key g (dr_key r) of None \<Rightarrow> False
     | Some reg \<Rightarrow> poller_owned reg \<and> m_closed m (dr_key r) < dr_day r)"

definition grown :: "(float64 \<times> float64) option \<Rightarrow> (float64 \<times> float64) option \<Rightarrow> bool" where
  "grown x y \<longleftrightarrow> x = y \<or> (case x of None \<Rightarrow> True
     | Some v \<Rightarrow> (case y of None \<Rightarrow> False | Some w \<Rightarrow> fless (fst v) (fst w)))"

lemma grown_refl [simp]: "grown x x"
  by (simp add: grown_def)

lemma grown_trans: "grown x y \<Longrightarrow> grown y z \<Longrightarrow> grown x z"
  by (auto simp: grown_def split: option.splits intro: fless_trans)

lemma max_upsert_other:
  "(k', day') \<noteq> (k, day) \<Longrightarrow> map_of (max_upsert k day v raw rs) (k', day') = map_of rs (k', day')"
  by (auto simp: max_upsert_def update_conv' split: option.splits)

lemma max_upsert_same:
  "map_of (max_upsert k day v raw rs) (k, day) =
    (case map_of rs (k, day) of Some (old, oraw) \<Rightarrow> Some (if fless old v then (v, raw) else (old, oraw))
     | None \<Rightarrow> Some (v, raw))"
  by (auto simp: max_upsert_def update_conv' split: option.splits)

lemma max_upsert_grown: "grown (map_of rs x) (map_of (max_upsert k day v raw rs) x)"
proof (cases "x = (k, day)")
  case True
  then show ?thesis by (auto simp: max_upsert_same grown_def split: option.splits)
next
  case False
  then show ?thesis by (cases x) (simp add: max_upsert_other)
qed

definition stored_at_least :: "rows \<Rightarrow> string \<times> string \<Rightarrow> float64 \<Rightarrow> bool" where
  "stored_at_least rs x v \<longleftrightarrow> (case map_of rs x of None \<Rightarrow> False | Some (w, raw) \<Rightarrow> \<not> fless w v)"

lemma stored_at_least_grown:
  "stored_at_least rs x v \<Longrightarrow> grown (map_of rs x) (map_of rs' x) \<Longrightarrow> stored_at_least rs' x v"
  by (auto simp: stored_at_least_def grown_def split: option.splits intro: fless_trans)

lemma stored_at_least_upsert:
  "stored_at_least rs x v \<Longrightarrow> stored_at_least (max_upsert k day w raw rs) x v"
  using max_upsert_grown by (rule stored_at_least_grown [rotated])

lemma max_upsert_stored: "stored_at_least (max_upsert k day v raw rs) (k, day) v"
  by (auto simp: stored_at_least_def max_upsert_same split: option.splits)

lemma exec_not_rejection: "exec ok f tx = Inl e \<Longrightarrow> \<not> is_rejection e"
  by (auto simp: exec_def split: list.splits if_splits)

lemma write_poll_closes:
  assumes "write_poll g w faults s = (Inr rej, s')" "c \<in> set (pw_close w)" "by_key g (dc_key c) = Some reg"
    "poller_owned reg"
  shows "dc_day c \<le> m_closed (s_meta s') (dc_key c)"
proof -
  obtain tx tx' where ap: "apply_poll g w (s_meta s, tx) = Inr (rej, s_meta s', tx')"
    using write_poll_Inr [OF assms(1)] by blast
  obtain r2 m2 t2 where
    3: "collect_loop (close_day g) (pw_close w) (m2, t2) r2 = Inr (rej, s_meta s', tx')"
    using ap by (auto simp: apply_poll_def split: sum.splits prod.splits)
  have "(\<lambda>(m :: meta, t :: txn). dc_day c \<le> m_closed m (dc_key c)) (s_meta s', tx')"
  proof (rule collect_loop_establish [OF 3 assms(2), where I = "\<lambda>s. True"])
    show "\<not> is_rejection e" if "close_day g c x = Inl e" for x e
      using that assms(3,4)
      by (cases x) (auto simp: close_day_def lookup_reg_def advance_def put_meta_def
          dest: exec_not_rejection split: sum.splits if_splits)
  qed (auto dest!: close_day_Inr advance_ge intro: order_trans)
  then show ?thesis by simp
qed

lemma write_poll_frame:
  assumes "write_poll g w faults s = (res, s')"
  shows "(day \<le> m_closed (s_meta s) k \<longrightarrow>
      map_of (d_daily (s_db s')) (k, day) = map_of (d_daily (s_db s)) (k, day)) \<and>
    grown (map_of (d_daily (s_db s)) (k, day)) (map_of (d_daily (s_db s')) (k, day)) \<and>
    d_monthly (s_db s') = d_monthly (s_db s) \<and> d_yearly (s_db s') = d_yearly (s_db s) \<and>
    d_total (s_db s') = d_total (s_db s) \<and> m_frozen (s_meta s') = m_frozen (s_meta s) \<and>
    m_closed (s_meta s) k \<le> m_closed (s_meta s') k"
proof -
  define P where "P = (\<lambda>(m :: meta, tx :: txn).
    (day \<le> m_closed (s_meta s) k \<longrightarrow>
      map_of (d_daily (tx_db tx)) (k, day) = map_of (d_daily (s_db s)) (k, day)) \<and>
    grown (map_of (d_daily (s_db s)) (k, day)) (map_of (d_daily (tx_db tx)) (k, day)) \<and>
    d_monthly (tx_db tx) = d_monthly (s_db s) \<and> d_yearly (tx_db tx) = d_yearly (s_db s) \<and>
    d_total (tx_db tx) = d_total (s_db s) \<and> m_frozen m = m_frozen (s_meta s) \<and>
    m_closed (s_meta s) k \<le> m_closed m k)"
  have "\<exists>tx :: txn. tx_db tx = s_db s' \<and> P (s_meta s', tx)"
  proof (rule write_poll_inv [where P = P, OF assms])
    show "P (s_meta s, tx)" if "tx_db tx = s_db s" for tx using that by (simp add: P_def)
    show "P (m', tx')" if "P (m, tx)" "write_daily g r (m, tx) = Inr (m', tx')" for r m tx m' tx'
    proof -
      have "(k, day) \<noteq> (dr_key r, dr_day r)" if "day \<le> m_closed (s_meta s) k"
        using that write_daily_Inr [OF \<open>write_daily g r (m, tx) = _\<close>] \<open>P (m, tx)\<close>
        by (auto simp: P_def)
      moreover have "grown (map_of (d_daily (s_db s)) (k, day)) (map_of (d_daily (tx_db tx)) (k, day))"
        using that(1) by (simp add: P_def)
      from grown_trans [OF this max_upsert_grown]
      have "grown (map_of (d_daily (s_db s)) (k, day)) (map_of (d_daily (tx_db tx')) (k, day))"
        using write_daily_Inr [OF that(2)] by auto
      ultimately show ?thesis using that write_daily_Inr [OF that(2)]
        by (auto simp: P_def max_upsert_other)
    qed
    show "P (m', tx')" if "P (m, tx)" "write_status g r (m, tx) = Inr (m', tx')" for r m tx m' tx'
      using that write_status_Inr [OF that(2)] by (auto simp: P_def)
    show "P (m', tx')" if "P (m, tx)" "close_day g r (m, tx) = Inr (m', tx')" for r m tx m' tx'
      using that close_day_Inr [OF that(2)]
      by (auto simp: P_def dest!: advance_Inr intro: order_trans split: if_splits)
  qed
  then show ?thesis by (auto simp: P_def)
qed

text \<open>C3: A poll respects what is closed, whatever it carries and whichever statement fails: a row
  of a closed day is untouched, other daily rows only grow or appear, computed tables and
  freeze marks stay as they were, and no day watermark moves back.\<close>

theorem write_poll_respects_closed:
  assumes "write_poll g w faults s = (res, s')"
  shows "(day \<le> m_closed (s_meta s) k \<longrightarrow>
      map_of (d_daily (s_db s')) (k, day) = map_of (d_daily (s_db s)) (k, day)) \<and>
    grown (map_of (d_daily (s_db s)) (k, day)) (map_of (d_daily (s_db s')) (k, day)) \<and>
    d_monthly (s_db s') = d_monthly (s_db s) \<and> d_yearly (s_db s') = d_yearly (s_db s) \<and>
    d_total (s_db s') = d_total (s_db s) \<and> m_frozen (s_meta s') = m_frozen (s_meta s) \<and>
    m_closed (s_meta s) k \<le> m_closed (s_meta s') k"
  by (rule write_poll_frame [OF assms])

lemma write_daily_rejects:
  "\<not> row_accepted g m r \<Longrightarrow> \<exists>e. write_daily g r (m, tx) = Inl e \<and> is_rejection e"
  by (cases "by_key g (dr_key r)")
    (auto simp: row_accepted_def write_daily_def lookup_reg_def Let_def not_less)

lemma write_daily_accepts:
  assumes "row_accepted g m r"
  shows "write_daily g r (m, tx) = (case exec (dr_value r \<noteq> NaN \<and> dr_raw r \<noteq> NaN)
      (\<lambda>d. d\<lparr>d_daily := max_upsert (dr_key r) (dr_day r) (dr_value r) (dr_raw r) (d_daily d)\<rparr>) tx of
    Inl e \<Rightarrow> Inl e | Inr tx' \<Rightarrow> Inr (m, tx'))"
  using assms
  by (auto simp: row_accepted_def write_daily_def lookup_reg_def Let_def split: option.splits)

lemma poll_stores:
  assumes "write_poll g w faults s = (Inr rej, s')"
  shows "(\<forall>r \<in> set (pw_daily w). row_accepted g (s_meta s) r \<longrightarrow>
      stored_at_least (d_daily (s_db s')) (dr_key r, dr_day r) (dr_value r)) \<and>
    (\<forall>c \<in> set (pw_close w). (case by_key g (dc_key c) of None \<Rightarrow> False
        | Some reg \<Rightarrow> poller_owned reg) \<longrightarrow> dc_day c \<le> m_closed (s_meta s') (dc_key c)) \<and>
    (\<forall>e \<in> set rej. is_rejection e)"
proof -
  obtain tx tx' where tx: "tx_db tx = s_db s" "tx_db tx' = s_db s'"
    and ap: "apply_poll g w (s_meta s, tx) = Inr (rej, s_meta s', tx')"
    using write_poll_Inr [OF assms] by blast
  obtain r1 m1 t1 r2 m2 t2 where
    1: "collect_loop (write_daily g) (pw_daily w) (s_meta s, tx) [] = Inr (r1, m1, t1)" and
    2: "collect_loop (write_status g) (pw_status w) (m1, t1) r1 = Inr (r2, m2, t2)" and
    3: "collect_loop (close_day g) (pw_close w) (m2, t2) r2 = Inr (rej, s_meta s', tx')"
    using ap by (auto simp: apply_poll_def split: sum.splits prod.splits)
  have rej: "\<forall>e \<in> set rej. is_rejection e"
    using collect_loop_rejections [OF 3 collect_loop_rejections [OF 2 collect_loop_rejections [OF 1]]]
    by simp
  have daily: "d_daily (tx_db tx') = d_daily (tx_db t1)"
  proof -
    have "(\<lambda>(m :: meta, t :: txn). d_daily (tx_db t) = d_daily (tx_db t1)) (m2, t2)"
      by (rule collect_loop_inv [OF 2]) (auto dest: write_status_Inr)
    then have "d_daily (tx_db t2) = d_daily (tx_db t1)" by simp
    moreover have "(\<lambda>(m :: meta, t :: txn). d_daily (tx_db t) = d_daily (tx_db t2)) (s_meta s', tx')"
      by (rule collect_loop_inv [OF 3]) (auto dest!: close_day_Inr advance_Inr split: if_splits)
    ultimately show ?thesis by simp
  qed
  have "stored_at_least (d_daily (s_db s')) (dr_key r, dr_day r) (dr_value r)"
    if r: "r \<in> set (pw_daily w)" "row_accepted g (s_meta s) r" for r
  proof -
    have "(\<lambda>(m :: meta, t :: txn). stored_at_least (d_daily (tx_db t)) (dr_key r, dr_day r) (dr_value r))
        (m1, t1)"
    proof (rule collect_loop_establish [OF 1 r(1), where I = "\<lambda>(m, t). m = s_meta s"])
      show "\<not> is_rejection e" if "case x of (m, t) \<Rightarrow> m = s_meta s" "write_daily g r x = Inl e" for x e
        using that r(2)
        by (cases x) (auto simp: write_daily_accepts dest: exec_not_rejection split: sum.splits)
    qed (auto dest!: write_daily_Inr intro: max_upsert_stored stored_at_least_upsert)
    then show ?thesis using daily tx by simp
  qed
  moreover have "dc_day c \<le> m_closed (s_meta s') (dc_key c)"
    if "c \<in> set (pw_close w)" "by_key g (dc_key c) = Some reg" "poller_owned reg" for c reg
    using that by (rule write_poll_closes [OF assms])
  ultimately show ?thesis using rej by (auto split: option.splits)
qed

text \<open>A committed poll has stored every row of an open day of a poller-owned key with at least
  its value, and has closed every day asked for on such a key, no matter how many other rows
  were rejected.\<close>

theorem write_poll_stores:
  assumes "write_poll g w faults s = (Inr rej, s')"
  shows "(\<forall>r \<in> set (pw_daily w). row_accepted g (s_meta s) r \<longrightarrow>
      stored_at_least (d_daily (s_db s')) (dr_key r, dr_day r) (dr_value r)) \<and>
    (\<forall>c \<in> set (pw_close w). (case by_key g (dc_key c) of None \<Rightarrow> False
        | Some reg \<Rightarrow> poller_owned reg) \<longrightarrow> dc_day c \<le> m_closed (s_meta s') (dc_key c)) \<and>
    (\<forall>e \<in> set rej. is_rejection e)"
  by (rule poll_stores [OF assms])

text \<open>Rejections never roll back a poll: when no statement fails and no value is NaN, every
  poll commits, whatever rows it carries, and coherence of the meta copy is kept.\<close>

theorem write_poll_commits:
  assumes "\<forall>r \<in> set (pw_daily w). dr_value r \<noteq> NaN \<and> dr_raw r \<noteq> NaN"
    "\<forall>r \<in> set (pw_status w). sr_raw r \<noteq> NaN" "store_ok s"
  shows "\<exists>rej s'. write_poll g w [] s = (Inr rej, s') \<and> store_ok s'"
proof -
  define Q where "Q = (\<lambda>(m :: meta, t). \<exists>d. t = \<lparr>tx_db = d, tx_faults = []\<rparr>)"
  have 1: "\<exists>r1 s1. collect_loop (write_daily g) (pw_daily w) x rej = Inr (r1, s1) \<and> Q s1"
    if "Q x" for x rej
  proof (rule collect_loop_total [where Q = Q, OF _ that])
    fix r s assume r: "r \<in> set (pw_daily w)" "Q s"
    obtain m d where s: "s = (m, \<lparr>tx_db = d, tx_faults = []\<rparr>)" using r(2) by (auto simp: Q_def)
    show "(\<exists>s'. write_daily g r s = Inr s' \<and> Q s') \<or> (\<exists>e. write_daily g r s = Inl e \<and> is_rejection e)"
      using write_daily_rejects [of g m r] assms(1) r(1)
      by (cases "row_accepted g m r") (auto simp: s Q_def write_daily_accepts)
  qed
  have 2: "\<exists>r1 s1. collect_loop (write_status g) (pw_status w) x rej = Inr (r1, s1) \<and> Q s1"
    if "Q x" for x rej
  proof (rule collect_loop_total [where Q = Q, OF _ that])
    fix r s assume r: "r \<in> set (pw_status w)" "Q s"
    obtain m d where s: "s = (m, \<lparr>tx_db = d, tx_faults = []\<rparr>)" using r(2) by (auto simp: Q_def)
    have ok: "(sr_raw r \<noteq> NaN) = True" using assms(2) r(1) by simp
    show "(\<exists>s'. write_status g r s = Inr s' \<and> Q s') \<or> (\<exists>e. write_status g r s = Inl e \<and> is_rejection e)"
      by (cases "by_key g (sr_key r)"; cases "reg_store (the (by_key g (sr_key r))) = StoreStatus")
        (simp_all add: s Q_def write_status_def lookup_reg_def ok)
  qed
  have 3: "\<exists>r1 s1. collect_loop (close_day g) (pw_close w) x rej = Inr (r1, s1) \<and> Q s1"
    if "Q x" for x rej
  proof (rule collect_loop_total [where Q = Q, OF _ that])
    fix c s assume "Q s"
    then obtain m d where s: "s = (m, \<lparr>tx_db = d, tx_faults = []\<rparr>)" by (auto simp: Q_def)
    show "(\<exists>s'. close_day g c s = Inr s' \<and> Q s') \<or> (\<exists>e. close_day g c s = Inl e \<and> is_rejection e)"
      by (cases "by_key g (dc_key c)"; cases "poller_owned (the (by_key g (dc_key c)))")
        (simp_all add: s Q_def close_day_def lookup_reg_def advance_def put_meta_def)
  qed
  let ?x = "(s_meta s, \<lparr>tx_db = s_db s, tx_faults = []\<rparr>)"
  have "Q ?x" by (simp add: Q_def)
  from 1 [OF this] obtain r1 s1
    where s1: "collect_loop (write_daily g) (pw_daily w) ?x [] = Inr (r1, s1)" "Q s1" by blast
  from 2 [OF s1(2)] obtain r2 s2
    where s2: "collect_loop (write_status g) (pw_status w) s1 r1 = Inr (r2, s2)" "Q s2" by blast
  from 3 [OF s2(2)] obtain rej s3
    where s3: "collect_loop (close_day g) (pw_close w) s2 r2 = Inr (rej, s3)" "Q s3" by blast
  from s3(2) obtain m d where q: "s3 = (m, \<lparr>tx_db = d, tx_faults = []\<rparr>)" by (auto simp: Q_def)
  have "apply_poll g w ?x = Inr (rej, m, \<lparr>tx_db = d, tx_faults = []\<rparr>)"
    by (simp add: apply_poll_def s1(1) s2(1) s3(1) q)
  then have "write_poll g w [] s = (Inr rej, s\<lparr>s_db := d, s_meta := m\<rparr>)"
    by (simp add: write_poll_def with_tx_def)
  with write_poll_coherent [OF assms(3)] show ?thesis by blast
qed

section \<open>A poll of the program's own registry\<close>

definition pv_reg :: register where
  "pv_reg = energy_daily (kind ''pv_energy'' ''PV Energy'' 33035 [])"

definition pv_key :: string where "pv_key = ''pv_energy_daily''"

lemma by_key_pv: "by_key solis_registry pv_key = Some pv_reg"
proof -
  have "pv_reg \<in> set table_regs"
    by (simp add: table_regs_def energy_registers_def energy_kinds_def pv_reg_def Let_def)
  moreover have "reg_key pv_reg = pv_key"
    by (simp add: pv_reg_def pv_key_def energy_daily_def kind_def)
  ultimately show ?thesis
    using new_registry_parts [OF solis_registry_built] map_of_keyed [of reg_key table_regs]
    by (simp add: by_key_def)
qed

lemma pv_owned: "poller_owned pv_reg"
  by (simp add: poller_owned_def pv_reg_def energy_daily_def)

text \<open>January 4 is closed for PV energy; the poll writes January 4 and 5 and closes January 5.\<close>

definition demo_db :: db where
  "demo_db = \<lparr>d_daily = [((pv_key, ''2024-01-04''), Fin 7, Fin 70)], d_monthly = [], d_yearly = [],
     d_total = [], d_error = [], d_meta = [(meta_closed_daily @ pv_key, MText ''2024-01-04'')]\<rparr>"

definition demo_store :: store where
  "demo_store = \<lparr>s_db = demo_db, s_meta = meta_view (map_of (d_meta demo_db)), s_vacuumed = None\<rparr>"

definition demo_poll :: poll_write where
  "demo_poll = \<lparr>pw_daily = [\<lparr>dr_key = pv_key, dr_day = ''2024-01-04'', dr_value = Fin 9, dr_raw = Fin 90\<rparr>,
       \<lparr>dr_key = pv_key, dr_day = ''2024-01-05'', dr_value = Fin 2, dr_raw = Fin 20\<rparr>],
     pw_status = [], pw_close = [\<lparr>dc_key = pv_key, dc_day = ''2024-01-05''\<rparr>]\<rparr>"

lemma demo_closed: "m_closed (s_meta demo_store) pv_key = ''2024-01-04''"
  by (simp add: demo_store_def demo_db_def meta_view_def)

lemma demo_ok: "store_ok demo_store"
  by (simp add: store_ok_def demo_store_def coherent_def) (simp add: demo_db_def typed_keys)

lemma demo_days: "(''2024-01-04'' :: string) < ''2024-01-05''"
  by code_simp

theorem write_poll_respects_closed_witness:
  "map_of (d_daily (s_db (snd (write_poll solis_registry demo_poll [False, True] demo_store))))
     (pv_key, ''2024-01-04'') = Some (Fin 7, Fin 70)"
  using write_poll_respects_closed [where day = "''2024-01-04''" and k = pv_key and
      g = solis_registry and w = demo_poll and faults = "[False, True]" and s = demo_store,
      OF surjective_pairing] demo_closed
  by (simp add: demo_store_def demo_db_def)

lemma demo_poll_result:
  "\<exists>s'. write_poll solis_registry demo_poll [] demo_store
     = (Inr [PeriodClosed ''daily'' pv_key ''2024-01-04'' ''2024-01-04''], s')"
proof -
  have "\<not> (''2024-01-05'' :: string) \<le> ''2024-01-04''" using demo_days by (simp add: not_le)
  then show ?thesis
    by (simp add: write_poll_def with_tx_def apply_poll_def demo_poll_def write_daily_def lookup_reg_def
        by_key_pv pv_owned demo_closed close_day_def advance_def put_meta_def Let_def)
qed

theorem write_poll_stores_witness:
  "stored_at_least (d_daily (s_db (snd (write_poll solis_registry demo_poll [] demo_store))))
     (pv_key, ''2024-01-05'') (Fin 2)"
proof -
  obtain rej s' where w: "write_poll solis_registry demo_poll [] demo_store = (Inr rej, s')"
    using demo_poll_result by blast
  have "row_accepted solis_registry (s_meta demo_store)
      \<lparr>dr_key = pv_key, dr_day = ''2024-01-05'', dr_value = Fin 2, dr_raw = Fin 20\<rparr>"
    using demo_days by (simp add: row_accepted_def by_key_pv pv_owned demo_closed)
  moreover have "\<lparr>dr_key = pv_key, dr_day = ''2024-01-05'', dr_value = Fin 2, dr_raw = Fin 20\<rparr>
      \<in> set (pw_daily demo_poll)" by (simp add: demo_poll_def)
  ultimately have "stored_at_least (d_daily (s_db s')) (pv_key, ''2024-01-05'') (Fin 2)"
    using write_poll_stores [OF w] by force
  then show ?thesis by (simp add: w)
qed

theorem write_poll_commits_witness:
  "\<exists>rej s'. write_poll solis_registry demo_poll [] demo_store = (Inr rej, s') \<and> store_ok s'"
  by (rule write_poll_commits) (simp_all add: demo_poll_def demo_ok)

end
