(* ===== verification/Rollover.thy ===== *)
theory Rollover
  imports Period
begin

text \<open>
  internal/period/rollover.go: the configured rollover time of day, the window of one hour
  on either side of it and the two searches over neighbouring days, \<open>WindowAt\<close> and
  \<open>LastEnded\<close>. A location is the offset function of \<open>Calendar\<close>; in a location without
  transitions both searches have a closed form, which gives that windows are found
  exactly when they contain the instant and that the expected day never moves back.
\<close>

section \<open>The rollover time\<close>

record rollover =
  r_hour :: int
  r_minute :: int

datatype rollover_error = InvalidRollover string

definition two_digits :: "char \<Rightarrow> char \<Rightarrow> int option" where
  "two_digits a b = (if \<not> is_digit a \<or> \<not> is_digit b then None
     else Some (int (digit_val a) * 10 + int (digit_val b)))"

text \<open>Go slices the five bytes as two, the colon and two.\<close>

definition parse_rollover :: "string \<Rightarrow> rollover_error + rollover" where
  "parse_rollover s =
     (if length s \<noteq> 5 \<or> s ! 2 \<noteq> CHR '':'' then Inl (InvalidRollover s)
      else case (two_digits (s ! 0) (s ! 1), two_digits (s ! 3) (s ! 4)) of
        (Some h, Some m) \<Rightarrow>
          if 23 < h \<or> 59 < m then Inl (InvalidRollover s) else Inr \<lparr>r_hour = h, r_minute = m\<rparr>
      | _ \<Rightarrow> Inl (InvalidRollover s))"

definition rollover_string :: "rollover \<Rightarrow> string" where
  "rollover_string r = append_int (r_hour r) 2 @ '':'' @ append_int (r_minute r) 2"

definition rollover_ok :: "rollover \<Rightarrow> bool" where
  "rollover_ok r \<longleftrightarrow> 0 \<le> r_hour r \<and> r_hour r \<le> 23 \<and> 0 \<le> r_minute r \<and> r_minute r \<le> 59"

section \<open>Windows\<close>

record window =
  w_anchor :: int
  w_start :: int
  w_end :: int
  w_closing :: string
  w_opening :: string
  w_midnight :: int

definition window_half_width :: int where "window_half_width = ns_hour"

definition window_contains :: "window \<Rightarrow> int \<Rightarrow> bool" where
  "window_contains w t \<longleftrightarrow> \<not> t < w_start w \<and> t < w_end w"

definition rollover_tod :: "rollover \<Rightarrow> int" where
  "rollover_tod r = r_hour r * ns_hour + r_minute r * ns_minute"

definition window_on :: "rollover \<Rightarrow> zone \<Rightarrow> int \<Rightarrow> window" where
  "window_on r z day = (case civil z day of Date y m d \<Rightarrow>
     let anchor = time_date z y m d (rollover_tod r);
         opening = time_date z y m d 0;
         opening = (if 12 \<le> r_hour r then add_date z opening 0 0 1 else opening)
     in \<lparr>w_anchor = anchor,
         w_start = anchor - window_half_width,
         w_end = anchor + window_half_width,
         w_closing = fmt_day (civil z (add_date z opening 0 0 (-1))),
         w_opening = fmt_day (civil z opening),
         w_midnight = opening\<rparr>)"

fun find_window :: "rollover \<Rightarrow> zone \<Rightarrow> int \<Rightarrow> int list \<Rightarrow> window option" where
  "find_window r z now [] = None"
| "find_window r z now (off # offs) =
     (let w = window_on r z (add_date z now 0 0 off)
      in if window_contains w now then Some w else find_window r z now offs)"

definition window_at :: "rollover \<Rightarrow> zone \<Rightarrow> int \<Rightarrow> window option" where
  "window_at r z now = find_window r z now [-1, 0, 1]"

fun find_ended :: "rollover \<Rightarrow> zone \<Rightarrow> int \<Rightarrow> int list \<Rightarrow> window" where
  "find_ended r z now [] = window_on r z (add_date z now 0 0 (-2))"
| "find_ended r z now (off # offs) =
     (let w = window_on r z (add_date z now 0 0 off)
      in if w_end w \<le> now then w else find_ended r z now offs)"

definition last_ended :: "rollover \<Rightarrow> zone \<Rightarrow> int \<Rightarrow> window" where
  "last_ended r z now = find_ended r z now [1, 0, -1, -2]"

section \<open>Parsing\<close>

lemma padded_2: "padded 2 n = [digit (n div 10 mod 10), digit (n mod 10)]"
  by (simp add: numeral_2_eq_2)

lemma two_digits_padded:
  "n < 100 \<Longrightarrow> two_digits (padded 2 n ! 0) (padded 2 n ! 1) = Some (int n)"
proof -
  assume n: "n < 100"
  then have "n div 10 mod 10 = n div 10" by simp
  moreover have "int (n div 10) * 10 + int (n mod 10) = int n"
    using div_mult_mod_eq [of n 10] by linarith
  ultimately show ?thesis by (simp add: two_digits_def padded_2)
qed

lemma two_digits_Some:
  assumes "two_digits a b = Some h"
  shows "0 \<le> h \<and> h < 100 \<and> [a, b] = padded 2 (nat h)"
proof -
  have d: "is_digit a" "is_digit b" and h: "nat h = num_of [a, b] 0" "0 \<le> h"
    using assms by (auto simp: two_digits_def split: if_splits)
  from d have "nat h < 100" using num_of_bound [of "[a, b]" 0] by (simp add: h)
  moreover have "[a, b] = padded 2 (nat h)"
    using padded_num_of [of "[a, b]"] d by (simp add: h numeral_2_eq_2)
  ultimately show ?thesis using h(2) by auto
qed

lemma list5: "length s = 5 \<longleftrightarrow> (\<exists>a b c d e. s = [a, b, c, d, e])"
  by (auto simp: length_Suc_conv eval_nat_numeral)

lemma rollover_string_padded:
  "rollover_ok r \<Longrightarrow>
    rollover_string r = padded 2 (nat (r_hour r)) @ '':'' @ padded 2 (nat (r_minute r))"
  by (simp add: rollover_string_def rollover_ok_def key_simps)

lemma parse_rollover_string:
  assumes "rollover_ok r" shows "parse_rollover (rollover_string r) = Inr r"
proof -
  obtain a b where h: "padded 2 (nat (r_hour r)) = [a, b]"
    by (simp add: padded_2)
  obtain c d where m: "padded 2 (nat (r_minute r)) = [c, d]"
    by (simp add: padded_2)
  have "nat (r_hour r) < 100" "nat (r_minute r) < 100"
    using assms by (auto simp: rollover_ok_def nat_less_iff)
  from this [THEN two_digits_padded] h m
  have "two_digits a b = Some (r_hour r)" "two_digits c d = Some (r_minute r)"
    using assms by (auto simp: rollover_ok_def)
  with assms h m show ?thesis
    by (simp add: rollover_string_padded parse_rollover_def rollover_ok_def)
qed

lemma parse_rollover_Inr:
  assumes "parse_rollover s = Inr r" shows "rollover_ok r \<and> rollover_string r = s"
proof -
  have "length s = 5" using assms by (auto simp: parse_rollover_def split: if_splits)
  then obtain a b c d e where s: "s = [a, b, c, d, e]" by (auto simp: list5)
  obtain h m where c: "c = CHR '':''" and h: "two_digits a b = Some h"
    and m: "two_digits d e = Some m" and le: "h \<le> 23" "m \<le> 59"
    and r: "r = \<lparr>r_hour = h, r_minute = m\<rparr>"
    using assms by (auto simp: parse_rollover_def s split: if_splits option.splits)
  have ok: "rollover_ok r"
    using two_digits_Some [OF h] two_digits_Some [OF m] le by (simp add: r rollover_ok_def)
  then have "rollover_string r = s" unfolding rollover_string_padded [OF ok]
    using two_digits_Some [OF h] two_digits_Some [OF m] by (simp add: r s c)
  with ok show ?thesis by blast
qed

section \<open>Locations without transitions\<close>

definition fixed_zone :: "int \<Rightarrow> zone" where
  "fixed_zone c = (\<lambda>_. c)"

lemma utc_fixed: "utc = fixed_zone 0"
  by (simp add: utc_def fixed_zone_def)

definition day_start :: "int \<Rightarrow> int \<Rightarrow> int" where
  "day_start c k = (k - epoch_day) * ns_day - c"

lemma day_index_start:
  "0 \<le> tod \<Longrightarrow> tod < ns_day \<Longrightarrow> day_index (fixed_zone c) (day_start c k + tod) = k"
  using day_div_mod(1) [of tod "k - epoch_day"]
  by (simp add: day_index_def local_time_def fixed_zone_def day_start_def
      del: left_diff_distrib_numeral)

lemma clock_start:
  "0 \<le> tod \<Longrightarrow> tod < ns_day \<Longrightarrow> clock_ns (fixed_zone c) (day_start c k + tod) = tod"
  using day_div_mod(2) [of tod "k - epoch_day"]
  by (simp add: clock_ns_def local_time_def fixed_zone_def day_start_def
      del: left_diff_distrib_numeral)

lemma time_split: "t = day_start c (day_index (fixed_zone c) t) + clock_ns (fixed_zone c) t"
proof -
  define q r where "q = (t + c) div ns_day" and "r = (t + c) mod ns_day"
  have "q * ns_day + r = t + c" unfolding q_def r_def by (rule div_mult_mod_eq)
  then show ?thesis
    unfolding day_start_def day_index_def clock_ns_def local_time_def fixed_zone_def
      q_def [symmetric] r_def [symmetric] by simp
qed

lemma clock_range: "0 \<le> clock_ns z t" "clock_ns z t < ns_day"
  by (simp_all add: clock_ns_def)

lemma time_date_fixed:
  "time_date (fixed_zone c) y m d tod = day_start c (norm_days y m d) + tod"
  by (simp add: time_date_def fixed_zone_def day_start_def)

lemma add_days_fixed:
  "add_date (fixed_zone c) t 0 0 n
    = day_start c (day_index (fixed_zone c) t + n) + clock_ns (fixed_zone c) t"
proof (cases "date_of (day_index (fixed_zone c) t)")
  case (Date y m d)
  then have "1 \<le> m" "m \<le> 12" "day_number (Date y m d) = day_index (fixed_zone c) t"
    using valid_date_of [of "day_index (fixed_zone c) t"] day_number_date_of
    by (auto simp: valid_date_def)  (metis day_number_date_of)
  with Date show ?thesis
    by (simp add: add_date_def civil_def time_date_fixed norm_days_valid)
qed

lemma day_index_add_days:
  "day_index (fixed_zone c) (add_date (fixed_zone c) t 0 0 n) = day_index (fixed_zone c) t + n"
  using clock_range by (simp add: add_days_fixed day_index_start)

text \<open>The day that opens in the window whose rollover lies on day \<open>k\<close>.\<close>

definition opening_day :: "rollover \<Rightarrow> int \<Rightarrow> int" where
  "opening_day r k = (if 12 \<le> r_hour r then k + 1 else k)"

definition fixed_window :: "rollover \<Rightarrow> int \<Rightarrow> int \<Rightarrow> window" where
  "fixed_window r c k =
     \<lparr>w_anchor = day_start c k + rollover_tod r,
      w_start = day_start c k + rollover_tod r - window_half_width,
      w_end = day_start c k + rollover_tod r + window_half_width,
      w_closing = day_key (opening_day r k - 1), w_opening = day_key (opening_day r k),
      w_midnight = day_start c (opening_day r k)\<rparr>"

lemma window_on_fixed:
  "window_on r (fixed_zone c) t = fixed_window r c (day_index (fixed_zone c) t)"
proof (cases "date_of (day_index (fixed_zone c) t)")
  case (Date y m d)
  then have m: "1 \<le> m" "m \<le> 12" and n: "day_number (Date y m d) = day_index (fixed_zone c) t"
    using valid_date_of [of "day_index (fixed_zone c) t"] day_number_date_of
    by (auto simp: valid_date_def)  (metis day_number_date_of)
  then have k: "norm_days y m d = day_index (fixed_zone c) t"
    using norm_days_valid [of m y d 0] by simp
  have i: "day_index (fixed_zone c) (day_start c j) = j" "clock_ns (fixed_zone c) (day_start c j) = 0"
    for j using day_index_start [of 0 c j] clock_start [of 0 c j] by simp_all
  show ?thesis
    by (simp add: window_on_def civil_def Date time_date_fixed k fixed_window_def opening_day_def
        add_days_fixed i day_key_def Let_def)
qed

lemma day_start_shift: "day_start c (k + n) = day_start c k + n * ns_day"
  by (simp add: day_start_def algebra_simps)

lemma day_index_at:
  "day_start c k \<le> t \<Longrightarrow> t < day_start c k + ns_day \<Longrightarrow> day_index (fixed_zone c) t = k"
  using day_index_start [of "t - day_start c k" c k] by simp

lemma day_index_bounds:
  "day_start c (day_index (fixed_zone c) t) \<le> t"
  "t < day_start c (day_index (fixed_zone c) t) + ns_day"
  using time_split [of t c] clock_range [of "fixed_zone c" t] by linarith+

lemma day_index_mono: "t \<le> t' \<Longrightarrow> day_index (fixed_zone c) t \<le> day_index (fixed_zone c) t'"
  unfolding day_index_def local_time_def fixed_zone_def
  by (intro add_right_mono zdiv_mono1) auto

lemma rollover_tod_range:
  "rollover_ok r \<Longrightarrow> 0 \<le> rollover_tod r \<and> rollover_tod r \<le> ns_day - ns_minute"
  by (auto simp: rollover_ok_def rollover_tod_def)

lemma last_ended_fixed:
  assumes "rollover_ok r"
  shows "last_ended r (fixed_zone c) t =
    fixed_window r c (day_index (fixed_zone c) (t - rollover_tod r - window_half_width))"
proof -
  define T k where "T = rollover_tod r" and "k = day_index (fixed_zone c) t"
  define s where "s = day_start c k"
  have T: "0 \<le> T" "T \<le> ns_day - ns_minute" using rollover_tod_range [OF assms] by (auto simp: T_def)
  have t: "s \<le> t" "t < s + ns_day" unfolding s_def k_def by (rule day_index_bounds)+
  have e: "w_end (fixed_window r c (k + off)) = s + off * ns_day + T + ns_hour" for off
    by (simp add: fixed_window_def day_start_shift s_def T_def window_half_width_def)
  have d: "day_index (fixed_zone c) (t - T - ns_hour) = k + off"
    if "s + off * ns_day + T + ns_hour \<le> t" "t < s + off * ns_day + T + ns_hour + ns_day" for off
    using that by (intro day_index_at) (simp_all add: day_start_shift s_def)
  show ?thesis
    using T t e [of 1] e [of 0] e [of "-1"] d [of 0] d [of "-1"] d [of "-2"]
    by (simp add: last_ended_def window_on_fixed day_index_add_days k_def [symmetric] Let_def
        T_def [symmetric] window_half_width_def del: left_diff_distrib_numeral)
qed

lemma window_contains_fixed:
  "window_contains (fixed_window r c k) t \<longleftrightarrow>
    day_start c k + rollover_tod r - ns_hour \<le> t \<and> t < day_start c k + rollover_tod r + ns_hour"
  by (auto simp: window_contains_def fixed_window_def window_half_width_def)

lemma window_unique_fixed:
  assumes "window_contains (fixed_window r c k) t" "window_contains (fixed_window r c k') t"
  shows "k = k'"
proof (rule ccontr)
  assume ne: "k \<noteq> k'"
  have "day_start c k' = day_start c k + (k' - k) * ns_day"
    using day_start_shift [of c k "k' - k"] by simp
  with assms ne show False by (simp add: window_contains_fixed)
qed

lemma window_at_fixed_Some:
  assumes "rollover_ok r" "window_contains (fixed_window r c k) t"
  shows "window_at r (fixed_zone c) t = Some (fixed_window r c k)"
proof -
  define k0 where "k0 = day_index (fixed_zone c) t"
  define s where "s = day_start c k0"
  have t: "s \<le> t" "t < s + ns_day" unfolding s_def k0_def by (rule day_index_bounds)+
  have T: "0 \<le> rollover_tod r" "rollover_tod r \<le> ns_day - ns_minute"
    using rollover_tod_range [OF assms(1)] by auto
  have "day_start c k = s + (k - k0) * ns_day"
    using day_start_shift [of c k0 "k - k0"] by (simp add: s_def)
  with assms(2) t T have "- 1 \<le> k - k0" "k - k0 \<le> 1"
    by (simp_all add: window_contains_fixed)
  then consider "k = k0 + (-1)" | "k = k0 + 0" | "k = k0 + 1" by linarith
  moreover have f: "window_contains (fixed_window r c k') t \<longleftrightarrow> k' = k" for k'
    using window_unique_fixed [OF _ assms(2)] assms(2) by blast
  have "window_at r (fixed_zone c) t =
      (if k0 + -1 = k then Some (fixed_window r c (k0 + -1))
       else if k0 + 0 = k then Some (fixed_window r c (k0 + 0))
       else if k0 + 1 = k then Some (fixed_window r c (k0 + 1)) else None)"
    unfolding window_at_def find_window.simps Let_def window_on_fixed day_index_add_days
      k0_def [symmetric] f ..
  ultimately show ?thesis by (simp split: if_splits) blast
qed

lemma find_window_Some:
  "find_window r z now offs = Some w \<Longrightarrow> window_contains w now"
  by (induction offs) (auto simp: Let_def split: if_splits)

lemma window_at_contains: "window_at r z now = Some w \<Longrightarrow> window_contains w now"
  unfolding window_at_def by (rule find_window_Some)

lemma window_at_fixed_cases:
  assumes "window_at r (fixed_zone c) t = Some w"
  obtains k where "w = fixed_window r c k" "window_contains (fixed_window r c k) t"
proof -
  from assms have "\<exists>k. w = fixed_window r c k"
    by (auto simp: window_at_def window_on_fixed Let_def split: if_splits)
  with window_at_contains [OF assms] that show thesis by blast
qed

text \<open>The day every key must have reached by an instant, as a number.\<close>

definition expected_day :: "rollover \<Rightarrow> int \<Rightarrow> int \<Rightarrow> int" where
  "expected_day r c t =
     opening_day r (day_index (fixed_zone c) (t - rollover_tod r - window_half_width))"

lemma last_ended_opening:
  "rollover_ok r \<Longrightarrow> w_opening (last_ended r (fixed_zone c) t) = day_key (expected_day r c t)"
  by (simp add: last_ended_fixed fixed_window_def expected_day_def)

lemma expected_day_mono: "t \<le> t' \<Longrightarrow> expected_day r c t \<le> expected_day r c t'"
  unfolding expected_day_def opening_day_def
  using day_index_mono [of "t - rollover_tod r - window_half_width" "t' - rollover_tod r - window_half_width" c]
  by simp

lemma expected_day_near:
  assumes "rollover_ok r" shows "\<bar>expected_day r c t - day_index (fixed_zone c) t\<bar> \<le> 1"
  using day_index_bounds [where c = c and t = t] assms
    day_index_bounds [where c = c and t = "t - rollover_tod r - window_half_width"]
    day_start_shift [of c "day_index (fixed_zone c) t" "day_index (fixed_zone c)
      (t - rollover_tod r - window_half_width) - day_index (fixed_zone c) t"]
  by (auto simp: expected_day_def opening_day_def rollover_tod_def window_half_width_def rollover_ok_def)

section \<open>Any location\<close>

text \<open>The largest difference between two offsets of a location.\<close>

definition offset_spread :: "zone \<Rightarrow> int \<Rightarrow> bool" where
  "offset_spread z D \<longleftrightarrow> (\<forall>s t. z s - z t \<le> D)"

lemma window_two_days_back_ended:
  assumes "rollover_ok r" "offset_spread z D" "2 * D \<le> 23 * ns_hour"
  shows "w_end (window_on r z (add_date z now 0 0 (-2))) \<le> now"
proof -
  obtain y m d where c: "civil z now = Date y m d" by (cases "civil z now")
  then have v: "1 \<le> m" "m \<le> 12" "day_number (Date y m d) = day_index z now"
    using valid_date_of [of "day_index z now"] day_number_date_of [of "day_index z now"]
    by (auto simp: civil_def valid_date_def)
  define u where "u = (day_index z now - 2 - epoch_day) * ns_day + clock_ns z now"
  define t2 where "t2 = add_date z now 0 0 (-2)"
  have t2: "t2 = u - z (u - z u)"
    using c v norm_days_valid [of m y d "-2"]
    by (simp add: t2_def add_date_def time_date_def u_def Let_def)
  have lt: "u = now + z now - 2 * ns_day"
    using div_mult_mod_eq [of "now + z now" ns_day]
    unfolding u_def day_index_def clock_ns_def local_time_def by simp
  obtain y' m' d' where c': "civil z t2 = Date y' m' d'" by (cases "civil z t2")
  then have v': "1 \<le> m'" "m' \<le> 12" "day_number (Date y' m' d') = day_index z t2"
    using valid_date_of [of "day_index z t2"] day_number_date_of [of "day_index z t2"]
    by (auto simp: civil_def valid_date_def)
  define u2 where "u2 = (day_index z t2 - epoch_day) * ns_day + rollover_tod r"
  have we: "w_end (window_on r z t2) = u2 - z (u2 - z u2) + ns_hour"
    using c' v' norm_days_valid [of m' y' d' 0]
    by (simp add: window_on_def time_date_def u2_def Let_def window_half_width_def)
  have "(day_index z t2 - epoch_day) * ns_day \<le> t2 + z t2"
    using div_mult_mod_eq [of "t2 + z t2" ns_day] pos_mod_sign [of ns_day "t2 + z t2"]
    unfolding day_index_def local_time_def by simp
  moreover have "z t2 - z (u - z u) \<le> D" "z now - z (u2 - z u2) \<le> D"
    using assms(2) by (auto simp: offset_spread_def)
  ultimately show ?thesis
    using we t2 lt rollover_tod_range [OF assms(1)] assms(3)
    unfolding t2_def [symmetric] u2_def by linarith
qed

section \<open>A location whose clock skips midnight\<close>

text \<open>
  Chile, 8 September 2024: at 00:00 the clock moves from UTC-4 to UTC-3, so that day has no
  midnight. \<open>time.Date\<close> of that midnight settles on 23:00 of the day before.
\<close>

definition santiago_2024 :: zone where
  "santiago_2024 t = (if t < 1725768000 * ns_second then -4 * ns_hour else -3 * ns_hour)"

definition late_rollover :: rollover where
  "late_rollover = \<lparr>r_hour = 23, r_minute = 59\<rparr>"

section \<open>Properties of the rollover\<close>

text \<open>ParseRollover accepts exactly the strict 24-hour HH:MM times, and a parsed time
  prints back as the string it was parsed from.\<close>

theorem parse_rollover_iff:
  "parse_rollover s = Inr r \<longleftrightarrow> rollover_ok r \<and> s = rollover_string r"
  using parse_rollover_Inr parse_rollover_string by blast

text \<open>LastEnded returns a window that has ended at the given instant, in every location
  whose offsets differ by at most eleven and a half hours: the last line of the function,
  marked unreachable in the source, is never the one that answers.\<close>

theorem last_ended_has_ended:
  assumes "rollover_ok r" "offset_spread z D" "2 * D \<le> 23 * ns_hour"
  shows "w_end (last_ended r z now) \<le> now"
  using window_two_days_back_ended [OF assms, of now]
  by (simp add: last_ended_def Let_def)

theorem last_ended_has_ended_witness:
  "w_end (last_ended late_rollover santiago_2024 0) \<le> 0"
proof (rule last_ended_has_ended)
  show "rollover_ok late_rollover" by (simp add: rollover_ok_def late_rollover_def)
  show "offset_spread santiago_2024 ns_hour" by (simp add: offset_spread_def santiago_2024_def)
qed simp

text \<open>C40: In a location without transitions WindowAt finds a window exactly when the instant lies
  within an hour of some day's rollover, and then it is the window of that day.\<close>

theorem window_at_iff:
  assumes "rollover_ok r"
  shows "window_at r (fixed_zone c) t = Some w \<longleftrightarrow>
    (\<exists>k. w = fixed_window r c k \<and> window_contains (fixed_window r c k) t)"
  by (auto simp: window_at_fixed_Some [OF assms] elim: window_at_fixed_cases)

theorem window_at_iff_witness:
  "window_at late_rollover (fixed_zone ns_hour) 0 =
     Some (fixed_window late_rollover ns_hour (epoch_day - 1) ) \<longleftrightarrow>
   (\<exists>k. fixed_window late_rollover ns_hour (epoch_day - 1) = fixed_window late_rollover ns_hour k
      \<and> window_contains (fixed_window late_rollover ns_hour k) 0)"
  by (rule window_at_iff) (simp add: rollover_ok_def late_rollover_def)

text \<open>In a location without transitions the day every key must have reached never moves
  back as time passes, and it is at most one day away from the calendar day.\<close>

theorem expected_day_monotone:
  assumes "rollover_ok r" "t \<le> t'"
    and "\<forall>n. day_index (fixed_zone c) t - 2 \<le> n \<and> n \<le> day_index (fixed_zone c) t' + 2 \<longrightarrow> day_ok n"
  shows "w_opening (last_ended r (fixed_zone c) t) \<le> w_opening (last_ended r (fixed_zone c) t')
    \<and> (\<exists>k. w_opening (last_ended r (fixed_zone c) t) = day_key k
        \<and> \<bar>k - day_index (fixed_zone c) t\<bar> \<le> 1)"
proof -
  define d where "d s = day_index (fixed_zone c) s" for s
  note near = expected_day_near [OF assms(1), of c, folded d_def]
  note le = expected_day_mono [OF assms(2), of r c]
  have "d t \<le> d t'" unfolding d_def using assms(2) by (rule day_index_mono)
  then have "d t - 2 \<le> expected_day r c s \<and> expected_day r c s \<le> d t' + 2" if "s = t \<or> s = t'" for s
    using that near [of t] near [of t'] by auto
  with assms(3) have "day_ok (expected_day r c t)" "day_ok (expected_day r c t')" by (simp_all add: d_def)
  with le near [of t] show ?thesis
    by (auto simp: last_ended_opening [OF assms(1)] day_key_le_iff d_def)
qed

theorem expected_day_monotone_witness:
  "w_opening (last_ended late_rollover (fixed_zone 0) 0)
    \<le> w_opening (last_ended late_rollover (fixed_zone 0) ns_day)"
proof -
  have "day_ok n" if "719160 \<le> n" "n \<le> 719165" for n
    using that by (intro day_okI) auto
  moreover have "day_index (fixed_zone 0) 0 = 719162" "day_index (fixed_zone 0) ns_day = 719163"
    by (simp_all add: day_index_def local_time_def fixed_zone_def epoch_day_def)
  ultimately show ?thesis
    using expected_day_monotone [of late_rollover 0 ns_day 0]
    by (simp add: rollover_ok_def late_rollover_def)
qed

text \<open>In a location west of UTC whose clock skips midnight, the window of the evening before
  neither closes that evening's day nor opens the next one: with the rollover 23:59 on 7
  September 2024 in Santiago the opening day is the 7th itself.\<close>

theorem skipped_midnight_window:
  "civil santiago_2024 (1725742800 * ns_second) = Date 2024 9 7 \<and>
   w_closing (window_on late_rollover santiago_2024 (1725742800 * ns_second)) = ''2024-09-06'' \<and>
   w_opening (window_on late_rollover santiago_2024 (1725742800 * ns_second)) = ''2024-09-07''"
proof -
  have c: "civil santiago_2024 (1725742800 * ns_second) = Date 2024 9 7" by code_simp
  have t: "time_date santiago_2024 2024 9 7 0 = 1725681600 * ns_second" by code_simp
  have "civil santiago_2024 (1725681600 * ns_second) = Date 2024 9 7"
    and "clock_ns santiago_2024 (1725681600 * ns_second) = 0"
    and "time_date santiago_2024 2024 9 8 0 = 1725764400 * ns_second" by code_simp+
  then have o: "add_date santiago_2024 (1725681600 * ns_second) 0 0 1 = 1725764400 * ns_second"
    by (simp add: add_date_def)
  have co: "civil santiago_2024 (1725764400 * ns_second) = Date 2024 9 7" by code_simp
  have "clock_ns santiago_2024 (1725764400 * ns_second) = 23 * ns_hour"
    and "time_date santiago_2024 2024 9 6 (23 * ns_hour) = 1725678000 * ns_second" by code_simp+
  with co have b: "add_date santiago_2024 (1725764400 * ns_second) 0 0 (-1) = 1725678000 * ns_second"
    by (simp add: add_date_def)
  have cb: "civil santiago_2024 (1725678000 * ns_second) = Date 2024 9 6" by code_simp
  have f: "fmt_day (Date 2024 9 6) = ''2024-09-06''" "fmt_day (Date 2024 9 7) = ''2024-09-07''"
    by code_simp+
  have "12 \<le> r_hour late_rollover" by (simp add: late_rollover_def)
  with c t o co b cb f show ?thesis by (simp add: window_on_def Let_def)
qed

end
