(* ===== verification/Attribution.thy ===== *)
theory Attribution
  imports PollerStore Rollover
begin

text \<open>
  internal/poller/attribution.go: which day a daily counter value belongs to. The inverter
  resets its daily counters somewhere inside the rollover window; a key advances to the
  window's opening day when its own reset is seen, when another key confirmed the reset,
  or by a forced close once the window is over. Go maps are association lists; the loops
  over them run in list order, and every result holds for every list.
\<close>

section \<open>State\<close>

definition reset_threshold :: float64 where "reset_threshold = rnd (1 / 10)"

datatype decision = WriteCurrent | WriteNewDay | Discard

text \<open>The warnings of the source, with the values their texts print.\<close>

datatype warning = UnknownDailyKey string
  | ResetAfterForcedClose string float64 float64 string
  | DecreasedOutside string float64 float64
  | DecreasedAfterReset string float64 float64

record attribution =
  a_decision :: decision
  a_day :: string
  a_closed :: string
  a_warn :: "warning option"

definition attributed :: "decision \<Rightarrow> string \<Rightarrow> string \<Rightarrow> attribution" where
  "attributed dec day cl = \<lparr>a_decision = dec, a_day = day, a_closed = cl, a_warn = None\<rparr>"

definition discarded :: "warning option \<Rightarrow> attribution" where
  "discarded w = \<lparr>a_decision = Discard, a_day = [], a_closed = [], a_warn = w\<rparr>"

definition is_reset :: "float64 \<Rightarrow> float64 \<Rightarrow> bool" where
  "is_reset prev cur \<longleftrightarrow> fless cur (fmul reset_threshold prev)"

record key_state =
  ks_open :: string
  ks_base :: float64
  ks_has :: bool
  ks_forced :: bool

definition key_state_at :: "string \<Rightarrow> key_state" where
  "key_state_at day = \<lparr>ks_open = day, ks_base = Fin 0, ks_has = False, ks_forced = False\<rparr>"

record attributor =
  at_keys :: "(string \<times> key_state) list"
  at_confirmed :: string

definition new_attributor :: "string list \<Rightarrow> attributor" where
  "new_attributor keys = \<lparr>at_keys = map (\<lambda>k. (k, key_state_at [])) (remdups keys), at_confirmed = []\<rparr>"

definition open_day :: "attributor \<Rightarrow> string \<Rightarrow> string" where
  "open_day d k = (case map_of (at_keys d) k of Some st \<Rightarrow> ks_open st | None \<Rightarrow> [])"

section \<open>Seeding\<close>

definition seed_days :: "rollover \<Rightarrow> zone \<Rightarrow> int \<Rightarrow> string list" where
  "seed_days r z now = (let first = w_opening (last_ended r z now) in
     case window_at r z now of
       Some w \<Rightarrow> if w_opening w \<noteq> first then [first, w_opening w] else [first]
     | None \<Rightarrow> [first])"

text \<open>\<open>rows[day][k]\<close>\<close>

definition row_of :: "(string \<times> (string \<times> float64) list) list \<Rightarrow> string \<Rightarrow> string \<Rightarrow> float64 option" where
  "row_of rows day k = (case map_of rows day of None \<Rightarrow> None | Some m \<Rightarrow> map_of m k)"

text \<open>The new state of the key and whether it shows that the reset was confirmed.\<close>

definition seed_key :: "rollover \<Rightarrow> zone \<Rightarrow> int \<Rightarrow> (string \<times> (string \<times> float64) list) list
    \<Rightarrow> string \<Rightarrow> string \<Rightarrow> string \<Rightarrow> key_state \<times> string" where
  "seed_key r z now rows k cl confirmed =
     (let expected = w_opening (last_ended r z now);
          st = (case row_of rows expected k of
              None \<Rightarrow> key_state_at expected
            | Some v \<Rightarrow> (key_state_at expected)\<lparr>ks_base := v, ks_has := True\<rparr>) in
      case window_at r z now of None \<Rightarrow> (st, confirmed)
      | Some w \<Rightarrow> let row = row_of rows (w_opening w) k in
          if row \<noteq> None \<or> expected \<le> cl
          then (st\<lparr>ks_open := w_opening w, ks_base := (case row of Some v \<Rightarrow> v | None \<Rightarrow> Fin 0),
              ks_has := row \<noteq> None\<rparr>, w_opening w)
          else (st, confirmed))"

fun seed_keys :: "rollover \<Rightarrow> zone \<Rightarrow> int \<Rightarrow> (string \<times> (string \<times> float64) list) list
    \<Rightarrow> (string \<Rightarrow> string) \<Rightarrow> (string \<times> key_state) list \<Rightarrow> string
    \<Rightarrow> (string \<times> key_state) list \<times> string" where
  "seed_keys r z now rows cl [] conf = ([], conf)"
| "seed_keys r z now rows cl ((k, st) # ks) conf =
     (let (st', conf') = seed_key r z now rows k (cl k) conf;
          (ks', conf'') = seed_keys r z now rows cl ks conf' in ((k, st') # ks', conf''))"

text \<open>The closes missed while the program was down, and the seeded attributor.\<close>

definition seed_attributor :: "rollover \<Rightarrow> zone \<Rightarrow> int \<Rightarrow> (string \<times> (string \<times> float64) list) list
    \<Rightarrow> (string \<Rightarrow> string) \<Rightarrow> attributor \<Rightarrow> key_error + (string \<times> string) list \<times> attributor" where
  "seed_attributor r z now rows cl d =
     (case add_days (w_opening (last_ended r z now)) (-1) of Inl e \<Rightarrow> Inl e
      | Inr through \<Rightarrow>
        let (ks, conf) = seed_keys r z now rows cl (at_keys d) (at_confirmed d) in
        Inr (map (\<lambda>(k, st). (k, through))
             (filter (\<lambda>(k, st). cl k \<noteq> [] \<and> cl k < through) (at_keys d)),
           \<lparr>at_keys = ks, at_confirmed = conf\<rparr>))"

section \<open>Forced closes\<close>

definition behind :: "string \<Rightarrow> key_state \<Rightarrow> bool" where
  "behind expected st \<longleftrightarrow> ks_open st \<noteq> [] \<and> ks_open st < expected"

definition force_close :: "rollover \<Rightarrow> zone \<Rightarrow> int \<Rightarrow> attributor
    \<Rightarrow> key_error + (string \<times> string) list \<times> attributor" where
  "force_close r z now d =
     (let expected = w_opening (last_ended r z now) in
      case add_days expected (-1) of Inl e \<Rightarrow> Inl e
      | Inr through \<Rightarrow>
        Inr (map (\<lambda>(k, st). (k, through)) (filter (\<lambda>(k, st). behind expected st) (at_keys d)),
          d\<lparr>at_keys := map (\<lambda>(k, st). (k, if behind expected st
             then (key_state_at expected)\<lparr>ks_forced := True\<rparr> else st)) (at_keys d)\<rparr>))"

section \<open>Attribution\<close>

text \<open>
  The steps return the attribution, the key's new state and the confirmed opening day;
  \<open>None\<close> of \<open>blindReset\<close> is its false result.
\<close>

definition blind_reset :: "key_state \<Rightarrow> string \<Rightarrow> float64 \<Rightarrow> window option \<Rightarrow> int
    \<Rightarrow> (attribution \<times> key_state) option" where
  "blind_reset st confirmed v wo now =
     (case wo of None \<Rightarrow> None
      | Some w \<Rightarrow>
        if ks_open st \<noteq> w_closing w \<or> (ks_has st \<and> fless (Fin 0) (ks_base st)) then None
        else if confirmed = w_opening w
          then Some (attributed WriteNewDay (w_opening w) (w_closing w),
            st\<lparr>ks_open := w_opening w, ks_base := v, ks_has := True\<rparr>)
        else if now < w_midnight w then None
        else Some (discarded None, st))"

definition decrease_outside :: "string \<Rightarrow> key_state \<Rightarrow> float64 \<Rightarrow> attribution \<times> key_state" where
  "decrease_outside key st v =
     (if ks_forced st \<and> is_reset (ks_base st) v
      then (discarded (Some (ResetAfterForcedClose key (ks_base st) v (ks_open st))),
        st\<lparr>ks_forced := False\<rparr>)
      else (discarded (Some (DecreasedOutside key (ks_base st) v)), st))"

definition decrease_in_window :: "string \<Rightarrow> key_state \<Rightarrow> string \<Rightarrow> float64 \<Rightarrow> window
    \<Rightarrow> attribution \<times> key_state \<times> string" where
  "decrease_in_window key st confirmed v w =
     (if ks_open st \<noteq> w_closing w
        then (discarded (Some (DecreasedAfterReset key (ks_base st) v)), st, confirmed)
      else if confirmed \<noteq> w_opening w \<and> \<not> is_reset (ks_base st) v
        then (discarded None, st, confirmed)
      else (attributed WriteNewDay (w_opening w) (w_closing w),
        st\<lparr>ks_open := w_opening w, ks_base := v\<rparr>, w_opening w))"

definition attribute_key :: "window option \<Rightarrow> string \<Rightarrow> key_state \<Rightarrow> string \<Rightarrow> float64 \<Rightarrow> int
    \<Rightarrow> attribution \<times> key_state \<times> string" where
  "attribute_key wo key st confirmed v now =
     (case blind_reset st confirmed v wo now of Some (a, st') \<Rightarrow> (a, st', confirmed)
      | None \<Rightarrow>
        if \<not> ks_has st \<or> fle (ks_base st) v
          then (attributed WriteCurrent (ks_open st) [], st\<lparr>ks_base := v, ks_has := True\<rparr>, confirmed)
        else (case wo of Some w \<Rightarrow> decrease_in_window key st confirmed v w
          | None \<Rightarrow> (case decrease_outside key st v of (a, st') \<Rightarrow> (a, st', confirmed))))"

definition attribute :: "rollover \<Rightarrow> zone \<Rightarrow> attributor \<Rightarrow> string \<Rightarrow> float64 \<Rightarrow> int
    \<Rightarrow> attribution \<times> attributor" where
  "attribute r z d key v now =
     (case map_of (at_keys d) key of None \<Rightarrow> (discarded (Some (UnknownDailyKey key)), d)
      | Some st \<Rightarrow> (case attribute_key (window_at r z now) key st (at_confirmed d) v now of
          (a, st', conf) \<Rightarrow>
            (a, \<lparr>at_keys = AList.update key st' (at_keys d), at_confirmed = conf\<rparr>)))"

section \<open>The days of a location without transitions\<close>

definition latest_day :: "rollover \<Rightarrow> int \<Rightarrow> int \<Rightarrow> int" where
  "latest_day r c t = (case window_at r (fixed_zone c) t of None \<Rightarrow> expected_day r c t
     | Some w \<Rightarrow> expected_day r c t + 1)"

text \<open>Instants from the year 0 to 9998, with room for the days around them.\<close>

definition clock_ok :: "int \<Rightarrow> int \<Rightarrow> bool" where
  "clock_ok c t \<longleftrightarrow> -300 \<le> day_index (fixed_zone c) t \<and> day_index (fixed_zone c) t \<le> 3652000"

lemma clock_days_ok:
  assumes "rollover_ok r" "clock_ok c t" "\<bar>n - expected_day r c t\<bar> \<le> 3" shows "day_ok n"
  using expected_day_near [OF assms(1), of c t] assms(2,3) by (intro day_okI) (auto simp: clock_ok_def)

lemma expected_in_window:
  assumes "window_contains (fixed_window r c k) t"
  shows "expected_day r c t = opening_day r k - 1"
proof -
  have "day_index (fixed_zone c) (t - rollover_tod r - window_half_width) = k - 1"
    using assms day_start_shift [of c "k - 1" 1]
    by (intro day_index_at) (simp_all add: window_contains_fixed window_half_width_def)
  then show ?thesis by (simp add: expected_day_def opening_day_def)
qed

lemma window_days:
  assumes "window_at r (fixed_zone c) t = Some w"
  shows "w_closing w = day_key (expected_day r c t)" "w_opening w = day_key (expected_day r c t + 1)"
  using assms by (auto elim!: window_at_fixed_cases simp: expected_in_window fixed_window_def)

lemma latest_day_bounds: "expected_day r c t \<le> latest_day r c t" "latest_day r c t \<le> expected_day r c t + 1"
  by (simp_all add: latest_day_def split: option.split)

lemma latest_day_mono:
  assumes "rollover_ok r" "t \<le> t'" shows "latest_day r c t \<le> latest_day r c t'"
proof (cases "window_at r (fixed_zone c) t")
  case None
  with expected_day_mono [OF assms(2), of r c] latest_day_bounds(1) [of r c t'] show ?thesis
    by (simp add: latest_day_def)
next
  case (Some w)
  then obtain k where k: "window_contains (fixed_window r c k) t" by (auto elim: window_at_fixed_cases)
  show ?thesis
  proof (cases "window_at r (fixed_zone c) t'")
    case (Some w')
    with \<open>window_at r (fixed_zone c) t = Some w\<close> expected_day_mono [OF assms(2), of r c]
    show ?thesis by (simp add: latest_day_def)
  next
    case None
    then have "\<not> window_contains (fixed_window r c k) t'"
      using window_at_fixed_Some [OF assms(1), of c k t'] by auto
    with k assms(2) have "day_start c k + rollover_tod r + ns_hour \<le> t'"
      by (auto simp: window_contains_fixed)
    then have "day_start c k + 0 \<le> t' - rollover_tod r - window_half_width"
      by (simp add: window_half_width_def)
    from day_index_mono [OF this, of c] have "k \<le> day_index (fixed_zone c) (t' - rollover_tod r - window_half_width)"
      using day_index_start [of 0 c k] by simp
    then have "opening_day r k \<le> expected_day r c t'" by (simp add: expected_day_def opening_day_def)
    with expected_in_window [OF k] latest_day_bounds [of r c t] latest_day_bounds [of r c t']
    show ?thesis by linarith
  qed
qed

section \<open>Open days of the keys\<close>

text \<open>
  Between polls the open day of a key is a day up to the latest one; after the forced closes
  of a poll it is the expected day or, inside a window, possibly the opening day.
\<close>

definition seen :: "rollover \<Rightarrow> int \<Rightarrow> int \<Rightarrow> key_state \<Rightarrow> bool" where
  "seen r c t st \<longleftrightarrow> (\<exists>n. day_ok n \<and> n \<le> latest_day r c t \<and> ks_open st = day_key n)"

definition current :: "rollover \<Rightarrow> int \<Rightarrow> int \<Rightarrow> key_state \<Rightarrow> bool" where
  "current r c t st \<longleftrightarrow> (\<exists>n. expected_day r c t \<le> n \<and> n \<le> latest_day r c t \<and> ks_open st = day_key n)"

lemma currentI:
  "expected_day r c t \<le> n \<Longrightarrow> n \<le> latest_day r c t \<Longrightarrow> ks_open st = day_key n \<Longrightarrow> current r c t st"
  by (auto simp: current_def)

definition all_keys :: "(key_state \<Rightarrow> bool) \<Rightarrow> attributor \<Rightarrow> bool" where
  "all_keys P d \<longleftrightarrow> distinct (map fst (at_keys d)) \<and> (\<forall>(k, st) \<in> set (at_keys d). P st)"

lemma all_keysD: "all_keys P d \<Longrightarrow> map_of (at_keys d) k = Some st \<Longrightarrow> P st"
  by (auto simp: all_keys_def dest: map_of_SomeD)

lemma all_keys_mono: "all_keys P d \<Longrightarrow> (\<And>st. P st \<Longrightarrow> Q st) \<Longrightarrow> all_keys Q d"
  by (auto simp: all_keys_def)

lemma current_seen:
  assumes "rollover_ok r" "clock_ok c t" "current r c t st" shows "seen r c t st"
proof -
  from assms(3) obtain n where n: "expected_day r c t \<le> n" "n \<le> latest_day r c t" "ks_open st = day_key n"
    by (auto simp: current_def)
  with latest_day_bounds(2) [of r c t] have "\<bar>n - expected_day r c t\<bar> \<le> 3" by simp
  then have "day_ok n" by (rule clock_days_ok [OF assms(1,2)])
  with n show ?thesis unfolding seen_def by blast
qed

lemma seen_later: "rollover_ok r \<Longrightarrow> t \<le> t' \<Longrightarrow> seen r c t st \<Longrightarrow> seen r c t' st"
  using latest_day_mono [of r t t' c] by (force simp: seen_def)

lemma map_of_map_values: "map_of (map (\<lambda>(k, v). (k, f v)) xs) k = map_option f (map_of xs k)"
  by (induction xs) auto

lemma open_day_le_force:
  assumes "force_close r (fixed_zone c) t d = Inr (closes, d')" "rollover_ok r" "clock_ok c t"
    "all_keys (seen r c t) d"
  shows "all_keys (current r c t) d'" "map fst (at_keys d') = map fst (at_keys d)"
    "open_day d k \<le> open_day d' k"
    "(k, day) \<in> set closes \<Longrightarrow> k \<in> fst ` set (at_keys d) \<and> day < open_day d' k \<and> open_day d k \<le> day"
    "at_confirmed d' = at_confirmed d"
proof -
  let ?e = "expected_day r c t"
  have e: "w_opening (last_ended r (fixed_zone c) t) = day_key ?e" by (rule last_ended_opening [OF assms(2)])
  have ok: "day_ok ?e" "day_ok (?e - 1)" by (rule clock_days_ok [OF assms(2,3)]; simp)+
  define f where "f st = (if behind (day_key ?e) st then (key_state_at (day_key ?e))\<lparr>ks_forced := True\<rparr>
    else st)" for st
  have fc: "closes = map (\<lambda>(k, st). (k, day_key (?e - 1))) (filter (\<lambda>(k, st). behind (day_key ?e) st) (at_keys d))"
    "at_keys d' = map (\<lambda>(k, st). (k, f st)) (at_keys d)" "at_confirmed d' = at_confirmed d"
    using assms(1) by (auto simp: force_close_def e add_days_key [OF ok(1)] f_def Let_def)
  have f: "current r c t (f st) \<and> ks_open st \<le> ks_open (f st)" if s: "seen r c t st" for st
  proof -
    obtain n where n: "day_ok n" "n \<le> latest_day r c t" "ks_open st = day_key n"
      using s by (auto simp: seen_def)
    show ?thesis
    proof (cases "n < ?e")
      case True
      then have "behind (day_key ?e) st"
        using n ok(1) by (simp add: behind_def day_key_less_iff day_key_nonempty)
      then show ?thesis using latest_day_bounds(1) [of r c t]
        by (auto simp: f_def key_state_at_def current_def behind_def)
    next
      case False
      then have "\<not> behind (day_key ?e) st" using n ok(1) by (simp add: behind_def day_key_less_iff)
      moreover have "current r c t st" using False n by (intro currentI [where n = n]) simp_all
      ultimately show ?thesis by (simp add: f_def)
    qed
  qed
  have key: "\<And>k st. map_of (at_keys d) k = Some st \<Longrightarrow> seen r c t st" using assms(4) by (rule all_keysD)
  have "map fst (at_keys d') = map fst (at_keys d)" by (auto simp: fc(2))
  then show "map fst (at_keys d') = map fst (at_keys d)" .
  show "all_keys (current r c t) d'"
    using assms(4) f unfolding all_keys_def fc(2) by (auto simp: comp_def case_prod_unfold)
  show "open_day d k \<le> open_day d' k"
    using f key by (auto simp: open_day_def fc(2) map_of_map_values split: option.split)
  show "at_confirmed d' = at_confirmed d" by (rule fc(3))
  assume "(k, day) \<in> set closes"
  then obtain st where st: "(k, st) \<in> set (at_keys d)" "behind (day_key ?e) st" "day = day_key (?e - 1)"
    by (auto simp: fc(1))
  then have m: "map_of (at_keys d) k = Some st" using assms(4) by (simp add: all_keys_def)
  obtain n where n: "day_ok n" "ks_open st = day_key n" using key [OF m] by (auto simp: seen_def)
  with st(2) ok(1) have "n < ?e" by (simp add: behind_def day_key_less_iff)
  then have "day_key n \<le> day_key (?e - 1)" using n(1) ok by (simp add: day_key_le_iff)
  moreover have "day_key (?e - 1) < day_key ?e" using ok by (simp add: day_key_less_iff)
  ultimately show "k \<in> fst ` set (at_keys d) \<and> day < open_day d' k \<and> open_day d k \<le> day"
    using st m n by (force simp: open_day_def fc(2) map_of_map_values f_def key_state_at_def)
qed

text \<open>One value: the key's open day only moves to the opening day, writes go to the open day.\<close>

definition attribution_ok :: "key_state \<Rightarrow> attribution \<Rightarrow> key_state \<Rightarrow> bool" where
  "attribution_ok st a st' \<longleftrightarrow> ks_open st \<le> ks_open st' \<and>
     (a_decision a \<noteq> Discard \<longrightarrow> a_day a = ks_open st') \<and>
     (a_closed a \<noteq> [] \<longrightarrow> a_closed a < ks_open st' \<and> ks_open st \<le> a_closed a)"

lemma attribute_key_current:
  assumes "rollover_ok r" "clock_ok c t" "current r c t st"
    "attribute_key (window_at r (fixed_zone c) t) key st conf v t = (a, st', conf')"
  shows "current r c t st' \<and> attribution_ok st a st'"
proof -
  let ?e = "expected_day r c t"
  have ok: "day_ok ?e" "day_ok (?e + 1)" by (rule clock_days_ok [OF assms(1,2)]; simp)+
  have less: "day_key ?e < day_key (?e + 1)" using ok by (simp add: day_key_less_iff)
  have advance: "current r c t (st\<lparr>ks_open := w_opening w, ks_base := b, ks_has := h\<rparr>) \<and>
      attribution_ok st (attributed WriteNewDay (w_opening w) (w_closing w))
        (st\<lparr>ks_open := w_opening w, ks_base := b, ks_has := h\<rparr>)"
    if w: "window_at r (fixed_zone c) t = Some w" "ks_open st = w_closing w" for w b h
    using w less by (auto simp: window_days [OF w(1)] attribution_ok_def attributed_def latest_day_def
        intro: currentI [where n = "?e + 1"])
  show ?thesis
  proof (cases "window_at r (fixed_zone c) t")
    case None
    then show ?thesis using assms(3,4)
      by (auto simp: attribute_key_def blind_reset_def decrease_outside_def attribution_ok_def
          attributed_def discarded_def current_def split: if_splits)
  next
    case (Some w)
    then show ?thesis using assms(3,4) advance [OF Some]
      by (auto simp: attribute_key_def blind_reset_def decrease_in_window_def attribution_ok_def
          attributed_def discarded_def current_def split: if_splits)
  qed
qed

lemma update_all_keys:
  assumes "all_keys P d" "P st'" "map_of (at_keys d) k = Some st"
  shows "all_keys P \<lparr>at_keys = AList.update k st' (at_keys d), at_confirmed = cf\<rparr>"
    "map fst (AList.update k st' (at_keys d)) = map fst (at_keys d)"
proof -
  have k: "k \<in> set (map fst (at_keys d))" using map_of_SomeD [OF assms(3)] by force
  then show keys: "map fst (AList.update k st' (at_keys d)) = map fst (at_keys d)"
    by (simp add: update_keys)
  have "distinct (map fst (AList.update k st' (at_keys d)))" using assms(1) keys by (simp add: all_keys_def)
  moreover have "P st2" if "(k2, st2) \<in> set (AList.update k st' (at_keys d))" for k2 st2
  proof -
    have "map_of (AList.update k st' (at_keys d)) k2 = Some st2" using calculation that by simp
    then show ?thesis using assms by (auto simp: update_conv' dest: all_keysD split: if_splits)
  qed
  ultimately show "all_keys P \<lparr>at_keys = AList.update k st' (at_keys d), at_confirmed = cf\<rparr>"
    by (auto simp: all_keys_def)
qed

lemma attribute_current:
  assumes "attribute r (fixed_zone c) d key v t = (a, d')" "rollover_ok r" "clock_ok c t"
    "all_keys (current r c t) d"
  shows "all_keys (current r c t) d'" "map fst (at_keys d') = map fst (at_keys d)"
    "open_day d k \<le> open_day d' k"
    "a_decision a \<noteq> Discard \<Longrightarrow> a_day a = open_day d' key \<and> key \<in> fst ` set (at_keys d)"
    "a_closed a \<noteq> [] \<Longrightarrow> a_closed a < open_day d' key \<and> open_day d key \<le> a_closed a \<and>
       key \<in> fst ` set (at_keys d)"
proof -
  have "all_keys (current r c t) d' \<and> map fst (at_keys d') = map fst (at_keys d) \<and>
      open_day d k \<le> open_day d' k \<and>
      (a_decision a \<noteq> Discard \<longrightarrow> a_day a = open_day d' key \<and> key \<in> fst ` set (at_keys d)) \<and>
      (a_closed a \<noteq> [] \<longrightarrow> a_closed a < open_day d' key \<and> open_day d key \<le> a_closed a \<and>
        key \<in> fst ` set (at_keys d))"
  proof (cases "map_of (at_keys d) key")
    case None
    then show ?thesis using assms(1,4) by (auto simp: attribute_def discarded_def)
  next
    case (Some st)
    obtain st' conf where r: "attribute_key (window_at r (fixed_zone c) t) key st (at_confirmed d) v t = (a, st', conf)"
      and d': "d' = \<lparr>at_keys = AList.update key st' (at_keys d), at_confirmed = conf\<rparr>"
      using assms(1) Some by (auto simp: attribute_def split: prod.splits)
    have c: "current r c t st'" "attribution_ok st a st'"
      using attribute_key_current [OF assms(2,3) all_keysD [OF assms(4) Some] r] by auto
    have "key \<in> fst ` set (at_keys d)" using map_of_SomeD [OF Some] by force
    with c update_all_keys(1) [OF assms(4) c(1) Some, of conf] update_all_keys(2) [OF assms(4) c(1) Some] Some show ?thesis
      by (auto simp: d' open_day_def attribution_ok_def update_conv' split: option.split)
  qed
  then show "all_keys (current r c t) d'" "map fst (at_keys d') = map fst (at_keys d)"
    "open_day d k \<le> open_day d' k"
    "a_decision a \<noteq> Discard \<Longrightarrow> a_day a = open_day d' key \<and> key \<in> fst ` set (at_keys d)"
    "a_closed a \<noteq> [] \<Longrightarrow> a_closed a < open_day d' key \<and> open_day d key \<le> a_closed a \<and>
       key \<in> fst ` set (at_keys d)"
    by blast+
qed

text \<open>Seeding from watermarks before the latest day: the open day is after the watermark.\<close>

lemma seed_key_current:
  assumes "rollover_ok r" "clock_ok c t" "cl < day_key (latest_day r c t)"
    "seed_key r (fixed_zone c) t rows k cl conf = (st, conf')"
  shows "current r c t st \<and> cl < ks_open st \<and> day_key (expected_day r c t) \<le> ks_open st"
proof -
  let ?e = "expected_day r c t"
  have e: "w_opening (last_ended r (fixed_zone c) t) = day_key ?e" by (rule last_ended_opening [OF assms(1)])
  have ok: "day_ok ?e" "day_ok (?e + 1)" by (rule clock_days_ok [OF assms(1,2)]; simp)+
  then have less: "day_key ?e \<le> day_key (?e + 1)" by (simp add: day_key_le_iff)
  show ?thesis
  proof (cases "window_at r (fixed_zone c) t")
    case None
    then show ?thesis using assms(3,4) latest_day_bounds [of r c t]
      by (auto simp: seed_key_def e Let_def latest_day_def key_state_at_def split: option.splits
          intro: currentI [where n = ?e])
  next
    case (Some w)
    then have l: "latest_day r c t = ?e + 1" by (simp add: latest_day_def)
    have "ks_open st = day_key (?e + 1) \<or> ks_open st = day_key ?e \<and> cl < day_key ?e"
      using assms(4) by (auto simp: seed_key_def e Let_def Some window_days [OF Some] key_state_at_def
          not_le split: option.splits if_splits)
    then show ?thesis using assms(3) less l
      by (auto intro: currentI [where n = ?e] currentI [where n = "?e + 1"])
  qed
qed

lemma seed_keys_current:
  assumes "rollover_ok r" "clock_ok c t" "\<forall>k \<in> fst ` set ks. cl k < day_key (latest_day r c t)"
    "seed_keys r (fixed_zone c) t rows cl ks conf = (ks', conf')"
  shows "map fst ks' = map fst ks \<and> (\<forall>(k, st) \<in> set ks'. current r c t st \<and> cl k < ks_open st \<and>
    day_key (expected_day r c t) \<le> ks_open st)"
  using assms(3,4)
proof (induction ks arbitrary: conf ks' conf')
  case (Cons kst ks)
  obtain k st where kst: "kst = (k, st)" by (cases kst)
  obtain st1 conf1 where 1: "seed_key r (fixed_zone c) t rows k (cl k) conf = (st1, conf1)" by (metis surj_pair)
  obtain ks2 conf2 where 2: "seed_keys r (fixed_zone c) t rows cl ks conf1 = (ks2, conf2)" by (metis surj_pair)
  have "ks' = (k, st1) # ks2" using Cons.prems(2) 1 2 by (simp add: kst)
  moreover have "cl k < day_key (latest_day r c t)" using Cons.prems(1) by (simp add: kst)
  ultimately show ?case
    using Cons.IH [OF _ 2] Cons.prems(1) seed_key_current [OF assms(1,2) _ 1] by (simp add: kst)
qed simp

lemma seed_attributor_current:
  assumes "seed_attributor r (fixed_zone c) t rows cl d = Inr (missed, d')" "rollover_ok r" "clock_ok c t"
    "distinct (map fst (at_keys d))" "\<forall>k \<in> fst ` set (at_keys d). cl k < day_key (latest_day r c t)"
  shows "all_keys (current r c t) d'" "map fst (at_keys d') = map fst (at_keys d)"
    "k \<in> fst ` set (at_keys d) \<Longrightarrow> cl k < open_day d' k"
    "(k, day) \<in> set missed \<Longrightarrow> k \<in> fst ` set (at_keys d) \<and> day < open_day d' k"
proof -
  let ?e = "expected_day r c t"
  have e: "w_opening (last_ended r (fixed_zone c) t) = day_key ?e" by (rule last_ended_opening [OF assms(2)])
  have ok: "day_ok ?e" "day_ok (?e - 1)" by (rule clock_days_ok [OF assms(2,3)]; simp)+
  obtain ks conf where s: "seed_keys r (fixed_zone c) t rows cl (at_keys d) (at_confirmed d) = (ks, conf)"
    by (metis surj_pair)
  have d': "d' = \<lparr>at_keys = ks, at_confirmed = conf\<rparr>" and
    m: "missed = map (\<lambda>(k, st). (k, day_key (?e - 1)))
      (filter (\<lambda>(k, st). cl k \<noteq> [] \<and> cl k < day_key (?e - 1)) (at_keys d))"
    using assms(1) by (auto simp: seed_attributor_def e add_days_key [OF ok(1)] s)
  note c = seed_keys_current [OF assms(2,3,5) s]
  then show keys: "map fst (at_keys d') = map fst (at_keys d)" by (simp add: d')
  show "all_keys (current r c t) d'" using c assms(4) by (auto simp: all_keys_def d')
  have o: "cl k < open_day d' k \<and> day_key ?e \<le> open_day d' k" if "k \<in> fst ` set (at_keys d)" for k
  proof -
    have "k \<in> fst ` set ks" using that c by (metis list.set_map)
    then obtain st where "map_of ks k = Some st" by (cases "map_of ks k") (auto simp: map_of_eq_None_iff)
    with c show ?thesis by (auto simp: open_day_def d' dest: map_of_SomeD)
  qed
  then show "k \<in> fst ` set (at_keys d) \<Longrightarrow> cl k < open_day d' k" by blast
  assume "(k, day) \<in> set missed"
  then have "k \<in> fst ` set (at_keys d)" "day = day_key (?e - 1)" by (force simp: m)+
  moreover have "day_key (?e - 1) < day_key ?e" using ok by (simp add: day_key_less_iff)
  ultimately show "k \<in> fst ` set (at_keys d) \<and> day < open_day d' k" using o by force
qed

text \<open>C9: No post-reset energy reaches the closing day unseen: inside the window a value is written
  to the closing day only when it does not fall below a positive last value of its key, or
  before midnight while no key has confirmed the reset; a value below a tenth of the last one
  moves its key to the opening day, and after the confirmation by any key so does every
  decrease and every value of a key that cannot see its own reset.\<close>

theorem closing_day_writes:
  assumes "window_at r z now = Some w" "map_of (at_keys d) k = Some st" "ks_open st = w_closing w"
    "attribute r z d k v now = (a, d')"
  shows "(a_decision a = WriteCurrent \<longrightarrow> ks_has st \<and> fless (Fin 0) (ks_base st) \<and> fle (ks_base st) v \<or>
      now < w_midnight w \<and> at_confirmed d \<noteq> w_opening w) \<and>
    (at_confirmed d = w_opening w \<and> \<not> (ks_has st \<and> fless (Fin 0) (ks_base st) \<and> fle (ks_base st) v) \<or>
       ks_has st \<and> fless (Fin 0) (ks_base st) \<and> \<not> fle (ks_base st) v \<and> is_reset (ks_base st) v \<longrightarrow>
      a_decision a = WriteNewDay \<and> open_day d' k = w_opening w \<and> at_confirmed d' = w_opening w)"
proof -
  obtain st' conf where r: "attribute_key (Some w) k st (at_confirmed d) v now = (a, st', conf)"
    and d': "d' = \<lparr>at_keys = AList.update k st' (at_keys d), at_confirmed = conf\<rparr>"
    using assms(1,2,4) by (auto simp: attribute_def split: prod.splits)
  have o: "open_day d' k = ks_open st'" "at_confirmed d' = conf"
    by (simp_all add: d' open_day_def update_conv')
  show ?thesis
  proof (cases "ks_has st \<and> fless (Fin 0) (ks_base st)")
    case True
    then have "blind_reset st (at_confirmed d) v (Some w) now = None" by (simp add: blind_reset_def)
    with r True assms(3) show ?thesis unfolding o
      by (auto simp: attribute_key_def decrease_in_window_def attributed_def discarded_def split: if_splits)
  next
    case False
    with r assms(3) show ?thesis unfolding o
      by (auto simp: attribute_key_def blind_reset_def decrease_in_window_def attributed_def
          discarded_def split: if_splits)
  qed
qed

text \<open>Half past eleven in the evening of 2024-02-05, another key has seen its reset.\<close>

definition demo_window :: window where
  "demo_window = fixed_window late_rollover 0 738920"

definition demo_attributor :: attributor where
  "demo_attributor = \<lparr>at_keys = [(pv_key, key_state_at (w_closing demo_window))],
     at_confirmed = w_opening demo_window\<rparr>"

theorem closing_day_writes_witness:
  "a_decision (fst (attribute late_rollover (fixed_zone 0) demo_attributor pv_key (Fin 3)
     (19758 * ns_day + 23 * ns_hour + 30 * ns_minute))) = WriteNewDay"
proof -
  let ?t = "19758 * ns_day + 23 * ns_hour + 30 * ns_minute"
  have ok: "rollover_ok late_rollover" by (simp add: rollover_ok_def late_rollover_def)
  have "window_contains (fixed_window late_rollover 0 738920) ?t"
    by (simp add: window_contains_fixed day_start_def epoch_day_def rollover_tod_def late_rollover_def)
  from window_at_fixed_Some [OF ok this]
  have w: "window_at late_rollover (fixed_zone 0) ?t = Some demo_window" by (simp add: demo_window_def)
  show ?thesis
    using closing_day_writes [OF w, where d = demo_attributor and k = pv_key and v = "Fin 3",
        OF _ _ surjective_pairing]
    by (simp add: demo_attributor_def key_state_at_def)
qed

end
