(* ===== verification/Decoder.thy ===== *)
theory Decoder
  imports Table
begin

text \<open>
  internal/solis/decoder.go, status_tables.go and the \<open>Value\<close> type of types.go: raw Modbus
  words become decoded values. Timestamps are nanoseconds; a map of values is an
  association list with distinct keys. \<open>uint16(x)\<close> of a float outside the word range, which
  Go leaves to the implementation, truncates and keeps the low 16 bits (amd64).
\<close>

section \<open>Status tables\<close>

definition status_codes :: "(16 word \<times> string \<times> string) list" where
  "status_codes = [
     (0x0000, ''Waiting'', ''Normal operation / Waiting''),
     (0x0001, ''OpenRun'', ''Open operating''),
     (0x0002, ''SoftRun'', ''Soft run / Waiting''),
     (0x0003, ''Generating'', ''Initializing / Generating''),
     (0x0004, ''Standby'', ''Standby''),
     (0x0005, ''StandbySynch'', ''Standby synchronize''),
     (0x0006, ''GridToLoad'', ''Grid to load''),
     (0x000F, ''Normal'', ''Normal running''),
     (0x1004, ''Grid Off'', ''Grid off''),
     (0x1010, ''OV-G-V'', ''Grid overvoltage fault''),
     (0x1011, ''UN-G-V'', ''Grid undervoltage fault''),
     (0x1012, ''OV-G-F'', ''Grid over-frequency fault''),
     (0x1013, ''UN-G-F'', ''Grid under-frequency fault''),
     (0x1014, ''G-IMP/Reve-Grid'', ''Over grid impedance / Grid reverse current''),
     (0x1015, ''NO-Grid'', ''No grid detected''),
     (0x1016, ''G-PHASE'', ''Unbalanced grid (phase fault)''),
     (0x1017, ''G-F-FLU'', ''Grid frequency fluctuation''),
     (0x1018, ''OV-G-I'', ''Grid overcurrent''),
     (0x1019, ''IGFOL-F'', ''Grid current sampling error''),
     (0x1020, ''OV-DC'', ''DC overvoltage''),
     (0x1021, ''OV-BUS'', ''DC bus overvoltage''),
     (0x1022, ''UNB-BUS'', ''DC bus unbalanced voltage''),
     (0x1023, ''UN-BUS'', ''DC bus undervoltage''),
     (0x1024, ''UNB2-BUS'', ''DC bus unbalanced voltage 2''),
     (0x1025, ''OV-DCA-I'', ''DC channel A overcurrent''),
     (0x1026, ''OV-DCB-I'', ''DC channel B overcurrent''),
     (0x1027, ''DC-INTF.'', ''DC input interference''),
     (0x1028, ''Reve-DC'', ''DC reverse connection''),
     (0x1029, ''PvMidIso'', ''PV midpoint grounding fault''),
     (0x1030, ''GRID-INTF.'', ''Grid interference protection''),
     (0x1031, ''INI-FAULT'', ''DSP initial protection''),
     (0x1032, ''OV-TEM'', ''Over temperature protection''),
     (0x1033, ''PV ISO-PRO'', ''PV insulation fault''),
     (0x1034, ''ILeak-PRO'', ''Leakage current protection''),
     (0x1035, ''RelayChk-FAIL'', ''Relay check protection''),
     (0x1036, ''DSP-B-FAULT'', ''DSP_B protection''),
     (0x1037, ''DCInj-FAULT'', ''DC injection protection''),
     (0x1038, ''12Power-FAULT'', ''12V undervoltage fault''),
     (0x1039, ''ILeak-Check'', ''Leakage current self-check protection''),
     (0x103A, ''UN-TEM'', ''Under temperature protection''),
     (0x1040, ''AFCI-Check'', ''AFCI check fault''),
     (0x1041, ''ARC-FAULT'', ''AFCI arc fault''),
     (0x1042, ''RAM-FAULT'', ''DSP SRAM fault''),
     (0x1043, ''FLASH-FAULT'', ''DSP FLASH fault''),
     (0x1044, ''PC-FAULT'', ''DSP PC pointer fault''),
     (0x1045, ''REG-FAULT'', ''DSP register fault''),
     (0x1046, ''GRID-INTF02'', ''Grid interference 02 protection''),
     (0x1047, ''IG-AD'', ''Grid current sampling error (AD)''),
     (0x1048, ''IGBT-OV-I'', ''IGBT overcurrent''),
     (0x1050, ''OV-IgTr'', ''Grid transient overcurrent''),
     (0x1051, ''OV-Vbatt-H'', ''Battery hardware overvoltage fault''),
     (0x1052, ''OV-ILLC'', ''LLC hardware overcurrent''),
     (0x1053, ''OV-Vbatt'', ''Battery overvoltage''),
     (0x1054, ''UN-Vbatt'', ''Battery undervoltage''),
     (0x1055, ''NO-Battery'', ''Battery not connected''),
     (0x1056, ''OV-VBackup'', ''Backup overvoltage''),
     (0x1057, ''Over-Load'', ''Backup overload''),
     (0x1058, ''DspSelfChk'', ''DSP self-check error''),
     (0x2010, ''Fail Safe'', ''Fail safe activated''),
     (0x2011, ''MET_Comm_FAIL'', ''Meter communication fail''),
     (0x2012, ''CAN_Comm_FAIL'', ''Battery (CAN) communication fail''),
     (0x2014, ''DSP_Comm_FAIL'', ''DSP communication fail''),
     (0x2015, ''Alarm-BMS'', ''BMS alarm''),
     (0x2016, ''BatName-FAIL'', ''Battery model mismatch''),
     (0x2017, ''Alarm2-BMS'', ''BMS alarm 2''),
     (0x2018, ''DRM_LINK_FAIL'', ''DRM connection fail''),
     (0x2019, ''MET_SEL_FAIL'', ''Meter selection fail''),
     (0x2020, ''HighTemp.AMB'', ''Lead-acid battery high ambient temperature''),
     (0x2021, ''LowTemp.AMB'', ''Lead-acid battery low ambient temperature''),
     (0xF010, ''Surge Alarm'', ''Grid surge warning''),
     (0xF011, ''Fan Alarm'', ''Fan fault warning'')]"

definition bms_bits :: "string \<Rightarrow> string list" where
  "bms_bits n = (let b = ''Battery '' @ n @ '' '' in
     [b @ ''overvoltage'', b @ ''undervoltage'', b @ ''overcurrent charge'',
        b @ ''overcurrent discharge'', b @ ''overtemperature'', b @ ''undertemperature'',
        b @ ''communication fault'', b @ ''internal fault''])"

definition bit_names :: "(string \<times> string list) list" where
  "bit_names = [
     (''grid_fault_1'', [''No grid'', ''Grid overvoltage'', ''Grid undervoltage'',
        ''Grid over-frequency'', ''Grid under-frequency'', ''Unbalanced grid'',
        ''Grid frequency fluctuation'', ''Grid reverse current'', ''Grid current tracking error'',
        ''Meter COM fail'', ''Fail safe''] @ replicate 5 []),
     (''backup_fault_2'', [''Backup overvoltage fault'',
        ''Backup overload fault''] @ replicate 14 []),
     (''battery_fault_3'', [''Battery not connected'', ''Battery overvoltage check'',
        ''Battery undervoltage check''] @ replicate 13 []),
     (''device_fault_4'', [''DC overvoltage'', ''DC bus overvoltage'',
        ''DC bus unbalanced voltage'', ''DC bus undervoltage'', ''DC bus unbalanced voltage 2'',
        ''DC overcurrent A circuit'', ''DC overcurrent B circuit'', ''DC input interference'',
        ''Grid overcurrent'', ''IGBT overcurrent'', ''Grid interference 02'', ''AFCI self-check'',
        ''Arc fault (reserved)'', ''Grid current sampling fault'', ''DSP self-check error'', []]),
     (''device_fault_5'', [''Grid interference'', ''Over DC components'',
        ''Over temperature protection'', ''Relay check protection'',
        ''Under temperature protection'', ''PV insulation fault'', ''12V undervoltage protection'',
        ''Leak current protection'', ''Leak current self-check'', ''DSP initial protection'',
        ''DSP_B protection'', ''Battery overvoltage hardware fault'', ''LLC hardware overcurrent'',
        ''Grid transient overcurrent'', ''CAN COM fail'', ''DSP COM fail'']),
     (''battery_fault_1_bms'', bms_bits ''1'' @ replicate 8 []),
     (''battery_fault_2_bms'', bms_bits ''2'' @ replicate 8 []),
     (''operating_status'', [''Normal operation'', ''Initializing'', ''Controlled turn-off'',
        ''Fault turn-off'', ''Stand-by'', ''Limited operation (temp/freq)'',
        ''Limited operation (external)'', ''Backup overload'', ''Load fault'', ''Grid fault'',
        ''Battery fault'', [], ''Grid surge warning'', ''Fan fault warning'', [], []])]"

section \<open>Values\<close>

text \<open>The dynamic type of \<open>StatusDecoded\<close>: a map for solis_status, active bits otherwise.\<close>

datatype status = StatusMap "(string \<times> string) list" | StatusBits "string list"

record reg_value =
  v_key :: string
  v_name :: string
  v_raw :: float64
  v_decoded :: float64
  v_unit :: string
  v_time :: int
  v_status :: "status option"

section \<open>Formatting (package fmt)\<close>

definition hex_digit :: "nat \<Rightarrow> char" where
  "hex_digit n = char_of (if n < 10 then 48 + n else 55 + n)"

fun hex_field :: "nat \<Rightarrow> nat \<Rightarrow> string" where
  "hex_field 0 n = []"
| "hex_field (Suc w) n = hex_field w (n div 16) @ [hex_digit (n mod 16)]"

fun show_nat :: "nat \<Rightarrow> string" where
  "show_nat n = (if n < 10 then [digit n] else show_nat (n div 10) @ [digit (n mod 10)])"

declare show_nat.simps [simp del]

section \<open>Raw words\<close>

unbundle bit_operations_syntax

definition word32 :: "16 word list \<Rightarrow> 32 word" where
  "word32 raw = push_bit 16 (ucast (raw ! 0)) OR ucast (raw ! 1)"

definition bool_value :: "16 word \<Rightarrow> float64" where
  "bool_value w = (if w \<noteq> 0 then Fin 1 else Fin 0)"

fun decode_words :: "data_type \<Rightarrow> 16 word list \<Rightarrow> float64" where
  "decode_words Int16 raw = f_of_int (sint (raw ! 0))"
| "decode_words Uint32 raw = f_of_int (uint (word32 raw))"
| "decode_words Int32 raw = f_of_int (sint (word32 raw))"
| "decode_words Float32 raw = f_of_float32_bits (unat (word32 raw))"
| "decode_words BoolReg raw = bool_value (raw ! 0)"
| "decode_words Uint16 raw = f_of_int (uint (raw ! 0))"

definition decode_raw :: "data_type \<Rightarrow> 16 word list \<Rightarrow> float64" where
  "decode_raw dt raw = (if length raw < unat (data_type_count dt) \<or> length raw = 0 then Fin 0
     else decode_words dt raw)"

fun f_to_uint16 :: "float64 \<Rightarrow> 16 word" where
  "f_to_uint16 (Fin r) = word_of_int (if r < 0 then - \<lfloor>- r\<rfloor> else \<lfloor>r\<rfloor>)"
| "f_to_uint16 _ = 0"

section \<open>Status registers\<close>

text \<open>The loop over the 16 bits; \<open>unknown\<close> is the format, applied to the bit number.\<close>

definition bit_label :: "string list \<Rightarrow> string \<Rightarrow> nat \<Rightarrow> string" where
  "bit_label names unknown i = (if i < length names \<and> names ! i \<noteq> [] then names ! i
     else unknown @ show_nat i)"

definition active_bits :: "16 word \<Rightarrow> string list \<Rightarrow> string \<Rightarrow> string list" where
  "active_bits raw names unknown =
     map (bit_label names unknown) (filter (\<lambda>i. raw AND push_bit i 1 \<noteq> 0) [0..<16])"

definition decode_solis_status :: "16 word \<Rightarrow> (string \<times> string) list" where
  "decode_solis_status raw = (case map_of status_codes raw of
       None \<Rightarrow> [(''name'', ''Unknown Status (0x'' @ hex_field 4 (unat raw) @ '')''),
                (''description'', ''Unknown status code: 0x'' @ hex_field 4 (unat raw))]
     | Some (name, desc) \<Rightarrow> [(''name'', name), (''description'', desc)])"

definition decode_status :: "string \<Rightarrow> 16 word \<Rightarrow> status" where
  "decode_status key raw =
     (if key = ''solis_status'' then StatusMap (decode_solis_status raw)
      else case map_of bit_names key of
        None \<Rightarrow> StatusBits [''No bit map defined for register '' @ key]
      | Some names \<Rightarrow> StatusBits (active_bits raw names
          (if key = ''operating_status'' then ''Unknown status bit '' else ''Unknown bit '')))"

section \<open>Decoding registers and blocks\<close>

definition decode :: "register \<Rightarrow> 16 word list \<Rightarrow> int \<Rightarrow> reg_value" where
  "decode r raw ts = (let raw_val = decode_raw (reg_type r) raw in
     \<lparr>v_key = reg_key r, v_name = reg_name r, v_raw = raw_val,
      v_decoded = fmul raw_val (reg_scale r), v_unit = reg_unit r, v_time = ts,
      v_status = (if reg_store r = StoreStatus
        then Some (decode_status (reg_key r) (f_to_uint16 raw_val)) else None)\<rparr>)"

text \<open>The loop of \<open>DecodeBlock\<close>: the words from address \<open>a\<close> on and the map built so far.\<close>

function decode_from :: "(16 word \<Rightarrow> register option) \<Rightarrow> 16 word \<Rightarrow> 16 word list \<Rightarrow> int
    \<Rightarrow> (string \<times> reg_value) list \<Rightarrow> (string \<times> reg_value) list" where
  "decode_from look a [] ts out = out"
| "decode_from look a (w # ws) ts out =
     (case look a of
        None \<Rightarrow> decode_from look (a + 1) ws ts out
      | Some reg \<Rightarrow> let n = unat (reg_count reg) in
          if n > length (w # ws) then out
          else decode_from look (a + reg_count reg) (drop n (w # ws)) ts
            (AList.update (reg_key reg) (decode reg (take n (w # ws)) ts) out))"
  by pat_completeness auto
termination
proof (relation "measure (\<lambda>(look, a, raw, ts, out). length raw)", goal_cases)
  case (3 look a w ws ts out r n)
  then show ?case using unat_reg_count [of r] by auto
qed auto

definition decode_block :: "registry \<Rightarrow> block \<Rightarrow> 16 word list \<Rightarrow> int \<Rightarrow> (string \<times> reg_value) list" where
  "decode_block g b raw ts = decode_from (by_address g) (b_start b) raw ts []"

text \<open>\<open>Derive\<close>: the sign of the battery power, from the direction flag.\<close>

definition direction_sign :: "float64 \<Rightarrow> float64 option" where
  "direction_sign raw = (if feq raw (Fin 0) then Some (Fin 1)
     else if feq raw (Fin 1) then Some (Fin (- 1)) else None)"

definition derive :: "registry \<Rightarrow> (string \<times> reg_value) list \<Rightarrow> int \<Rightarrow> (string \<times> reg_value) list" where
  "derive g values ts =
     (let signed = (case by_key g key_battery_power_signed of
          Some r \<Rightarrow> r | None \<Rightarrow> zero_register) in
      case (map_of values key_battery_power, map_of values key_battery_direction) of
        (Some p, Some dir) \<Rightarrow>
          if reg_key signed = [] then values
          else (case direction_sign (v_raw dir) of None \<Rightarrow> values
            | Some sign \<Rightarrow> AList.update key_battery_power_signed
                \<lparr>v_key = reg_key signed, v_name = reg_name signed,
                 v_raw = fmul sign (v_raw p), v_decoded = fmul sign (v_decoded p),
                 v_unit = reg_unit signed, v_time = ts, v_status = None\<rparr> values)
      | _ \<Rightarrow> values)"

section \<open>Walking a block\<close>

lemma map_of_update_alist [simp]:
  "map_of (AList.update k v al) k' = (if k' = k then Some v else map_of al k')"
  by (simp add: update_conv')

text \<open>
  The interface between the decoder and its register lookup: the registers occupy disjoint
  address ranges inside the address space and keys identify them. A block of words starting
  at address \<open>A\<close> is then decoded register by register, whatever lies between them.
\<close>

definition fits :: "nat \<Rightarrow> 16 word list \<Rightarrow> register \<Rightarrow> bool" where
  "fits A raw r \<longleftrightarrow> A \<le> unat (reg_address r) \<and>
     unat (reg_address r) + unat (reg_count r) \<le> A + length raw"

definition words_of :: "nat \<Rightarrow> 16 word list \<Rightarrow> register \<Rightarrow> 16 word list" where
  "words_of A raw r = take (unat (reg_count r)) (drop (unat (reg_address r) - A) raw)"

locale address_layout =
  fixes look :: "16 word \<Rightarrow> register option" and R :: "register set"
  assumes look_iff: "look a = Some r \<longleftrightarrow> r \<in> R \<and> reg_address r = a"
    and key_inj: "r \<in> R \<Longrightarrow> q \<in> R \<Longrightarrow> reg_key r = reg_key q \<Longrightarrow> r = q"
    and disjoint: "r \<in> R \<Longrightarrow> q \<in> R \<Longrightarrow> r \<noteq> q \<Longrightarrow>
      unat (reg_address r) + unat (reg_count r) \<le> unat (reg_address q) \<or>
      unat (reg_address q) + unat (reg_count q) \<le> unat (reg_address r)"
begin

lemma decode_from_spec:
  assumes "A + length raw \<le> 65536"
  shows "(r \<in> R \<and> fits A raw r \<longrightarrow>
      map_of (decode_from look (of_nat A) raw ts out) (reg_key r)
        = Some (decode r (words_of A raw r) ts)) \<and>
    (\<not> (\<exists>r \<in> R. fits A raw r \<and> reg_key r = k) \<longrightarrow>
      map_of (decode_from look (of_nat A) raw ts out) k = map_of out k)"
  using assms
proof (induction "length raw" arbitrary: A raw out r k rule: less_induct)
  case less
  show ?case
  proof (cases raw)
    case Nil
    then show ?thesis using unat_reg_count [of r] by (auto simp: fits_def)
  next
    case (Cons w ws)
    have A: "A < 65536" using less.prems Cons by simp
    then have uA: "unat (of_nat A :: 16 word) = A" by (simp add: unat_of_nat take_bit_eq_mod)
    show ?thesis
    proof (cases "look (of_nat A)")
      case None
      have step: "decode_from look (of_nat A) raw ts out = decode_from look (of_nat (Suc A)) ws ts out"
        using None by (simp add: Cons add.commute)
      have same: "fits A raw q \<longleftrightarrow> fits (Suc A) ws q" if "q \<in> R" for q
      proof -
        have "reg_address q \<noteq> of_nat A" using look_iff [of "of_nat A" q] None that by auto
        then have "unat (reg_address q) \<noteq> A" using uA by (simp add: word_unat_eq_iff)
        then show ?thesis by (auto simp: fits_def Cons)
      qed
      have words: "fits (Suc A) ws r \<Longrightarrow> words_of A raw r = words_of (Suc A) ws r"
        by (auto simp: words_of_def fits_def Cons drop_Cons' Suc_diff_le)
      have "length ws < length raw" "Suc A + length ws \<le> 65536" using less.prems Cons by auto
      note IH = less.hyps [OF this, of r out k]
      show ?thesis unfolding step using IH same words by (metis (no_types, lifting))
    next
      case (Some q)
      then have q: "q \<in> R" "unat (reg_address q) = A" using look_iff uA by auto
      define n where "n = unat (reg_count q)"
      have n: "0 < n" "n \<le> 2" using unat_reg_count [of q] by (auto simp: n_def)
      show ?thesis
      proof (cases "n > length raw")
        case True
        have "\<not> fits A raw p" if "p \<in> R" for p
        proof (cases "p = q")
          case False
          then show ?thesis using disjoint [OF that q(1)] q(2) True unat_reg_count [of p]
            by (auto simp: fits_def n_def)
        qed (use True q in \<open>auto simp: fits_def n_def\<close>)
        moreover have "decode_from look (of_nat A) raw ts out = out"
          using True Some by (simp add: Cons n_def)
        ultimately show ?thesis by auto
      next
        case False
        define out' where "out' = AList.update (reg_key q) (decode q (take n raw) ts) out"
        have "of_nat A + reg_count q = (of_nat (A + n) :: 16 word)" by (simp add: n_def)
        then have step: "decode_from look (of_nat A) raw ts out
            = decode_from look (of_nat (A + n)) (drop n raw) ts out'"
          using False Some by (simp add: Cons n_def out'_def Let_def)
        have same: "fits A raw p \<longleftrightarrow> fits (A + n) (drop n raw) p" if "p \<in> R" "p \<noteq> q" for p
          using disjoint [OF that(1) q(1) that(2)] q(2) False unat_reg_count [of p]
          by (auto simp: fits_def n_def)
        have fq: "fits A raw q" "\<not> fits (A + n) (drop n raw) q"
          using False q(2) n by (auto simp: fits_def n_def)
        have words: "fits (A + n) (drop n raw) r \<Longrightarrow>
            words_of A raw r = words_of (A + n) (drop n raw) r"
          by (auto simp: words_of_def fits_def)
        have wq: "words_of A raw q = take n raw" using q(2) by (simp add: words_of_def n_def)
        have lt: "length (drop n raw) < length raw" "A + n + length (drop n raw) \<le> 65536"
          using less.prems False n Cons by auto
        note IH = less.hyps [OF lt, of r out' "reg_key r"] less.hyps [OF lt, of r out' k]
        show ?thesis
        proof (intro conjI impI)
          assume r: "r \<in> R \<and> fits A raw r"
          show "map_of (decode_from look (of_nat A) raw ts out) (reg_key r)
              = Some (decode r (words_of A raw r) ts)"
          proof (cases "r = q")
            case True
            have "\<not> (\<exists>p \<in> R. fits (A + n) (drop n raw) p \<and> reg_key p = reg_key r)"
              using fq(2) key_inj q(1) True by blast
            with IH(1) show ?thesis by (simp add: step True out'_def wq)
          next
            case False
            with r same have "fits (A + n) (drop n raw) r" by blast
            with IH(1) r words show ?thesis by (simp add: step)
          qed
        next
          assume k: "\<not> (\<exists>r \<in> R. fits A raw r \<and> reg_key r = k)"
          then have "k \<noteq> reg_key q" using fq(1) q(1) by blast
          moreover have "\<not> (\<exists>r \<in> R. fits (A + n) (drop n raw) r \<and> reg_key r = k)"
            using k same fq by blast
          ultimately show "map_of (decode_from look (of_nat A) raw ts out) k = map_of out k"
            using IH(2) by (simp add: step out'_def)
        qed
      qed
    qed
  qed
qed

end

lemma reg_chain_lower: "reg_chain e rs \<Longrightarrow> r \<in> set rs \<Longrightarrow> e \<le> unat (reg_address r)"
  by (induction e rs rule: reg_chain.induct) auto

lemma reg_chain_disjoint:
  "reg_chain e rs \<Longrightarrow> r \<in> set rs \<Longrightarrow> q \<in> set rs \<Longrightarrow> r \<noteq> q \<Longrightarrow>
    unat (reg_address r) + unat (reg_count r) \<le> unat (reg_address q) \<or>
    unat (reg_address q) + unat (reg_count q) \<le> unat (reg_address r)"
  by (induction e rs rule: reg_chain.induct) (auto dest: reg_chain_lower)

text \<open>Every validated registry is such a layout, the program's own in particular.\<close>

lemma registry_layout:
  assumes "new_registry_of regs es ns = Inr g"
  shows "address_layout (by_address g) {r \<in> set regs. polled r}"
proof
  note parts = new_registry_parts [OF assms]
  show "by_address g a = Some r \<longleftrightarrow> r \<in> {r \<in> set regs. polled r} \<and> reg_address r = a" for a r
    using parts by (auto simp: by_address_def map_of_keyed)
  show "r \<in> {r \<in> set regs. polled r} \<Longrightarrow> q \<in> {r \<in> set regs. polled r} \<Longrightarrow>
      reg_key r = reg_key q \<Longrightarrow> r = q" for r q
    using parts by (auto simp: distinct_map inj_on_def)
  show "r \<in> {r \<in> set regs. polled r} \<Longrightarrow> q \<in> {r \<in> set regs. polled r} \<Longrightarrow> r \<noteq> q \<Longrightarrow>
      unat (reg_address r) + unat (reg_count r) \<le> unat (reg_address q) \<or>
      unat (reg_address q) + unat (reg_count q) \<le> unat (reg_address r)" for r q
    using reg_chain_disjoint [OF reg_chain_polled [OF assms], of r q]
    by (auto simp: registry_polled_def)
qed

interpretation solis_layout: address_layout "by_address solis_registry" "{r \<in> set table_regs. polled r}"
  by (rule registry_layout [OF solis_registry_built])

text \<open>The words of a device, and what a read of a block or of one register returns.\<close>

definition read_words :: "(nat \<Rightarrow> 16 word) \<Rightarrow> 16 word \<Rightarrow> 16 word \<Rightarrow> 16 word list" where
  "read_words mem start n = map mem [unat start..<unat start + unat n]"

lemma words_of_read:
  "fits (unat (b_start b)) (read_words mem (b_start b) (b_count b)) r \<Longrightarrow>
    words_of (unat (b_start b)) (read_words mem (b_start b) (b_count b)) r
      = read_words mem (reg_address r) (reg_count r)"
  by (rule nth_equalityI) (auto simp: words_of_def read_words_def fits_def)

lemma fits_read: "fits (unat (b_start b)) (read_words mem (b_start b) (b_count b)) r \<longleftrightarrow> covers b r"
  by (simp add: fits_def covers_def read_words_def)

text \<open>C36: Reading the planned blocks of a validated registry and decoding them loses nothing and
  invents nothing: every polled register comes out of some block with exactly the decoding of
  its own words, and every decoded key belongs to a polled register and carries the decoding
  of that register's words.\<close>

theorem decode_plan_exact:
  assumes "new_registry_of regs es ns = Inr g"
  shows "(r \<in> set regs \<and> polled r \<longrightarrow> (\<exists>b \<in> set (g_blocks g).
      map_of (decode_block g b (read_words mem (b_start b) (b_count b)) ts) (reg_key r)
        = Some (decode r (read_words mem (reg_address r) (reg_count r)) ts))) \<and>
    (b \<in> set (g_blocks g) \<and>
      map_of (decode_block g b (read_words mem (b_start b) (b_count b)) ts) k = Some v \<longrightarrow>
      (\<exists>q \<in> set regs. polled q \<and> reg_key q = k \<and>
        v = decode q (read_words mem (reg_address q) (reg_count q)) ts))"
proof -
  note spec = address_layout.decode_from_spec [OF registry_layout [OF assms]]
  have blocks: "decode_block g b (read_words mem (b_start b) (b_count b)) ts
      = decode_from (by_address g) (of_nat (unat (b_start b)))
          (read_words mem (b_start b) (b_count b)) ts []"
    "unat (b_start b) + length (read_words mem (b_start b) (b_count b)) \<le> 65536"
    if "b \<in> set (g_blocks g)" for b
    using that new_registry_parts [OF assms] plan_blocks_covers [OF reg_chain_polled [OF assms],
        of max_block_len max_block_gap]
    by (auto simp: decode_block_def max_block_len_def block_ok_def read_words_def)
  have found: "map_of (decode_block g b (read_words mem (b_start b) (b_count b)) ts) (reg_key q)
      = Some (decode q (read_words mem (reg_address q) (reg_count q)) ts)"
    if "b \<in> set (g_blocks g)" "q \<in> set regs" "polled q" "covers b q" for b q
    using spec [OF blocks(2), of b q ts "[]"] that words_of_read [of b mem q]
    by (simp add: blocks(1) fits_read)
  show ?thesis
  proof (intro conjI impI)
    assume r: "r \<in> set regs \<and> polled r"
    then obtain b where "b \<in> set (g_blocks g)" "covers b r"
      using plan_blocks_covers [OF reg_chain_polled [OF assms], of max_block_len max_block_gap]
        new_registry_parts [OF assms]
      by (auto simp: max_block_len_def registry_polled_def)
    with found r show "\<exists>b \<in> set (g_blocks g).
        map_of (decode_block g b (read_words mem (b_start b) (b_count b)) ts) (reg_key r)
          = Some (decode r (read_words mem (reg_address r) (reg_count r)) ts)" by blast
  next
    assume b: "b \<in> set (g_blocks g) \<and>
      map_of (decode_block g b (read_words mem (b_start b) (b_count b)) ts) k = Some v"
    then have "\<exists>q \<in> {r \<in> set regs. polled r}. covers b q \<and> reg_key q = k"
      using spec [OF blocks(2), of b undefined ts "[]" k] by (auto simp: blocks(1) fits_read)
    with found b show "\<exists>q \<in> set regs. polled q \<and> reg_key q = k \<and>
        v = decode q (read_words mem (reg_address q) (reg_count q)) ts" by fastforce
  qed
qed

text \<open>The program's own table is such a registry.\<close>

lemma decode_plan_exact_witness:
  "\<exists>b \<in> set (g_blocks solis_registry).
     map_of (decode_block solis_registry b (read_words (\<lambda>a. 7) (b_start b) (b_count b)) 5)
       ''battery_soc'' = Some (decode (live_register ''battery_soc'' ''Battery SOC'' 33139 Uint16 ''%'')
         (read_words (\<lambda>a. 7) 33139 1) 5)"
proof -
  let ?r = "live_register ''battery_soc'' ''Battery SOC'' 33139 Uint16 ''%''"
  have r: "?r \<in> set table_regs \<and> polled ?r"
    by (simp add: table_regs_def live_registers_def) (simp add: polled_def live_register_def)
  have f: "reg_key ?r = ''battery_soc''" "reg_address ?r = 33139" "reg_count ?r = 1"
    by (simp_all add: live_register_def reg_count_def)
  show ?thesis
    using decode_plan_exact [OF solis_registry_built, of ?r "\<lambda>a. 7" 5] r unfolding f by blast
qed

section \<open>Raw values are exact\<close>

lemma word32_split: "word32 [hi, lo] = word_of_int (uint hi * 65536 + uint lo)"
proof -
  have "(push_bit 16 (ucast hi) :: 32 word) AND ucast lo = 0"
    by (rule bit_word_eqI) (auto simp: bit_simps dest: bit_imp_le_length)
  then have "word32 [hi, lo] = push_bit 16 (ucast hi) + ucast lo"
    by (simp add: word32_def disjunctive_add_eq_or)
  also have "\<dots> = word_of_int (uint hi * 65536 + uint lo)"
    by (simp add: push_bit_eq_mult)
  finally show ?thesis .
qed

lemma signed_take_bit_cases:
  fixes k :: int assumes "0 \<le> k" "k < 2 ^ Suc n"
  shows "signed_take_bit n k = (if k < 2 ^ n then k else k - 2 ^ Suc n)"
proof (cases "k < 2 ^ n")
  case True
  then show ?thesis using assms by (simp add: signed_take_bit_int_eq_self_iff)
next
  case False
  have "signed_take_bit n k = signed_take_bit n (k - 2 ^ Suc n)"
    by (simp only: signed_take_bit_eq_iff_take_bit_eq take_bit_eq_mod) simp
  also have "\<dots> = k - 2 ^ Suc n" using False assms by (simp add: signed_take_bit_int_eq_self_iff)
  finally show ?thesis using False by simp
qed

lemma sint_word16: "sint (w :: 16 word) = (if uint w < 2 ^ 15 then uint w else uint w - 2 ^ 16)"
  using signed_take_bit_cases [of "uint w" 15] unsigned_less [of w, where ?'a = int]
  by (simp add: sint_uint)

lemma uint_word32: "uint (word32 (hi # lo # ws)) = uint hi * 2 ^ 16 + uint lo"
proof -
  have "uint hi < 2 ^ 16" "uint lo < 2 ^ 16" using unsigned_less [of hi, where ?'a = int]
      unsigned_less [of lo, where ?'a = int] by simp_all
  then have "uint hi * 2 ^ 16 + uint lo < 2 ^ 32" by simp
  moreover have "word32 (hi # lo # ws) = word_of_int (uint hi * 65536 + uint lo)"
    using word32_split [of hi lo] by (simp only: word32_def nth_Cons_0 nth_Cons_Suc One_nat_def)
  ultimately show ?thesis by (simp only: uint_word_of_int) simp
qed

lemma sint_word32: "sint (word32 (hi # lo # ws)) = (if uint hi < 2 ^ 15
    then uint hi * 2 ^ 16 + uint lo else uint hi * 2 ^ 16 + uint lo - 2 ^ 32)"
proof -
  have l: "0 \<le> uint hi" "0 \<le> uint lo" "uint lo < 2 ^ 16"
    using unsigned_less [of lo, where ?'a = int] by simp_all
  moreover have "a * 2 ^ 16 + b < 2 ^ 31 \<longleftrightarrow> a < 2 ^ 15" if "0 \<le> b" "b < 2 ^ 16" for a b :: int
    using that by auto
  ultimately have "uint hi * 2 ^ 16 + uint lo < 2 ^ 31 \<longleftrightarrow> uint hi < 2 ^ 15" by blast
  with signed_take_bit_cases [of "uint (word32 (hi # lo # ws))" 31]
    unsigned_less [of "word32 (hi # lo # ws)", where ?'a = int]
  show ?thesis by (simp add: sint_uint uint_word32)
qed

lemma f_of_int_word: "\<bar>n\<bar> < 2 ^ 32 \<Longrightarrow> f_of_int n = Fin (of_int n)"
  by (rule f_of_int_exact) simp

lemma uint16_range: "0 \<le> uint (w :: 16 word)" "uint (w :: 16 word) < 65536"
  using unsigned_less [of w, where ?'a = int] by simp_all

lemma decode_raw_unsigned:
  "decode_raw Uint16 (w # ws) = Fin (of_int (uint w))"
  "decode_raw Uint32 (w # w' # ws) = Fin (of_int (uint w * 2 ^ 16 + uint w'))"
proof -
  note r = uint16_range [of w] uint16_range [of w']
  have "\<bar>uint w\<bar> < 2 ^ 32" "\<bar>uint w * 2 ^ 16 + uint w'\<bar> < 2 ^ 32" using r by auto
  note f = this [THEN f_of_int_word]
  show "decode_raw Uint16 (w # ws) = Fin (of_int (uint w))"
    using f(1) by (simp only: decode_raw_def decode_words.simps nth_Cons_0) simp
  show "decode_raw Uint32 (w # w' # ws) = Fin (of_int (uint w * 2 ^ 16 + uint w'))"
    using f(2) by (simp add: decode_raw_def uint_word32)
qed

text \<open>Decoding raw words is exact for every integer type: big-endian, high word first, two's
  complement for the signed types, with no rounding in the float64 that holds the value; a
  register with too few words reads as zero.\<close>

theorem decode_raw_exact:
  "decode_raw Uint16 (w # ws) = Fin (of_int (uint w)) \<and>
   decode_raw Int16 (w # ws)
     = Fin (of_int (if uint w < 2 ^ 15 then uint w else uint w - 2 ^ 16)) \<and>
   decode_raw Uint32 (w # w' # ws) = Fin (of_int (uint w * 2 ^ 16 + uint w')) \<and>
   decode_raw Int32 (w # w' # ws)
     = Fin (of_int (if uint w < 2 ^ 15 then uint w * 2 ^ 16 + uint w'
         else uint w * 2 ^ 16 + uint w' - 2 ^ 32)) \<and>
   decode_raw BoolReg (w # ws) = Fin (if w = 0 then 0 else 1) \<and>
   decode_raw dt [] = Fin 0 \<and> decode_raw Int32 [w] = Fin 0 \<and> decode_raw Uint32 [w] = Fin 0"
proof -
  note r = uint16_range [of w] uint16_range [of w']
  have "\<bar>a\<bar> < 2 ^ 32 \<and> \<bar>a - 2 ^ 16\<bar> < 2 ^ 32 \<and> \<bar>a * 2 ^ 16 + b\<bar> < 2 ^ 32 \<and>
      (\<not> a < 2 ^ 15 \<longrightarrow> \<bar>a * 2 ^ 16 + b - 2 ^ 32\<bar> < 2 ^ 32)"
    if "0 \<le> a" "a < 65536" "0 \<le> b" "b < 65536" for a b :: int
    using that by auto
  from this [OF r] have "\<bar>uint w\<bar> < 2 ^ 32" "\<bar>uint w - 2 ^ 16\<bar> < 2 ^ 32"
    "\<bar>uint w * 2 ^ 16 + uint w'\<bar> < 2 ^ 32"
    "\<not> uint w < 2 ^ 15 \<Longrightarrow> \<bar>uint w * 2 ^ 16 + uint w' - 2 ^ 32\<bar> < 2 ^ 32"
    by blast+
  note f = this [THEN f_of_int_word]
  show ?thesis
  proof (intro conjI)
    show "decode_raw Int16 (w # ws)
        = Fin (of_int (if uint w < 2 ^ 15 then uint w else uint w - 2 ^ 16))"
      using f(1,2) by (cases "uint w < 2 ^ 15") (simp_all add: decode_raw_def sint_word16)
    show "decode_raw Int32 (w # w' # ws) = Fin (of_int (if uint w < 2 ^ 15
        then uint w * 2 ^ 16 + uint w' else uint w * 2 ^ 16 + uint w' - 2 ^ 32))"
      using f(3,4) by (cases "uint w < 2 ^ 15") (simp_all add: decode_raw_def sint_word32)
  qed (rule decode_raw_unsigned | auto simp: decode_raw_def bool_value_def)+
qed

section \<open>Status decoding loses nothing\<close>

lemma and_push_bit_iff: "(w :: 16 word) AND push_bit i 1 \<noteq> 0 \<longleftrightarrow> bit w i"
  by (simp add: bit_iff_and_push_bit_not_eq_0)

lemma active_bits_inj:
  assumes d: "distinct (map (bit_label names unknown) [0..<16])"
    and eq: "active_bits a names unknown = active_bits b names unknown"
  shows "a = b"
proof (rule bit_word_eqI)
  have inj: "inj_on (bit_label names unknown) {0..<16}"
    using d unfolding distinct_map by simp
  have mem: "bit_label names unknown i \<in> set (active_bits w names unknown) \<longleftrightarrow> bit w i"
    if "i < 16" for i and w :: "16 word"
  proof -
    have "bit_label names unknown i \<in> bit_label names unknown ` {j \<in> {0..<16}. bit w j} \<longleftrightarrow>
        i \<in> {j \<in> {0..<16}. bit w j}"
      using that by (intro inj_on_image_mem_iff [OF inj]) auto
    moreover have "set (active_bits w names unknown)
        = bit_label names unknown ` {j \<in> {0..<16}. bit w j}"
      unfolding active_bits_def and_push_bit_iff by auto
    ultimately show ?thesis using that by simp
  qed
  show "bit a i = bit b i" if "i < LENGTH(16)" for i
    using mem [of i a] mem [of i b] that eq by simp
qed

lemma bit_labels_distinct:
  "\<forall>(key, names) \<in> set bit_names.
     distinct (map (bit_label names ''Unknown status bit '') [0..<16]) \<and>
     distinct (map (bit_label names ''Unknown bit '') [0..<16])"
  by code_simp

lemma hex_digit_inj: "m < 16 \<Longrightarrow> n < 16 \<Longrightarrow> hex_digit m = hex_digit n \<Longrightarrow> m = n"
  by (auto simp: hex_digit_def char_of_eq_iff of_char_of take_bit_eq_mod split: if_splits)

lemma hex_field_inj: "m < 16 ^ w \<Longrightarrow> n < 16 ^ w \<Longrightarrow> hex_field w m = hex_field w n \<Longrightarrow> m = n"
proof (induction w arbitrary: m n)
  case 0
  then show ?case by simp
next
  case (Suc w)
  have "m div 16 = n div 16" using Suc.prems by (intro Suc.IH) auto
  moreover have "m mod 16 = n mod 16" using Suc.prems by (intro hex_digit_inj) auto
  ultimately show ?case by (metis div_mult_mod_eq)
qed

lemma status_codes_distinct: "distinct (map snd status_codes)"
  by code_simp

lemma status_names_known: "\<forall>(c, n, d) \<in> set status_codes. take 3 n \<noteq> ''Unk''"
  by code_simp

lemma decode_solis_status_inj:
  assumes eq: "decode_solis_status a = decode_solis_status b" shows "a = b"
proof -
  have known: "take 3 n \<noteq> ''Unk''" if "map_of status_codes c = Some (n, d)" for c n d
    using map_of_SomeD [OF that] status_names_known by auto
  show ?thesis
  proof (cases "map_of status_codes a")
    case None
    then have "map_of status_codes b = None"
      using eq known [of b] by (cases "map_of status_codes b") (auto simp: decode_solis_status_def)
    with None eq have h: "hex_field 4 (unat a) = hex_field 4 (unat b)"
      by (simp add: decode_solis_status_def)
    have "unat a < 16 ^ 4" "unat b < 16 ^ 4" using unat_lt16 by simp_all
    with h hex_field_inj [of "unat a" 4 "unat b"] show ?thesis by (simp add: word_unat_eq_iff)
  next
    case (Some x)
    obtain n d where x: "x = (n, d)" by fastforce
    then have "map_of status_codes b = Some (n, d)"
      using eq Some known [of a n d]
      by (cases "map_of status_codes b") (auto simp: decode_solis_status_def)
    then have "(a, n, d) \<in> set status_codes" "(b, n, d) \<in> set status_codes"
      using Some x map_of_SomeD by auto
    with status_codes_distinct show ?thesis
      unfolding distinct_map inj_on_def by fastforce
  qed
qed

lemma status_keys:
  "\<forall>r \<in> set status_registers. reg_key r = ''solis_status'' \<or> map_of bit_names (reg_key r) \<noteq> None"
proof -
  have "map reg_key status_registers = ''solis_status'' # filter (\<lambda>k. k \<in> set (map fst bit_names))
      (map reg_key (tl status_registers))"
    by code_simp
  then have "set (map reg_key status_registers) \<subseteq> {''solis_status''} \<union> fst ` set bit_names"
    by auto
  then show ?thesis by (auto simp: map_of_eq_None_iff)
qed

text \<open>No fault information is lost in decoding: for every status register of the table,
  two different raw words decode to different statuses, and a status register read from one
  word carries the decoding of just that word.\<close>

theorem status_lossless:
  assumes "r \<in> set status_registers"
  shows "(decode_status (reg_key r) a = decode_status (reg_key r) b \<longrightarrow> a = b) \<and>
    v_status (decode r [w] ts) = Some (decode_status (reg_key r) w)"
proof
  show "decode_status (reg_key r) a = decode_status (reg_key r) b \<longrightarrow> a = b"
  proof (cases "reg_key r = ''solis_status''")
    case True
    then show ?thesis using decode_solis_status_inj by (auto simp: decode_status_def)
  next
    case False
    then obtain names where n: "map_of bit_names (reg_key r) = Some names"
      using status_keys assms by auto
    then have "(reg_key r, names) \<in> set bit_names" by (rule map_of_SomeD)
    with bit_labels_distinct
    have "distinct (map (bit_label names ''Unknown status bit '') [0..<16])"
      "distinct (map (bit_label names ''Unknown bit '') [0..<16])" by blast+
    from this [THEN active_bits_inj] show ?thesis
      using False n by (auto simp: decode_status_def)
  qed
  have t: "reg_type r = Uint16 \<and> reg_store r = StoreStatus"
    using assms by (auto simp: status_registers_def status_register_def)
  have "decode_raw Uint16 [w] = Fin (of_int (uint w))" by (rule decode_raw_unsigned)
  moreover have "f_to_uint16 (Fin (of_int n)) = word_of_int n" if "0 \<le> n" for n
    using that by (simp add: not_less)
  from this [of "uint w"] have "f_to_uint16 (Fin (of_int (uint w))) = w"
    by (simp only: word_of_int_uint) simp
  ultimately show "v_status (decode r [w] ts) = Some (decode_status (reg_key r) w)"
    using t by (simp add: decode_def Let_def)
qed

theorem status_lossless_witness:
  "decode_status (reg_key (hd status_registers)) 5 \<noteq> decode_status (reg_key (hd status_registers)) 6"
  using status_lossless [of "hd status_registers" 5 6] by (simp add: status_registers_def)

section \<open>The signed battery power\<close>

lemma fmul_unit_int:
  assumes "0 \<le> n" "n < 2 ^ 53"
  shows "fmul (Fin 1) (Fin (of_int n)) = Fin (of_int n)"
    "fmul (Fin (of_int n)) (Fin 1) = Fin (of_int n)"
    "fmul (Fin (- 1)) (Fin (of_int n)) = (if n = 0 then NegZero else Fin (of_int (- n)))"
proof -
  have "rnd (of_int n) = Fin (of_int n)" "rnd (of_int (- n)) = Fin (of_int (- n))"
    using f_of_int_exact [of n] f_of_int_exact [of "- n"] assms by (simp_all add: f_of_int_def)
  then show "fmul (Fin 1) (Fin (of_int n)) = Fin (of_int n)"
    "fmul (Fin (of_int n)) (Fin 1) = Fin (of_int n)"
    "fmul (Fin (- 1)) (Fin (of_int n)) = (if n = 0 then NegZero else Fin (of_int (- n)))"
    using assms by (auto simp: fmul_def signed_zero_def)
qed

definition battery_power_reg :: register where
  "battery_power_reg = live_register key_battery_power ''Battery Power'' 33149 Uint32 unit_w"

definition battery_direction_reg :: register where
  "battery_direction_reg =
     live_register key_battery_direction ''Battery Current Direction'' 33135 Uint16 []"

definition battery_signed_reg :: register where
  "battery_signed_reg =
     live_register key_battery_power_signed ''Battery Power (Signed)'' 0 Int32 unit_w"

lemma by_key_signed: "by_key solis_registry key_battery_power_signed = Some battery_signed_reg"
proof -
  have "battery_signed_reg \<in> set table_regs"
    by (simp add: table_regs_def live_registers_def battery_signed_reg_def)
  moreover have "reg_key battery_signed_reg = key_battery_power_signed"
    by (simp add: battery_signed_reg_def live_register_def)
  ultimately show ?thesis
    using new_registry_parts [OF solis_registry_built] map_of_keyed [of reg_key table_regs]
    by (simp add: by_key_def)
qed

text \<open>The derived battery power carries the sign of the direction flag: charging (0) gives the
  decoded watts, discharging (1) their negation, any other flag or a missing input leaves the
  map of values as it is; no other key changes.\<close>

theorem battery_sign_from_direction:
  assumes "map_of values key_battery_power = Some (decode battery_power_reg [hi, lo] t)"
    "map_of values key_battery_direction = Some (decode battery_direction_reg [d] t')"
  defines "watts \<equiv> uint hi * 2 ^ 16 + uint lo"
  shows "map_option v_decoded (map_of (derive solis_registry values ts) key_battery_power_signed) =
      (if d = 0 then Some (Fin (of_int watts))
       else if d = 1 then Some (if watts = 0 then NegZero else Fin (of_int (- watts)))
       else map_option v_decoded (map_of values key_battery_power_signed)) \<and>
    (k \<noteq> key_battery_power_signed \<longrightarrow>
      map_of (derive solis_registry values ts) k = map_of values k)"
proof
  have w: "0 \<le> watts" "watts < 2 ^ 53"
    using uint16_range [of hi] uint16_range [of lo] by (auto simp: watts_def)
  have raw: "decode_raw Uint32 [hi, lo] = Fin (of_int watts)"
    "decode_raw Uint16 [d] = Fin (of_int (uint d))"
    unfolding watts_def by (rule decode_raw_unsigned)+
  have p: "v_decoded (decode battery_power_reg [hi, lo] t) = Fin (of_int watts)"
    using raw(1) fmul_unit_int(2) [OF w]
    by (simp add: decode_def battery_power_reg_def live_register_def scale_one_def Let_def)
  have "v_raw (decode battery_direction_reg [d] t') = Fin (of_int (uint d))"
    using raw(2) by (simp add: decode_def battery_direction_reg_def live_register_def Let_def)
  moreover have "(of_int (uint d) :: rat) = of_int 0 \<longleftrightarrow> d = 0" "(of_int (uint d) :: rat) = of_int 1 \<longleftrightarrow> d = 1"
    unfolding of_int_eq_iff by (simp_all add: word_uint_eq_iff)
  ultimately have "direction_sign (v_raw (decode battery_direction_reg [d] t')) =
      (if d = 0 then Some (Fin 1) else if d = 1 then Some (Fin (- 1)) else None)"
    by (auto simp: direction_sign_def feq_def simp del: of_int_uint)
  note sign = this
  have signed: "reg_key battery_signed_reg = key_battery_power_signed"
    "key_battery_power_signed \<noteq> []"
    by (simp_all add: battery_signed_reg_def live_register_def key_battery_power_signed_def)
  show "map_option v_decoded (map_of (derive solis_registry values ts) key_battery_power_signed) =
      (if d = 0 then Some (Fin (of_int watts))
       else if d = 1 then Some (if watts = 0 then NegZero else Fin (of_int (- watts)))
       else map_option v_decoded (map_of values key_battery_power_signed))"
  proof (cases "d = 0 \<or> d = 1")
    case True
    with sign obtain f where f: "direction_sign (v_raw (decode battery_direction_reg [d] t')) = Some f"
      "f = (if d = 0 then Fin 1 else Fin (- 1))" by auto
    have "map_option v_decoded (map_of (derive solis_registry values ts) key_battery_power_signed)
        = Some (fmul f (Fin (of_int watts)))"
      using assms(1,2) p f(1) signed by (simp add: derive_def by_key_signed)
    with True f(2) fmul_unit_int [OF w] show ?thesis by auto
  next
    case False
    with sign have "direction_sign (v_raw (decode battery_direction_reg [d] t')) = None" by simp
    with assms(1,2) signed False show ?thesis by (simp add: derive_def by_key_signed)
  qed
  show "k \<noteq> key_battery_power_signed \<longrightarrow>
      map_of (derive solis_registry values ts) k = map_of values k"
    by (auto simp: derive_def Let_def split: option.splits)
qed

theorem battery_sign_from_direction_witness:
  "map_option v_decoded (map_of (derive solis_registry
       [(key_battery_power, decode battery_power_reg [1, 2] 9),
        (key_battery_direction, decode battery_direction_reg [1] 9)] 9) key_battery_power_signed)
     = Some (Fin (- 65538))"
proof -
  have "uint (1 :: 16 word) = 1" "uint (2 :: 16 word) = 2" by simp_all
  with battery_sign_from_direction [of
      "[(key_battery_power, decode battery_power_reg [1, 2] 9),
        (key_battery_direction, decode battery_direction_reg [1] 9)]" 1 2 9 1 9]
  show ?thesis by (simp add: key_battery_power_def key_battery_direction_def)
qed

end
