(* ===== verification/EventBus.thy ===== *)
theory EventBus
  imports Prelude "HOL-Library.Sublist"
begin

text \<open>
  internal/eventbus: the non-blocking bus. A subscription has a bounded channel and an
  unbounded overflow list; publishers deliver with a direct send or append to the list, and
  one pump moves the list into the channel. \<open>deliver\<close> is the delivery of one publisher
  running alone; \<open>bus_step\<close> is the interleaving of any number of publishers, the pump and the
  consumer, one atomic action (a critical section or a channel operation) per step. Channel
  contents carry their publisher, which the code does not store.
\<close>

section \<open>Events\<close>

datatype event_kind = ValuesUpdated | PeriodClosedEvent

fun kind_string :: "event_kind \<Rightarrow> string" where
  "kind_string ValuesUpdated = ''ValuesUpdated''"
| "kind_string PeriodClosedEvent = ''PeriodClosed''"

definition domain_poller :: string where "domain_poller = ''poller''"
definition domain_aggregator :: string where "domain_aggregator = ''aggregator''"

record event =
  ev_kind :: event_kind
  ev_domain :: string
  ev_keys :: "string list"
  ev_at :: int
  ev_day :: string

datatype policy = Coalesce | Lossless

section \<open>One subscription, one publisher at a time\<close>

record subscription =
  su_name :: string
  su_policy :: policy
  su_buf :: nat
  su_chan :: "event list"
  su_overflow :: "event list"
  su_kick :: bool
  su_done :: bool

definition new_subscription :: "string \<Rightarrow> int \<Rightarrow> policy \<Rightarrow> subscription" where
  "new_subscription name buf p =
     \<lparr>su_name = name, su_policy = p, su_buf = nat (if buf < 1 then 1 else buf), su_chan = [],
      su_overflow = [], su_kick = False, su_done = False\<rparr>"

definition deliver :: "event \<Rightarrow> subscription \<Rightarrow> subscription \<times> bool" where
  "deliver e s =
     (let queued = su_overflow s \<noteq> [] in
      if \<not> queued \<and> length (su_chan s) < su_buf s then (s\<lparr>su_chan := su_chan s @ [e]\<rparr>, True)
      else if su_policy s = Coalesce \<and> ev_kind e = ValuesUpdated then (s, False)
      else (s\<lparr>su_overflow := su_overflow s @ [e], su_kick := True\<rparr>, True))"

record bus =
  bs_subs :: "(nat \<times> subscription) list"
  bs_next :: nat
  bs_closed :: bool
  bs_dropped :: int

definition new_bus :: bus where
  "new_bus = \<lparr>bs_subs = [], bs_next = 0, bs_closed = False, bs_dropped = 0\<rparr>"

text \<open>The handle of the subscription, or \<open>None\<close> for \<open>ErrClosed\<close>.\<close>

definition subscribe :: "string \<Rightarrow> int \<Rightarrow> policy \<Rightarrow> bus \<Rightarrow> nat option \<times> bus" where
  "subscribe name buf p b = (if bs_closed b then (None, b)
     else (Some (bs_next b), b\<lparr>bs_subs := bs_subs b @ [(bs_next b, new_subscription name buf p)],
       bs_next := bs_next b + 1\<rparr>))"

definition unsubscribe :: "nat \<Rightarrow> bus \<Rightarrow> bus" where
  "unsubscribe h b = b\<lparr>bs_subs := filter (\<lambda>(i, s). i \<noteq> h) (bs_subs b)\<rparr>"

fun deliver_all :: "event \<Rightarrow> (nat \<times> subscription) list \<Rightarrow> (nat \<times> subscription) list \<times> int" where
  "deliver_all e [] = ([], 0)"
| "deliver_all e ((i, s) # ss) = (let (s', ok) = deliver e s; (ss', n) = deliver_all e ss in
     ((i, s') # ss', if ok then n else n + 1))"

definition publish :: "event \<Rightarrow> bus \<Rightarrow> bus" where
  "publish e b = (if bs_closed b then b
     else let (ss, n) = deliver_all e (bs_subs b) in b\<lparr>bs_subs := ss, bs_dropped := bs_dropped b + n\<rparr>)"

definition close_bus :: "bus \<Rightarrow> bus" where
  "close_bus b = b\<lparr>bs_closed := True, bs_subs := []\<rparr>"

section \<open>Publishers, pump and consumer interleaved\<close>

text \<open>
  A publisher in \<open>deliver\<close>: before the check of the list, after it with its result, past a
  failed or skipped send, and after the append, before the kick. The pump waits for a kick,
  looks at the list, holds the head it is about to send, or has sent the head it has still
  to remove.
\<close>

datatype publisher = Idle | Entered event | Checked event bool | Unsent event | Appended

datatype pump = Waiting | Draining | Sending "nat \<times> event" | Removing | Stopped

record bus_state =
  b_policy :: policy
  b_buf :: nat
  b_chan :: "(nat \<times> event) list"
  b_over :: "(nat \<times> event) list"
  b_kick :: bool
  b_done :: bool
  b_pub :: "nat \<Rightarrow> publisher"
  b_pump :: pump
  b_recv :: "(nat \<times> event) list"
  b_log :: "(nat \<times> event) list"
  b_drops :: nat

definition droppable :: "policy \<Rightarrow> event \<Rightarrow> bool" where
  "droppable p e \<longleftrightarrow> p = Coalesce \<and> ev_kind e = ValuesUpdated"

text \<open>
  \<open>b_log\<close> lists the finished deliveries, dropped ones included, in the order they finish;
  \<open>b_recv\<close> what the consumer has received.
\<close>

inductive bus_step :: "bus_state \<Rightarrow> bus_state \<Rightarrow> bool" where
  enter: "b_pub s p = Idle \<Longrightarrow>
    bus_step s (s\<lparr>b_pub := (b_pub s)(p := Entered e)\<rparr>)"
| check: "b_pub s p = Entered e \<Longrightarrow>
    bus_step s (s\<lparr>b_pub := (b_pub s)(p := Checked e (b_over s \<noteq> []))\<rparr>)"
| send: "b_pub s p = Checked e False \<Longrightarrow> length (b_chan s) < b_buf s \<Longrightarrow>
    bus_step s (s\<lparr>b_pub := (b_pub s)(p := Idle), b_chan := b_chan s @ [(p, e)],
      b_log := b_log s @ [(p, e)]\<rparr>)"
| full: "b_pub s p = Checked e False \<Longrightarrow> \<not> length (b_chan s) < b_buf s \<Longrightarrow>
    bus_step s (s\<lparr>b_pub := (b_pub s)(p := Unsent e)\<rparr>)"
| skip: "b_pub s p = Checked e True \<Longrightarrow> bus_step s (s\<lparr>b_pub := (b_pub s)(p := Unsent e)\<rparr>)"
| drop: "b_pub s p = Unsent e \<Longrightarrow> droppable (b_policy s) e \<Longrightarrow>
    bus_step s (s\<lparr>b_pub := (b_pub s)(p := Idle), b_log := b_log s @ [(p, e)],
      b_drops := b_drops s + 1\<rparr>)"
| append: "b_pub s p = Unsent e \<Longrightarrow> \<not> droppable (b_policy s) e \<Longrightarrow>
    bus_step s (s\<lparr>b_pub := (b_pub s)(p := Appended), b_over := b_over s @ [(p, e)],
      b_log := b_log s @ [(p, e)]\<rparr>)"
| kick: "b_pub s p = Appended \<Longrightarrow>
    bus_step s (s\<lparr>b_pub := (b_pub s)(p := Idle), b_kick := True\<rparr>)"
| wake: "b_pump s = Waiting \<Longrightarrow> b_kick s \<Longrightarrow>
    bus_step s (s\<lparr>b_pump := Draining, b_kick := False\<rparr>)"
| drained: "b_pump s = Draining \<Longrightarrow> b_over s = [] \<Longrightarrow> bus_step s (s\<lparr>b_pump := Waiting\<rparr>)"
| peek: "b_pump s = Draining \<Longrightarrow> b_over s = x # xs \<Longrightarrow> bus_step s (s\<lparr>b_pump := Sending x\<rparr>)"
| move: "b_pump s = Sending x \<Longrightarrow> length (b_chan s) < b_buf s \<Longrightarrow>
    bus_step s (s\<lparr>b_pump := Removing, b_chan := b_chan s @ [x]\<rparr>)"
| remove: "b_pump s = Removing \<Longrightarrow>
    bus_step s (s\<lparr>b_pump := Draining, b_over := tl (b_over s)\<rparr>)"
| stop: "b_pump s = Waiting \<or> (\<exists>x. b_pump s = Sending x) \<Longrightarrow> b_done s \<Longrightarrow>
    bus_step s (s\<lparr>b_pump := Stopped\<rparr>)"
| release: "bus_step s (s\<lparr>b_done := True\<rparr>)"
| receive: "b_chan s = x # xs \<Longrightarrow> bus_step s (s\<lparr>b_chan := xs, b_recv := b_recv s @ [x]\<rparr>)"

definition bus_init :: "policy \<Rightarrow> nat \<Rightarrow> bus_state" where
  "bus_init p n = \<lparr>b_policy = p, b_buf = n, b_chan = [], b_over = [], b_kick = False, b_done = False,
     b_pub = (\<lambda>_. Idle), b_pump = Waiting, b_recv = [], b_log = [], b_drops = 0\<rparr>"

text \<open>The events on their way or received, in channel order; a head already sent counts once.\<close>

definition in_order :: "bus_state \<Rightarrow> (nat \<times> event) list" where
  "in_order s = b_recv s @ b_chan s @ (if b_pump s = Removing then tl (b_over s) else b_over s)"

definition of_publisher :: "nat \<Rightarrow> (nat \<times> event) list \<Rightarrow> event list" where
  "of_publisher p xs = map snd (filter (\<lambda>x. fst x = p) xs)"

lemma of_publisher_simps [simp]:
  "of_publisher p [] = []" "of_publisher p (xs @ ys) = of_publisher p xs @ of_publisher p ys"
  "of_publisher p ((q, e) # xs) = (if q = p then e # of_publisher p xs else of_publisher p xs)"
  by (simp_all add: of_publisher_def)

text \<open>
  The invariant: the list's head is the one the pump holds; a publisher that saw the list
  empty has nothing of its own on it; a non-empty list has a kick on its way or a working
  pump; and per publisher, the events in order are the log without what was dropped.
\<close>

definition kicking :: "(nat \<Rightarrow> publisher) \<Rightarrow> bool" where
  "kicking f \<longleftrightarrow> (\<exists>p. f p = Appended)"

definition pump_inv :: "bus_state \<Rightarrow> bool" where
  "pump_inv s \<longleftrightarrow>
     (\<forall>x. b_pump s = Sending x \<longrightarrow> (\<exists>xs. b_over s = x # xs)) \<and>
     (b_pump s = Removing \<longrightarrow> b_over s \<noteq> []) \<and>
     (\<forall>p e. b_pub s p = Checked e False \<longrightarrow> of_publisher p (b_over s) = []) \<and>
     (b_over s \<noteq> [] \<and> b_pump s = Waiting \<longrightarrow> b_kick s \<or> kicking (b_pub s))"

definition delivered :: "policy \<Rightarrow> (nat \<times> event) list \<Rightarrow> (nat \<times> event) list \<Rightarrow> bool" where
  "delivered pol xs ls \<longleftrightarrow> (\<forall>p. subseq (of_publisher p xs) (of_publisher p ls) \<and>
     filter (\<lambda>e. \<not> droppable pol e) (of_publisher p xs) = filter (\<lambda>e. \<not> droppable pol e) (of_publisher p ls))"

definition bus_inv :: "bus_state \<Rightarrow> bool" where
  "bus_inv s \<longleftrightarrow> pump_inv s \<and> delivered (b_policy s) (in_order s) (b_log s)"

lemma bus_init_inv: "bus_inv (bus_init p n)"
  by (simp add: bus_inv_def pump_inv_def delivered_def bus_init_def in_order_def)

lemma kicking_upd [simp]:
  "f p \<noteq> Appended \<Longrightarrow> kicking (f(p := x)) \<longleftrightarrow> x = Appended \<or> kicking f"
  by (auto simp: kicking_def fun_upd_def)

lemma of_publisher_tl: "of_publisher p xs = [] \<Longrightarrow> of_publisher p (tl xs) = []"
  by (cases xs) (auto simp: of_publisher_def split: if_splits)

lemma delivered_put:
  assumes "delivered pol xs ls" "\<And>q. of_publisher q xs' = of_publisher q (xs @ [(p, e)])"
  shows "delivered pol xs' (ls @ [(p, e)])"
  using assms by (auto simp: delivered_def intro: list_emb_append_mono)

lemma delivered_drop:
  "delivered pol xs ls \<Longrightarrow> droppable pol e \<Longrightarrow> delivered pol xs (ls @ [(p, e)])"
  by (auto simp: delivered_def intro: subseq_rev_drop_many)

lemma pump_step_inv:
  assumes "bus_step s s'" "pump_inv s" shows "pump_inv s'"
  using assms(1)
proof cases
  case remove
  then show ?thesis using assms(2) of_publisher_tl by (auto simp: pump_inv_def)
qed (insert assms(2), auto simp: pump_inv_def split: if_splits)

lemma bus_step_inv:
  assumes "bus_step s s'" "bus_inv s" shows "bus_inv s'"
proof -
  have p: "pump_inv s" and d: "delivered (b_policy s) (in_order s) (b_log s)"
    using assms(2) by (auto simp: bus_inv_def)
  have "delivered (b_policy s') (in_order s') (b_log s')"
    using assms(1)
  proof cases
    case (send p e)
    have "of_publisher p (b_over s) = []" using p send by (auto simp: pump_inv_def)
    with of_publisher_tl [OF this] have "of_publisher q (in_order s') = of_publisher q (in_order s @ [(p, e)])" for q
      using send by (cases "q = p"; cases "b_pump s = Removing") (simp_all add: in_order_def)
    from delivered_put [OF d this] show ?thesis using send by simp
  next
    case (drop p e)
    then have "in_order s' = in_order s" by (simp add: in_order_def)
    with drop show ?thesis using delivered_drop [OF d, of e p] by simp
  next
    case (append p e)
    have "b_over s \<noteq> []" if "b_pump s = Removing" using that p by (simp add: pump_inv_def)
    then show ?thesis using delivered_put [OF d, of "in_order s'" p e] append by (simp add: in_order_def)
  next
    case (move x)
    then obtain xs where "b_over s = x # xs" using p by (auto simp: pump_inv_def)
    with move d show ?thesis by (simp add: in_order_def)
  qed (use d in \<open>simp_all add: in_order_def split: if_splits\<close>)
  with pump_step_inv [OF assms(1) p] show ?thesis by (simp add: bus_inv_def)
qed

lemma bus_reachable_inv: "bus_step\<^sup>*\<^sup>* (bus_init pol n) s \<Longrightarrow> bus_inv s"
  by (induction rule: rtranclp_induct) (auto intro: bus_init_inv bus_step_inv)

section \<open>Progress\<close>

text \<open>Weight of the work left: entries of the list, of the channel, and the pump's place.\<close>

fun pump_weight :: "pump \<Rightarrow> bool \<Rightarrow> nat" where
  "pump_weight Waiting kicked = (if kicked then 4 else 5)"
| "pump_weight Draining _ = 3" | "pump_weight (Sending x) _ = 2" | "pump_weight Removing _ = 0"
| "pump_weight Stopped _ = 0"

definition work :: "bus_state \<Rightarrow> nat" where
  "work s = 10 * length (b_over s) + length (b_chan s) + pump_weight (b_pump s) (b_kick s)"

text \<open>
  A step of the pump or the consumer, or the kick of a publisher that has appended: no event
  enters the bus by it and the subscription is not closed. \<open>pumps\<close> allows no publisher at all.
\<close>

definition finishes :: "bus_state \<Rightarrow> bus_state \<Rightarrow> bool" where
  "finishes s s' \<longleftrightarrow> bus_step s s' \<and> b_done s' = b_done s \<and>
     (b_pub s' = b_pub s \<or> (\<exists>p. b_pub s p = Appended \<and> b_pub s' = (b_pub s)(p := Idle)))"

definition pumps :: "bus_state \<Rightarrow> bus_state \<Rightarrow> bool" where
  "pumps s s' \<longleftrightarrow> bus_step s s' \<and> b_pub s' = b_pub s \<and> b_done s' = b_done s"

lemma work_step:
  assumes "pump_inv s" "b_pump s \<noteq> Stopped" "0 < b_buf s" "b_over s \<noteq> [] \<or> b_chan s \<noteq> []"
  shows "\<exists>s'. finishes s s' \<and> work s' < work s \<and> b_log s' = b_log s \<and> b_pump s' \<noteq> Stopped \<and> b_buf s' = b_buf s"
proof (cases "b_chan s")
  case (Cons x xs)
  show ?thesis unfolding finishes_def using Cons assms(2) by - (intro exI conjI, rule receive, auto simp: work_def)
next
  case Nil
  then obtain y ys where o: "b_over s = y # ys" using assms(4) by (cases "b_over s") auto
  show ?thesis
  proof (cases "b_pump s")
    case Waiting
    show ?thesis
    proof (cases "b_kick s")
      case True
      show ?thesis unfolding finishes_def using Waiting True by - (intro exI conjI, rule wake, auto simp: work_def)
    next
      case False
      then obtain p where "b_pub s p = Appended"
        using assms(1) o Waiting by (auto simp: pump_inv_def kicking_def)
      then show ?thesis unfolding finishes_def using Waiting False by - (intro exI conjI, rule kick, auto simp: work_def)
    qed
  next
    case Draining
    then show ?thesis unfolding finishes_def using o by - (intro exI conjI, rule peek, auto simp: work_def)
  next
    case (Sending z)
    then show ?thesis unfolding finishes_def using Nil assms(3) by - (intro exI conjI, rule move, auto simp: work_def)
  next
    case Removing
    then show ?thesis unfolding finishes_def using o by - (intro exI conjI, rule remove, auto simp: work_def)
  qed (use assms(2) in simp)
qed

lemma drains:
  assumes "bus_inv s" "b_pump s \<noteq> Stopped" "0 < b_buf s"
  shows "\<exists>s'. finishes\<^sup>*\<^sup>* s s' \<and> b_log s' = b_log s \<and> in_order s' = b_recv s' \<and> b_chan s' = [] \<and> b_over s' = []"
  using assms
proof (induction "work s" arbitrary: s rule: less_induct)
  case less
  show ?case
  proof (cases "b_over s \<noteq> [] \<or> b_chan s \<noteq> []")
    case False
    then show ?thesis by (intro exI [of _ s]) (simp add: in_order_def)
  next
    case True
    from less.prems have "pump_inv s" by (simp add: bus_inv_def)
    from work_step [OF this less.prems(2,3) True] obtain s1 where s1: "finishes s s1" "work s1 < work s"
      "b_log s1 = b_log s" "b_pump s1 \<noteq> Stopped" "b_buf s1 = b_buf s" by blast
    have "bus_inv s1" using s1(1) less.prems(1) bus_step_inv by (auto simp: finishes_def)
    from less.hyps [OF s1(2) this s1(4)] s1(5) less.prems(3) obtain s' where
      "finishes\<^sup>*\<^sup>* s1 s'" "b_log s' = b_log s1" "in_order s' = b_recv s'" "b_chan s' = []" "b_over s' = []" by auto
    with s1(1,3) show ?thesis by (metis converse_rtranclp_into_rtranclp)
  qed
qed

lemma finishes_pumps:
  assumes "finishes\<^sup>*\<^sup>* s s'" "\<forall>p. b_pub s p \<noteq> Appended"
  shows "pumps\<^sup>*\<^sup>* s s' \<and> b_pub s' = b_pub s"
  using assms(1)
proof (induction rule: rtranclp_induct)
  case (step y z)
  then have "pumps y z \<and> b_pub z = b_pub y" using assms(2) by (auto simp: finishes_def pumps_def)
  with step.IH show ?case by (metis rtranclp.rtrancl_into_rtrancl)
qed simp

text \<open>C5: Every event reaches the consumer in its publisher's order, exactly once: in any
  interleaving, what one publisher's deliveries put in order (received, in the channel or on
  the list) is its log of deliveries without some dropped ones, only value updates of a
  coalescing subscription are ever dropped, a PeriodClosed never; a publisher is never
  blocked; and as long as the pump runs no wake-up is lost: the pending events can always be
  delivered by the pump and the consumer with at most the kicks of publishers that have
  appended and not kicked yet, and once no publisher stands there by the pump and the consumer
  alone, no publisher moving at all.\<close>

theorem bus_delivers:
  assumes "bus_step\<^sup>*\<^sup>* (bus_init pol n) s" "0 < n"
  shows "subseq (of_publisher p (in_order s)) (of_publisher p (b_log s)) \<and>
    filter (\<lambda>e. \<not> droppable pol e) (of_publisher p (in_order s))
      = filter (\<lambda>e. \<not> droppable pol e) (of_publisher p (b_log s)) \<and>
    (\<exists>s'. bus_step s s' \<and> b_pub s' p \<noteq> b_pub s p) \<and>
    (b_pump s \<noteq> Stopped \<longrightarrow>
      (\<exists>s'. finishes\<^sup>*\<^sup>* s s' \<and> b_log s' = b_log s \<and> in_order s' = b_recv s') \<and>
      ((\<forall>q. b_pub s q \<noteq> Appended) \<longrightarrow>
        (\<exists>s'. pumps\<^sup>*\<^sup>* s s' \<and> b_log s' = b_log s \<and> in_order s' = b_recv s')))"
proof (intro conjI)
  have inv: "bus_inv s" using bus_reachable_inv assms(1) .
  have par: "b_policy s = pol \<and> b_buf s = n" using assms(1)
    by (induction rule: rtranclp_induct) (auto simp: bus_init_def elim!: bus_step.cases)
  from inv par show "subseq (of_publisher p (in_order s)) (of_publisher p (b_log s))"
    and "filter (\<lambda>e. \<not> droppable pol e) (of_publisher p (in_order s))
      = filter (\<lambda>e. \<not> droppable pol e) (of_publisher p (b_log s))"
    by (auto simp: bus_inv_def delivered_def)
  show "\<exists>s'. bus_step s s' \<and> b_pub s' p \<noteq> b_pub s p"
  proof (cases "b_pub s p")
    case Idle
    then show ?thesis using enter [OF Idle] by fastforce
  next
    case (Entered e)
    then show ?thesis using check [OF Entered] by fastforce
  next
    case (Checked e q)
    then show ?thesis using send [of s p e] full [of s p e] skip [of s p e]
      by (cases q; cases "length (b_chan s) < b_buf s") fastforce+
  next
    case (Unsent e)
    then show ?thesis using drop [OF Unsent] append [OF Unsent]
      by (cases "droppable (b_policy s) e") fastforce+
  next
    case Appended
    then show ?thesis using kick [OF Appended] by fastforce
  qed
  have "0 < b_buf s" using par assms(2) by simp
  then show "b_pump s \<noteq> Stopped \<longrightarrow>
      (\<exists>s'. finishes\<^sup>*\<^sup>* s s' \<and> b_log s' = b_log s \<and> in_order s' = b_recv s') \<and>
      ((\<forall>q. b_pub s q \<noteq> Appended) \<longrightarrow>
        (\<exists>s'. pumps\<^sup>*\<^sup>* s s' \<and> b_log s' = b_log s \<and> in_order s' = b_recv s'))"
    using drains [OF inv] finishes_pumps [of s] by blast
qed

definition demo_event :: event where
  "demo_event = \<lparr>ev_kind = PeriodClosedEvent, ev_domain = [], ev_keys = [], ev_at = 0,
     ev_day = ''2024-02-04''\<rparr>"

definition demo_bus :: bus_state where
  "demo_bus = (bus_init Coalesce 1)\<lparr>b_chan := [(7, demo_event)], b_log := [(7, demo_event)]\<rparr>"

lemma demo_bus_reachable: "bus_step\<^sup>*\<^sup>* (bus_init Coalesce 1) demo_bus"
proof -
  let ?s0 = "bus_init Coalesce 1"
  let ?s1 = "?s0\<lparr>b_pub := (b_pub ?s0)(7 := Entered demo_event)\<rparr>"
  let ?s2 = "?s1\<lparr>b_pub := (b_pub ?s1)(7 := Checked demo_event (b_over ?s1 \<noteq> []))\<rparr>"
  have 1: "bus_step ?s0 ?s1" by (rule enter) (simp add: bus_init_def)
  have 2: "bus_step ?s1 ?s2" by (rule check) simp
  have "bus_step ?s2 (?s2\<lparr>b_pub := (b_pub ?s2)(7 := Idle),
      b_chan := b_chan ?s2 @ [(7, demo_event)], b_log := b_log ?s2 @ [(7, demo_event)]\<rparr>)"
    by (rule send) (simp_all add: bus_init_def)
  moreover have "?s2\<lparr>b_pub := (b_pub ?s2)(7 := Idle), b_chan := b_chan ?s2 @ [(7, demo_event)],
      b_log := b_log ?s2 @ [(7, demo_event)]\<rparr> = demo_bus"
    by (simp add: demo_bus_def bus_init_def fun_eq_iff)
  ultimately have 3: "bus_step ?s2 demo_bus" by (simp only:)
  note start = r_into_rtranclp [where r = bus_step, OF 1]
  show ?thesis
    by (rule rtranclp.rtrancl_into_rtrancl [where r = bus_step,
          OF rtranclp.rtrancl_into_rtrancl [where r = bus_step, OF start 2] 3])
qed

theorem bus_delivers_witness:
  "of_publisher 7 (in_order demo_bus) = [demo_event] \<and> (\<exists>s'. pumps\<^sup>*\<^sup>* demo_bus s' \<and> in_order s' = b_recv s')"
proof -
  have "b_pump demo_bus \<noteq> Stopped" "\<forall>q. b_pub demo_bus q \<noteq> Appended"
    by (simp_all add: demo_bus_def bus_init_def)
  with bus_delivers [OF demo_bus_reachable, of 7]
  show ?thesis by (auto simp: demo_bus_def bus_init_def droppable_def demo_event_def in_order_def)
qed

section \<open>A publisher running alone\<close>

definition subscription_of :: "string \<Rightarrow> bus_state \<Rightarrow> subscription" where
  "subscription_of name s = \<lparr>su_name = name, su_policy = b_policy s, su_buf = b_buf s,
     su_chan = map snd (b_chan s), su_overflow = map snd (b_over s), su_kick = b_kick s, su_done = b_done s\<rparr>"

text \<open>\<open>deliver\<close> is what the steps of one publisher do when nothing runs between them.\<close>

lemma deliver_steps:
  assumes "b_pub s p = Idle"
  shows "\<exists>s'. bus_step\<^sup>*\<^sup>* s s' \<and> b_pub s' = b_pub s \<and>
    deliver e (subscription_of name s) = (subscription_of name s', b_drops s' = b_drops s)"
proof -
  let ?q = "b_over s \<noteq> []"
  let ?s1 = "s\<lparr>b_pub := (b_pub s)(p := Entered e)\<rparr>"
  let ?s2 = "s\<lparr>b_pub := (b_pub s)(p := Checked e ?q)\<rparr>"
  let ?s3 = "s\<lparr>b_pub := (b_pub s)(p := Unsent e)\<rparr>"
  have pub: "(b_pub s)(p := Idle) = b_pub s" using assms by auto
  have 1: "bus_step s ?s1" using assms by (rule enter)
  have 2: "bus_step ?s1 ?s2" using check [of ?s1 p e] by simp
  show ?thesis
  proof (cases "\<not> ?q \<and> length (b_chan s) < b_buf s")
    case True
    then have "bus_step ?s2 (s\<lparr>b_chan := b_chan s @ [(p, e)], b_log := b_log s @ [(p, e)]\<rparr>)"
      using send [of ?s2 p e] by (simp add: pub)
    with 1 2 True show ?thesis
      by (intro exI [of _ "s\<lparr>b_chan := b_chan s @ [(p, e)], b_log := b_log s @ [(p, e)]\<rparr>"])
        (auto simp: deliver_def subscription_of_def intro: converse_rtranclp_into_rtranclp)
  next
    case False
    then have 3: "bus_step ?s2 ?s3"
      using full [of ?s2 p e] skip [of ?s2 p e] by (cases ?q) simp_all
    show ?thesis
    proof (cases "droppable (b_policy s) e")
      case True
      then have "bus_step ?s3 (s\<lparr>b_log := b_log s @ [(p, e)], b_drops := b_drops s + 1\<rparr>)"
        using drop [of ?s3 p e] by (simp add: pub)
      with 1 2 3 False True show ?thesis
        by (intro exI [of _ "s\<lparr>b_log := b_log s @ [(p, e)], b_drops := b_drops s + 1\<rparr>"])
          (auto simp: deliver_def subscription_of_def droppable_def Let_def
            intro: converse_rtranclp_into_rtranclp)
    next
      case nodrop: False
      let ?s4 = "s\<lparr>b_pub := (b_pub s)(p := Appended), b_over := b_over s @ [(p, e)], b_log := b_log s @ [(p, e)]\<rparr>"
      have 4: "bus_step ?s3 ?s4" using append [of ?s3 p e] nodrop by simp
      have "bus_step ?s4 (s\<lparr>b_over := b_over s @ [(p, e)], b_log := b_log s @ [(p, e)], b_kick := True\<rparr>)"
        using kick [of ?s4 p] by (simp add: pub)
      with 1 2 3 4 False nodrop show ?thesis
        by (intro exI [of _ "s\<lparr>b_over := b_over s @ [(p, e)], b_log := b_log s @ [(p, e)], b_kick := True\<rparr>"])
          (auto simp: deliver_def subscription_of_def droppable_def Let_def
            intro: converse_rtranclp_into_rtranclp)
    qed
  qed
qed

end
