(* ===== verification/Cache.thy ===== *)
theory Cache
  imports Decoder EventBus
begin

text \<open>
  internal/cache: the latest values, partitioned into write domains. A write returns the event
  it publishes. The loops over Go maps run in the order of the association list; results hold
  for every order.
\<close>

record cache =
  ca_data :: "(string \<times> reg_value) list"
  ca_owner :: "(string \<times> string) list"
  ca_updated :: "(string \<times> int) list"

definition new_cache :: cache where
  "new_cache = \<lparr>ca_data = [], ca_owner = [], ca_updated = []\<rparr>"

definition updated_event :: "string \<Rightarrow> string list \<Rightarrow> int \<Rightarrow> event" where
  "updated_event dm keys t = \<lparr>ev_kind = ValuesUpdated, ev_domain = dm, ev_keys = keys, ev_at = t, ev_day = []\<rparr>"

definition foreign :: "cache \<Rightarrow> string \<Rightarrow> string \<Rightarrow> bool" where
  "foreign c dm k \<longleftrightarrow> (case map_of (ca_owner c) k of None \<Rightarrow> False | Some o' \<Rightarrow> o' \<noteq> dm)"

text \<open>The loop of \<open>put\<close>: a key of another domain is dropped.\<close>

fun put_values :: "string \<Rightarrow> (string \<times> reg_value) list \<Rightarrow> cache \<Rightarrow> string list \<Rightarrow> cache \<times> string list" where
  "put_values dm [] c keys = (c, keys)"
| "put_values dm ((k, v) # vs) c keys =
     (if foreign c dm k then put_values dm vs c keys
      else put_values dm vs (c\<lparr>ca_data := AList.update k v (ca_data c),
        ca_owner := AList.update k dm (ca_owner c)\<rparr>) (keys @ [k]))"

definition put :: "string \<Rightarrow> (string \<times> reg_value) list \<Rightarrow> int \<Rightarrow> cache \<Rightarrow> cache \<times> string list" where
  "put dm values t c = (let (c', keys) = put_values dm values c [] in
     (c'\<lparr>ca_updated := AList.update dm t (ca_updated c')\<rparr>, sort keys))"

definition removed_keys :: "string \<Rightarrow> (string \<times> reg_value) list \<Rightarrow> cache \<Rightarrow> string list" where
  "removed_keys dm values c =
     map fst (filter (\<lambda>(k, d). d = dm \<and> map_of values k = None) (ca_owner c))"

definition replace_domain :: "string \<Rightarrow> (string \<times> reg_value) list \<Rightarrow> int \<Rightarrow> cache \<Rightarrow> cache \<times> event" where
  "replace_domain dm values t c =
     (let removed = removed_keys dm values c;
          c1 = c\<lparr>ca_data := filter (\<lambda>(k, v). k \<notin> set removed) (ca_data c),
                 ca_owner := filter (\<lambda>(k, d). k \<notin> set removed) (ca_owner c)\<rparr>;
          (c2, keys) = put dm values t c1;
          keys = (if removed \<noteq> [] then sort (keys @ removed) else keys) in
      (c2, updated_event dm keys t))"

definition merge_domain :: "string \<Rightarrow> (string \<times> reg_value) list \<Rightarrow> int \<Rightarrow> cache \<Rightarrow> cache \<times> event option" where
  "merge_domain dm values t c = (let (c', keys) = put dm values t c in
     (c', if keys = [] then None else Some (updated_event dm keys t)))"

definition cache_get :: "cache \<Rightarrow> string \<Rightarrow> reg_value option" where
  "cache_get c k = map_of (ca_data c) k"

fun get_multiple :: "cache \<Rightarrow> string list \<Rightarrow> (string \<times> reg_value) list" where
  "get_multiple c [] = []"
| "get_multiple c (k # ks) = (case map_of (ca_data c) k of None \<Rightarrow> get_multiple c ks
     | Some v \<Rightarrow> AList.update k v (get_multiple c ks))"

definition last_update :: "cache \<Rightarrow> string \<Rightarrow> int option" where
  "last_update c dm = map_of (ca_updated c) dm"

definition cache_size :: "cache \<Rightarrow> nat" where
  "cache_size c = length (ca_data c)"

section \<open>Write domains\<close>

definition cache_ok :: "cache \<Rightarrow> bool" where
  "cache_ok c \<longleftrightarrow> distinct (map fst (ca_data c)) \<and> distinct (map fst (ca_owner c)) \<and>
     set (map fst (ca_data c)) = set (map fst (ca_owner c))"

lemma new_cache_ok: "cache_ok new_cache"
  by (simp add: cache_ok_def new_cache_def)

lemma put_values_keeps:
  assumes "put_values dm vs c keys = (c', keys')" "cache_ok c"
  shows "cache_ok c' \<and> ca_updated c' = ca_updated c"
  using assms
proof (induction dm vs c keys rule: put_values.induct)
  case (2 dm k v vs c keys)
  have "cache_ok (c\<lparr>ca_data := AList.update k v (ca_data c), ca_owner := AList.update k dm (ca_owner c)\<rparr>)"
    using 2(4) by (simp add: cache_ok_def update_keys)
  with 2 show ?case by (auto split: if_splits)
qed simp

lemma foreign_update:
  "\<not> foreign c dm k \<Longrightarrow> foreign (c\<lparr>ca_data := x, ca_owner := AList.update k dm (ca_owner c)\<rparr>) dm k'
     \<longleftrightarrow> foreign c dm k'"
  by (auto simp: foreign_def update_conv')

lemma put_values_spec:
  assumes "put_values dm vs c keys = (c', keys')" "distinct (map fst vs)"
  shows "(set keys' = set keys \<union> {k \<in> fst ` set vs. \<not> foreign c dm k}) \<and>
    map_of (ca_data c') k = (if k \<in> fst ` set vs \<and> \<not> foreign c dm k then map_of vs k else map_of (ca_data c) k) \<and>
    map_of (ca_owner c') k = (if k \<in> fst ` set vs \<and> \<not> foreign c dm k then Some dm else map_of (ca_owner c) k)"
  using assms
proof (induction dm vs c keys rule: put_values.induct)
  case (2 dm k1 v vs c keys)
  show ?case
  proof (cases "foreign c dm k1")
    case True
    with 2 show ?thesis by (auto simp: foreign_def)
  next
    case False
    let ?c = "c\<lparr>ca_data := AList.update k1 v (ca_data c), ca_owner := AList.update k1 dm (ca_owner c)\<rparr>"
    have "put_values dm vs ?c (keys @ [k1]) = (c', keys')" "distinct (map fst vs)" "k1 \<notin> fst ` set vs"
      using 2(3,4) False by auto
    with 2(2) [OF False] False show ?thesis
      by (auto simp: foreign_update update_conv' image_iff)
  qed
qed simp

text \<open>A cache write stays in its domain. Replacing a domain leaves every key of another domain as
  it was, even when the writer names it; all other keys hold exactly the new values, so keys
  absent from them are gone; the event lists, sorted, exactly the keys written or removed,
  and the data and ownership maps keep agreeing.\<close>

theorem replace_domain_exact:
  assumes "replace_domain dm vals t c = (c', e)" "cache_ok c" "distinct (map fst vals)"
  shows "cache_ok c' \<and>
    cache_get c' k = (if foreign c dm k then cache_get c k else map_of vals k) \<and>
    (k \<in> set (ev_keys e) \<longleftrightarrow> \<not> foreign c dm k \<and> (map_of vals k \<noteq> None \<or> cache_get c k \<noteq> None)) \<and>
    sorted (ev_keys e) \<and> last_update c' dm = Some t"
proof -
  define rem where "rem = removed_keys dm vals c"
  define c1 where "c1 = c\<lparr>ca_data := filter (\<lambda>(k, v). k \<notin> set rem) (ca_data c),
    ca_owner := filter (\<lambda>(k, d). k \<notin> set rem) (ca_owner c)\<rparr>"
  obtain c2 keys where p: "put_values dm vals c1 [] = (c2, keys)" by (metis surj_pair)
  have c': "c' = c2\<lparr>ca_updated := AList.update dm t (ca_updated c2)\<rparr>" and
    e: "ev_keys e = (if rem \<noteq> [] then sort (sort keys @ rem) else sort keys)"
    using assms(1) p
    by (auto simp: replace_domain_def put_def rem_def [symmetric] c1_def [symmetric] Let_def updated_event_def)
  have dist: "distinct (map fst (ca_data c))" "distinct (map fst (ca_owner c))"
    and doms: "set (map fst (ca_data c)) = set (map fst (ca_owner c))"
    using assms(2) by (auto simp: cache_ok_def)
  have rem: "q \<in> set rem \<longleftrightarrow> map_of (ca_owner c) q = Some dm \<and> map_of vals q = None" for q
    using dist(2) by (force simp: rem_def removed_keys_def)
  have filt: "map_of (filter (\<lambda>(k, v). k \<notin> set rem) xs) q = (if q \<in> set rem then None else map_of xs q)"
    for xs :: "(string \<times> 'z) list" and q
    by (induction xs) auto
  have "cache_ok c1" using assms(2)
    by (auto simp: cache_ok_def c1_def distinct_map intro: inj_on_subset) (force simp: image_iff)+
  with put_values_keeps [OF p] have ok: "cache_ok c2" by blast
  have "map_of (ca_owner c1) q = (if q \<in> set rem then None else map_of (ca_owner c) q)" for q
    by (simp add: c1_def filt)
  then have f1: "foreign c1 dm q \<longleftrightarrow> foreign c dm q" for q
    by (auto simp: foreign_def rem split: option.splits)
  have dom: "map_of (ca_data c) q \<noteq> None \<longleftrightarrow> map_of (ca_owner c) q \<noteq> None" for q
    using doms by (metis map_of_eq_None_iff list.set_map)
  have spec: "set keys = {k \<in> fst ` set vals. \<not> foreign c dm k}"
    "map_of (ca_data c2) k = (if k \<in> fst ` set vals \<and> \<not> foreign c dm k then map_of vals k
      else map_of (ca_data c1) k)"
    using put_values_spec [OF p assms(3), of k] by (auto simp: f1)
  have vals: "q \<in> fst ` set vals \<longleftrightarrow> map_of vals q \<noteq> None" for q
    by (metis map_of_eq_None_iff)
  have get: "cache_get c' k = (if foreign c dm k then cache_get c k else map_of vals k)"
  proof -
    have "map_of (ca_data c1) k = (if k \<in> set rem then None else map_of (ca_data c) k)"
      by (simp add: c1_def filt)
    then show ?thesis
      using spec(2) dom [of k] rem [of k] by (auto simp: cache_get_def c' vals foreign_def split: option.splits)
  qed
  have "k \<in> set (ev_keys e) \<longleftrightarrow> k \<in> set keys \<or> k \<in> set rem" by (auto simp: e)
  also have "\<dots> \<longleftrightarrow> \<not> foreign c dm k \<and> (map_of vals k \<noteq> None \<or> cache_get c k \<noteq> None)"
    using dom [of k] by (auto simp: spec(1) rem vals foreign_def cache_get_def split: option.splits)
  finally show ?thesis using get ok
    by (simp add: c' e cache_ok_def last_update_def update_conv')
qed

definition demo_value :: "string \<Rightarrow> rat \<Rightarrow> reg_value" where
  "demo_value k x = \<lparr>v_key = k, v_name = k, v_raw = Fin x, v_decoded = Fin x, v_unit = [], v_time = 5,
     v_status = None\<rparr>"

definition demo_cache :: cache where
  "demo_cache = \<lparr>ca_data = [(''total'', demo_value ''total'' 9), (''soc'', demo_value ''soc'' 80)],
     ca_owner = [(''total'', domain_aggregator), (''soc'', domain_poller)], ca_updated = []\<rparr>"

theorem replace_domain_exact_witness:
  "cache_get (fst (replace_domain domain_poller [(''total'', demo_value ''total'' 1), (''power'', demo_value ''power'' 2)]
      7 demo_cache)) ''total'' = Some (demo_value ''total'' 9) \<and>
   cache_get (fst (replace_domain domain_poller [(''total'', demo_value ''total'' 1), (''power'', demo_value ''power'' 2)]
      7 demo_cache)) ''soc'' = None"
proof -
  have ok: "cache_ok demo_cache" "foreign demo_cache domain_poller ''total''"
    "\<not> foreign demo_cache domain_poller ''soc''" "cache_get demo_cache ''total'' = Some (demo_value ''total'' 9)"
    by (simp_all add: cache_ok_def demo_cache_def foreign_def cache_get_def domain_poller_def
        domain_aggregator_def insert_commute)
  let ?vs = "[(''total'', demo_value ''total'' 1), (''power'', demo_value ''power'' 2)]"
  note r = replace_domain_exact [where dm = domain_poller and vals = ?vs and t = "7" and c = demo_cache,
      OF surjective_pairing ok(1)]
  have d: "distinct (map fst ?vs)" by simp
  show ?thesis using r [OF d, of "''total''"] r [OF d, of "''soc''"] ok by simp
qed

end
