(* ===== verification/Status.thy ===== *)
theory Status
  imports Prelude
begin

text \<open>
  internal/health/status.go and the states of health.go: the half of the supervision contract
  every component shares. A report is what the status hands to its reporter; an instant 0 of
  the heartbeat is "never".
\<close>

datatype health_state = Healthy | Recovering | Failed

fun health_string :: "health_state \<Rightarrow> string" where
  "health_string Healthy = ''healthy''"
| "health_string Recovering = ''recovering''"
| "health_string Failed = ''failed''"

record status =
  hs_state :: health_state
  hs_beat :: int
  hs_reports :: "(health_state \<times> string) list"

definition new_status :: status where
  "new_status = \<lparr>hs_state = Healthy, hs_beat = 0, hs_reports = []\<rparr>"

definition beat :: "int \<Rightarrow> status \<Rightarrow> status" where
  "beat now s = s\<lparr>hs_beat := now\<rparr>"

definition set_status :: "health_state \<Rightarrow> string \<Rightarrow> status \<Rightarrow> status" where
  "set_status st reason s = s\<lparr>hs_state := st,
     hs_reports := (if hs_state s \<noteq> st then hs_reports s @ [(st, reason)] else hs_reports s)\<rparr>"

definition last_beat :: "status \<Rightarrow> int option" where
  "last_beat s = (if hs_beat s = 0 then None else Some (hs_beat s))"

end
