(* ===== verification/Poller.thy ===== *)
theory Poller
  imports Attribution Cache Status
begin

text \<open>
  internal/poller/cycle.go and poller.go: one poll cycle. The poller's own state, the storage,
  the cache and the events published so far are threaded through the cycle; the Modbus reader
  and the failures of the storage are the environment. The order in which Go walks the map of
  decoded values is the function \<open>en_order\<close>; nothing is assumed of it.
\<close>

section \<open>State and environment\<close>

record poller_settings =
  se_block_attempts :: int
  se_block_interval :: int

text \<open>One attempt to read a block: whether the client still answers as connected and the delay
  elapsed (both looked at before a retry only), and the result of the read.\<close>

record read_attempt =
  ra_connected :: bool
  ra_waited :: bool
  ra_result :: "string + 16 word list"

record poll_env =
  en_start :: int
  en_clock :: "int list"
  en_source :: "bool option"
  en_read :: "nat \<Rightarrow> nat \<Rightarrow> read_attempt"
  en_pause :: "nat \<Rightarrow> bool"
  en_seed_fault :: bool
  en_faults :: "bool list"
  en_order :: "(string \<times> reg_value) list \<Rightarrow> (string \<times> reg_value) list"

record poller =
  ps_status :: status
  ps_attr :: attributor
  ps_seeded :: bool
  ps_last_status :: "(string \<times> float64) list"
  ps_last_daily :: "(string \<times> reg_value) list"
  ps_pending :: "(string \<times> string) list"
  ps_emitted :: "string list"

record world =
  wd_store :: Store.store
  wd_cache :: cache
  wd_events :: "event list"

definition new_poller :: "registry \<Rightarrow> poller" where
  "new_poller g = \<lparr>ps_status = new_status, ps_attr = new_attributor (daily_keys g), ps_seeded = False,
     ps_last_status = [], ps_last_daily = [], ps_pending = [], ps_emitted = []\<rparr>"

text \<open>Heartbeats read the clock; the instants still to be read are threaded along.\<close>

definition take_beat :: "status \<times> int list \<Rightarrow> status \<times> int list" where
  "take_beat s = (case s of (st, []) \<Rightarrow> (st, []) | (st, t # ts) \<Rightarrow> (beat t st, ts))"

section \<open>Reading\<close>

datatype read_error = ReadFailed string | Disconnected "read_error option" | WaitCancelled "read_error option"
  | PauseCancelled

text \<open>\<open>readBlock\<close>: the attempts still allowed, the next attempt's number and the last error.\<close>

fun read_attempts :: "(nat \<Rightarrow> read_attempt) \<Rightarrow> nat \<Rightarrow> nat \<Rightarrow> read_error option \<Rightarrow> status \<times> int list
    \<Rightarrow> (read_error + 16 word list) \<times> status \<times> int list" where
  "read_attempts f 0 i err s = (case err of None \<Rightarrow> Inr [] | Some e \<Rightarrow> Inl e, s)"
| "read_attempts f (Suc n) i err s =
     (if 0 < i \<and> \<not> ra_connected (f i) then (Inl (Disconnected err), s)
      else if 0 < i \<and> \<not> ra_waited (f i) then (Inl (WaitCancelled err), s)
      else (case ra_result (f i) of
          Inr raw \<Rightarrow> (Inr raw, s)
        | Inl e \<Rightarrow> read_attempts f n (i + 1) (Some (ReadFailed e)) (take_beat s)))"

definition read_block :: "poller_settings \<Rightarrow> (nat \<Rightarrow> read_attempt) \<Rightarrow> status \<times> int list
    \<Rightarrow> (read_error + 16 word list) \<times> status \<times> int list" where
  "read_block cfg f s = read_attempts f (nat (se_block_attempts cfg + 1)) 0 None s"

text \<open>\<open>readAll\<close>: block \<open>i\<close> on; a failing block discards everything read.\<close>

fun read_blocks :: "poller_settings \<Rightarrow> registry \<Rightarrow> poll_env \<Rightarrow> nat \<Rightarrow> block list
    \<Rightarrow> (string \<times> reg_value) list \<Rightarrow> status \<times> int list
    \<Rightarrow> (read_error + (string \<times> reg_value) list) \<times> status \<times> int list" where
  "read_blocks cfg g env i [] acc s = (Inr acc, s)"
| "read_blocks cfg g env i (b # bs) acc s =
     (case read_block cfg (en_read env i) s of
        (Inl e, s) \<Rightarrow> (Inl e, s)
      | (Inr raw, s) \<Rightarrow>
          let s = take_beat s;
              acc = fold (\<lambda>(k, v). AList.update k v) (decode_block g b raw (en_start env)) acc in
          if 0 < se_block_interval cfg \<and> bs \<noteq> [] \<and> \<not> en_pause env i then (Inl PauseCancelled, s)
          else read_blocks cfg g env (i + 1) bs acc s)"

definition read_all :: "poller_settings \<Rightarrow> registry \<Rightarrow> poll_env \<Rightarrow> status \<times> int list
    \<Rightarrow> (read_error + (string \<times> reg_value) list) \<times> status \<times> int list" where
  "read_all cfg g env s = read_blocks cfg g env 0 (g_blocks g) [] s"

section \<open>Day closes\<close>

definition max_day :: "string \<Rightarrow> string \<Rightarrow> string" where
  "max_day a b = (if b < a then a else b)"

definition pend :: "string \<times> string \<Rightarrow> (string \<times> string) list \<Rightarrow> (string \<times> string) list" where
  "pend kd ps = (case kd of (k, d) \<Rightarrow>
     AList.update k (max_day (case map_of ps k of None \<Rightarrow> [] | Some e \<Rightarrow> e) d) ps)"

definition poller_force_close :: "rollover \<Rightarrow> zone \<Rightarrow> int \<Rightarrow> poller \<Rightarrow> key_error + poller" where
  "poller_force_close r z now p = (case force_close r z now (ps_attr p) of Inl e \<Rightarrow> Inl e
     | Inr (forced, d) \<Rightarrow> Inr (p\<lparr>ps_attr := d, ps_pending := fold pend forced (ps_pending p)\<rparr>))"

definition closes :: "poller \<Rightarrow> day_close list" where
  "closes p = map (\<lambda>(k, d). \<lparr>dc_key = k, dc_day = d\<rparr>) (ps_pending p)"

definition emitted_memory :: nat where "emitted_memory = 8"

definition mark_emitted :: "string \<Rightarrow> string list \<Rightarrow> string list" where
  "mark_emitted day em = (if length em \<ge> emitted_memory then [day] else List.insert day em)"

definition closed_event :: "string \<Rightarrow> int \<Rightarrow> event" where
  "closed_event day now = \<lparr>ev_kind = PeriodClosedEvent, ev_domain = [], ev_keys = [], ev_at = now,
     ev_day = day\<rparr>"

fun commit_closes :: "int \<Rightarrow> day_close list \<Rightarrow> (string \<times> string) list \<times> string list \<times> event list
    \<Rightarrow> (string \<times> string) list \<times> string list \<times> event list" where
  "commit_closes now [] s = s"
| "commit_closes now (c # cs) (ps, em, evs) =
     commit_closes now cs (AList.delete (dc_key c) ps,
       if dc_day c \<in> set em then em else mark_emitted (dc_day c) em,
       if dc_day c \<in> set em then evs else evs @ [closed_event (dc_day c) now])"

definition committed :: "poll_write \<Rightarrow> int \<Rightarrow> poller \<Rightarrow> poller \<times> event list" where
  "committed w now p =
     (let ls = fold (\<lambda>r. AList.update (sr_key r) (sr_raw r)) (pw_status w) (ps_last_status p);
          (ps, em, evs) = commit_closes now (pw_close w) (ps_pending p, ps_emitted p, []) in
      (p\<lparr>ps_last_status := ls, ps_pending := ps, ps_emitted := em\<rparr>, evs))"

text \<open>The failure of a storage statement, or the rejected rows of the committed poll.\<close>

definition poller_write :: "registry \<Rightarrow> poll_env \<Rightarrow> poll_write \<Rightarrow> poller \<times> world
    \<Rightarrow> (storage_error + storage_error list) \<times> poller \<times> world" where
  "poller_write g env w s = (case s of (p, wd) \<Rightarrow>
     case write_poll g w (en_faults env) (wd_store wd) of
       (Inl e, st) \<Rightarrow> (Inl e, p, wd\<lparr>wd_store := st\<rparr>)
     | (Inr rej, st) \<Rightarrow> (case committed w (en_start env) p of (p', evs) \<Rightarrow>
         (Inr rej, p', wd\<lparr>wd_store := st, wd_events := wd_events wd @ evs\<rparr>)))"

section \<open>Values of a poll\<close>

definition store_of :: "registry \<Rightarrow> string \<Rightarrow> Registers.store" where
  "store_of g k = (case by_key g k of Some reg \<Rightarrow> reg_store reg | None \<Rightarrow> StoreNone)"

text \<open>The loop of \<open>attribute\<close>, with the daily rows and the cache view built so far.\<close>

fun attribute_values :: "registry \<Rightarrow> rollover \<Rightarrow> zone \<Rightarrow> int \<Rightarrow> (string \<times> reg_value) list
    \<Rightarrow> poller \<times> daily_row list \<times> (string \<times> reg_value) list
    \<Rightarrow> poller \<times> daily_row list \<times> (string \<times> reg_value) list" where
  "attribute_values g r z now [] s = s"
| "attribute_values g r z now ((k, v) # vs) (p, rows, cv) =
     (if store_of g k \<noteq> StoreDaily then attribute_values g r z now vs (p, rows, AList.update k v cv)
      else (case attribute r z (ps_attr p) k (v_decoded v) now of (a, d) \<Rightarrow>
        let p = p\<lparr>ps_attr := d,
              ps_pending := (if a_closed a \<noteq> [] then pend (k, a_closed a) (ps_pending p) else ps_pending p)\<rparr> in
        if a_decision a = Discard
        then attribute_values g r z now vs (p, rows,
          case map_of (ps_last_daily p) k of Some prev \<Rightarrow> AList.update k prev cv | None \<Rightarrow> cv)
        else attribute_values g r z now vs
          (p\<lparr>ps_last_daily := AList.update k v (ps_last_daily p)\<rparr>,
           rows @ [\<lparr>dr_key = k, dr_day = a_day a, dr_value = v_decoded v, dr_raw = v_raw v\<rparr>],
           AList.update k v cv)))"

definition status_changes :: "registry \<Rightarrow> poller \<Rightarrow> (string \<times> reg_value) list \<Rightarrow> int \<Rightarrow> status_row list" where
  "status_changes g p vs now =
     map (\<lambda>(k, v). \<lparr>sr_key = k, sr_raw = v_raw v, sr_at = now\<rparr>)
       (filter (\<lambda>(k, v). store_of g k = StoreStatus \<and>
          \<not> (case map_of (ps_last_status p) k of None \<Rightarrow> False | Some old \<Rightarrow> feq old (v_raw v))) vs)"

datatype persist_error = CloseFailed key_error | StoreFailed storage_error

text \<open>The rejected rows of the poll when it was committed.\<close>

definition persist :: "registry \<Rightarrow> rollover \<Rightarrow> zone \<Rightarrow> poll_env \<Rightarrow> (string \<times> reg_value) list \<Rightarrow> poller \<times> world
    \<Rightarrow> (persist_error + storage_error list) \<times> poller \<times> world" where
  "persist g r z env vs s = (case s of (p, wd) \<Rightarrow>
     case poller_force_close r z (en_start env) p of Inl e \<Rightarrow> (Inl (CloseFailed e), p, wd)
     | Inr p1 \<Rightarrow>
       (case attribute_values g r z (en_start env) (en_order env vs) (p1, [], []) of (p2, rows, cv) \<Rightarrow>
        case poller_write g env \<lparr>pw_daily = rows, pw_status = status_changes g p2 vs (en_start env),
            pw_close = closes p2\<rparr> (p2, wd) of
          (Inl e, p3, wd) \<Rightarrow> (Inl (StoreFailed e), p3, wd)
        | (Inr rej, p3, wd) \<Rightarrow>
            (case replace_domain domain_poller cv (en_start env) (wd_cache wd) of (c, ev) \<Rightarrow>
              (Inr rej, p3, wd\<lparr>wd_cache := c, wd_events := wd_events wd @ [ev]\<rparr>))))"

definition close_disconnected :: "registry \<Rightarrow> rollover \<Rightarrow> zone \<Rightarrow> poll_env \<Rightarrow> poller \<times> world
    \<Rightarrow> (persist_error + storage_error list) \<times> poller \<times> world" where
  "close_disconnected g r z env s = (case s of (p, wd) \<Rightarrow>
     case poller_force_close r z (en_start env) p of Inl e \<Rightarrow> (Inl (CloseFailed e), p, wd)
     | Inr p1 \<Rightarrow> if closes p1 = [] then (Inr [], p1, wd)
       else (case poller_write g env \<lparr>pw_daily = [], pw_status = [], pw_close = closes p1\<rparr> (p1, wd) of
           (Inl e, s) \<Rightarrow> (Inl (StoreFailed e), s) | (Inr rej, s) \<Rightarrow> (Inr rej, s)))"

section \<open>Seeding\<close>

definition seed_last_daily :: "registry \<Rightarrow> (string \<times> (string \<times> float64) list) list \<Rightarrow> int \<Rightarrow> attributor
    \<Rightarrow> (string \<times> reg_value) list \<Rightarrow> (string \<times> reg_value) list" where
  "seed_last_daily g rows now d ld =
     fold (\<lambda>k ld. case (row_of rows (open_day d k) k, by_key g k) of
         (Some v, Some reg) \<Rightarrow> AList.update k \<lparr>v_key = k, v_name = reg_name reg, v_raw = fdiv v (reg_scale reg),
             v_decoded = v, v_unit = reg_unit reg, v_time = now, v_status = None\<rparr> ld
       | _ \<Rightarrow> ld) (daily_keys g) ld"

definition poller_seed :: "registry \<Rightarrow> rollover \<Rightarrow> zone \<Rightarrow> poll_env \<Rightarrow> world \<Rightarrow> poller
    \<Rightarrow> persist_error + poller" where
  "poller_seed g r z env wd p =
     (if en_seed_fault env then Inl (StoreFailed DbFailure)
      else let s = seed_of (wd_store wd) (seed_days r z (en_start env)) in
      case seed_attributor r z (en_start env) (sd_daily s) (sd_closed s) (ps_attr p) of
        Inl e \<Rightarrow> Inl (CloseFailed e)
      | Inr (missed, d) \<Rightarrow> Inr (p\<lparr>ps_attr := d, ps_seeded := True,
          ps_pending := fold pend missed (ps_pending p),
          ps_last_status := fold (\<lambda>(k, v). AList.update k v) (sd_status s) (ps_last_status p),
          ps_last_daily := seed_last_daily g (sd_daily s) (en_start env) d (ps_last_daily p)\<rparr>))"

section \<open>The cycle\<close>

datatype cycle_result = SeedFailed persist_error | NotConnected "persist_error + storage_error list"
  | PollFailed read_error | PersistFailed persist_error | Polled "storage_error list"

definition set_state :: "health_state \<Rightarrow> string \<Rightarrow> poller \<Rightarrow> poller" where
  "set_state st reason p = p\<lparr>ps_status := set_status st reason (ps_status p)\<rparr>"

text \<open>The body between the first heartbeat and the deferred one, with the clock left.\<close>

definition cycle_body :: "poller_settings \<Rightarrow> registry \<Rightarrow> rollover \<Rightarrow> zone \<Rightarrow> poll_env \<Rightarrow> int list
    \<Rightarrow> poller \<times> world \<Rightarrow> cycle_result \<times> (poller \<times> world) \<times> int list" where
  "cycle_body cfg g r z env ts s = (case s of (p, wd) \<Rightarrow>
     case (if ps_seeded p then Inr p else poller_seed g r z env wd p) of
       Inl e \<Rightarrow> (SeedFailed e, (set_state Recovering ''seeding failed'' p, wd), ts)
     | Inr p \<Rightarrow>
       if en_source env \<noteq> Some True
       then (case close_disconnected g r z env (p, wd) of (res, p, wd) \<Rightarrow>
         (NotConnected res, (set_state Recovering ''modbus not connected'' p, wd), ts))
       else (case read_all cfg g env (ps_status p, ts) of
           (Inl e, st, ts) \<Rightarrow> (PollFailed e, (set_state Recovering ''poll failed'' (p\<lparr>ps_status := st\<rparr>), wd), ts)
         | (Inr vs, st, ts) \<Rightarrow>
           (case persist g r z env (derive g vs (en_start env)) (p\<lparr>ps_status := st\<rparr>, wd) of
              (Inl e, p, wd) \<Rightarrow> (PersistFailed e, (set_state Recovering ''storage'' p, wd), ts)
            | (Inr rej, p, wd) \<Rightarrow> (Polled rej, (set_state Healthy [] p, wd), ts))))"

definition poll_cycle :: "poller_settings \<Rightarrow> registry \<Rightarrow> rollover \<Rightarrow> zone \<Rightarrow> poll_env \<Rightarrow> poller \<times> world
    \<Rightarrow> cycle_result \<times> poller \<times> world" where
  "poll_cycle cfg g r z env s = (case s of (p, wd) \<Rightarrow>
     case take_beat (ps_status p, en_clock env) of (st, ts) \<Rightarrow>
     case cycle_body cfg g r z env ts (p\<lparr>ps_status := st\<rparr>, wd) of (res, (p, wd), ts) \<Rightarrow>
     (res, p\<lparr>ps_status := fst (take_beat (ps_status p, ts))\<rparr>, wd))"

section \<open>Complete reads\<close>

definition attempt_wins :: "(nat \<Rightarrow> read_attempt) \<Rightarrow> nat \<Rightarrow> 16 word list \<Rightarrow> bool" where
  "attempt_wins f n raw \<longleftrightarrow> ra_result (f n) = Inr raw \<and>
     (\<forall>j < n. \<exists>e. ra_result (f j) = Inl e) \<and> (\<forall>j. 0 < j \<and> j \<le> n \<longrightarrow> ra_connected (f j) \<and> ra_waited (f j))"

lemma read_attempts_Inr:
  assumes "read_attempts f n i err s = (Inr raw, s')" "n \<noteq> 0 \<or> err \<noteq> None"
    "\<forall>j < i. \<exists>e. ra_result (f j) = Inl e" "\<forall>j. 0 < j \<and> j < i \<longrightarrow> ra_connected (f j) \<and> ra_waited (f j)"
  shows "\<exists>j. i \<le> j \<and> j < i + n \<and> attempt_wins f j raw"
  using assms
proof (induction f n i err s rule: read_attempts.induct)
  case (1 f i err s)
  then show ?case by (auto split: option.splits)
next
  case (2 f n i err s)
  have c: "\<not> (0 < i \<and> \<not> ra_connected (f i))" "\<not> (0 < i \<and> \<not> ra_waited (f i))"
    using 2(2) by (auto split: if_splits)
  show ?case
  proof (cases "ra_result (f i)")
    case (Inr w)
    then have "raw = w" using 2(2) c by (auto split: if_splits)
    with Inr c 2(4,5) have "attempt_wins f i raw"
      by (auto simp: attempt_wins_def le_less)
    then show ?thesis by (intro exI [of _ i]) simp
  next
    case (Inl e)
    have r: "read_attempts f n (i + 1) (Some (ReadFailed e)) (take_beat s) = (Inr raw, s')"
      using 2(2) c Inl by (auto split: if_splits)
    have "\<exists>j. i + 1 \<le> j \<and> j < i + 1 + n \<and> attempt_wins f j raw"
      by (rule 2(1) [OF c Inl r]) (use Inl 2(4,5) c in \<open>auto simp: less_Suc_eq\<close>)
    then obtain j where "i + 1 \<le> j" "j < i + 1 + n" "attempt_wins f j raw" by blast
    then show ?thesis by (intro exI [of _ j]) simp
  qed
qed

lemma read_blocks_Inr:
  assumes "read_blocks cfg g env i bs acc s = (Inr vs, s')" "0 \<le> se_block_attempts cfg"
  shows "\<exists>raws. length raws = length bs \<and>
    (\<forall>j < length bs. \<exists>n \<le> nat (se_block_attempts cfg). attempt_wins (en_read env (i + j)) n (raws ! j)) \<and>
    vs = fold (\<lambda>(b, raw). fold (\<lambda>(k, v). AList.update k v) (decode_block g b raw (en_start env)))
      (zip bs raws) acc"
  using assms(1)
proof (induction bs arbitrary: i acc s)
  case (Cons b bs)
  obtain rr s1 where rb: "read_block cfg (en_read env i) s = (rr, s1)" by (metis surj_pair)
  with Cons.prems obtain raw where rr: "rr = Inr raw" by (cases rr) auto
  have "\<exists>j. 0 \<le> j \<and> j < 0 + nat (se_block_attempts cfg + 1) \<and> attempt_wins (en_read env i) j raw"
    by (rule read_attempts_Inr) (use rb rr assms(2) in \<open>auto simp: read_block_def\<close>)
  then obtain n where n: "n \<le> nat (se_block_attempts cfg)" "attempt_wins (en_read env i) n raw"
    using assms(2) by (auto simp: less_Suc_eq_le nat_add_distrib)
  have "read_blocks cfg g env (i + 1) bs (fold (\<lambda>(k, v). AList.update k v) (decode_block g b raw (en_start env)) acc)
      (take_beat s1) = (Inr vs, s')"
    using Cons.prems by (auto simp: rb rr Let_def split: if_splits)
  from Cons.IH [OF this] obtain raws where r: "length raws = length bs"
    "\<forall>j < length bs. \<exists>n \<le> nat (se_block_attempts cfg). attempt_wins (en_read env (i + 1 + j)) n (raws ! j)"
    "vs = fold (\<lambda>(b, raw). fold (\<lambda>(k, v). AList.update k v) (decode_block g b raw (en_start env)))
      (zip bs raws) (fold (\<lambda>(k, v). AList.update k v) (decode_block g b raw (en_start env)) acc)" by blast
  have "\<exists>n \<le> nat (se_block_attempts cfg). attempt_wins (en_read env (i + j)) n ((raw # raws) ! j)"
    if "j < length (b # bs)" for j
    using that n r(2) [rule_format, of "j - 1"] by (cases j) auto
  with r show ?case by (intro exI [of _ "raw # raws"]) simp
qed simp

text \<open>C10: A partial poll is discarded and a complete one loses nothing: with a non-negative number of
  retries a poll yields values only when every planned block was read within its retries,
  each by the first attempt that succeeded on a live connection, and then the values are the
  decodings of exactly those words, merged block by block.\<close>

theorem read_all_complete:
  assumes "read_all cfg g env s = (Inr vs, s')" "0 \<le> se_block_attempts cfg"
  shows "\<exists>raws. length raws = length (g_blocks g) \<and>
    (\<forall>j < length (g_blocks g). \<exists>n \<le> nat (se_block_attempts cfg). attempt_wins (en_read env j) n (raws ! j)) \<and>
    vs = fold (\<lambda>(b, raw). fold (\<lambda>(k, v). AList.update k v) (decode_block g b raw (en_start env)))
      (zip (g_blocks g) raws) []"
  using read_blocks_Inr [OF assms(1) [unfolded read_all_def] assms(2)] by simp

definition zero_env :: poll_env where
  "zero_env = \<lparr>en_start = 0, en_clock = [], en_source = Some True, en_read = (\<lambda>i j.
       \<lparr>ra_connected = True, ra_waited = True, ra_result = (if j = 0 then Inl ''timeout'' else Inr [0])\<rparr>),
     en_pause = (\<lambda>i. True), en_seed_fault = False, en_faults = [], en_order = (\<lambda>xs. xs)\<rparr>"

lemma zero_env_reads:
  "\<exists>vs s'. read_blocks \<lparr>se_block_attempts = 1, se_block_interval = 0\<rparr> g zero_env i bs acc s = (Inr vs, s')"
  by (induction bs arbitrary: i acc s) (auto simp: read_block_def zero_env_def Let_def eval_nat_numeral)

theorem read_all_complete_witness:
  "\<exists>raws. length raws = length (g_blocks solis_registry) \<and>
    (\<forall>j < length (g_blocks solis_registry). attempt_wins (en_read zero_env j) 1 (raws ! j))"
proof -
  obtain vs s' where "read_all \<lparr>se_block_attempts = 1, se_block_interval = 0\<rparr> solis_registry zero_env
      (new_status, []) = (Inr vs, s')" using zero_env_reads [of solis_registry 0 "g_blocks solis_registry" "[]" "(new_status, [])"]
    by (auto simp: read_all_def)
  from read_all_complete [OF this] obtain raws where
    "length raws = length (g_blocks solis_registry)"
    "\<forall>j < length (g_blocks solis_registry). \<exists>n \<le> 1. attempt_wins (en_read zero_env j) n (raws ! j)" by auto
  moreover have "\<not> attempt_wins (en_read zero_env j) 0 raw" for j raw
    by (simp add: attempt_wins_def zero_env_def)
  ultimately show ?thesis by (metis le_neq_implies_less less_one)
qed

end
