(* ===== verification/AggregatorStore.thy ===== *)
theory AggregatorStore
  imports PollerStore
begin

text \<open>
  internal/storage/aggregator_store.go: the write domain of the aggregator. One run is one
  transaction of REPLACE upserts, then freezes, then baseline folds.
\<close>

record period_row =
  pr_level :: level
  pr_key :: string
  pr_period :: string
  pr_value :: float64

record freeze =
  fz_level :: level
  fz_period :: string

record baseline_fold =
  bf_year :: string
  bf_add :: vals

record computed_write =
  cw_rows :: "period_row list"
  cw_freezes :: "freeze list"
  cw_folds :: "baseline_fold list"
  cw_at :: int

definition writer_aggregator :: string where "writer_aggregator = ''aggregator''"

definition has_daily_data :: "db \<Rightarrow> bool" where
  "has_daily_data d \<longleftrightarrow> d_daily d \<noteq> []"

definition sum_daily :: "(float64 list \<Rightarrow> float64) \<Rightarrow> string \<Rightarrow> string \<Rightarrow> string \<Rightarrow> txn
    \<Rightarrow> storage_error + float64 \<times> txn" where
  "sum_daily agg key lo hi tx = query (\<lambda>d. sum_rows agg d key lo hi) tx"

definition check_domain :: "register \<Rightarrow> level \<Rightarrow> storage_error option" where
  "check_domain reg l =
     (if reg_store reg \<noteq> store_for_level l then Some (WriteDomain writer_aggregator (reg_key reg)
        (''store does not match level '' @ level_string l))
      else if \<not> computed reg \<or> (l = Daily \<and> \<not> reg_net reg)
        then Some (WriteDomain writer_aggregator (reg_key reg) ''not a computed register'')
      else None)"

definition upsert_in :: "level \<Rightarrow> string \<Rightarrow> string \<Rightarrow> float64 \<Rightarrow> float64 \<Rightarrow> int \<Rightarrow> db \<Rightarrow> db" where
  "upsert_in l k p v raw ts d = (case l of
       Daily \<Rightarrow> d\<lparr>d_daily := AList.update (k, p) (v, raw) (d_daily d)\<rparr>
     | Monthly \<Rightarrow> d\<lparr>d_monthly := AList.update (k, p) (v, raw) (d_monthly d)\<rparr>
     | Yearly \<Rightarrow> d\<lparr>d_yearly := AList.update (k, p) (v, raw) (d_yearly d)\<rparr>
     | Total \<Rightarrow> d\<lparr>d_total := AList.update k (v, raw, ts) (d_total d)\<rparr>)"

definition upsert_period :: "register \<Rightarrow> period_row \<Rightarrow> int \<Rightarrow> txn \<Rightarrow> storage_error + txn" where
  "upsert_period reg r ts tx = (let raw = raw_of reg (pr_value r) in
     exec (pr_value r \<noteq> NaN \<and> raw \<noteq> NaN)
       (upsert_in (pr_level r) (pr_key r) (pr_period r) (pr_value r) raw ts) tx)"

definition write_computed_row :: "registry \<Rightarrow> int \<Rightarrow> meta \<Rightarrow> period_row \<Rightarrow> txn \<Rightarrow> storage_error + txn" where
  "write_computed_row g ts m r tx =
     (case lookup_reg g (pr_key r) of Inl e \<Rightarrow> Inl e | Inr reg \<Rightarrow>
      case check_domain reg (pr_level r) of Some e \<Rightarrow> Inl e | None \<Rightarrow>
      if pr_level r \<noteq> Total \<and> pr_period r \<le> m_frozen m (pr_level r)
      then Inl (PeriodClosed (level_string (pr_level r)) (pr_key r) (pr_period r)
        (m_frozen m (pr_level r)))
      else upsert_period reg r ts tx)"

definition apply_freeze :: "freeze \<Rightarrow> meta \<times> txn \<Rightarrow> storage_error + meta \<times> txn" where
  "apply_freeze f s = (case s of (m, tx) \<Rightarrow>
     case frozen_key (fz_level f) of Inl e \<Rightarrow> Inl e | Inr k \<Rightarrow>
     case advance tx k (m_frozen m (fz_level f)) (fz_period f) of Inl e \<Rightarrow> Inl e
     | Inr (v, tx') \<Rightarrow> Inr (m\<lparr>m_frozen := (m_frozen m)(fz_level f := v)\<rparr>, tx'))"

definition base_value :: "meta \<Rightarrow> string \<Rightarrow> float64" where
  "base_value m k = (case m_base m k of Some v \<Rightarrow> v | None \<Rightarrow> Fin 0)"

definition add_base :: "string \<times> float64 \<Rightarrow> meta \<times> txn \<Rightarrow> storage_error + meta \<times> txn" where
  "add_base kv s = (case kv of (k, v) \<Rightarrow> case s of (m, tx) \<Rightarrow>
     let b = fadd (base_value m k) v in
     case put_meta (meta_baseline @ k) (MFloat b) tx of Inl e \<Rightarrow> Inl e
     | Inr tx' \<Rightarrow> Inr (m\<lparr>m_base := (m_base m)(k \<mapsto> b)\<rparr>, tx'))"

definition apply_fold :: "baseline_fold \<Rightarrow> meta \<times> txn \<Rightarrow> storage_error + meta \<times> txn" where
  "apply_fold f s =
     (if bf_year f \<le> m_base_year (fst s) then Inr s
      else (case each add_base (bf_add f) s of Inl e \<Rightarrow> Inl e | Inr (m, tx) \<Rightarrow>
        case put_meta meta_base_year (MText (bf_year f)) tx of Inl e \<Rightarrow> Inl e
        | Inr tx' \<Rightarrow> Inr (m\<lparr>m_base_year := bf_year f\<rparr>, tx')))"

definition apply_computed :: "registry \<Rightarrow> computed_write \<Rightarrow> meta \<times> txn
    \<Rightarrow> storage_error + storage_error list \<times> meta \<times> txn" where
  "apply_computed g w s = (case s of (m, tx) \<Rightarrow>
     case collect_loop (write_computed_row g (cw_at w) m) (cw_rows w) tx [] of
       Inl e \<Rightarrow> Inl e
     | Inr (rej, tx) \<Rightarrow>
       (case each apply_freeze (cw_freezes w) (m, tx) of Inl e \<Rightarrow> Inl e
        | Inr s \<Rightarrow> (case each apply_fold (cw_folds w) s of Inl e \<Rightarrow> Inl e
          | Inr s \<Rightarrow> Inr (rej, s))))"

definition write_computed :: "registry \<Rightarrow> computed_write \<Rightarrow> bool list \<Rightarrow> store
    \<Rightarrow> (storage_error + storage_error list) \<times> store" where
  "write_computed g w faults s =
     (case with_tx (\<lambda>tx. case apply_computed g w (s_meta s, tx) of Inl e \<Rightarrow> Inl e
          | Inr (rej, m, tx') \<Rightarrow> Inr ((rej, m), tx')) faults (s_db s) of
        Inl e \<Rightarrow> (Inl e, s)
      | Inr ((rej, m), d) \<Rightarrow> (Inr rej, s\<lparr>s_db := d, s_meta := m\<rparr>))"

section \<open>Steps of a run\<close>

text \<open>The rows of a level; totals have the empty period.\<close>

fun level_rows :: "level \<Rightarrow> db \<Rightarrow> string \<times> string \<Rightarrow> (float64 \<times> float64) option" where
  "level_rows Daily d x = map_of (d_daily d) x"
| "level_rows Monthly d x = map_of (d_monthly d) x"
| "level_rows Yearly d x = map_of (d_yearly d) x"
| "level_rows Total d (k, p) = map_option (\<lambda>(v, raw, ts). (v, raw)) (map_of (d_total d) k)"

lemma upsert_in_rows:
  "level_rows l (upsert_in l' k p v raw ts d) (k', p') =
    (if l = l' \<and> k' = k \<and> (p' = p \<or> l = Total) then Some (v, raw) else level_rows l d (k', p'))"
  by (cases l; cases l') (auto simp: upsert_in_def update_conv')

lemma upsert_in_meta [simp]: "d_meta (upsert_in l k p v raw ts d) = d_meta d"
  by (cases l) (simp_all add: upsert_in_def)

lemma write_computed_row_Inr:
  assumes "write_computed_row g ts m r tx = Inr tx'"
  shows "\<exists>reg. by_key g (pr_key r) = Some reg \<and> check_domain reg (pr_level r) = None \<and>
    (pr_level r = Total \<or> m_frozen m (pr_level r) < pr_period r) \<and>
    tx_db tx' = upsert_in (pr_level r) (pr_key r) (pr_period r) (pr_value r)
      (raw_of reg (pr_value r)) ts (tx_db tx)"
  using assms
  by (auto simp: write_computed_row_def lookup_reg_def upsert_period_def Let_def not_le
      dest: exec_Inr split: option.splits if_splits sum.splits)

lemma apply_freeze_Inr:
  assumes "apply_freeze f (m, tx) = Inr (m', tx')"
  shows "\<exists>k w. frozen_key (fz_level f) = Inr k \<and>
    advance tx k (m_frozen m (fz_level f)) (fz_period f) = Inr (w, tx') \<and>
    m' = m\<lparr>m_frozen := (m_frozen m)(fz_level f := w)\<rparr>"
  using assms by (auto simp: apply_freeze_def split: sum.splits)

lemma add_base_Inr:
  assumes "add_base (k, v) (m, tx) = Inr (m', tx')"
  shows "m' = m\<lparr>m_base := (m_base m)(k \<mapsto> fadd (base_value m k) v)\<rparr> \<and>
    tx_db tx' = (tx_db tx)\<lparr>d_meta := AList.update (meta_baseline @ k)
      (MFloat (fadd (base_value m k) v)) (d_meta (tx_db tx))\<rparr>"
  using assms by (auto simp: add_base_def Let_def dest: put_meta_Inr split: sum.splits)

lemma apply_fold_Inr:
  assumes "apply_fold f (m, tx) = Inr (m', tx')" "\<not> bf_year f \<le> m_base_year m"
  shows "\<exists>m1 tx1. each add_base (bf_add f) (m, tx) = Inr (m1, tx1) \<and>
    m' = m1\<lparr>m_base_year := bf_year f\<rparr> \<and> tx_db tx' = (tx_db tx1)\<lparr>d_meta :=
      AList.update meta_base_year (MText (bf_year f)) (d_meta (tx_db tx1))\<rparr>"
  using assms by (auto simp: apply_fold_def dest: put_meta_Inr split: sum.splits)

text \<open>An invariant of a run that its rows, freezes, baseline sums and year marks keep.\<close>

lemma write_computed_Inr:
  assumes "write_computed g w faults s = (Inr rej, s')"
  shows "\<exists>tx tx' t1 m2 t2. tx_db tx = s_db s \<and> tx_db tx' = s_db s' \<and>
    collect_loop (write_computed_row g (cw_at w) (s_meta s)) (cw_rows w) tx [] = Inr (rej, t1) \<and>
    each apply_freeze (cw_freezes w) (s_meta s, t1) = Inr (m2, t2) \<and>
    each apply_fold (cw_folds w) (m2, t2) = Inr (s_meta s', tx')"
proof -
  obtain m d' where w: "with_tx (\<lambda>tx. case apply_computed g w (s_meta s, tx) of Inl e \<Rightarrow> Inl e
      | Inr (rej, m, tx') \<Rightarrow> Inr ((rej, m), tx')) faults (s_db s) = Inr ((rej, m), d')"
    and s': "s' = s\<lparr>s_db := d', s_meta := m\<rparr>"
    using assms by (auto simp: write_computed_def split: sum.splits prod.splits)
  from w obtain tx tx' where tx: "tx_db tx = s_db s" "tx_db tx' = d'"
    and a: "(case apply_computed g w (s_meta s, tx) of Inl e \<Rightarrow> Inl e
      | Inr (rej, m, tx') \<Rightarrow> Inr ((rej, m), tx')) = Inr ((rej, m), tx')"
    by (rule with_tx_Inr)
  from a have "apply_computed g w (s_meta s, tx) = Inr (rej, m, tx')"
    by (auto split: sum.splits prod.splits)
  with tx s' show ?thesis
    by (auto simp: apply_computed_def split: sum.splits prod.splits)
qed

lemma write_computed_inv:
  assumes wc: "write_computed g w faults s = (res, s')"
    and P: "\<And>tx. tx_db tx = s_db s \<Longrightarrow> P (s_meta s, tx)"
    and row: "\<And>r tx tx'. r \<in> set (cw_rows w) \<Longrightarrow> P (s_meta s, tx) \<Longrightarrow>
      write_computed_row g (cw_at w) (s_meta s) r tx = Inr tx' \<Longrightarrow> P (s_meta s, tx')"
    and frz: "\<And>f m tx m' tx'. f \<in> set (cw_freezes w) \<Longrightarrow> P (m, tx) \<Longrightarrow>
      apply_freeze f (m, tx) = Inr (m', tx') \<Longrightarrow> P (m', tx')"
    and base: "\<And>kv m tx m' tx'. P (m, tx) \<Longrightarrow> add_base kv (m, tx) = Inr (m', tx') \<Longrightarrow> P (m', tx')"
    and year: "\<And>y m tx tx'. P (m, tx) \<Longrightarrow> tx_db tx' = (tx_db tx)\<lparr>d_meta :=
        AList.update meta_base_year (MText y) (d_meta (tx_db tx))\<rparr> \<Longrightarrow>
      m_base_year m < y \<Longrightarrow> P (m\<lparr>m_base_year := y\<rparr>, tx')"
  shows "\<exists>tx. tx_db tx = s_db s' \<and> P (s_meta s', tx)"
proof (cases res)
  case (Inl e)
  then have "s' = s" using wc by (auto simp: write_computed_def split: sum.splits prod.splits)
  with P [of "\<lparr>tx_db = s_db s, tx_faults = []\<rparr>"] show ?thesis by force
next
  case (Inr rej)
  with wc have "write_computed g w faults s = (Inr rej, s')" by simp
  from write_computed_Inr [OF this] obtain tx tx' t1 m2 t2 where
    tx: "tx_db tx = s_db s" "tx_db tx' = s_db s'" and
    1: "collect_loop (write_computed_row g (cw_at w) (s_meta s)) (cw_rows w) tx [] = Inr (rej, t1)" and
    2: "each apply_freeze (cw_freezes w) (s_meta s, t1) = Inr (m2, t2)" and
    3: "each apply_fold (cw_folds w) (m2, t2) = Inr (s_meta s', tx')"
    by blast
  have "P (s_meta s, t1)"
    using collect_loop_inv [where P = "\<lambda>t. P (s_meta s, t)", OF 1 P [OF tx(1)]] row by blast
  then have P2: "P (m2, t2)" using each_inv [where P = P, OF 2] frz by auto
  have fold: "P (m', t')" if "P (m, t)" "apply_fold f (m, t) = Inr (m', t')" for f m t m' t'
  proof (cases "bf_year f \<le> m_base_year m")
    case True
    with that show ?thesis by (simp add: apply_fold_def)
  next
    case False
    with apply_fold_Inr [OF that(2)] obtain m1 t1 where
      e: "each add_base (bf_add f) (m, t) = Inr (m1, t1)" and
      m': "m' = m1\<lparr>m_base_year := bf_year f\<rparr>" and t': "tx_db t' = (tx_db t1)\<lparr>d_meta :=
        AList.update meta_base_year (MText (bf_year f)) (d_meta (tx_db t1))\<rparr>" by blast
    have "(\<lambda>(n, u). P (n, u) \<and> m_base_year n = m_base_year m) (m1, t1)"
    proof (rule each_inv [where P = "\<lambda>(n, u). P (n, u) \<and> m_base_year n = m_base_year m", OF e])
      show "case (m, t) of (n, u) \<Rightarrow> P (n, u) \<and> m_base_year n = m_base_year m"
        using that(1) by simp
      show "case x' of (n, u) \<Rightarrow> P (n, u) \<and> m_base_year n = m_base_year m"
        if "case x of (n, u) \<Rightarrow> P (n, u) \<and> m_base_year n = m_base_year m" "add_base kv x = Inr x'"
        for kv x x'
      proof -
        obtain n u n' u' k v where x: "x = (n, u)" "x' = (n', u')" "kv = (k, v)"
          by (metis surj_pair)
        with that base [of n u kv n' u'] add_base_Inr [of k v n u n' u'] show ?thesis by auto
      qed
    qed
    with False year [of m1 t1 t' "bf_year f"] t' m' show ?thesis by (simp add: not_le)
  qed
  have "P (s_meta s', tx')" using each_inv [where P = P, OF 3 P2] fold by auto
  with tx show ?thesis by auto
qed

lemma write_computed_coherent [inv_intros]:
  assumes "store_ok s" "write_computed g w faults s = (res, s')" shows "store_ok s'"
proof -
  have view: "meta_view (map_of (d_meta (tx_db tx))) = m" if "coherent (tx_db tx) m"
    for tx :: txn and m using that by (simp add: coherent_def)
  have "\<exists>tx :: txn. tx_db tx = s_db s' \<and> (\<lambda>(m, tx). coherent (tx_db tx) m) (s_meta s', tx)"
  proof (rule write_computed_inv [where P = "\<lambda>(m, tx). coherent (tx_db tx) m", OF assms(2)])
    show "case (s_meta s, tx') of (m, tx) \<Rightarrow> coherent (tx_db tx) m"
      if "case (s_meta s, tx) of (m, tx) \<Rightarrow> coherent (tx_db tx) m"
        "write_computed_row g (cw_at w) (s_meta s) r tx = Inr tx'" for r tx tx'
      using that write_computed_row_Inr [OF that(2)] by (auto intro: coherent_frame)
    show "case (m', tx') of (m, tx) \<Rightarrow> coherent (tx_db tx) m"
      if "case (m, tx :: txn) of (m, tx) \<Rightarrow> coherent (tx_db tx) m" "apply_freeze f (m, tx) = Inr (m', tx')"
      for f m tx m' tx'
      using that apply_freeze_Inr [OF that(2)] by (auto intro: advance_frozen_coherent)
    show "case (m', tx') of (m, tx) \<Rightarrow> coherent (tx_db tx) m"
      if "case (m, tx :: txn) of (m, tx) \<Rightarrow> coherent (tx_db tx) m" "add_base kv (m, tx) = Inr (m', tx')"
      for kv m tx m' tx'
      using that add_base_Inr [of "fst kv" "snd kv" m tx m' tx']
        coherent_puts(8) [of "tx_db tx" m "fst kv" "fadd (base_value m (fst kv)) (snd kv)"] view [of tx m]
      by auto
    show "case (m\<lparr>m_base_year := y\<rparr>, tx') of (m, tx) \<Rightarrow> coherent (tx_db tx) m"
      if "case (m, tx :: txn) of (m, tx) \<Rightarrow> coherent (tx_db tx) m"
        "tx_db (tx' :: txn) = tx_db tx\<lparr>d_meta := AList.update meta_base_year (MText y) (d_meta (tx_db tx))\<rparr>"
      for y m tx tx'
      using that coherent_puts(2) [of "tx_db tx" m y] view [of tx m] by auto
  qed (use assms(1) in \<open>auto simp: store_ok_def\<close>)
  then show ?thesis by (auto simp: store_ok_def)
qed

section \<open>Properties of a run\<close>

text \<open>C4: A run of the aggregator cannot change what is frozen, whatever it carries and whichever
  statement fails: net days, months and years up to their freeze mark keep their rows, the
  poller's daily rows are never written, day watermarks stay, and freeze marks and the
  baseline year never move back.\<close>

theorem write_computed_respects_frozen:
  assumes "write_computed g w faults s = (res, s')"
  shows "(l \<noteq> Total \<and> p \<le> m_frozen (s_meta s) l \<longrightarrow>
      level_rows l (s_db s') (k, p) = level_rows l (s_db s) (k, p)) \<and>
    (by_key g k = Some reg \<and> poller_owned reg \<longrightarrow>
      level_rows Daily (s_db s') (k, p) = level_rows Daily (s_db s) (k, p)) \<and>
    m_closed (s_meta s') = m_closed (s_meta s) \<and> d_error (s_db s') = d_error (s_db s) \<and>
    m_frozen (s_meta s) l \<le> m_frozen (s_meta s') l \<and>
    m_base_year (s_meta s) \<le> m_base_year (s_meta s')"
proof -
  define P where "P = (\<lambda>(m :: meta, tx :: txn).
    (l \<noteq> Total \<and> p \<le> m_frozen (s_meta s) l \<longrightarrow>
      level_rows l (tx_db tx) (k, p) = level_rows l (s_db s) (k, p)) \<and>
    (by_key g k = Some reg \<and> poller_owned reg \<longrightarrow>
      level_rows Daily (tx_db tx) (k, p) = level_rows Daily (s_db s) (k, p)) \<and>
    m_closed m = m_closed (s_meta s) \<and> d_error (tx_db tx) = d_error (s_db s) \<and>
    m_frozen (s_meta s) l \<le> m_frozen m l \<and> m_base_year (s_meta s) \<le> m_base_year m)"
  have rows_meta: "level_rows l' (d\<lparr>d_meta := x\<rparr>) = level_rows l' d" for l' x and d :: db
    by (rule ext) (cases l'; auto)
  have "\<exists>tx :: txn. tx_db tx = s_db s' \<and> P (s_meta s', tx)"
  proof (rule write_computed_inv [where P = P, OF assms])
    show "P (s_meta s, tx)" if "tx_db tx = s_db s" for tx using that by (simp add: P_def)
    show "P (s_meta s, tx')" if Pt: "P (s_meta s, tx)" and
        wr: "write_computed_row g (cw_at w) (s_meta s) r tx = Inr tx'" for r tx tx'
    proof -
      obtain rg where rg: "by_key g (pr_key r) = Some rg" "check_domain rg (pr_level r) = None"
        "pr_level r = Total \<or> m_frozen (s_meta s) (pr_level r) < pr_period r"
        "tx_db tx' = upsert_in (pr_level r) (pr_key r) (pr_period r) (pr_value r)
          (raw_of rg (pr_value r)) (cw_at w) (tx_db tx)"
        using write_computed_row_Inr [OF wr] by blast
      have "\<not> (pr_level r = Daily \<and> poller_owned rg)"
        using rg(2) by (auto simp: check_domain_def poller_owned_def computed_def split: if_splits)
      moreover have "d_error (tx_db tx') = d_error (tx_db tx)"
        using rg(4) by (cases "pr_level r") (simp_all add: upsert_in_def)
      ultimately show ?thesis using Pt rg(1,3)
        unfolding P_def prod.case rg(4) upsert_in_rows by (auto simp: rg(4) [symmetric])
    qed
    show "P (m', tx')" if "P (m, tx)" "apply_freeze f (m, tx) = Inr (m', tx')" for f m tx m' tx'
      using that(1) apply_freeze_Inr [OF that(2)]
      by (auto simp: P_def rows_meta dest!: advance_Inr split: if_splits)
    show "P (m', tx')" if "P (m, tx)" "add_base kv (m, tx) = Inr (m', tx')" for kv m tx m' tx'
      using that(1) add_base_Inr [of "fst kv" "snd kv" m tx m' tx'] that(2)
      by (auto simp: P_def rows_meta)
    show "P (m\<lparr>m_base_year := y\<rparr>, tx')" if "P (m, tx)" "tx_db tx' = tx_db tx\<lparr>d_meta :=
        AList.update meta_base_year (MText y) (d_meta (tx_db tx))\<rparr>" "m_base_year m < y" for y m tx tx'
      using that by (auto simp: P_def rows_meta)
  qed
  then show ?thesis by (auto simp: P_def)
qed

lemma each_establish:
  assumes "each f rs s = Inr s'" "r \<in> set rs"
    "\<And>s s'. f r s = Inr s' \<Longrightarrow> R s'"
    "\<And>q s s'. q \<in> set rs \<Longrightarrow> R s \<Longrightarrow> f q s = Inr s' \<Longrightarrow> R s'"
  shows "R s'"
proof -
  obtain us vs where rs: "rs = us @ r # vs" using assms(2) by (auto dest: split_list)
  have "\<exists>s1. each f us s = Inr s1 \<and> each f (r # vs) s1 = Inr s'"
    using assms(1) unfolding rs
  proof (induction us arbitrary: s)
    case (Cons u us)
    then show ?case by (cases "f u s") simp_all
  qed simp
  then obtain s1 where "each f (r # vs) s1 = Inr s'" by blast
  then obtain s2 where "f r s1 = Inr s2" "each f vs s2 = Inr s'" by (cases "f r s1") auto
  moreover from this have "R s2" using assms(3) by blast
  moreover have "R x'" if "q \<in> set vs" "R x" "f q x = Inr x'" for q x x'
    using assms(4) [of q x x'] that rs by simp
  ultimately show ?thesis using each_inv [where P = R, of f vs s2 s'] by blast
qed

lemma each_add_base:
  "each add_base kvs (m, tx) = Inr (m', tx') \<Longrightarrow> distinct (map fst kvs) \<Longrightarrow>
    m_base_year m' = m_base_year m \<and>
    base_value m' k = (case map_of kvs k of None \<Rightarrow> base_value m k | Some v \<Rightarrow> fadd (base_value m k) v)"
proof (induction kvs arbitrary: m tx)
  case (Cons kv kvs)
  obtain k1 v1 where kv: "kv = (k1, v1)" by fastforce
  obtain m1 t1 where 1: "add_base (k1, v1) (m, tx) = Inr (m1, t1)"
    "each add_base kvs (m1, t1) = Inr (m', tx')"
    using Cons.prems(1) kv by (auto split: sum.splits)
  have "map_of kvs k1 = None" using Cons.prems(2) kv by (auto simp: map_of_eq_None_iff)
  moreover have "base_value m1 k = (if k = k1 then fadd (base_value m k1) v1 else base_value m k)"
    "m_base_year m1 = m_base_year m"
    using add_base_Inr [OF 1(1)] by (auto simp: base_value_def)
  ultimately show ?case using Cons.IH [OF 1(2)] Cons.prems(2) kv
    by (auto split: option.split)
qed auto

lemma fold_year_after: "apply_fold f (m, tx) = Inr (m', tx') \<Longrightarrow>
    bf_year f \<le> m_base_year m' \<and> m_base_year m \<le> m_base_year m'"
proof (cases "bf_year f \<le> m_base_year m")
  case False
  assume "apply_fold f (m, tx) = Inr (m', tx')"
  from apply_fold_Inr [OF this False] False show ?thesis by auto
qed (auto simp: apply_fold_def)

lemma folds_recorded:
  assumes "write_computed g w faults s = (Inr rej, s')" "f \<in> set (cw_folds w)"
  shows "bf_year f \<le> m_base_year (s_meta s')"
proof -
  obtain tx' m2 t2 where fd: "each apply_fold (cw_folds w) (m2, t2) = Inr (s_meta s', tx')"
    using write_computed_Inr [OF assms(1)] by blast
  have "(\<lambda>(m, t). bf_year f \<le> m_base_year m) (s_meta s', tx')"
    by (rule each_establish [OF fd assms(2)]) (auto dest: fold_year_after intro: order_trans)
  then show ?thesis by simp
qed

lemma write_computed_marks:
  assumes "write_computed g w faults s = (res, s')"
  shows "m_base_year (s_meta s) \<le> m_base_year (s_meta s') \<and> m_closed (s_meta s') = m_closed (s_meta s) \<and>
    (m_frozen (s_meta s') l = m_frozen (s_meta s) l \<or>
      (\<exists>f \<in> set (cw_freezes w). fz_level f = l \<and> m_frozen (s_meta s') l = fz_period f))"
proof -
  let ?P = "\<lambda>(m, tx :: txn). m_base_year (s_meta s) \<le> m_base_year m \<and> m_closed m = m_closed (s_meta s) \<and>
    (m_frozen m l = m_frozen (s_meta s) l \<or> (\<exists>f \<in> set (cw_freezes w). fz_level f = l \<and> m_frozen m l = fz_period f))"
  have "\<exists>tx :: txn. tx_db tx = s_db s' \<and> ?P (s_meta s', tx)"
  proof (rule write_computed_inv [where P = ?P, OF assms])
    show "?P (m', tx')" if "f \<in> set (cw_freezes w)" "?P (m, tx)" "apply_freeze f (m, tx) = Inr (m', tx')"
      for f m tx m' tx'
    proof -
      note h = that
      obtain w0 where "m' = m\<lparr>m_frozen := (m_frozen m)(fz_level f := w0)\<rparr>" "w0 = m_frozen m (fz_level f) \<or> w0 = fz_period f"
        using apply_freeze_Inr [OF h(3)] by (auto dest!: advance_ge)
      then show ?thesis using h(1,2) by (cases "l = fz_level f") auto
    qed
    show "?P (m', tx')" if "?P (m, tx)" "add_base kv (m, tx) = Inr (m', tx')" for kv m tx m' tx'
      using that by (cases kv) (auto dest!: add_base_Inr)
  qed (auto intro: order_trans)
  then show ?thesis by auto
qed

text \<open>The folds of a run that count: a fold whose year is covered already, by the mark or by a fold
  before it, is passed over.\<close>

fun new_folds :: "string \<Rightarrow> baseline_fold list \<Rightarrow> baseline_fold list" where
  "new_folds y [] = []"
| "new_folds y (f # fs) = (if bf_year f \<le> y then new_folds y fs else f # new_folds (bf_year f) fs)"

lemma new_folds_old: "\<forall>f \<in> set fs. bf_year f \<le> y \<Longrightarrow> new_folds y fs = []"
  by (induction fs) simp_all

lemma new_folds_sorted: "sorted_wrt (<) (y # map bf_year fs) \<Longrightarrow> new_folds y fs = fs"
  by (induction fs arbitrary: y) (auto simp: not_le)

lemma each_apply_fold:
  assumes "each apply_fold fs (m, tx) = Inr (m', tx')" "\<forall>f \<in> set fs. distinct (map fst (bf_add f))"
  shows "base_value m' k = foldl fadd (base_value m k)
      (List.map_filter (\<lambda>f. map_of (bf_add f) k) (new_folds (m_base_year m) fs)) \<and>
    m_base_year m' = last (m_base_year m # map bf_year (new_folds (m_base_year m) fs))"
  using assms
proof (induction fs arbitrary: m tx)
  case Nil
  then show ?case by (simp add: map_filter_simps)
next
  case (Cons f fs)
  obtain m1 t1 where 1: "apply_fold f (m, tx) = Inr (m1, t1)" "each apply_fold fs (m1, t1) = Inr (m', tx')"
    using Cons.prems(1) by (auto split: sum.splits)
  note IH = Cons.IH [OF 1(2)]
  show ?case
  proof (cases "bf_year f \<le> m_base_year m")
    case True
    then have "m1 = m" using 1(1) by (simp add: apply_fold_def)
    then show ?thesis using IH Cons.prems(2) True by simp
  next
    case False
    from apply_fold_Inr [OF 1(1) False] obtain m2 t2 where
      2: "each add_base (bf_add f) (m, tx) = Inr (m2, t2)" "m1 = m2\<lparr>m_base_year := bf_year f\<rparr>" by blast
    then have "base_value m1 k = (case map_of (bf_add f) k of None \<Rightarrow> base_value m k | Some v \<Rightarrow> fadd (base_value m k) v)"
      "m_base_year m1 = bf_year f"
      using each_add_base [OF 2(1), of k] Cons.prems(2) by (simp_all add: base_value_def)
    then show ?thesis using IH Cons.prems(2) False
      by (simp add: map_filter_simps split: option.split)
  qed
qed

text \<open>C8: A closed year enters the total baseline once. After a committed run the baseline year is
  at least every folded year; folds of years already covered change nothing, so repeating a
  run is harmless; each fold of a new year adds its sums to the baselines of their keys, the
  years one after another, so that a run that closes several years adds them all and leaves
  the other keys alone (the keys of a fold are distinct, being those of a Go map); the baseline
  year becomes the last year added; and when the folds name ascending years after the mark,
  none of them is passed over.\<close>

theorem baseline_folds_once:
  assumes "write_computed g w faults s = (Inr rej, s')"
  shows "(\<forall>f \<in> set (cw_folds w). bf_year f \<le> m_base_year (s_meta s')) \<and>
    ((\<forall>f \<in> set (cw_folds w). bf_year f \<le> m_base_year (s_meta s)) \<longrightarrow>
      m_base (s_meta s') = m_base (s_meta s)) \<and>
    ((\<forall>f \<in> set (cw_folds w). distinct (map fst (bf_add f))) \<longrightarrow>
      base_value (s_meta s') k = foldl fadd (base_value (s_meta s) k)
        (List.map_filter (\<lambda>f. map_of (bf_add f) k) (new_folds (m_base_year (s_meta s)) (cw_folds w))) \<and>
      m_base_year (s_meta s')
        = last (m_base_year (s_meta s) # map bf_year (new_folds (m_base_year (s_meta s)) (cw_folds w)))) \<and>
    (sorted_wrt (<) (m_base_year (s_meta s) # map bf_year (cw_folds w)) \<longrightarrow>
      new_folds (m_base_year (s_meta s)) (cw_folds w) = cw_folds w)"
proof -
  obtain tx' t1 m2 t2 where
    fz: "each apply_freeze (cw_freezes w) (s_meta s, t1) = Inr (m2, t2)" and
    fd: "each apply_fold (cw_folds w) (m2, t2) = Inr (s_meta s', tx')"
    using write_computed_Inr [OF assms] by blast
  have same: "m_base m2 = m_base (s_meta s) \<and> m_base_year m2 = m_base_year (s_meta s)"
  proof -
    have "(\<lambda>(m, t). m_base m = m_base (s_meta s) \<and> m_base_year m = m_base_year (s_meta s)) (m2, t2)"
      by (rule each_inv [OF fz]) (auto dest!: apply_freeze_Inr)
    then show ?thesis by simp
  qed
  then have "base_value m2 k = base_value (s_meta s) k" by (simp add: base_value_def)
  with each_apply_fold [OF fd, of k] same
  have sums: "(\<forall>f \<in> set (cw_folds w). distinct (map fst (bf_add f))) \<longrightarrow>
      base_value (s_meta s') k = foldl fadd (base_value (s_meta s) k)
        (List.map_filter (\<lambda>f. map_of (bf_add f) k) (new_folds (m_base_year (s_meta s)) (cw_folds w))) \<and>
      m_base_year (s_meta s')
        = last (m_base_year (s_meta s) # map bf_year (new_folds (m_base_year (s_meta s)) (cw_folds w)))"
    by simp
  have "m_base (s_meta s') = m_base (s_meta s)"
    if old: "\<forall>f \<in> set (cw_folds w). bf_year f \<le> m_base_year (s_meta s)"
  proof -
    have "(\<lambda>(m, t). m = m2) (s_meta s', tx')"
      by (rule each_inv [OF fd]) (use old same in \<open>auto simp: apply_fold_def\<close>)
    with same show ?thesis by simp
  qed
  with sums folds_recorded [OF assms] new_folds_sorted show ?thesis by blast
qed

section \<open>A run on the program's own registry\<close>

text \<open>January 2024 is frozen and the baseline covers 2022; the run tries to overwrite January,
  freezes February and folds 2023.\<close>

definition pv_month :: string where "pv_month = ''pv_energy_monthly''"
definition pv_total :: string where "pv_total = ''pv_energy_total''"

definition demo_frozen :: store where
  "demo_frozen = (let d = \<lparr>d_daily = [], d_monthly = [((pv_month, ''2024-01''), Fin 300, Fin 300)],
       d_yearly = [], d_total = [], d_error = [], d_meta = [(meta_closed_monthly, MText ''2024-01''),
         (meta_base_year, MText ''2022''), (meta_baseline @ pv_total, MFloat (Fin 1000))]\<rparr> in
     \<lparr>s_db = d, s_meta = meta_view (map_of (d_meta d)), s_vacuumed = None\<rparr>)"

definition demo_run :: computed_write where
  "demo_run = \<lparr>cw_rows = [\<lparr>pr_level = Monthly, pr_key = pv_month, pr_period = ''2024-01'', pr_value = Fin 0\<rparr>],
     cw_freezes = [\<lparr>fz_level = Monthly, fz_period = ''2024-02''\<rparr>],
     cw_folds = [\<lparr>bf_year = ''2023'', bf_add = [(pv_total, Fin 500)]\<rparr>], cw_at = 0\<rparr>"

lemma demo_frozen_meta:
  "m_frozen (s_meta demo_frozen) Monthly = ''2024-01''" "m_base_year (s_meta demo_frozen) = ''2022''"
  "m_base (s_meta demo_frozen) pv_total = Some (Fin 1000)"
  by (simp_all add: demo_frozen_def meta_view_def Let_def meta_key_defs)

theorem write_computed_respects_frozen_witness:
  "level_rows Monthly (s_db (snd (write_computed solis_registry demo_run [False, False, True] demo_frozen)))
     (pv_month, ''2024-01'') = Some (Fin 300, Fin 300)"
  using write_computed_respects_frozen [where l = Monthly and p = "''2024-01''" and k = pv_month and
      g = solis_registry and w = demo_run and faults = "[False, False, True]" and s = demo_frozen,
      OF surjective_pairing] demo_frozen_meta
  by (simp add: demo_frozen_def Let_def)

text \<open>A run that repeats 2021 and closes 2023 and 2024.\<close>

definition demo_years :: computed_write where
  "demo_years = demo_run\<lparr>cw_rows := [], cw_freezes := [],
     cw_folds := [\<lparr>bf_year = ''2021'', bf_add = [(pv_total, Fin 9)]\<rparr>,
       \<lparr>bf_year = ''2023'', bf_add = [(pv_total, Fin 500)]\<rparr>, \<lparr>bf_year = ''2024'', bf_add = [(pv_total, Fin 300)]\<rparr>]\<rparr>"

lemma demo_years_order: "(''2021'' :: string) \<le> ''2022''" "\<not> (''2023'' :: string) \<le> ''2022''"
  "\<not> (''2024'' :: string) \<le> ''2023''"
  by code_simp+

lemma demo_years_result: "\<exists>rej s'. write_computed solis_registry demo_years [] demo_frozen = (Inr rej, s')"
  by (simp add: write_computed_def with_tx_def apply_computed_def demo_years_def demo_run_def
      demo_frozen_meta demo_years_order put_meta_def apply_fold_def add_base_def Let_def)

theorem baseline_folds_once_witness:
  "base_value (s_meta (snd (write_computed solis_registry demo_years [] demo_frozen))) pv_total
     = fadd (fadd (Fin 1000) (Fin 500)) (Fin 300)"
proof -
  obtain rej s' where r: "write_computed solis_registry demo_years [] demo_frozen = (Inr rej, s')"
    using demo_years_result by blast
  have folds: "cw_folds demo_years = [\<lparr>bf_year = ''2021'', bf_add = [(pv_total, Fin 9)]\<rparr>,
      \<lparr>bf_year = ''2023'', bf_add = [(pv_total, Fin 500)]\<rparr>, \<lparr>bf_year = ''2024'', bf_add = [(pv_total, Fin 300)]\<rparr>]"
    by (simp add: demo_years_def)
  have "new_folds ''2022'' (cw_folds demo_years) = tl (cw_folds demo_years)"
    unfolding folds by (simp add: demo_years_order del: Cons_le_Cons)
  moreover have "base_value (s_meta demo_frozen) pv_total = Fin 1000"
    by (simp add: base_value_def demo_frozen_meta)
  ultimately have "base_value (s_meta s') pv_total = fadd (fadd (Fin 1000) (Fin 500)) (Fin 300)"
    using baseline_folds_once [OF r, of pv_total] folds demo_frozen_meta
    by (simp add: map_filter_simps del: fadd.simps)
  then show ?thesis unfolding r by (simp del: fadd.simps)
qed

end
