(* ===== verification/Cutover.thy ===== *)
theory Cutover
  imports AggregatorStore
begin

text \<open>
  internal/storage/meta.go, \<open>EnsureCutover\<close>: the first start of v3 records the cutover day,
  closes and freezes what lies before it, and keeps the inverter's own values of the periods
  that stay open as offsets.
\<close>

record offset_span =
  sp_level :: level
  sp_key :: string
  sp_from :: string
  sp_today :: string

definition cutover_margin :: int where "cutover_margin = -2"

definition period_value :: "level \<Rightarrow> string \<Rightarrow> string \<Rightarrow> txn \<Rightarrow> storage_error + float64 option \<times> txn" where
  "period_value l k p tx =
     (if l = Monthly \<or> l = Yearly then query (\<lambda>d. map_option fst (level_rows l d (k, p))) tx
      else Inl (BadLevel (level_string l)))"

fun level_spans :: "level \<Rightarrow> (string \<Rightarrow> key_error + string \<times> string) \<Rightarrow> string \<Rightarrow> string list
    \<Rightarrow> key_error + offset_span list" where
  "level_spans l bounds today [] = Inr []"
| "level_spans l bounds today (k # ks) = (case bounds k of Inl e \<Rightarrow> Inl e
     | Inr (lo, hi) \<Rightarrow> (case level_spans l bounds today ks of Inl e \<Rightarrow> Inl e
         | Inr sps \<Rightarrow> Inr (\<lparr>sp_level = l, sp_key = k, sp_from = lo, sp_today = min hi today\<rparr> # sps)))"

definition open_spans :: "meta \<Rightarrow> period \<Rightarrow> key_error + offset_span list" where
  "open_spans m p =
     (case months_between (m_frozen m Monthly) (p_month p) of Inl e \<Rightarrow> Inl e | Inr months \<Rightarrow>
      case years_between (m_frozen m Yearly) (p_year p) of Inl e \<Rightarrow> Inl e | Inr years \<Rightarrow>
      case level_spans Monthly month_bounds (p_day p) months of Inl e \<Rightarrow> Inl e | Inr ms \<Rightarrow>
      case level_spans Yearly year_bounds (p_day p) years of Inl e \<Rightarrow> Inl e | Inr ys \<Rightarrow>
        Inr (ms @ ys))"

text \<open>\<open>putOffset\<close>: only a value ahead of the daily sum is recorded.\<close>

definition put_offset :: "string \<Rightarrow> float64 \<Rightarrow> meta \<times> txn \<Rightarrow> storage_error + meta \<times> txn" where
  "put_offset k off s = (case s of (m, tx) \<Rightarrow>
     if fle off (Fin 0) then Inr (m, tx)
     else (case put_meta (meta_offset @ k) (MFloat off) tx of Inl e \<Rightarrow> Inl e
       | Inr tx' \<Rightarrow> Inr (m\<lparr>m_offsets := (m_offsets m)(k \<mapsto> off)\<rparr>, tx')))"

definition edge_offset :: "(float64 list \<Rightarrow> float64) \<Rightarrow> offset_span \<Rightarrow> edge \<Rightarrow> meta \<times> txn
    \<Rightarrow> storage_error + meta \<times> txn" where
  "edge_offset agg sp e s = (case s of (m, tx) \<Rightarrow>
     case period_value (sp_level sp) (e_target e) (sp_key sp) tx of Inl err \<Rightarrow> Inl err
     | Inr (None, tx) \<Rightarrow> Inr (m, tx)
     | Inr (Some stored, tx) \<Rightarrow>
       (case sum_daily agg (e_source e) (sp_from sp) (sp_today sp) tx of Inl err \<Rightarrow> Inl err
        | Inr (sm, tx) \<Rightarrow> put_offset (offset_key (sp_level sp) (sp_key sp) (e_target e))
            (fsub stored sm) (m, tx)))"

definition period_offsets :: "registry \<Rightarrow> (float64 list \<Rightarrow> float64) \<Rightarrow> offset_span \<Rightarrow> meta \<times> txn
    \<Rightarrow> storage_error + meta \<times> txn" where
  "period_offsets g agg sp s = each (edge_offset agg sp) (registry_edges g (sp_level sp)) s"

definition write_cutover_offsets :: "registry \<Rightarrow> (float64 list \<Rightarrow> float64) \<Rightarrow> period \<Rightarrow> meta \<times> txn
    \<Rightarrow> storage_error + meta \<times> txn" where
  "write_cutover_offsets g agg p s = (case open_spans (fst s) p of Inl e \<Rightarrow> Inl (BadKey e)
     | Inr spans \<Rightarrow> each (period_offsets g agg) spans s)"

definition day_mark :: "string \<Rightarrow> string \<Rightarrow> meta \<times> txn \<Rightarrow> storage_error + meta \<times> txn" where
  "day_mark closed_day k s = (case s of (m, tx) \<Rightarrow>
     case advance tx (meta_closed_daily @ k) (m_closed m k) closed_day of Inl e \<Rightarrow> Inl e
     | Inr (v, tx') \<Rightarrow> Inr (m\<lparr>m_closed := (m_closed m)(k := v)\<rparr>, tx'))"

definition init_day_marks :: "registry \<Rightarrow> string \<Rightarrow> string \<Rightarrow> meta \<times> txn
    \<Rightarrow> storage_error + meta \<times> txn" where
  "init_day_marks g closed_day prev_year s =
     (case each (day_mark closed_day) (daily_keys g) s of Inl e \<Rightarrow> Inl e | Inr (m, tx) \<Rightarrow>
      if m_base_year m = [] then
        (case put_meta meta_base_year (MText prev_year) tx of Inl e \<Rightarrow> Inl e
         | Inr tx' \<Rightarrow> Inr (m\<lparr>m_base_year := prev_year\<rparr>, tx'))
      else Inr (m, tx))"

definition finish_cutover :: "registry \<Rightarrow> (float64 list \<Rightarrow> float64) \<Rightarrow> period \<Rightarrow> string \<Rightarrow> meta \<times> txn
    \<Rightarrow> storage_error + meta \<times> txn" where
  "finish_cutover g agg p closed_day s =
     (case write_cutover_offsets g agg p s of Inl e \<Rightarrow> Inl e | Inr s \<Rightarrow>
      case add_years (p_year p) (-1) of Inl e \<Rightarrow> Inl (BadKey e) | Inr prev_year \<Rightarrow>
      init_day_marks g closed_day prev_year s)"

definition write_cutover :: "registry \<Rightarrow> (float64 list \<Rightarrow> float64) \<Rightarrow> period \<Rightarrow> meta \<times> txn
    \<Rightarrow> storage_error + meta \<times> txn" where
  "write_cutover g agg p s = (case s of (m, tx) \<Rightarrow>
     case add_days (p_day p) cutover_margin of Inl e \<Rightarrow> Inl (BadKey e) | Inr closed_day \<Rightarrow>
     case add_months (take 7 closed_day) (-1) of Inl e \<Rightarrow> Inl (BadKey e) | Inr fm \<Rightarrow>
     case add_years (take 4 closed_day) (-1) of Inl e \<Rightarrow> Inl (BadKey e) | Inr fy \<Rightarrow>
     case put_meta meta_cutover (MText (p_day p)) tx of Inl e \<Rightarrow> Inl e | Inr tx \<Rightarrow>
     case each apply_freeze [\<lparr>fz_level = Monthly, fz_period = fm\<rparr>,
         \<lparr>fz_level = Yearly, fz_period = fy\<rparr>, \<lparr>fz_level = Daily, fz_period = closed_day\<rparr>]
       (m\<lparr>m_cutover := p_day p\<rparr>, tx) of Inl e \<Rightarrow> Inl e | Inr s \<Rightarrow>
     finish_cutover g agg p closed_day s)"

text \<open>The cutover day and whether it was created now.\<close>

definition ensure_cutover :: "registry \<Rightarrow> (float64 list \<Rightarrow> float64) \<Rightarrow> period \<Rightarrow> bool list \<Rightarrow> store
    \<Rightarrow> (storage_error + string \<times> bool) \<times> store" where
  "ensure_cutover g agg p faults s =
     (if m_cutover (s_meta s) \<noteq> [] then (Inr (m_cutover (s_meta s), False), s)
      else (case with_tx (\<lambda>tx. case write_cutover g agg p (s_meta s, tx) of Inl e \<Rightarrow> Inl e
            | Inr s' \<Rightarrow> Inr s') faults (s_db s) of
          Inl e \<Rightarrow> (Inl e, s)
        | Inr (m, d) \<Rightarrow> (Inr (p_day p, True), s\<lparr>s_db := d, s_meta := m\<rparr>)))"

section \<open>Coherence and frames\<close>

text \<open>What a cutover step keeps: coherence, every table but meta, and marks only advance.\<close>

definition cut_step :: "meta \<times> txn \<Rightarrow> meta \<times> txn \<Rightarrow> bool" where
  "cut_step s s' \<longleftrightarrow> (case (s, s') of ((m, tx), (m', tx')) \<Rightarrow>
     (coherent (tx_db tx) m \<longrightarrow> coherent (tx_db tx') m') \<and>
     d_daily (tx_db tx') = d_daily (tx_db tx) \<and> d_monthly (tx_db tx') = d_monthly (tx_db tx) \<and>
     d_yearly (tx_db tx') = d_yearly (tx_db tx) \<and> d_total (tx_db tx') = d_total (tx_db tx) \<and>
     d_error (tx_db tx') = d_error (tx_db tx) \<and> m_purged m' = m_purged m \<and> m_base m' = m_base m)"

lemma cut_step_refl [simp]: "cut_step s s"
  by (cases s) (simp add: cut_step_def)

lemma cut_step_trans: "cut_step s t \<Longrightarrow> cut_step t u \<Longrightarrow> cut_step s u"
  by (cases s; cases t; cases u) (auto simp: cut_step_def)

lemma each_cut_step:
  assumes "each f xs s = Inr s'" "\<And>x s s'. f x s = Inr s' \<Longrightarrow> cut_step s s'"
  shows "cut_step s s'"
  by (rule each_inv [where P = "cut_step s", OF assms(1)]) (auto intro: cut_step_trans assms(2))

lemma coherent_view: "coherent d m \<Longrightarrow> meta_view (map_of (d_meta d)) = m"
  by (simp add: coherent_def)

lemma put_offset_step: "put_offset k off s = Inr s' \<Longrightarrow> cut_step s s'"
proof -
  assume p: "put_offset k off s = Inr s'"
  obtain m tx m' tx' where s: "s = (m, tx)" "s' = (m', tx')" by fastforce
  have "coherent (tx_db tx) m \<Longrightarrow> coherent (tx_db tx') m'"
    using p s coherent_puts(9) [of "tx_db tx" m k off] coherent_view [of "tx_db tx" m]
    by (auto simp: put_offset_def dest: put_meta_Inr split: if_splits sum.splits)
  with p s show ?thesis
    by (auto simp: cut_step_def put_offset_def dest: put_meta_Inr split: if_splits sum.splits)
qed

lemma edge_offset_step: "edge_offset agg sp e s = Inr s' \<Longrightarrow> cut_step s s'"
proof -
  assume p: "edge_offset agg sp e s = Inr s'"
  obtain m tx where s: "s = (m, tx)" by fastforce
  obtain v tx1 where v: "period_value (sp_level sp) (e_target e) (sp_key sp) tx = Inr (v, tx1)"
    using p s by (auto simp: edge_offset_def split: sum.splits)
  have t1: "tx_db tx1 = tx_db tx"
    using v by (auto simp: period_value_def dest: query_Inr split: if_splits)
  then have c1: "cut_step (m, tx) (m, tx1)" by (simp add: cut_step_def)
  show ?thesis
  proof (cases v)
    case None
    with p s v have "s' = (m, tx1)" by (simp add: edge_offset_def)
    with c1 s show ?thesis by simp
  next
    case (Some stored)
    then obtain sm tx2 where 2: "sum_daily agg (e_source e) (sp_from sp) (sp_today sp) tx1 = Inr (sm, tx2)"
      "put_offset (offset_key (sp_level sp) (sp_key sp) (e_target e)) (fsub stored sm) (m, tx2) = Inr s'"
      using p s v by (auto simp: edge_offset_def split: sum.splits)
    have "tx_db tx2 = tx_db tx1" using 2(1) by (auto simp: sum_daily_def dest: query_Inr)
    then have "cut_step (m, tx1) (m, tx2)" by (simp add: cut_step_def)
    with c1 put_offset_step [OF 2(2)] s show ?thesis by (auto intro: cut_step_trans)
  qed
qed

lemma day_mark_step: "day_mark c k s = Inr s' \<Longrightarrow> cut_step s s'"
proof -
  assume p: "day_mark c k s = Inr s'"
  obtain m tx where s: "s = (m, tx)" by fastforce
  obtain v tx' where v: "advance tx (meta_closed_daily @ k) (m_closed m k) c = Inr (v, tx')"
    "s' = (m\<lparr>m_closed := (m_closed m)(k := v)\<rparr>, tx')"
    using p s by (auto simp: day_mark_def split: sum.splits)
  with s advance_closed_coherent [of tx m k c v tx'] advance_Inr [OF v(1)] show ?thesis
    by (auto simp: cut_step_def)
qed

lemma apply_freeze_step: "apply_freeze f s = Inr s' \<Longrightarrow> cut_step s s'"
proof -
  assume p: "apply_freeze f s = Inr s'"
  obtain m tx m' tx' where s: "s = (m, tx)" "s' = (m', tx')" by fastforce
  with p apply_freeze_Inr [of f m tx m' tx'] obtain k v where
    k: "frozen_key (fz_level f) = Inr k" and
    v: "advance tx k (m_frozen m (fz_level f)) (fz_period f) = Inr (v, tx')" and
    m': "m' = m\<lparr>m_frozen := (m_frozen m)(fz_level f := v)\<rparr>" by auto
  with s advance_frozen_coherent [OF _ k v] advance_Inr [OF v] show ?thesis
    by (auto simp: cut_step_def)
qed

lemma cut_step_meta:
  assumes "coherent (tx_db tx) m \<Longrightarrow> coherent (tx_db tx') m'"
    "tx_db tx' = (tx_db tx)\<lparr>d_meta := x\<rparr>" "m_purged m' = m_purged m" "m_base m' = m_base m"
  shows "cut_step (m, tx) (m', tx')"
  using assms by (simp add: cut_step_def)

lemma init_day_marks_step: "init_day_marks g c y s = Inr s' \<Longrightarrow> cut_step s s'"
proof -
  assume p: "init_day_marks g c y s = Inr s'"
  obtain m tx where e: "each (day_mark c) (daily_keys g) s = Inr (m, tx)"
    using p by (auto simp: init_day_marks_def split: sum.splits)
  have 1: "cut_step s (m, tx)" by (rule each_cut_step [OF e day_mark_step])
  show ?thesis
  proof (cases "m_base_year m = []")
    case True
    then obtain tx' where 2: "put_meta meta_base_year (MText y) tx = Inr tx'"
      "s' = (m\<lparr>m_base_year := y\<rparr>, tx')"
      using p e by (auto simp: init_day_marks_def split: sum.splits)
    have "cut_step (m, tx) s'"
      using put_meta_Inr [OF 2(1)] 2(2) coherent_puts(2) [of "tx_db tx" m y] coherent_view [of "tx_db tx" m]
      by (auto intro!: cut_step_meta)
    with 1 show ?thesis by (rule cut_step_trans)
  next
    case False
    with 1 p e show ?thesis by (simp add: init_day_marks_def)
  qed
qed

lemma write_cutover_step: "write_cutover g agg p s = Inr s' \<Longrightarrow> cut_step s s'"
proof -
  assume p: "write_cutover g agg p s = Inr s'"
  obtain m tx where s: "s = (m, tx)" by fastforce
  obtain c fm fy tx1 s2 where 1: "put_meta meta_cutover (MText (p_day p)) tx = Inr tx1" and
    2: "each apply_freeze [\<lparr>fz_level = Monthly, fz_period = fm\<rparr>,
         \<lparr>fz_level = Yearly, fz_period = fy\<rparr>, \<lparr>fz_level = Daily, fz_period = c\<rparr>]
       (m\<lparr>m_cutover := p_day p\<rparr>, tx1) = Inr s2" and
    3: "finish_cutover g agg p c s2 = Inr s'"
    using p s by (auto simp: write_cutover_def split: sum.splits simp del: each.simps)
  obtain s3 y where 4: "write_cutover_offsets g agg p s2 = Inr s3" "init_day_marks g c y s3 = Inr s'"
    using 3 by (auto simp: finish_cutover_def split: sum.splits)
  have "cut_step s (m\<lparr>m_cutover := p_day p\<rparr>, tx1)"
    using put_meta_Inr [OF 1] coherent_puts(1) [of "tx_db tx" m "p_day p"] coherent_view [of "tx_db tx" m]
    unfolding s by (auto intro!: cut_step_meta)
  moreover have "cut_step (m\<lparr>m_cutover := p_day p\<rparr>, tx1) s2"
    by (rule each_cut_step [OF 2 apply_freeze_step])
  moreover have "cut_step s2 s3"
  proof -
    obtain spans where "each (period_offsets g agg) spans s2 = Inr s3"
      using 4(1) by (auto simp: write_cutover_offsets_def split: sum.splits)
    then show ?thesis
    proof (rule each_cut_step)
      show "cut_step x x'" if "period_offsets g agg sp x = Inr x'" for sp x x'
        using that unfolding period_offsets_def by (rule each_cut_step) (rule edge_offset_step)
    qed
  qed
  ultimately show ?thesis using init_day_marks_step [OF 4(2)] by (metis cut_step_trans)
qed

lemma ensure_cutover_cases:
  assumes "ensure_cutover g agg p faults s = (res, s')"
  shows "(s' = s \<and> (m_cutover (s_meta s) = [] \<longrightarrow> isl res)) \<or>
    (\<exists>tx tx'. tx_db tx = s_db s \<and> tx_db tx' = s_db s' \<and> m_cutover (s_meta s) = [] \<and>
      write_cutover g agg p (s_meta s, tx) = Inr (s_meta s', tx') \<and> res = Inr (p_day p, True))"
proof (cases "m_cutover (s_meta s) = [] \<and> \<not> isl res")
  case True
  then obtain m d' where w: "with_tx (\<lambda>tx. case write_cutover g agg p (s_meta s, tx) of Inl e \<Rightarrow> Inl e
      | Inr s' \<Rightarrow> Inr s') faults (s_db s) = Inr (m, d')"
    and s': "s' = s\<lparr>s_db := d', s_meta := m\<rparr>" "res = Inr (p_day p, True)"
    using assms by (auto simp: ensure_cutover_def split: sum.splits)
  from w obtain tx tx' where tx: "tx_db tx = s_db s" "tx_db tx' = d'"
    and a: "(case write_cutover g agg p (s_meta s, tx) of Inl e \<Rightarrow> Inl e | Inr s' \<Rightarrow> Inr s') = Inr (m, tx')"
    by (rule with_tx_Inr)
  from a have "write_cutover g agg p (s_meta s, tx) = Inr (m, tx')" by (auto split: sum.splits)
  with tx s' True show ?thesis by auto
qed (use assms in \<open>auto simp: ensure_cutover_def split: sum.splits if_splits\<close>)

lemma ensure_cutover_coherent [inv_intros]:
  assumes "store_ok s" "ensure_cutover g agg p faults s = (res, s')" shows "store_ok s'"
  using ensure_cutover_cases [OF assms(2)] assms(1)
  by (auto simp: store_ok_def dest!: write_cutover_step) (auto simp: cut_step_def)

section \<open>What the first start establishes\<close>

definition fresh_marks :: "meta \<Rightarrow> bool" where
  "fresh_marks m \<longleftrightarrow> m_cutover m = [] \<and> m_closed m = (\<lambda>k. []) \<and> m_frozen m = (\<lambda>l. []) \<and> m_base_year m = []"

text \<open>The offsets leave every mark alone.\<close>

definition same_marks :: "meta \<Rightarrow> meta \<Rightarrow> bool" where
  "same_marks m m' \<longleftrightarrow> m_cutover m' = m_cutover m \<and> m_closed m' = m_closed m \<and>
     m_frozen m' = m_frozen m \<and> m_base_year m' = m_base_year m"

lemma edge_offset_marks: "edge_offset agg sp e s = Inr s' \<Longrightarrow> same_marks (fst s) (fst s')"
  by (cases s) (auto simp: edge_offset_def put_offset_def same_marks_def
      split: sum.splits option.splits prod.splits if_splits)

lemma offsets_marks:
  assumes "write_cutover_offsets g agg p s = Inr s'" shows "same_marks (fst s) (fst s')"
proof -
  have tr: "same_marks a b \<Longrightarrow> same_marks b c \<Longrightarrow> same_marks a c" for a b c
    by (simp add: same_marks_def)
  have rf: "same_marks a a" for a by (simp add: same_marks_def)
  have per: "same_marks (fst x) (fst x')" if "period_offsets g agg sp x = Inr x'" for sp x x'
    by (rule each_inv [where P = "\<lambda>t. same_marks (fst x) (fst t)", OF that [unfolded period_offsets_def]])
      (auto intro: tr rf edge_offset_marks)
  obtain spans where "each (period_offsets g agg) spans s = Inr s'"
    using assms by (auto simp: write_cutover_offsets_def split: sum.splits)
  from each_inv [where P = "\<lambda>t. same_marks (fst s) (fst t)", OF this] show ?thesis
    using tr rf per by blast
qed

lemma apply_freeze_mark:
  assumes "apply_freeze f (m, tx) = Inr (m', tx')"
  shows "m' = m\<lparr>m_frozen := (m_frozen m)(fz_level f :=
    (if fz_period f \<le> m_frozen m (fz_level f) then m_frozen m (fz_level f) else fz_period f))\<rparr>"
  using apply_freeze_Inr [OF assms] by (auto dest!: advance_Inr)

lemma each_day_mark:
  "each (day_mark c) ks (m, tx) = Inr (m', tx') \<Longrightarrow>
    m' = m\<lparr>m_closed := m_closed m'\<rparr> \<and>
    (\<forall>k. m_closed m' k = (if k \<in> set ks \<and> m_closed m k < c then c else m_closed m k))"
proof (induction ks arbitrary: m tx)
  case (Cons k ks)
  obtain m1 t1 where 1: "day_mark c k (m, tx) = Inr (m1, t1)" "each (day_mark c) ks (m1, t1) = Inr (m', tx')"
    using Cons.prems by (auto split: sum.splits)
  have m1: "m1 = m\<lparr>m_closed := (m_closed m)(k := if c \<le> m_closed m k then m_closed m k else c)\<rparr>"
    using 1(1) by (auto simp: day_mark_def dest!: advance_Inr split: sum.splits if_splits)
  from Cons.IH [OF 1(2)] have ih: "m' = m1\<lparr>m_closed := m_closed m'\<rparr>"
    "\<And>x. m_closed m' x = (if x \<in> set ks \<and> m_closed m1 x < c then c else m_closed m1 x)" by blast+
  have "m' = m\<lparr>m_closed := m_closed m'\<rparr>" using ih(1) unfolding m1 by simp
  moreover have "m_closed m' x = (if x \<in> set (k # ks) \<and> m_closed m x < c then c else m_closed m x)" for x
    unfolding ih(2) m1 by (auto simp: not_le)
  ultimately show ?case by blast
qed auto

lemma year_bounds_of:
  assumes "0 \<le> n" "n < 3652059" shows "year_ok (year_of n)" "1 \<le> year_of n" "12 \<le> month_index_of n"
    "month_index_of n < 120000"
proof -
  have ok: "day_ok n" using assms by (simp add: day_ok_iff)
  then show y: "year_ok (year_of n)" by (simp add: day_ok_def year_of_def)
  show "1 \<le> year_of n"
  proof (rule ccontr)
    assume "\<not> 1 \<le> year_of n"
    then have "year_start (year_of n + 1) \<le> year_start 1" by (intro year_start_mono) simp
    moreover have "n < year_start (year_of n + 1)"
      using day_number_year_end [of "date_of n"] by (simp add: year_of_def)
    moreover have "year_start 1 = 0" by (simp add: year_start_def)
    ultimately show False using assms(1) by simp
  qed
  with month_index_bounds [OF ok] y show "12 \<le> month_index_of n" "month_index_of n < 120000"
    by (auto simp: year_ok_def)
qed

lemma ensure_cutover_marks:
  assumes "ensure_cutover g agg (period_of z t) faults s = (Inr (day, created), s')"
    "fresh_marks (s_meta s)" "day_index z t = n" "2 \<le> n" "n < 3652059"
  shows "day = day_key n \<and> created \<and> m_cutover (s_meta s') = day_key n \<and>
    m_frozen (s_meta s') Monthly = month_key (month_index_of (n - 2) - 1) \<and>
    m_frozen (s_meta s') Yearly = fmt_year (year_of (n - 2) - 1) \<and>
    m_frozen (s_meta s') Daily = day_key (n - 2) \<and>
    (\<forall>k \<in> set (daily_keys g). m_closed (s_meta s') k = day_key (n - 2)) \<and>
    m_base_year (s_meta s') = fmt_year (year_of n - 1) \<and>
    ensure_cutover g agg p' faults' s' = (Inr (day_key n, False), s') \<and>
    (\<forall>d. n - 2 < d \<longrightarrow> month_index_of (n - 2) - 1 < month_index_of d \<and> year_of (n - 2) - 1 < year_of d)"
proof -
  let ?p = "period_of z t"
  have c0: "m_cutover (s_meta s) = []" using assms(2) by (simp add: fresh_marks_def)
  note n2 = year_bounds_of [of "n - 2"]
  have ok: "day_ok n" "day_ok (n - 2)" using assms(4,5) by (auto simp: day_ok_iff)
  have p: "p_day ?p = day_key n" "p_year ?p = fmt_year (year_of n)"
    using assms(3) by (simp_all add: period_of_keys year_of_def civil_def)
  define fm fy where "fm = month_key (month_index_of (n - 2) - 1)" and "fy = fmt_year (year_of (n - 2) - 1)"
  have keys: "add_days (day_key n) (-2) = Inr (day_key (n - 2))"
    "add_months (take 7 (day_key (n - 2))) (-1) = Inr fm"
    "add_years (take 4 (day_key (n - 2))) (-1) = Inr fy"
    "add_years (fmt_year (year_of n)) (-1) = Inr (fmt_year (year_of n - 1))"
    using n2 year_bounds_of [of n] assms(4,5) ok
    by (simp_all add: add_days_key take_day_key add_months_key add_years_key fm_def fy_def)
  have ne: "fm \<noteq> []" "fy \<noteq> []" "day_key (n - 2) \<noteq> []" "day_key n \<noteq> []"
    using n2 assms(4,5) fmt_year_nonempty [of "year_of (n - 2) - 1"]
    by (auto simp: fm_def fy_def month_key_nonempty day_key_nonempty year_ok_def)
  obtain tx tx' where w: "write_cutover g agg ?p (s_meta s, tx) = Inr (s_meta s', tx')"
    "day = day_key n" "created"
    using ensure_cutover_cases [OF assms(1)] c0 p by auto
  obtain m1 t1 m2 t2 where
    fz: "each apply_freeze [\<lparr>fz_level = Monthly, fz_period = fm\<rparr>, \<lparr>fz_level = Yearly, fz_period = fy\<rparr>,
        \<lparr>fz_level = Daily, fz_period = day_key (n - 2)\<rparr>]
      ((s_meta s)\<lparr>m_cutover := day_key n\<rparr>, t1) = Inr (m2, t2)" and
    fin: "finish_cutover g agg ?p (day_key (n - 2)) (m2, t2) = Inr (s_meta s', tx')"
    using w(1) unfolding write_cutover_def cutover_margin_def p keys
    by (auto simp: keys split: sum.splits simp del: each.simps)
  have m2: "m_frozen m2 Monthly = fm" "m_frozen m2 Yearly = fy" "m_frozen m2 Daily = day_key (n - 2)"
    "m_cutover m2 = day_key n" "m_closed m2 = (\<lambda>k. [])" "m_base_year m2 = []"
    using fz assms(2) ne
    by (auto simp: fresh_marks_def dest!: apply_freeze_mark split: sum.splits)
  obtain m3 t3 where off: "same_marks m2 m3" and
    "init_day_marks g (day_key (n - 2)) (fmt_year (year_of n - 1)) (m3, t3) = Inr (s_meta s', tx')"
    using fin offsets_marks [of g agg ?p "(m2, t2)"]
    by (auto simp: finish_cutover_def p keys split: sum.splits)
  then obtain m4 t4 where e: "each (day_mark (day_key (n - 2))) (daily_keys g) (m3, t3) = Inr (m4, t4)"
    and s4: "s_meta s' = (if m_base_year m4 = [] then m4\<lparr>m_base_year := fmt_year (year_of n - 1)\<rparr> else m4)"
    by (auto simp: init_day_marks_def split: sum.splits if_splits)
  note m4 = each_day_mark [OF e]
  have mark: "m_cutover m4 = day_key n" "m_frozen m4 = m_frozen m2" "m_base_year m4 = []"
  proof -
    obtain f where "m4 = m3\<lparr>m_closed := f\<rparr>" using m4 by blast
    then show "m_cutover m4 = day_key n" "m_frozen m4 = m_frozen m2" "m_base_year m4 = []"
      using off m2(4,6) by (simp_all add: same_marks_def)
  qed
  have closed: "m_closed m4 k = day_key (n - 2)" if "k \<in> set (daily_keys g)" for k
  proof -
    have "m_closed m3 k = []" using off m2(5) by (simp add: same_marks_def)
    moreover have "[] < day_key (n - 2)" using ne(3) by (simp add: less_le)
    ultimately show ?thesis using m4 that by simp
  qed
  have "ensure_cutover g agg p' faults' s' = (Inr (day_key n, False), s')"
    using mark ne by (simp add: ensure_cutover_def s4)
  moreover have "month_index_of (n - 2) - 1 < month_index_of d \<and> year_of (n - 2) - 1 < year_of d"
    if "n - 2 < d" for d using month_index_mono [of "n - 2" d] that by simp
  ultimately show ?thesis using w(2,3) s4 mark closed m2
    by (simp add: fm_def fy_def)
qed

text \<open>C11: The first start on a day closes every daily series and the net days through the day before
  yesterday, freezes the months and years before that day's own, starts the baseline after
  the previous year, and nothing else re-runs it: a later call returns the same day and
  changes nothing, in the same process and after a restart, where the marks are the ones
  loaded from the database. A day that stays writable therefore lies in a month and a year
  that stay open.\<close>

theorem cutover_marks:
  assumes "ensure_cutover g agg (period_of z t) faults s = (Inr (day, created), s')"
    "fresh_marks (s_meta s)" "day_index z t = n" "2 \<le> n" "n < 3652059" "store_ok s"
  shows "day = day_key n \<and> created \<and> m_cutover (s_meta s') = day_key n \<and>
    m_frozen (s_meta s') Monthly = month_key (month_index_of (n - 2) - 1) \<and>
    m_frozen (s_meta s') Yearly = fmt_year (year_of (n - 2) - 1) \<and>
    m_frozen (s_meta s') Daily = day_key (n - 2) \<and>
    (\<forall>k \<in> set (daily_keys g). m_closed (s_meta s') k = day_key (n - 2)) \<and>
    m_base_year (s_meta s') = fmt_year (year_of n - 1) \<and>
    ensure_cutover g agg p' faults' s' = (Inr (day_key n, False), s') \<and>
    (case load_meta (s_db s') of Inl e \<Rightarrow> False
     | Inr m \<Rightarrow> ensure_cutover g agg p' faults' \<lparr>s_db = s_db s', s_meta = m, s_vacuumed = None\<rparr>
         = (Inr (day_key n, False), \<lparr>s_db = s_db s', s_meta = m, s_vacuumed = None\<rparr>)) \<and>
    (\<forall>d. n - 2 < d \<longrightarrow> month_index_of (n - 2) - 1 < month_index_of d \<and> year_of (n - 2) - 1 < year_of d)"
proof -
  note c = ensure_cutover_marks [OF assms(1-5), of p' faults']
  have "load_meta (s_db s') = Inr (s_meta s')"
    using ensure_cutover_coherent [OF assms(6,1)] by (simp add: store_ok_def coherent_load)
  moreover have "m_cutover (s_meta s') \<noteq> []" using c day_key_nonempty assms(4,5) by (auto simp: day_ok_iff)
  ultimately show ?thesis using c by (auto simp: ensure_cutover_def)
qed

section \<open>The first start succeeds\<close>

definition quiet :: "meta \<times> txn \<Rightarrow> bool" where
  "quiet s \<longleftrightarrow> tx_faults (snd s) = []"

lemma exec_quiet_txn: "tx_faults tx = [] \<Longrightarrow> exec True f tx = Inr \<lparr>tx_db = f (tx_db tx), tx_faults = []\<rparr>"
  by (simp add: exec_def)

lemma each_total:
  assumes "\<And>x s. x \<in> set xs \<Longrightarrow> Q s \<Longrightarrow> \<exists>s'. f x s = Inr s' \<and> Q s'" "Q s"
  shows "\<exists>s'. each f xs s = Inr s' \<and> Q s'"
  using assms
proof (induction xs arbitrary: s)
  case (Cons x xs)
  obtain s1 where "f x s = Inr s1" "Q s1" using Cons.prems by (meson list.set_intros(1))
  moreover have "\<exists>s'. f y t = Inr s' \<and> Q s'" if "y \<in> set xs" "Q t" for y t
    using Cons.prems(1) that by (meson list.set_intros(2))
  ultimately show ?case using Cons.IH [of s1] by simp
qed simp

lemma advance_quiet:
  "tx_faults tx = [] \<Longrightarrow> \<exists>v tx'. advance tx k cur c = Inr (v, tx') \<and> tx_faults tx' = []"
  by (simp add: advance_def put_meta_def exec_quiet_txn)

lemma apply_freeze_quiet:
  "quiet s \<Longrightarrow> fz_level f \<noteq> Total \<Longrightarrow> \<exists>s'. apply_freeze f s = Inr s' \<and> quiet s'"
proof -
  assume q: "quiet s" "fz_level f \<noteq> Total"
  obtain m tx where s: "s = (m, tx)" by fastforce
  obtain k where k: "frozen_key (fz_level f) = Inr k" using q(2) by (cases "fz_level f") auto
  obtain v tx' where "advance tx k (m_frozen m (fz_level f)) (fz_period f) = Inr (v, tx')" "tx_faults tx' = []"
    using advance_quiet q(1) s unfolding quiet_def by (metis snd_conv)
  then show ?thesis by (simp add: apply_freeze_def s k quiet_def)
qed

lemma day_mark_quiet: "quiet s \<Longrightarrow> \<exists>s'. day_mark c k s = Inr s' \<and> quiet s'"
proof -
  assume q: "quiet s"
  obtain m tx where s: "s = (m, tx)" by fastforce
  obtain v tx' where "advance tx (meta_closed_daily @ k) (m_closed m k) c = Inr (v, tx')" "tx_faults tx' = []"
    using advance_quiet q s unfolding quiet_def by (metis snd_conv)
  then show ?thesis by (simp add: day_mark_def s quiet_def)
qed

lemma edge_offset_quiet:
  "quiet s \<Longrightarrow> sp_level sp = Monthly \<or> sp_level sp = Yearly \<Longrightarrow>
    \<exists>s'. edge_offset agg sp e s = Inr s' \<and> quiet s'"
  by (cases s) (auto simp: edge_offset_def period_value_def sum_daily_def query_def exec_quiet_txn
      quiet_def put_offset_def put_meta_def split: option.splits)

lemma level_spans_ok:
  "(\<And>k. k \<in> set ks \<Longrightarrow> \<exists>b. bounds k = Inr b) \<Longrightarrow>
    \<exists>sps. level_spans l bounds today ks = Inr sps \<and> (\<forall>sp \<in> set sps. sp_level sp = l)"
proof (induction ks)
  case (Cons k ks)
  obtain lo hi where "bounds k = Inr (lo, hi)" using Cons.prems [of k] by auto
  moreover obtain sps where "level_spans l bounds today ks = Inr sps" "\<forall>sp \<in> set sps. sp_level sp = l"
    using Cons by auto
  ultimately show ?case by simp
qed simp

lemma open_spans_ok:
  assumes "p_day p = day_key n" "p_month p = month_key (month_index_of n)" "p_year p = fmt_year (year_of n)"
    "m_frozen m Monthly = month_key i" "m_frozen m Yearly = fmt_year y" "0 \<le> i" "i \<le> month_index_of n"
    "0 \<le> y" "y \<le> year_of n" "month_index_of n + 1 < 120000" "year_of n + 1 < 10000"
  shows "\<exists>sps. open_spans m p = Inr sps \<and> (\<forall>sp \<in> set sps. sp_level sp = Monthly \<or> sp_level sp = Yearly)"
proof -
  have mb: "months_between (m_frozen m Monthly) (p_month p) = Inr (map month_key [i + 1..month_index_of n])"
    using months_between_keys_aux [OF assms(6,7,10)] assms(2,4) by simp
  have yb: "years_between (m_frozen m Yearly) (p_year p) = Inr (map fmt_year [y + 1..year_of n])"
    using years_between_keys [OF assms(8,9,11)] assms(3,5) by simp
  have "\<exists>b. month_bounds k = Inr b" if "k \<in> set (map month_key [i + 1..month_index_of n])" for k
  proof -
    from that have "k \<in> month_key ` {i + 1..month_index_of n}" by simp
    then show ?thesis
    proof
      fix j assume j: "k = month_key j" "j \<in> {i + 1..month_index_of n}"
      then have "0 \<le> j" "j < 120000" using assms(6,10) by auto
      then show "\<exists>b. month_bounds k = Inr b" using month_bounds_key j(1) by blast
    qed
  qed
  from level_spans_ok [where bounds = month_bounds, OF this] obtain ms where
    "level_spans Monthly month_bounds (p_day p) (map month_key [i + 1..month_index_of n]) = Inr ms"
    "\<forall>sp \<in> set ms. sp_level sp = Monthly" by blast
  moreover have "\<exists>b. year_bounds k = Inr b" if "k \<in> set (map fmt_year [y + 1..year_of n])" for k
  proof -
    from that have "k \<in> fmt_year ` {y + 1..year_of n}" by simp
    then show ?thesis
    proof
      fix j assume j: "k = fmt_year j" "j \<in> {y + 1..year_of n}"
      then have "year_ok j" using assms(8,11) by (auto simp: year_ok_def)
      then show "\<exists>b. year_bounds k = Inr b" using year_bounds_key j(1) by blast
    qed
  qed
  from level_spans_ok [where bounds = year_bounds, OF this] obtain ys where
    "level_spans Yearly year_bounds (p_day p) (map fmt_year [y + 1..year_of n]) = Inr ys"
    "\<forall>sp \<in> set ys. sp_level sp = Yearly" by blast
  ultimately show ?thesis by (auto simp: open_spans_def mb yb)
qed

lemma cutover_commits:
  assumes "fresh_marks (s_meta s)" "day_index z t = n" "2 \<le> n" "n < 3652059" "year_of n < 9999"
  shows "\<exists>s'. ensure_cutover g agg (period_of z t) [] s = (Inr (day_key n, True), s')"
proof -
  let ?p = "period_of z t"
  note n2 = year_bounds_of [of "n - 2"] and nn = year_bounds_of [of n]
  have ok: "day_ok n" "day_ok (n - 2)" using assms(3,4) by (auto simp: day_ok_iff)
  have p: "p_day ?p = day_key n" "p_year ?p = fmt_year (year_of n)"
    "p_month ?p = month_key (month_index_of n)"
    using assms(2) by (simp_all add: period_of_keys year_of_def civil_def)
  define fm fy where "fm = month_key (month_index_of (n - 2) - 1)" and "fy = fmt_year (year_of (n - 2) - 1)"
  have keys: "add_days (day_key n) (-2) = Inr (day_key (n - 2))"
    "add_months (take 7 (day_key (n - 2))) (-1) = Inr fm"
    "add_years (take 4 (day_key (n - 2))) (-1) = Inr fy"
    "add_years (fmt_year (year_of n)) (-1) = Inr (fmt_year (year_of n - 1))"
    using n2 nn assms(3,4) ok
    by (simp_all add: add_days_key take_day_key add_months_key add_years_key fm_def fy_def)
  define tx0 where "tx0 = \<lparr>tx_db = s_db s, tx_faults = []\<rparr>"
  obtain tx1 where t1: "put_meta meta_cutover (MText (day_key n)) tx0 = Inr tx1" "tx_faults tx1 = []"
    by (simp add: tx0_def put_meta_def)
  let ?fs = "[\<lparr>fz_level = Monthly, fz_period = fm\<rparr>, \<lparr>fz_level = Yearly, fz_period = fy\<rparr>,
      \<lparr>fz_level = Daily, fz_period = day_key (n - 2)\<rparr>]"
  have "\<exists>s2. each apply_freeze ?fs ((s_meta s)\<lparr>m_cutover := day_key n\<rparr>, tx1) = Inr s2 \<and> quiet s2"
    by (rule each_total [where Q = quiet]) (use t1 apply_freeze_quiet in \<open>auto simp: quiet_def\<close>)
  then obtain m2 t2 where 2: "each apply_freeze ?fs ((s_meta s)\<lparr>m_cutover := day_key n\<rparr>, tx1) = Inr (m2, t2)"
    "quiet (m2, t2)" by auto
  have ne: "fm \<noteq> []" "fy \<noteq> []"
    using n2 assms(3,4) fmt_year_nonempty [of "year_of (n - 2) - 1"]
    by (auto simp: fm_def fy_def month_key_nonempty year_ok_def)
  then have m2: "m_frozen m2 Monthly = fm" "m_frozen m2 Yearly = fy"
    using 2(1) assms(1)
    by (auto simp: fresh_marks_def dest!: apply_freeze_mark split: sum.splits)
  obtain sps where sps: "open_spans m2 ?p = Inr sps"
    "\<forall>sp \<in> set sps. sp_level sp = Monthly \<or> sp_level sp = Yearly"
    using open_spans_ok [OF p(1,3,2), of m2 "month_index_of (n - 2) - 1" "year_of (n - 2) - 1"]
      m2 n2 nn assms(3-5) month_index_mono [of "n - 2" n] month_index_bounds [OF ok(1)]
    by (auto simp: fm_def fy_def)
  have "\<exists>s3. each (period_offsets g agg) sps (m2, t2) = Inr s3 \<and> quiet s3"
  proof (rule each_total [where Q = quiet, OF _ 2(2)])
    show "\<exists>s'. period_offsets g agg sp x = Inr s' \<and> quiet s'" if "sp \<in> set sps" "quiet x" for sp x
      unfolding period_offsets_def
      by (rule each_total [where Q = quiet, OF edge_offset_quiet]) (use that sps(2) in auto)
  qed
  then obtain s3 where s3: "each (period_offsets g agg) sps (m2, t2) = Inr s3" "quiet s3" by blast
  obtain m4 t4 where 4: "each (day_mark (day_key (n - 2))) (daily_keys g) s3 = Inr (m4, t4)" "quiet (m4, t4)"
    using each_total [where Q = quiet and f = "day_mark (day_key (n - 2))" and xs = "daily_keys g",
        OF day_mark_quiet s3(2)] by auto
  have "\<exists>m5 t5. init_day_marks g (day_key (n - 2)) (fmt_year (year_of n - 1)) s3 = Inr (m5, t5) \<and>
      tx_faults t5 = []"
    using 4 by (simp add: init_day_marks_def put_meta_def quiet_def exec_quiet_txn)
  then obtain m5 t5 where 5: "init_day_marks g (day_key (n - 2)) (fmt_year (year_of n - 1)) s3 = Inr (m5, t5)"
    "tx_faults t5 = []" by blast
  have "write_cutover g agg ?p (s_meta s, tx0) = Inr (m5, t5)"
    unfolding write_cutover_def cutover_margin_def p prod.case keys sum.case t1 2 finish_cutover_def
      write_cutover_offsets_def fst_conv sps s3 5 ..
  moreover have "exec True (\<lambda>d. d) t5 = Inr \<lparr>tx_db = tx_db t5, tx_faults = []\<rparr>"
    using 5(2) by (rule exec_quiet_txn)
  ultimately have "with_tx (\<lambda>tx. case write_cutover g agg ?p (s_meta s, tx) of Inl e \<Rightarrow> Inl e
      | Inr s' \<Rightarrow> Inr s') [] (s_db s) = Inr (m5, tx_db t5)"
    by (simp add: with_tx_def tx0_def)
  then show ?thesis using assms(1) p(1) by (auto simp: ensure_cutover_def fresh_marks_def)
qed

text \<open>2024-02-05 on an empty database: the month of February 3 and the year 2024 stay open.\<close>

definition empty_store :: store where
  "empty_store = \<lparr>s_db = \<lparr>d_daily = [], d_monthly = [], d_yearly = [], d_total = [], d_error = [],
     d_meta = []\<rparr>, s_meta = new_meta, s_vacuumed = None\<rparr>"

lemma empty_store_ok: "store_ok empty_store"
  by (simp add: store_ok_def empty_store_def coherent_def meta_view_def new_meta_def mtxt_def fun_eq_iff
      split: level.split)

lemma february_index: "month_index_of 738918 = 24289" "year_of 738918 = 2024" "year_of 738920 = 2024"
proof -
  have d: "date_of 738918 = Date 2024 2 3" by code_simp
  show "month_index_of 738918 = 24289" "year_of 738918 = 2024" "year_of 738920 = 2024"
    by (simp_all add: month_index_of_def year_of_def d february_2024_date)
qed

lemma pv_daily_key: "pv_key \<in> set (daily_keys solis_registry)"
proof -
  have "pv_reg \<in> set (g_regs solis_registry)" "reg_key pv_reg = pv_key"
    using solis_table.lookup by_key_pv by blast+
  moreover have "reg_store pv_reg = StoreDaily \<and> \<not> reg_net pv_reg"
    using pv_owned by (simp add: poller_owned_def)
  ultimately show ?thesis by (force simp: daily_keys_def)
qed

theorem cutover_marks_witness:
  "\<exists>s'. ensure_cutover solis_registry (\<lambda>vs. Fin 0) (period_of utc (19758 * ns_day)) [] empty_store
      = (Inr (day_key 738920, True), s') \<and>
    m_frozen (s_meta s') Monthly = month_key 24288 \<and> m_frozen (s_meta s') Yearly = fmt_year 2023 \<and>
    m_closed (s_meta s') pv_key = day_key 738918"
proof -
  have fr: "fresh_marks (s_meta empty_store)" by (simp add: fresh_marks_def empty_store_def new_meta_def)
  have "year_of 738920 < 9999" by (simp add: february_index)
  from cutover_commits [OF fr february_2024 _ _ this, of solis_registry "\<lambda>vs. Fin 0"] obtain s' where
    e: "ensure_cutover solis_registry (\<lambda>vs. Fin 0) (period_of utc (19758 * ns_day)) [] empty_store
      = (Inr (day_key 738920, True), s')" by auto
  have "m_frozen (s_meta s') Monthly = month_key 24288 \<and> m_frozen (s_meta s') Yearly = fmt_year 2023 \<and>
      m_closed (s_meta s') pv_key = day_key 738918"
    using cutover_marks [OF e fr february_2024 _ _ empty_store_ok] pv_daily_key by (simp add: february_index)
  with e show ?thesis by blast
qed

end
