(* ===== verification/Cleanup.thy ===== *)
theory Cleanup
  imports Cutover
begin

text \<open>
  internal/storage/cleanup.go: retention. Only rows before the first open day are deleted, and
  the earliest kept day is recorded once a daily row is gone. Durations and instants are
  nanoseconds; the zone \<open>z\<close> is the location of the clock.
\<close>

record settings =
  set_daily_retention :: int
  set_error_retention :: int

definition vacuum_interval :: int where "vacuum_interval = 72 * ns_hour"

definition next_year_start :: "string \<Rightarrow> key_error + string" where
  "next_year_start y = (case add_years y 1 of Inl e \<Rightarrow> Inl e | Inr nxt \<Rightarrow> Inr (nxt @ ''-01-01''))"

definition next_month_start :: "string \<Rightarrow> key_error + string" where
  "next_month_start m = (case add_months m 1 of Inl e \<Rightarrow> Inl e | Inr nxt \<Rightarrow> Inr (nxt @ ''-01''))"

text \<open>The loop over the marks; \<open>None\<close> is the first iteration.\<close>

fun min_mark :: "(string \<times> (string \<Rightarrow> key_error + string)) list \<Rightarrow> string option
    \<Rightarrow> key_error + string" where
  "min_mark [] best = Inr (case best of None \<Rightarrow> [] | Some b \<Rightarrow> b)"
| "min_mark ((v, nxt) # ms) best =
     (if v = [] then Inr []
      else (case nxt v of Inl e \<Rightarrow> Inl e
        | Inr day \<Rightarrow> min_mark ms (case best of None \<Rightarrow> Some day
            | Some b \<Rightarrow> Some (if day < b then day else b))))"

definition first_open_day :: "meta \<Rightarrow> key_error + string" where
  "first_open_day m = min_mark
     [(m_frozen m Daily, \<lambda>d. add_days d 1), (m_frozen m Monthly, next_month_start),
      (m_frozen m Yearly, next_year_start), (m_base_year m, next_year_start)] None"

text \<open>A DELETE with its number of affected rows.\<close>

definition delete_rows :: "(db \<Rightarrow> rows) \<Rightarrow> (rows \<Rightarrow> db \<Rightarrow> db) \<Rightarrow> string \<Rightarrow> txn
    \<Rightarrow> storage_error + nat \<times> txn" where
  "delete_rows get put before tx =
     (let n = length (filter (\<lambda>((k, p), v). p < before) (get (tx_db tx))) in
      case exec True (\<lambda>d. put (filter (\<lambda>((k, p), v). \<not> p < before) (get d)) d) tx of
        Inl e \<Rightarrow> Inl e | Inr tx' \<Rightarrow> Inr (n, tx'))"

definition put_daily :: "rows \<Rightarrow> db \<Rightarrow> db" where "put_daily r d = d\<lparr>d_daily := r\<rparr>"
definition put_monthly :: "rows \<Rightarrow> db \<Rightarrow> db" where "put_monthly r d = d\<lparr>d_monthly := r\<rparr>"
definition put_yearly :: "rows \<Rightarrow> db \<Rightarrow> db" where "put_yearly r d = d\<lparr>d_yearly := r\<rparr>"

text \<open>The total of deleted rows, and those of daily_values.\<close>

definition purge_periods :: "string \<Rightarrow> txn \<Rightarrow> storage_error + (nat \<times> nat) \<times> txn" where
  "purge_periods cutoff tx =
     (case delete_rows d_daily put_daily cutoff tx of Inl e \<Rightarrow> Inl e | Inr (nd, tx) \<Rightarrow>
      case delete_rows d_monthly put_monthly (take 7 cutoff) tx of Inl e \<Rightarrow> Inl e | Inr (nm, tx) \<Rightarrow>
      case delete_rows d_yearly put_yearly (take 4 cutoff) tx of Inl e \<Rightarrow> Inl e | Inr (ny, tx) \<Rightarrow>
      if nd = 0 then Inr ((nd + nm + ny, 0), tx)
      else (case put_meta meta_purged (MText cutoff) tx of Inl e \<Rightarrow> Inl e
        | Inr tx \<Rightarrow> Inr ((nd + nm + ny, nd), tx)))"

definition cleanup_periods :: "string \<Rightarrow> bool list \<Rightarrow> store \<Rightarrow> (storage_error + nat) \<times> store" where
  "cleanup_periods wanted faults s =
     (case first_open_day (s_meta s) of Inl e \<Rightarrow> (Inl (BadKey e), s)
      | Inr limit \<Rightarrow> if limit = [] then (Inr 0, s)
        else let cutoff = min wanted limit in
        if cutoff \<le> m_purged (s_meta s) then (Inr 0, s)
        else (case with_tx (purge_periods cutoff) faults (s_db s) of Inl e \<Rightarrow> (Inl e, s)
          | Inr ((deleted, daily), d) \<Rightarrow> (Inr deleted, s\<lparr>s_db := d,
              s_meta := (if daily > 0 then (s_meta s)\<lparr>m_purged := cutoff\<rparr> else s_meta s)\<rparr>)))"

definition cleanup_status :: "int \<Rightarrow> bool list \<Rightarrow> store \<Rightarrow> (storage_error + nat) \<times> store" where
  "cleanup_status cutoff faults s =
     (let old = (\<lambda>r. snd (fst r) < status_ms cutoff); d = s_db s in
      case exec True (\<lambda>d. d\<lparr>d_error := filter (\<lambda>r. \<not> old r) (d_error d)\<rparr>)
          \<lparr>tx_db = d, tx_faults = faults\<rparr> of
        Inl e \<Rightarrow> (Inl e, s)
      | Inr tx \<Rightarrow> (Inr (length (filter old (d_error d))), s\<lparr>s_db := tx_db tx\<rparr>))"

definition vacuum_if_needed :: "nat \<Rightarrow> int \<Rightarrow> bool \<Rightarrow> store \<Rightarrow> store" where
  "vacuum_if_needed deleted now fails s =
     (if deleted = 0 \<or> (case s_vacuumed s of None \<Rightarrow> False | Some t \<Rightarrow> now - t \<le> vacuum_interval)
      then s else if fails then s else s\<lparr>s_vacuumed := Some now\<rparr>)"

text \<open>The errors of the two deletions; the faults of the periods, the status rows and VACUUM.\<close>

definition cleanup_all :: "settings \<Rightarrow> zone \<Rightarrow> int \<Rightarrow> bool list \<Rightarrow> bool list \<Rightarrow> bool \<Rightarrow> store
    \<Rightarrow> storage_error list \<times> store" where
  "cleanup_all cfg z now f1 f2 f3 s =
     (let wanted = p_day (period_of z (now - set_daily_retention cfg));
          (r1, s1) = cleanup_periods wanted f1 s;
          (r2, s2) = cleanup_status (now - set_error_retention cfg) f2 s1;
          n = (case r1 of Inl e \<Rightarrow> 0 | Inr k \<Rightarrow> k) + (case r2 of Inl e \<Rightarrow> 0 | Inr k \<Rightarrow> k);
          errs = (case r1 of Inl e \<Rightarrow> [e] | Inr k \<Rightarrow> []) @ (case r2 of Inl e \<Rightarrow> [e] | Inr k \<Rightarrow> []) in
      (errs, vacuum_if_needed n now f3 s2))"

section \<open>What a cleanup deletes\<close>

lemma delete_rows_Inr:
  assumes "delete_rows get put before tx = Inr (n, tx')"
  shows "n = length (filter (\<lambda>((k, p), v). p < before) (get (tx_db tx))) \<and>
    tx_db tx' = put (filter (\<lambda>((k, p), v). \<not> p < before) (get (tx_db tx))) (tx_db tx)"
  using assms by (auto simp: delete_rows_def Let_def dest: exec_Inr split: sum.splits)

lemma purge_periods_Inr:
  assumes "purge_periods cutoff tx = Inr ((n, nd), tx')"
  shows "d_daily (tx_db tx') = filter (\<lambda>((k, p), v). \<not> p < cutoff) (d_daily (tx_db tx)) \<and>
    d_monthly (tx_db tx') = filter (\<lambda>((k, p), v). \<not> p < take 7 cutoff) (d_monthly (tx_db tx)) \<and>
    d_yearly (tx_db tx') = filter (\<lambda>((k, p), v). \<not> p < take 4 cutoff) (d_yearly (tx_db tx)) \<and>
    d_total (tx_db tx') = d_total (tx_db tx) \<and> d_error (tx_db tx') = d_error (tx_db tx) \<and>
    nd = length (filter (\<lambda>((k, p), v). p < cutoff) (d_daily (tx_db tx))) \<and>
    d_meta (tx_db tx') = (if nd > 0 then AList.update meta_purged (MText cutoff) (d_meta (tx_db tx))
      else d_meta (tx_db tx))"
proof -
  obtain n1 t1 where 1: "delete_rows d_daily put_daily cutoff tx = Inr (n1, t1)"
    using assms by (cases "delete_rows d_daily put_daily cutoff tx") (auto simp: purge_periods_def)
  obtain n2 t2 where 2: "delete_rows d_monthly put_monthly (take 7 cutoff) t1 = Inr (n2, t2)"
    using assms 1 by (cases "delete_rows d_monthly put_monthly (take 7 cutoff) t1")
      (auto simp: purge_periods_def)
  obtain n3 t3 where 3: "delete_rows d_yearly put_yearly (take 4 cutoff) t2 = Inr (n3, t3)"
    using assms 1 2 by (cases "delete_rows d_yearly put_yearly (take 4 cutoff) t2")
      (auto simp: purge_periods_def)
  have "(n1 = 0 \<and> nd = 0 \<and> tx' = t3) \<or> (0 < n1 \<and> nd = n1 \<and> put_meta meta_purged (MText cutoff) t3 = Inr tx')"
    using assms 1 2 3 by (auto simp: purge_periods_def split: sum.splits if_splits)
  moreover note delete_rows_Inr [OF 1] delete_rows_Inr [OF 2] delete_rows_Inr [OF 3]
  moreover have "put_meta meta_purged (MText cutoff) t3 = Inr tx' \<Longrightarrow>
      tx_db tx' = (tx_db t3)\<lparr>d_meta := AList.update meta_purged (MText cutoff) (d_meta (tx_db t3))\<rparr>"
    by (rule put_meta_Inr)
  ultimately show ?thesis
    by (elim disjE) (simp_all add: put_daily_def put_monthly_def put_yearly_def)
qed

lemma cleanup_periods_cases:
  assumes "cleanup_periods wanted faults s = (res, s')"
  shows "s' = s \<or> (\<exists>limit cutoff n nd tx tx'. first_open_day (s_meta s) = Inr limit \<and> limit \<noteq> [] \<and>
    cutoff = min wanted limit \<and> m_purged (s_meta s) < cutoff \<and> tx_db tx = s_db s \<and> tx_db tx' = s_db s' \<and>
    purge_periods cutoff tx = Inr ((n, nd), tx') \<and> res = Inr n \<and>
    s_meta s' = (if nd > 0 then (s_meta s)\<lparr>m_purged := cutoff\<rparr> else s_meta s))"
proof (cases "first_open_day (s_meta s)")
  case (Inr limit)
  define cutoff where "cutoff = min wanted limit"
  show ?thesis
  proof (cases "limit = [] \<or> cutoff \<le> m_purged (s_meta s)")
    case True
    with assms Inr show ?thesis by (auto simp: cleanup_periods_def cutoff_def Let_def split: if_splits)
  next
    case False
    show ?thesis
    proof (cases "with_tx (purge_periods cutoff) faults (s_db s)")
      case (Inl e)
      with assms Inr False show ?thesis by (simp add: cleanup_periods_def cutoff_def [symmetric] Let_def)
    next
      case w: (Inr r)
      obtain n nd d where r: "r = ((n, nd), d)" by (metis surj_pair)
      with w have "with_tx (purge_periods cutoff) faults (s_db s) = Inr ((n, nd), d)" by simp
      from with_tx_Inr [OF this] obtain tx tx' where
        "tx_db tx = s_db s" "purge_periods cutoff tx = Inr ((n, nd), tx')" "tx_db tx' = d" by blast
      moreover have "s' = s\<lparr>s_db := d,
          s_meta := (if nd > 0 then (s_meta s)\<lparr>m_purged := cutoff\<rparr> else s_meta s)\<rparr>" "res = Inr n"
        using assms Inr False w r by (auto simp: cleanup_periods_def cutoff_def [symmetric] Let_def)
      ultimately show ?thesis using Inr False cutoff_def
        by (intro disjI2 exI [of _ limit] exI [of _ cutoff] exI [of _ n] exI [of _ nd]
            exI [of _ tx] exI [of _ tx']) (simp add: not_le)
    qed
  qed
qed (use assms in \<open>simp add: cleanup_periods_def\<close>)

lemma cleanup_status_frame:
  assumes "cleanup_status c faults s = (res, s')"
  shows "s_meta s' = s_meta s \<and> (\<exists>es. s_db s' = (s_db s)\<lparr>d_error := es\<rparr> \<and> set es \<subseteq> set (d_error (s_db s)))"
proof (cases "exec True (\<lambda>d. d\<lparr>d_error := filter (\<lambda>r. \<not> snd (fst r) < status_ms c) (d_error d)\<rparr>)
    \<lparr>tx_db = s_db s, tx_faults = faults\<rparr>")
  case (Inl e)
  with assms have "s' = s" by (simp add: cleanup_status_def Let_def)
  then show ?thesis by (intro conjI exI [of _ "d_error (s_db s)"]) simp_all
next
  case (Inr tx)
  with assms have "s' = s\<lparr>s_db := tx_db tx\<rparr>" by (simp add: cleanup_status_def Let_def)
  with exec_Inr [OF Inr] show ?thesis by auto
qed

lemma vacuum_frame [simp]:
  "s_db (vacuum_if_needed n now f s) = s_db s" "s_meta (vacuum_if_needed n now f s) = s_meta s"
  by (simp_all add: vacuum_if_needed_def)

lemma cleanup_all_split:
  assumes "cleanup_all cfg z now f1 f2 f3 s = (errs, s')"
  obtains r1 s1 r2 s2 where
    "cleanup_periods (p_day (period_of z (now - set_daily_retention cfg))) f1 s = (r1, s1)"
    "cleanup_status (now - set_error_retention cfg) f2 s1 = (r2, s2)"
    "s_db s' = s_db s2" "s_meta s' = s_meta s2"
  using assms by (auto simp: cleanup_all_def Let_def split: prod.splits)

lemma cleanup_coherent [inv_intros]:
  assumes "store_ok s" "cleanup_all cfg z now f1 f2 f3 s = (errs, s')" shows "store_ok s'"
proof -
  from assms(2) obtain r1 s1 r2 s2 where
    1: "cleanup_periods (p_day (period_of z (now - set_daily_retention cfg))) f1 s = (r1, s1)" and
    2: "cleanup_status (now - set_error_retention cfg) f2 s1 = (r2, s2)" and
    3: "s_db s' = s_db s2" "s_meta s' = s_meta s2" by (rule cleanup_all_split)
  have "store_ok s1"
  proof -
    have c: "coherent (s_db s) (s_meta s)" using assms(1) by (simp add: store_ok_def)
    from cleanup_periods_cases [OF 1] show ?thesis
    proof
      assume "\<exists>limit cutoff n nd tx tx'. first_open_day (s_meta s) = Inr limit \<and> limit \<noteq> [] \<and>
        cutoff = min (p_day (period_of z (now - set_daily_retention cfg))) limit \<and>
        m_purged (s_meta s) < cutoff \<and> tx_db tx = s_db s \<and> tx_db tx' = s_db s1 \<and>
        purge_periods cutoff tx = Inr ((n, nd), tx') \<and> r1 = Inr n \<and>
        s_meta s1 = (if nd > 0 then (s_meta s)\<lparr>m_purged := cutoff\<rparr> else s_meta s)"
      then obtain cutoff n nd tx tx' where t: "tx_db tx = s_db s" "tx_db tx' = s_db s1"
        "purge_periods cutoff tx = Inr ((n, nd), tx')"
        "s_meta s1 = (if nd > 0 then (s_meta s)\<lparr>m_purged := cutoff\<rparr> else s_meta s)" by blast
      have m: "d_meta (s_db s1) = (if nd > 0 then AList.update meta_purged (MText cutoff) (d_meta (s_db s))
          else d_meta (s_db s))" using purge_periods_Inr [OF t(3)] t(1,2) by simp
      have "coherent ((s_db s)\<lparr>d_meta := AList.update meta_purged (MText cutoff) (d_meta (s_db s))\<rparr>)
          ((s_meta s)\<lparr>m_purged := cutoff\<rparr>)"
        using coherent_puts(3) [OF c, of cutoff] coherent_view [OF c] by simp
      with c m t(4) show ?thesis by (auto simp: store_ok_def intro: coherent_frame)
    qed (use assms(1) in simp)
  qed
  with cleanup_status_frame [OF 2] 3 show ?thesis
    by (auto simp: store_ok_def intro: coherent_frame)
qed

section \<open>Nothing open is deleted\<close>

lemma min_mark_le:
  "min_mark ms best = Inr r \<Longrightarrow> r \<noteq> [] \<Longrightarrow>
    (\<forall>(v, nxt) \<in> set ms. \<exists>day. nxt v = Inr day \<and> r \<le> day) \<and> (\<forall>b. best = Some b \<longrightarrow> r \<le> b)"
proof (induction ms best rule: min_mark.induct)
  case (2 v nxt ms best)
  from "2.prems" have v: "v \<noteq> []" by auto
  from "2.prems" v obtain day where d: "nxt v = Inr day" by (cases "nxt v") auto
  define best' where "best' = (case best of None \<Rightarrow> Some day | Some b \<Rightarrow> Some (if day < b then day else b))"
  have "min_mark ms best' = Inr r" using "2.prems"(1) v d by (simp add: best'_def)
  with "2.IH" [OF v d] "2.prems"(2)
  have ih: "\<forall>(v, nxt) \<in> set ms. \<exists>day. nxt v = Inr day \<and> r \<le> day" "\<forall>b. best' = Some b \<longrightarrow> r \<le> b"
    by (auto simp: best'_def)
  have "r \<le> day \<and> (\<forall>b. best = Some b \<longrightarrow> r \<le> b)"
    using ih(2) by (cases best) (auto simp: best'_def split: if_splits)
  with ih(1) d show ?case by auto
qed auto

lemma first_open_day_le:
  assumes "first_open_day m = Inr limit" "limit \<noteq> []"
  shows "\<exists>dm dy. next_month_start (m_frozen m Monthly) = Inr dm \<and> limit \<le> dm \<and>
    next_year_start (m_frozen m Yearly) = Inr dy \<and> limit \<le> dy"
  using min_mark_le [OF assms [unfolded first_open_day_def]] by auto

lemma take_mono:
  fixes xs ys :: "'a::linorder list"
  shows "xs \<le> ys \<Longrightarrow> take n xs \<le> take n ys"
proof (induction n arbitrary: xs ys)
  case (Suc n)
  then show ?case by (cases xs; cases ys) auto
qed simp

lemma length_month_key: "0 \<le> i \<Longrightarrow> i < 120000 \<Longrightarrow> length (month_key i) = 7"
proof -
  assume i: "0 \<le> i" "i < 120000"
  have "year_ok (i div 12)" "1 \<le> i mod 12 + 1" "i mod 12 + 1 \<le> 12"
    using i pos_mod_bound [of 12 i] by (auto simp: year_ok_def)
  then show ?thesis by (simp add: month_key_def fmt_month_padded)
qed

lemma deleted_month_frozen:
  assumes "first_open_day m = Inr limit" "limit \<noteq> []" "cutoff \<le> limit"
    "0 \<le> j" "j < 120000" "month_key j < take 7 cutoff"
  shows "month_key j \<le> m_frozen m Monthly"
proof -
  obtain dm where dm: "next_month_start (m_frozen m Monthly) = Inr dm" "limit \<le> dm"
    using first_open_day_le [OF assms(1,2)] by blast
  then obtain k where k: "add_months (m_frozen m Monthly) 1 = Inr k" "dm = k @ ''-01''"
    by (auto simp: next_month_start_def split: sum.splits)
  obtain i where i: "0 \<le> i" "i < 120000" "m_frozen m Monthly = month_key i"
    using add_months_dom [OF k(1)] by blast
  show ?thesis
  proof (cases "i + 1 < 120000")
    case True
    have km: "k = month_key (i + 1)" using k(1) i add_months_key [of i 1] by simp
    have "take 7 cutoff \<le> take 7 dm" using assms(3) dm(2) by (intro take_mono) simp
    also have "take 7 dm = month_key (i + 1)"
      using k(2) km length_month_key [of "i + 1"] i(1) True by simp
    finally have "month_key j < month_key (i + 1)" using assms(6) by simp
    then have "j < i + 1" using month_key_less_iff [of j "i + 1"] assms(4,5) i True by simp
    then show ?thesis using month_key_less_iff [of i j] assms(4,5) i by (simp flip: not_less)
  next
    case False
    then show ?thesis using month_key_less_iff [of i j] assms(4,5) i by (simp flip: not_less)
  qed
qed

lemma deleted_year_frozen:
  assumes "first_open_day m = Inr limit" "limit \<noteq> []" "cutoff \<le> limit"
    "year_ok j" "fmt_year j < take 4 cutoff"
  shows "fmt_year j \<le> m_frozen m Yearly"
proof -
  obtain dy where dy: "next_year_start (m_frozen m Yearly) = Inr dy" "limit \<le> dy"
    using first_open_day_le [OF assms(1,2)] by blast
  then obtain k where k: "add_years (m_frozen m Yearly) 1 = Inr k" "dy = k @ ''-01-01''"
    by (auto simp: next_year_start_def split: sum.splits)
  obtain i where i: "year_ok i" "m_frozen m Yearly = fmt_year i"
    using add_years_dom [OF k(1)] by blast
  show ?thesis
  proof (cases "i = 9999")
    case False
    then have i1: "year_ok (i + 1)" using i by (auto simp: year_ok_def)
    have km: "k = fmt_year (i + 1)" using k(1) i add_years_key [of i 1] by simp
    have "take 4 cutoff \<le> take 4 dy" using assms(3) dy(2) by (intro take_mono) simp
    also have "take 4 dy = fmt_year (i + 1)"
      using k(2) km length_padded_year [OF i1] by simp
    finally have "fmt_year j < fmt_year (i + 1)" using assms(5) by simp
    then have "j < i + 1" using fmt_year_less_iff [OF assms(4) i1] by simp
    then show ?thesis using fmt_year_less_iff [OF i(1) assms(4)] i by (simp flip: not_less)
  next
    case True
    then show ?thesis using fmt_year_less_iff [OF i(1) assms(4)] i assms(4)
      by (simp add: year_ok_def flip: not_less)
  qed
qed

text \<open>C7: Retention never takes anything open: after any cleanup, failing or not, every daily sum that
  starts at the first open day or later is what it was, a month or year row that is gone was
  frozen, totals and all close marks are unchanged, and a daily row that is gone lies before
  the recorded purge watermark.\<close>

theorem cleanup_keeps_open:
  assumes "cleanup_all cfg z now f1 f2 f3 s = (errs, s')"
  shows "((\<forall>limit. first_open_day (s_meta s) = Inr limit \<and> limit \<noteq> [] \<longrightarrow> limit \<le> lo) \<longrightarrow>
      sum_rows agg (s_db s') k lo hi = sum_rows agg (s_db s) k lo hi) \<and>
    (0 \<le> j \<and> j < 120000 \<and> ((k, month_key j), v) \<in> set (d_monthly (s_db s)) - set (d_monthly (s_db s')) \<longrightarrow>
      month_key j \<le> m_frozen (s_meta s) Monthly) \<and>
    (year_ok y \<and> ((k, fmt_year y), v) \<in> set (d_yearly (s_db s)) - set (d_yearly (s_db s')) \<longrightarrow>
      fmt_year y \<le> m_frozen (s_meta s) Yearly) \<and>
    d_total (s_db s') = d_total (s_db s) \<and> m_frozen (s_meta s') = m_frozen (s_meta s) \<and>
    m_closed (s_meta s') = m_closed (s_meta s) \<and> m_base (s_meta s') = m_base (s_meta s) \<and>
    (((k, day), v) \<in> set (d_daily (s_db s)) - set (d_daily (s_db s')) \<longrightarrow> day < m_purged (s_meta s')) \<and>
    m_purged (s_meta s) \<le> m_purged (s_meta s')"
proof -
  from assms obtain r1 s1 r2 s2 where
    1: "cleanup_periods (p_day (period_of z (now - set_daily_retention cfg))) f1 s = (r1, s1)" and
    2: "cleanup_status (now - set_error_retention cfg) f2 s1 = (r2, s2)" and
    3: "s_db s' = s_db s2" "s_meta s' = s_meta s2" by (rule cleanup_all_split)
  obtain es where s': "s_meta s' = s_meta s1" "s_db s' = (s_db s1)\<lparr>d_error := es\<rparr>"
    using cleanup_status_frame [OF 2] 3 by auto
  show ?thesis
  proof (cases "s1 = s")
    case True
    with s' show ?thesis by (simp add: sum_rows_def)
  next
    case False
    with cleanup_periods_cases [OF 1] obtain limit cutoff n nd tx tx' where
      l: "first_open_day (s_meta s) = Inr limit" "limit \<noteq> []" and
      c: "cutoff = min (p_day (period_of z (now - set_daily_retention cfg))) limit"
        "m_purged (s_meta s) < cutoff" and
      t: "tx_db tx = s_db s" "tx_db tx' = s_db s1" "purge_periods cutoff tx = Inr ((n, nd), tx')" and
      m: "s_meta s1 = (if nd > 0 then (s_meta s)\<lparr>m_purged := cutoff\<rparr> else s_meta s)"
      by blast
    note p = purge_periods_Inr [OF t(3), unfolded t(1,2)]
    have cl: "cutoff \<le> limit" using c(1) by simp
    have sums: "sum_rows agg (s_db s1) k lo hi = sum_rows agg (s_db s) k lo hi" if "limit \<le> lo"
    proof -
      have ge: "\<not> day < cutoff" if "lo \<le> day" for day using cl \<open>limit \<le> lo\<close> that by simp
      have "filter (\<lambda>((k', day), v). k' = k \<and> lo \<le> day \<and> day \<le> hi) (d_daily (s_db s1))
          = filter (\<lambda>((k', day), v). k' = k \<and> lo \<le> day \<and> day \<le> hi) (d_daily (s_db s))"
        using p ge by (auto simp: filter_filter intro!: filter_cong)
      then show ?thesis by (simp add: sum_rows_def)
    qed
    have months: "month_key j \<le> m_frozen (s_meta s) Monthly"
      if "0 \<le> j" "j < 120000" "((k, month_key j), v) \<in> set (d_monthly (s_db s)) - set (d_monthly (s_db s1))"
      using deleted_month_frozen [OF l cl that(1,2)] that(3) p by auto
    have years: "fmt_year y \<le> m_frozen (s_meta s) Yearly"
      if "year_ok y" "((k, fmt_year y), v) \<in> set (d_yearly (s_db s)) - set (d_yearly (s_db s1))"
      using deleted_year_frozen [OF l cl that(1)] that(2) p by auto
    have days: "day < m_purged (s_meta s1)"
      if "((k, day), v) \<in> set (d_daily (s_db s)) - set (d_daily (s_db s1))"
    proof -
      have d: "((k, day), v) \<in> set (filter (\<lambda>((k, p), v). p < cutoff) (d_daily (s_db s)))" "day < cutoff"
        using that p by auto
      then have "0 < length (filter (\<lambda>((k, p), v). p < cutoff) (d_daily (s_db s)))"
        by (intro length_pos_if_in_set)
      then have "nd > 0" using p by simp
      with m d(2) show ?thesis by simp
    qed
    have total: "d_total (s_db s1) = d_total (s_db s)" using p by simp
    have db: "d_daily (s_db s') = d_daily (s_db s1)" "d_monthly (s_db s') = d_monthly (s_db s1)"
      "d_yearly (s_db s') = d_yearly (s_db s1)" "d_total (s_db s') = d_total (s_db s1)"
      "sum_rows agg (s_db s') = sum_rows agg (s_db s1)"
      using s'(2) by (simp_all add: sum_rows_def fun_eq_iff)
    have meta: "m_frozen (s_meta s1) = m_frozen (s_meta s)" "m_closed (s_meta s1) = m_closed (s_meta s)"
      "m_base (s_meta s1) = m_base (s_meta s)" "m_purged (s_meta s) \<le> m_purged (s_meta s1)"
      using m c(2) by auto
    have A: "(\<forall>limit. first_open_day (s_meta s) = Inr limit \<and> limit \<noteq> [] \<longrightarrow> limit \<le> lo) \<longrightarrow>
        sum_rows agg (s_db s') k lo hi = sum_rows agg (s_db s) k lo hi"
      using sums l by (simp add: db(5))
    have B: "0 \<le> j \<and> j < 120000 \<and>
        ((k, month_key j), v) \<in> set (d_monthly (s_db s)) - set (d_monthly (s_db s')) \<longrightarrow>
        month_key j \<le> m_frozen (s_meta s) Monthly"
      using months unfolding db(2) by blast
    have C: "year_ok y \<and> ((k, fmt_year y), v) \<in> set (d_yearly (s_db s)) - set (d_yearly (s_db s')) \<longrightarrow>
        fmt_year y \<le> m_frozen (s_meta s) Yearly"
      using years unfolding db(3) by blast
    have D: "((k, day), v) \<in> set (d_daily (s_db s)) - set (d_daily (s_db s')) \<longrightarrow>
        day < m_purged (s_meta s')"
      using days unfolding db(1) s'(1) by blast
    show ?thesis
      using A B C D total meta by (intro conjI) (simp_all only: db(4) s'(1))
  qed
qed

definition demo_kept :: store where
  "demo_kept = \<lparr>s_db = \<lparr>d_daily = [((pv_key, ''2023-12-31''), Fin 7, Fin 70), ((pv_key, ''2024-01-01''), Fin 9, Fin 90)],
       d_monthly = [], d_yearly = [], d_total = [], d_error = [], d_meta = []\<rparr>,
     s_meta = new_meta\<lparr>m_frozen := (\<lambda>l. case l of Daily \<Rightarrow> ''2024-01-31'' | Monthly \<Rightarrow> ''2024-01''
       | Yearly \<Rightarrow> ''2023'' | Total \<Rightarrow> []), m_base_year := ''2023''\<rparr>,
     s_vacuumed = None\<rparr>"

lemma demo_kept_day: "add_days ''2024-01-31'' 1 = Inr ''2024-02-01''" by code_simp
lemma demo_kept_month: "next_month_start ''2024-01'' = Inr ''2024-02-01''" by code_simp
lemma demo_kept_year: "next_year_start ''2023'' = Inr ''2024-01-01''" by code_simp
lemma demo_kept_less: "(''2024-01-01'' :: string) < ''2024-02-01''" by code_simp

lemmas demo_kept_keys = demo_kept_day demo_kept_month demo_kept_year demo_kept_less

lemma demo_kept_open: "first_open_day (s_meta demo_kept) = Inr ''2024-01-01''"
  by (simp add: first_open_day_def demo_kept_def demo_kept_keys del: Cons_less_Cons)

theorem cleanup_keeps_open_witness:
  "sum_rows (\<lambda>vs. fold fadd vs (Fin 0)) (s_db (snd (cleanup_all
       \<lparr>set_daily_retention = 30 * ns_day, set_error_retention = ns_day\<rparr> utc (19788 * ns_day) [] [] False demo_kept)))
       pv_key ''2024-01-01'' ''2024-12-31''
     = sum_rows (\<lambda>vs. fold fadd vs (Fin 0)) (s_db demo_kept) pv_key ''2024-01-01'' ''2024-12-31''"
  by (rule cleanup_keeps_open [OF surjective_pairing, THEN conjunct1, rule_format])
    (simp add: demo_kept_open)

end
