(* ===== verification/PollerRun.thy ===== *)
theory PollerRun
  imports Poller Cleanup
begin

text \<open>
  Runs of the poller against the storage. In a location without transitions and with a clock
  that never runs back, the attributor stays ahead of the watermarks: over any sequence of
  poll cycles, restarts, aggregator writes and cleanups, whatever fails, the storage never
  rejects a row of the poller. The theory also gives the behaviour of single cycles.
\<close>

section \<open>Polls without rejections\<close>

definition owned :: "registry \<Rightarrow> string \<Rightarrow> bool" where
  "owned g k \<longleftrightarrow> (\<exists>reg. by_key g k = Some reg \<and> poller_owned reg)"

lemma collect_loop_none:
  assumes "collect_loop f rs s rej = Inr (rej', s')" "I s"
    "\<And>r s s'. r \<in> set rs \<Longrightarrow> I s \<Longrightarrow> f r s = Inr s' \<Longrightarrow> I s'"
    "\<And>r s e. r \<in> set rs \<Longrightarrow> I s \<Longrightarrow> f r s = Inl e \<Longrightarrow> \<not> is_rejection e"
  shows "rej' = rej \<and> I s'"
  using assms
proof (induction rs arbitrary: s)
  case (Cons r rs)
  obtain s1 where "f r s = Inr s1" "collect_loop f rs s1 rej = Inr (rej', s')"
    using Cons.prems(1) Cons.prems(4) [of r s] Cons.prems(2) by (auto split: sum.splits if_splits)
  then show ?case
    using Cons.IH [of s1] Cons.prems(3) [of r s s1] Cons.prems by (metis list.set_intros)
qed simp

lemma write_poll_no_rejection:
  assumes "write_poll g w faults s = (Inr rej, s')"
    "\<forall>r \<in> set (pw_daily w). row_accepted g (s_meta s) r"
    "\<forall>r \<in> set (pw_status w). store_of g (sr_key r) = StoreStatus"
    "\<forall>c \<in> set (pw_close w). owned g (dc_key c)"
  shows "rej = []"
proof -
  obtain tx tx' where ap: "apply_poll g w (s_meta s, tx) = Inr (rej, s_meta s', tx')"
    using write_poll_Inr [OF assms(1)] by blast
  obtain r1 m1 t1 r2 m2 t2 where
    1: "collect_loop (write_daily g) (pw_daily w) (s_meta s, tx) [] = Inr (r1, m1, t1)" and
    2: "collect_loop (write_status g) (pw_status w) (m1, t1) r1 = Inr (r2, m2, t2)" and
    3: "collect_loop (close_day g) (pw_close w) (m2, t2) r2 = Inr (rej, s_meta s', tx')"
    using ap by (auto simp: apply_poll_def split: sum.splits prod.splits)
  have "r1 = []"
  proof (rule collect_loop_none [OF 1, where I = "\<lambda>(m, t). m = s_meta s", THEN conjunct1])
    show "\<not> is_rejection e" if "r \<in> set (pw_daily w)" "case x of (m, t) \<Rightarrow> m = s_meta s"
      "write_daily g r x = Inl e" for r x e
      using that assms(2) by (cases x) (auto simp: write_daily_accepts dest: exec_not_rejection split: sum.splits)
  qed (auto dest: write_daily_Inr)
  moreover have "r2 = r1"
  proof (rule collect_loop_none [OF 2, where I = "\<lambda>_. True", THEN conjunct1])
    show "\<not> is_rejection e" if "r \<in> set (pw_status w)" "write_status g r x = Inl e" for r x e
    proof -
      obtain reg where "by_key g (sr_key r) = Some reg" "reg_store reg = StoreStatus"
        using assms(3) [THEN bspec, OF \<open>r \<in> set (pw_status w)\<close>]
        by (auto simp: store_of_def split: option.splits)
      with that(2) show ?thesis
        by (cases x) (auto simp: write_status_def lookup_reg_def dest: exec_not_rejection split: sum.splits)
    qed
  qed simp_all
  moreover have "rej = r2"
  proof (rule collect_loop_none [OF 3, where I = "\<lambda>_. True", THEN conjunct1])
    show "\<not> is_rejection e" if "r \<in> set (pw_close w)" "close_day g r x = Inl e" for r x e
      using that assms(4)
      by (cases x) (auto simp: owned_def close_day_def lookup_reg_def advance_def put_meta_def
          dest: exec_not_rejection split: sum.splits if_splits)
  qed simp_all
  ultimately show ?thesis by simp
qed

lemma write_poll_closed:
  assumes "write_poll g w faults s = (res, s')"
  shows "m_closed (s_meta s') k = m_closed (s_meta s) k \<or>
    (\<exists>c \<in> set (pw_close w). dc_key c = k \<and> m_closed (s_meta s') k = dc_day c)"
proof -
  let ?P = "\<lambda>(m, tx). m_closed m k = m_closed (s_meta s) k \<or>
    (\<exists>c \<in> set (pw_close w). dc_key c = k \<and> m_closed m k = dc_day c)"
  have "\<exists>tx :: txn. tx_db tx = s_db s' \<and> ?P (s_meta s', tx)"
    by (rule write_poll_inv [where P = ?P, OF assms])
      (auto dest!: write_daily_Inr write_status_Inr close_day_Inr advance_ge, blast+)
  then show ?thesis by auto
qed

section \<open>Pending closes\<close>

definition pending_ok :: "attributor \<Rightarrow> (string \<times> string) list \<Rightarrow> bool" where
  "pending_ok d ps \<longleftrightarrow> distinct (map fst ps) \<and>
     (\<forall>k day. map_of ps k = Some day \<longrightarrow> k \<in> fst ` set (at_keys d) \<and> day < open_day d k)"

lemma pending_ok_pend:
  assumes "pending_ok d ps" "k \<in> fst ` set (at_keys d)" "day < open_day d k"
  shows "pending_ok d (pend (k, day) ps)"
  using assms by (auto simp: pending_ok_def pend_def max_day_def update_conv' distinct_update split: option.split)

lemma pending_ok_fold:
  "pending_ok d ps \<Longrightarrow> \<forall>(k, day) \<in> set xs. k \<in> fst ` set (at_keys d) \<and> day < open_day d k \<Longrightarrow>
    pending_ok d (fold pend xs ps)"
  by (induction xs arbitrary: ps) (auto intro: pending_ok_pend)

lemma pending_ok_grow:
  assumes "pending_ok d ps" "\<And>k. open_day d k \<le> open_day d' k" "map fst (at_keys d') = map fst (at_keys d)"
  shows "pending_ok d' ps"
proof -
  have "fst ` set (at_keys d') = fst ` set (at_keys d)" using assms(3) by (metis list.set_map)
  with assms(1,2) show ?thesis by (auto simp: pending_ok_def) (meson less_le_trans)
qed

lemma pending_ok_delete: "pending_ok d ps \<Longrightarrow> pending_ok d (AList.delete k ps)"
  by (auto simp: pending_ok_def delete_conv' distinct_delete split: if_splits)

lemma commit_closes_pending:
  "commit_closes now cs (ps, em, evs) = (ps', em', evs') \<Longrightarrow> pending_ok d ps \<Longrightarrow> pending_ok d ps'"
proof (induction cs arbitrary: ps em evs)
  case (Cons c cs)
  from Cons.IH [OF Cons.prems(1) [unfolded commit_closes.simps]] pending_ok_delete [OF Cons.prems(2)]
  show ?case by simp
qed simp

section \<open>The invariant of the poller\<close>

text \<open>
  \<open>cl\<close> are the closed-day watermarks of the storage. A seeded poller is ahead of them; of a
  poller still to be seeded only the watermarks are known.
\<close>

definition ahead :: "registry \<Rightarrow> (key_state \<Rightarrow> bool) \<Rightarrow> (string \<Rightarrow> string) \<Rightarrow> poller \<Rightarrow> bool" where
  "ahead g P cl p \<longleftrightarrow> all_keys P (ps_attr p) \<and> fst ` set (at_keys (ps_attr p)) = set (daily_keys g) \<and>
     (\<forall>k \<in> set (daily_keys g). cl k < open_day (ps_attr p) k) \<and> pending_ok (ps_attr p) (ps_pending p)"

definition poller_inv :: "registry \<Rightarrow> rollover \<Rightarrow> int \<Rightarrow> int \<Rightarrow> (string \<Rightarrow> string) \<Rightarrow> poller \<Rightarrow> bool" where
  "poller_inv g r c t cl p \<longleftrightarrow>
     (if ps_seeded p then ahead g (seen r c t) cl p
      else distinct (map fst (at_keys (ps_attr p))) \<and>
        fst ` set (at_keys (ps_attr p)) = set (daily_keys g) \<and> ps_pending p = [] \<and>
        (\<forall>k \<in> set (daily_keys g). cl k < day_key (latest_day r c t)))"

lemma aheadI:
  assumes "all_keys P d'" "map fst (at_keys d') = map fst (at_keys (ps_attr p))"
    "\<And>k. open_day (ps_attr p) k \<le> open_day d' k" "ahead g Q cl p" "pending_ok d' ps"
  shows "ahead g P cl (p\<lparr>ps_attr := d', ps_pending := ps, ps_last_daily := ld\<rparr>)"
proof -
  have "fst ` set (at_keys d') = fst ` set (at_keys (ps_attr p))" using assms(2) by (metis list.set_map)
  with assms show ?thesis by (auto simp: ahead_def) (meson less_le_trans)
qed

lemma poller_force_close_ahead:
  assumes "poller_force_close r (fixed_zone c) t p = Inr p'" "rollover_ok r" "clock_ok c t"
    "ahead g (seen r c t) cl p"
  shows "ahead g (current r c t) cl p'" "ps_seeded p' = ps_seeded p" "ps_status p' = ps_status p"
proof -
  obtain forced d where f: "force_close r (fixed_zone c) t (ps_attr p) = Inr (forced, d)" and
    p': "p' = p\<lparr>ps_attr := d, ps_pending := fold pend forced (ps_pending p)\<rparr>"
    using assms(1) by (auto simp: poller_force_close_def split: sum.splits)
  have "all_keys (seen r c t) (ps_attr p)" and pk: "pending_ok (ps_attr p) (ps_pending p)"
    using assms(4) by (auto simp: ahead_def)
  note o = open_day_le_force [OF f assms(2,3) this(1)]
  have "fst ` set (at_keys d) = fst ` set (at_keys (ps_attr p))" using o(2) by (metis list.set_map)
  then have "pending_ok d (fold pend forced (ps_pending p))"
    using pending_ok_grow [OF pk o(3) o(2)] o(4) by (intro pending_ok_fold) auto
  from aheadI [OF o(1,2,3) assms(4) this, of "ps_last_daily p"]
  show "ahead g (current r c t) cl p'" by (simp add: p')
  show "ps_seeded p' = ps_seeded p" "ps_status p' = ps_status p" by (simp_all add: p')
qed

lemma poller_seed_ahead:
  assumes "poller_seed g r (fixed_zone c) env wd p = Inr p'" "rollover_ok r" "clock_ok c (en_start env)"
    "\<not> ps_seeded p" "poller_inv g r c (en_start env) (m_closed (s_meta (wd_store wd))) p"
  shows "ahead g (current r c (en_start env)) (m_closed (s_meta (wd_store wd))) p'" "ps_seeded p'"
proof -
  let ?t = "en_start env" and ?cl = "m_closed (s_meta (wd_store wd))"
  let ?s = "seed_of (wd_store wd) (seed_days r (fixed_zone c) ?t)"
  obtain missed d where sd: "seed_attributor r (fixed_zone c) ?t (sd_daily ?s) ?cl (ps_attr p) = Inr (missed, d)"
    and p': "ps_attr p' = d" "ps_seeded p'" "ps_pending p' = fold pend missed (ps_pending p)"
    using assms(1) by (auto simp: poller_seed_def Let_def seed_of_def split: if_splits sum.splits)
  have i: "distinct (map fst (at_keys (ps_attr p)))" "fst ` set (at_keys (ps_attr p)) = set (daily_keys g)"
    "ps_pending p = []" "\<forall>k \<in> set (daily_keys g). ?cl k < day_key (latest_day r c ?t)"
    using assms(4,5) by (auto simp: poller_inv_def)
  note s = seed_attributor_current [OF sd assms(2,3) i(1)]
  have keys: "fst ` set (at_keys d) = fst ` set (at_keys (ps_attr p))"
    using s(2) i(2,4) by (metis list.set_map)
  have "pending_ok d (fold pend missed [])"
    using s(4) i(2,4) keys by (intro pending_ok_fold) (auto simp: pending_ok_def)
  then show "ahead g (current r c ?t) ?cl p'"
    using s(1,3) i keys by (simp add: ahead_def p')
  show "ps_seeded p'" by (rule p')
qed

definition row_ahead :: "registry \<Rightarrow> (string \<Rightarrow> string) \<Rightarrow> daily_row \<Rightarrow> bool" where
  "row_ahead g cl r \<longleftrightarrow> dr_key r \<in> set (daily_keys g) \<and> cl (dr_key r) < dr_day r"

lemma attribute_ahead:
  assumes "attribute r (fixed_zone c) (ps_attr p) k v t = (a, d)" "rollover_ok r" "clock_ok c t"
    "ahead g (current r c t) cl p"
    "ps = (if a_closed a \<noteq> [] then pend (k, a_closed a) (ps_pending p) else ps_pending p)"
  shows "ahead g (current r c t) cl (p\<lparr>ps_attr := d, ps_pending := ps, ps_last_daily := ld\<rparr>)"
    "a_decision a \<noteq> Discard \<Longrightarrow> k \<in> set (daily_keys g) \<and> cl k < a_day a"
proof -
  have k: "all_keys (current r c t) (ps_attr p)" and pk: "pending_ok (ps_attr p) (ps_pending p)"
    and keys: "fst ` set (at_keys (ps_attr p)) = set (daily_keys g)"
    and cl: "\<forall>k \<in> set (daily_keys g). cl k < open_day (ps_attr p) k"
    using assms(4) by (auto simp: ahead_def)
  note o = attribute_current [OF assms(1-3) k]
  have "fst ` set (at_keys d) = fst ` set (at_keys (ps_attr p))" using o(2) by (metis list.set_map)
  then have "pending_ok d ps"
    using pending_ok_grow [OF pk o(3) o(2)] o(5) assms(5) by (auto intro: pending_ok_pend)
  from aheadI [OF o(1,2,3) assms(4) this]
  show "ahead g (current r c t) cl (p\<lparr>ps_attr := d, ps_pending := ps, ps_last_daily := ld\<rparr>)" .
  show "k \<in> set (daily_keys g) \<and> cl k < a_day a" if "a_decision a \<noteq> Discard"
    using o(4) [OF that] o(3) [of k] keys cl by (auto intro: less_le_trans)
qed

lemma attribute_values_ahead:
  assumes "attribute_values g r (fixed_zone c) t vs (p, rows, cv) = (p', rows', cv')" "rollover_ok r"
    "clock_ok c t" "ahead g (current r c t) cl p" "\<forall>x \<in> set rows. row_ahead g cl x"
  shows "ahead g (current r c t) cl p' \<and> (\<forall>x \<in> set rows'. row_ahead g cl x) \<and>
    ps_seeded p' = ps_seeded p"
  using assms(1,4,5)
proof (induction vs arbitrary: p rows cv)
  case (Cons kv vs)
  obtain k v where kv: "kv = (k, v)" by (cases kv)
  show ?case
  proof (cases "store_of g k = StoreDaily")
    case False
    then have "attribute_values g r (fixed_zone c) t vs (p, rows, AList.update k v cv) = (p', rows', cv')"
      using Cons.prems(1) by (simp add: kv)
    from Cons.IH [OF this Cons.prems(2,3)] show ?thesis .
  next
    case True
    obtain a d where a: "attribute r (fixed_zone c) (ps_attr p) k (v_decoded v) t = (a, d)" by (metis surj_pair)
    define ps where "ps = (if a_closed a \<noteq> [] then pend (k, a_closed a) (ps_pending p) else ps_pending p)"
    let ?p = "\<lambda>ld. p\<lparr>ps_attr := d, ps_pending := ps, ps_last_daily := ld\<rparr>"
    note at = attribute_ahead [OF a assms(2,3) Cons.prems(2) ps_def]
    show ?thesis
    proof (cases "a_decision a = Discard")
      case dis: True
      have "attribute_values g r (fixed_zone c) t vs (?p (ps_last_daily p), rows, case map_of (ps_last_daily p) k of
          Some prev \<Rightarrow> AList.update k prev cv | None \<Rightarrow> cv) = (p', rows', cv')"
        using Cons.prems(1) True a dis by (simp add: kv ps_def Let_def)
      from Cons.IH [OF this at(1) Cons.prems(3)] show ?thesis by simp
    next
      case acc: False
      let ?row = "\<lparr>dr_key = k, dr_day = a_day a, dr_value = v_decoded v, dr_raw = v_raw v\<rparr>"
      have av: "attribute_values g r (fixed_zone c) t vs (?p (AList.update k v (ps_last_daily p)),
          rows @ [?row], AList.update k v cv) = (p', rows', cv')"
        using Cons.prems(1) True a acc by (simp add: kv ps_def Let_def)
      have "row_ahead g cl ?row" using at(2) [OF acc] by (simp add: row_ahead_def)
      then have "\<forall>x \<in> set (rows @ [?row]). row_ahead g cl x" using Cons.prems(3) by simp
      from Cons.IH [OF av at(1) this] show ?thesis by simp
    qed
  qed
qed simp

definition daily_owned :: "registry \<Rightarrow> bool" where
  "daily_owned g \<longleftrightarrow> (\<forall>k \<in> set (daily_keys g). owned g k)"

lemma row_ahead_accepted:
  "daily_owned g \<Longrightarrow> row_ahead g (m_closed m) r \<Longrightarrow> row_accepted g m r"
  by (auto simp: daily_owned_def row_ahead_def owned_def row_accepted_def)

text \<open>A write of the poller: nothing is rejected, and the poller stays ahead of what it closed.\<close>

lemma poller_write_ahead:
  assumes "poller_write g env w (p, wd) = (res, p', wd')" "daily_owned g"
    "ahead g P (m_closed (s_meta (wd_store wd))) p" "pw_close w = closes p"
    "\<forall>r \<in> set (pw_daily w). row_ahead g (m_closed (s_meta (wd_store wd))) r"
    "\<forall>r \<in> set (pw_status w). store_of g (sr_key r) = StoreStatus"
  shows "ahead g P (m_closed (s_meta (wd_store wd'))) p' \<and> ps_seeded p' = ps_seeded p \<and>
    (\<forall>rej. res = Inr rej \<longrightarrow> rej = [])"
proof -
  obtain res1 st where wp: "write_poll g w (en_faults env) (wd_store wd) = (res1, st)" by (metis surj_pair)
  have pk: "pending_ok (ps_attr p) (ps_pending p)" and keys: "fst ` set (at_keys (ps_attr p)) = set (daily_keys g)"
    using assms(3) by (auto simp: ahead_def)
  have close: "dc_key x \<in> set (daily_keys g) \<and> dc_day x < open_day (ps_attr p) (dc_key x)"
    if "x \<in> set (pw_close w)" for x
    using that pk keys unfolding assms(4) closes_def pending_ok_def by force
  have st: "m_closed (s_meta st) k < open_day (ps_attr p) k" if "k \<in> set (daily_keys g)" for k
    using write_poll_closed [OF wp, of k] close assms(3) that by (auto simp: ahead_def)
  show ?thesis
  proof (cases res1)
    case (Inl e)
    then show ?thesis using assms(1,3) wp st by (auto simp: poller_write_def ahead_def)
  next
    case (Inr rej)
    obtain p2 evs where c: "committed w (en_start env) p = (p2, evs)" by (metis surj_pair)
    obtain ps em evs' where cc: "commit_closes (en_start env) (pw_close w) (ps_pending p, ps_emitted p, [])
        = (ps, em, evs')" by (metis prod_cases3)
    have p2: "ps_attr p2 = ps_attr p" "ps_seeded p2 = ps_seeded p" "ps_pending p2 = ps"
      using c cc by (auto simp: committed_def Let_def)
    have "rej = []"
    proof (rule write_poll_no_rejection [OF wp [unfolded Inr] _ assms(6)])
      show "\<forall>r \<in> set (pw_daily w). row_accepted g (s_meta (wd_store wd)) r"
        using assms(2,5) row_ahead_accepted by blast
      show "\<forall>c \<in> set (pw_close w). owned g (dc_key c)"
        using assms(2) close by (auto simp: daily_owned_def)
    qed
    then show ?thesis
      using assms(1,3) wp st Inr c commit_closes_pending [OF cc pk] p2
      by (auto simp: poller_write_def ahead_def)
  qed
qed

lemma ahead_mono: "ahead g P cl p \<Longrightarrow> (\<And>st. P st \<Longrightarrow> Q st) \<Longrightarrow> ahead g Q cl p"
  by (auto simp: ahead_def intro: all_keys_mono)

lemma status_changes_status: "x \<in> set (status_changes g p vs t) \<Longrightarrow> store_of g (sr_key x) = StoreStatus"
  by (auto simp: status_changes_def)

lemma persist_ahead:
  assumes "persist g r (fixed_zone c) env vs (p, wd) = (res, p', wd')" "rollover_ok r"
    "clock_ok c (en_start env)" "daily_owned g"
    "ahead g (seen r c (en_start env)) (m_closed (s_meta (wd_store wd))) p"
  shows "ahead g (seen r c (en_start env)) (m_closed (s_meta (wd_store wd'))) p' \<and>
    ps_seeded p' = ps_seeded p \<and> (\<forall>rej. res = Inr rej \<longrightarrow> rej = [])"
proof (cases "poller_force_close r (fixed_zone c) (en_start env) p")
  case (Inl e)
  then show ?thesis using assms(1,5) by (auto simp: persist_def)
next
  case (Inr p1)
  note f = poller_force_close_ahead [OF Inr assms(2,3,5)]
  obtain p2 rows cv where a: "attribute_values g r (fixed_zone c) (en_start env) (en_order env vs) (p1, [], [])
      = (p2, rows, cv)" by (metis prod_cases3)
  note at = attribute_values_ahead [OF a assms(2,3) f(1)]
  let ?w = "\<lparr>pw_daily = rows, pw_status = status_changes g p2 vs (en_start env), pw_close = closes p2\<rparr>"
  obtain res3 p3 wd3 where w: "poller_write g env ?w (p2, wd) = (res3, p3, wd3)" by (metis prod_cases3)
  have "ahead g (current r c (en_start env)) (m_closed (s_meta (wd_store wd3))) p3 \<and> ps_seeded p3 = ps_seeded p2 \<and>
      (\<forall>rej. res3 = Inr rej \<longrightarrow> rej = [])"
    by (rule poller_write_ahead [OF w assms(4), where P = "current r c (en_start env)"])
      (use at status_changes_status in auto)
  then have "ahead g (seen r c (en_start env)) (m_closed (s_meta (wd_store wd3))) p3 \<and> ps_seeded p3 = ps_seeded p \<and>
      (\<forall>rej. res3 = Inr rej \<longrightarrow> rej = [])"
    using current_seen [OF assms(2,3)] at f(2) by (auto intro: ahead_mono)
  moreover have "p' = p3 \<and> wd_store wd' = wd_store wd3 \<and> (\<forall>rej. res = Inr rej \<longrightarrow> res3 = Inr rej)"
    using assms(1) by (auto simp: persist_def Inr a w split: sum.splits prod.splits)
  ultimately show ?thesis by simp
qed

lemma close_disconnected_ahead:
  assumes "close_disconnected g r (fixed_zone c) env (p, wd) = (res, p', wd')" "rollover_ok r"
    "clock_ok c (en_start env)" "daily_owned g"
    "ahead g (seen r c (en_start env)) (m_closed (s_meta (wd_store wd))) p"
  shows "ahead g (seen r c (en_start env)) (m_closed (s_meta (wd_store wd'))) p' \<and>
    ps_seeded p' = ps_seeded p \<and> (\<forall>rej. res = Inr rej \<longrightarrow> rej = [])"
proof (cases "poller_force_close r (fixed_zone c) (en_start env) p")
  case (Inl e)
  then show ?thesis using assms(1,5) by (auto simp: close_disconnected_def)
next
  case (Inr p1)
  note f = poller_force_close_ahead [OF Inr assms(2,3,5)]
  have cur: "ahead g (seen r c (en_start env)) cl q" if "ahead g (current r c (en_start env)) cl q" for cl q
    using that current_seen [OF assms(2,3)] by (rule ahead_mono)
  let ?w = "\<lparr>pw_daily = [], pw_status = [], pw_close = closes p1\<rparr>"
  show ?thesis
  proof (cases "closes p1 = []")
    case True
    then show ?thesis using assms(1) cur [OF f(1)] f(2) by (auto simp: close_disconnected_def Inr)
  next
    case False
    obtain res3 p3 wd3 where w: "poller_write g env ?w (p1, wd) = (res3, p3, wd3)" by (metis prod_cases3)
    have "ahead g (current r c (en_start env)) (m_closed (s_meta (wd_store wd3))) p3 \<and> ps_seeded p3 = ps_seeded p1 \<and>
        (\<forall>rej. res3 = Inr rej \<longrightarrow> rej = [])"
      by (rule poller_write_ahead [OF w assms(4) f(1)]) simp_all
    moreover have "p' = p3 \<and> wd' = wd3 \<and> (\<forall>rej. res = Inr rej \<longrightarrow> res3 = Inr rej)"
      using assms(1) False by (auto simp: close_disconnected_def Inr w split: sum.splits)
    ultimately show ?thesis using cur f(2) by auto
  qed
qed

section \<open>Cycles\<close>

fun no_rejection :: "cycle_result \<Rightarrow> bool" where
  "no_rejection (NotConnected (Inr rej)) \<longleftrightarrow> rej = []"
| "no_rejection (Polled rej) \<longleftrightarrow> rej = []"
| "no_rejection _ \<longleftrightarrow> True"

abbreviation closed_marks :: "world \<Rightarrow> string \<Rightarrow> string" where
  "closed_marks wd \<equiv> m_closed (s_meta (wd_store wd))"

lemma poller_inv_status [simp]: "poller_inv g r c t cl (p\<lparr>ps_status := st\<rparr>) = poller_inv g r c t cl p"
  by (simp add: poller_inv_def ahead_def)

lemma ahead_status [simp]: "ahead g P cl (p\<lparr>ps_status := st\<rparr>) = ahead g P cl p"
  by (simp add: ahead_def)

lemma poller_inv_later:
  assumes "poller_inv g r c t cl p" "rollover_ok r" "t \<le> t'" "clock_ok c t" "clock_ok c t'"
  shows "poller_inv g r c t' cl p"
proof -
  have l: "latest_day r c t \<le> latest_day r c t'" by (rule latest_day_mono [OF assms(2,3)])
  have "day_ok (latest_day r c t)" "day_ok (latest_day r c t')"
    using latest_day_bounds [of r c t] latest_day_bounds [of r c t']
      clock_days_ok [OF assms(2,4)] clock_days_ok [OF assms(2,5)] by simp_all
  with l have le: "day_key (latest_day r c t) \<le> day_key (latest_day r c t')" by (simp add: day_key_le_iff)
  from assms(1) show ?thesis using seen_later [OF assms(2,3)]
    by (auto simp: poller_inv_def intro: ahead_mono order.strict_trans2 [OF _ le])
qed

lemma cycle_body_inv:
  assumes "cycle_body cfg g r (fixed_zone c) env ts (p, wd) = (res, (p', wd'), ts')" "rollover_ok r"
    "clock_ok c (en_start env)" "daily_owned g" "poller_inv g r c (en_start env) (closed_marks wd) p"
  shows "poller_inv g r c (en_start env) (closed_marks wd') p' \<and> no_rejection res"
proof (cases "if ps_seeded p then Inr p else poller_seed g r (fixed_zone c) env wd p")
  case (Inl e)
  then have "res = SeedFailed e \<and> p' = set_state Recovering ''seeding failed'' p \<and> wd' = wd"
    using assms(1) by (simp add: cycle_body_def)
  then show ?thesis using assms(5) by (simp add: set_state_def)
next
  case (Inr p1)
  have s1: "ahead g (seen r c (en_start env)) (closed_marks wd) p1 \<and> ps_seeded p1"
  proof (cases "ps_seeded p")
    case True
    then show ?thesis using Inr assms(5) by (simp add: poller_inv_def)
  next
    case False
    then have "poller_seed g r (fixed_zone c) env wd p = Inr p1" using Inr by simp
    from poller_seed_ahead [OF this assms(2,3) False assms(5)] show ?thesis
      using current_seen [OF assms(2,3)] by (auto intro: ahead_mono)
  qed
  show ?thesis
  proof (cases "en_source env = Some True")
    case False
    obtain res2 p2 wd2 where cd: "close_disconnected g r (fixed_zone c) env (p1, wd) = (res2, p2, wd2)"
      by (metis prod_cases3)
    have "res = NotConnected res2 \<and> p' = set_state Recovering ''modbus not connected'' p2 \<and> wd' = wd2"
      using assms(1) False by (simp add: cycle_body_def Inr cd)
    then show ?thesis using close_disconnected_ahead [OF cd assms(2-4)] s1
      by (cases res2) (simp_all add: poller_inv_def set_state_def)
  next
    case True
    obtain rr st ts2 where ra: "read_all cfg g env (ps_status p1, ts) = (rr, st, ts2)" by (metis prod_cases3)
    show ?thesis
    proof (cases rr)
      case (Inl e)
      then show ?thesis using assms(1) True s1
        by (auto simp: cycle_body_def Inr ra set_state_def poller_inv_def)
    next
      case vs: (Inr vs)
      obtain res2 p2 wd2 where pe: "persist g r (fixed_zone c) env (derive g vs (en_start env))
          (p1\<lparr>ps_status := st\<rparr>, wd) = (res2, p2, wd2)" by (metis prod_cases3)
      have "ahead g (seen r c (en_start env)) (closed_marks wd2) p2 \<and> ps_seeded p2 \<and> (\<forall>rej. res2 = Inr rej \<longrightarrow> rej = [])"
        using persist_ahead [OF pe assms(2-4)] s1 by simp
      moreover have "\<exists>st'. p' = p2\<lparr>ps_status := st'\<rparr> \<and> wd' = wd2 \<and>
          (case res2 of Inl e \<Rightarrow> res = PersistFailed e | Inr rej \<Rightarrow> res = Polled rej)"
        using assms(1) True by (auto simp: cycle_body_def Inr ra vs pe set_state_def split: sum.splits)
      ultimately show ?thesis by (auto simp: poller_inv_def split: sum.splits)
    qed
  qed
qed

lemma poll_cycle_inv:
  assumes "poll_cycle cfg g r (fixed_zone c) env (p, wd) = (res, p', wd')" "rollover_ok r"
    "clock_ok c (en_start env)" "daily_owned g" "poller_inv g r c (en_start env) (closed_marks wd) p"
  shows "poller_inv g r c (en_start env) (closed_marks wd') p' \<and> no_rejection res"
proof -
  obtain st ts where tb: "take_beat (ps_status p, en_clock env) = (st, ts)" by (metis surj_pair)
  obtain res2 p2 wd2 ts2 where cb: "cycle_body cfg g r (fixed_zone c) env ts (p\<lparr>ps_status := st\<rparr>, wd)
      = (res2, (p2, wd2), ts2)" by (metis surj_pair)
  have "poller_inv g r c (en_start env) (closed_marks wd) (p\<lparr>ps_status := st\<rparr>)" using assms(5) by simp
  note cycle_body_inv [OF cb assms(2-4) this]
  moreover have "res = res2 \<and> p' = p2\<lparr>ps_status := fst (take_beat (ps_status p2, ts2))\<rparr> \<and> wd' = wd2"
    using assms(1) by (simp add: poll_cycle_def tb cb)
  ultimately show ?thesis by simp
qed

section \<open>Runs\<close>

lemma write_computed_closed:
  assumes "write_computed g w faults s = (res, s')" shows "m_closed (s_meta s') = m_closed (s_meta s)"
proof -
  have "\<exists>tx :: txn. tx_db tx = s_db s' \<and> (\<lambda>(m, tx :: txn). m_closed m = m_closed (s_meta s)) (s_meta s', tx)"
    by (rule write_computed_inv [where P = "\<lambda>(m, tx :: txn). m_closed m = m_closed (s_meta s)", OF assms])
      (auto dest!: apply_freeze_Inr add_base_Inr)
  then show ?thesis by simp
qed

lemma cleanup_closed:
  assumes "cleanup_all cfg z now f1 f2 f3 s = (errs, s')" shows "m_closed (s_meta s') = m_closed (s_meta s)"
proof -
  from assms obtain r1 s1 r2 s2 where
    1: "cleanup_periods (p_day (period_of z (now - set_daily_retention cfg))) f1 s = (r1, s1)" and
    2: "cleanup_status (now - set_error_retention cfg) f2 s1 = (r2, s2)" and
    3: "s_meta s' = s_meta s2" by (rule cleanup_all_split)
  have "m_closed (s_meta s1) = m_closed (s_meta s)" using cleanup_periods_cases [OF 1] by auto
  with cleanup_status_frame [OF 2] 3 show ?thesis by simp
qed

text \<open>
  The clock, the poller and the rest: a poll cycle at a later instant, a restart of the poller
  by the supervisor, a write of the aggregator, a cleanup.
\<close>

inductive service_step :: "poller_settings \<Rightarrow> registry \<Rightarrow> rollover \<Rightarrow> int \<Rightarrow> int \<times> poller \<times> world
    \<Rightarrow> int \<times> poller \<times> world \<Rightarrow> bool" for cfg g r c where
  poll: "t \<le> en_start env \<Longrightarrow> clock_ok c (en_start env) \<Longrightarrow>
    poll_cycle cfg g r (fixed_zone c) env (p, wd) = (res, p', wd') \<Longrightarrow>
    service_step cfg g r c (t, p, wd) (en_start env, p', wd')"
| restart: "service_step cfg g r c (t, p, wd) (t, new_poller g, wd)"
| aggregate: "write_computed g w faults (wd_store wd) = (res, st) \<Longrightarrow>
    service_step cfg g r c (t, p, wd) (t, p, wd\<lparr>wd_store := st\<rparr>)"
| clean: "cleanup_all cset z now f1 f2 f3 (wd_store wd) = (errs, st) \<Longrightarrow>
    service_step cfg g r c (t, p, wd) (t, p, wd\<lparr>wd_store := st\<rparr>)"

inductive_cases service_stepE: "service_step cfg g r c s s'"

definition service_inv :: "registry \<Rightarrow> rollover \<Rightarrow> int \<Rightarrow> int \<times> poller \<times> world \<Rightarrow> bool" where
  "service_inv g r c s \<longleftrightarrow> (case s of (t, p, wd) \<Rightarrow>
     clock_ok c t \<and> poller_inv g r c t (closed_marks wd) p)"

lemma new_poller_inv:
  "\<forall>k \<in> set (daily_keys g). cl k < day_key (latest_day r c t) \<Longrightarrow> poller_inv g r c t cl (new_poller g)"
  by (auto simp: poller_inv_def new_poller_def new_attributor_def comp_def image_image)

lemma restart_inv:
  assumes "poller_inv g r c t cl p" "rollover_ok r" "clock_ok c t"
  shows "poller_inv g r c t cl (new_poller g)"
proof (rule new_poller_inv, rule ballI)
  fix k assume k: "k \<in> set (daily_keys g)"
  show "cl k < day_key (latest_day r c t)"
  proof (cases "ps_seeded p")
    case True
    then have a: "ahead g (seen r c t) cl p" using assms(1) by (simp add: poller_inv_def)
    then obtain st where st: "map_of (at_keys (ps_attr p)) k = Some st"
      using k by (cases "map_of (at_keys (ps_attr p)) k") (auto simp: ahead_def map_of_eq_None_iff)
    have "seen r c t st" using a all_keysD [OF _ st] by (auto simp: ahead_def)
    then obtain n where n: "day_ok n" "n \<le> latest_day r c t" "ks_open st = day_key n"
      by (auto simp: seen_def)
    have "day_ok (latest_day r c t)"
      using latest_day_bounds [of r c t] clock_days_ok [OF assms(2,3)] by simp
    with n have "ks_open st \<le> day_key (latest_day r c t)" by (simp add: day_key_le_iff)
    with a k st show ?thesis by (auto simp: ahead_def open_day_def intro: less_le_trans)
  qed (use assms(1) k in \<open>simp add: poller_inv_def\<close>)
qed

lemma service_step_inv:
  assumes "service_step cfg g r c s s'" "rollover_ok r" "daily_owned g" "service_inv g r c s"
  shows "service_inv g r c s'"
  using assms(1)
proof cases
  case (poll t env p wd res p' wd')
  then have "poller_inv g r c (en_start env) (closed_marks wd) p"
    using assms(2,4) poller_inv_later [OF _ assms(2) poll(3)] by (auto simp: service_inv_def)
  from poll_cycle_inv [OF poll(5) assms(2) poll(4) assms(3) this] poll show ?thesis
    by (simp add: service_inv_def)
next
  case (restart t p wd)
  then show ?thesis using assms(2,4) restart_inv by (auto simp: service_inv_def)
next
  case (aggregate w faults wd res st t p)
  then show ?thesis using assms(4) write_computed_closed [OF aggregate(3)] by (simp add: service_inv_def)
next
  case (clean cset z now f1 f2 f3 wd errs st t p)
  then show ?thesis using assms(4) cleanup_closed [OF clean(3)] by (simp add: service_inv_def)
qed

lemma service_run_inv:
  "(service_step cfg g r c)\<^sup>*\<^sup>* s s' \<Longrightarrow> rollover_ok r \<Longrightarrow> daily_owned g \<Longrightarrow> service_inv g r c s \<Longrightarrow>
    service_inv g r c s'"
  by (induction rule: rtranclp_induct) (auto intro: service_step_inv)

text \<open>C1: The storage never rejects a row of the poller. In a location without transitions, from
  watermarks before the day that may be open at the start, over any run of poll cycles at
  instants that never go back, restarts of the poller, aggregator writes and cleanups, with any
  failing statement, disconnected client or garbled value in between: the next cycle's write,
  when it commits, rejects nothing, and afterwards every daily key's watermark is still
  before the day the poller has open for it.\<close>

theorem poller_never_rejected:
  assumes "(service_step cfg g r c)\<^sup>*\<^sup>* (t0, new_poller g, wd0) (t, p, wd)" "rollover_ok r" "daily_owned g"
    "clock_ok c t0" "\<forall>k \<in> set (daily_keys g). closed_marks wd0 k < day_key (latest_day r c t0)"
    "t \<le> en_start env" "clock_ok c (en_start env)"
    "poll_cycle cfg g r (fixed_zone c) env (p, wd) = (res, p', wd')"
  shows "no_rejection res \<and> (ps_seeded p' \<longrightarrow>
    (\<forall>k \<in> set (daily_keys g). closed_marks wd' k < open_day (ps_attr p') k))"
proof -
  have "service_inv g r c (t0, new_poller g, wd0)"
    using assms(4) new_poller_inv [OF assms(5)] by (simp add: service_inv_def)
  from service_run_inv [OF assms(1-3) this]
  have "clock_ok c t" "poller_inv g r c t (closed_marks wd) p" by (auto simp: service_inv_def)
  then have "poller_inv g r c (en_start env) (closed_marks wd) p"
    using poller_inv_later [OF _ assms(2,6) _ assms(7)] by blast
  from poll_cycle_inv [OF assms(8,2,7,3) this] show ?thesis
    by (auto simp: poller_inv_def ahead_def split: if_splits)
qed

lemma registry_daily_owned:
  assumes "new_registry_of regs es ns = Inr g" shows "daily_owned g"
  using new_registry_parts [OF assms]
  by (force simp: daily_owned_def daily_keys_def owned_def poller_owned_def by_key_def map_of_keyed)

definition offline_env :: poll_env where
  "offline_env = \<lparr>en_start = 19759 * ns_day, en_clock = [], en_source = None, en_read = (\<lambda>i j.
       \<lparr>ra_connected = False, ra_waited = False, ra_result = Inl []\<rparr>), en_pause = (\<lambda>i. True),
     en_seed_fault = False, en_faults = [], en_order = (\<lambda>xs. xs)\<rparr>"

definition first_world :: world where
  "first_world = \<lparr>wd_store = empty_store, wd_cache = new_cache, wd_events = []\<rparr>"

theorem poller_never_rejected_witness:
  "no_rejection (fst (poll_cycle \<lparr>se_block_attempts = 2, se_block_interval = 0\<rparr> solis_registry late_rollover
     (fixed_zone 0) offline_env (new_poller solis_registry, first_world)))"
proof -
  let ?s = "(new_poller solis_registry, first_world)"
  obtain res p' wd' where c: "poll_cycle \<lparr>se_block_attempts = 2, se_block_interval = 0\<rparr> solis_registry late_rollover
      (fixed_zone 0) offline_env ?s = (res, p', wd')" by (metis prod_cases3)
  have clock: "clock_ok 0 (19758 * ns_day)" "clock_ok 0 (en_start offline_env)"
    by (simp_all add: clock_ok_def day_index_def local_time_def fixed_zone_def epoch_day_def offline_env_def)
  have start: "rollover_ok late_rollover" "19758 * ns_day \<le> en_start offline_env"
    by (simp_all add: rollover_ok_def late_rollover_def offline_env_def)
  have "\<forall>k \<in> set (daily_keys solis_registry). closed_marks first_world k < day_key n" for n
    by (simp add: first_world_def empty_store_def new_meta_def less_le day_key_nonempty [symmetric])
  from poller_never_rejected [OF rtranclp.rtrancl_refl start(1) registry_daily_owned [OF solis_registry_built]
      clock(1) this start(2) clock(2) c]
  show ?thesis by (simp only: c fst_conv)
qed

section \<open>The outcome of a write\<close>

lemma commit_closes_events:
  "commit_closes now cs (ps, em, evs) = (ps', em', evs') \<Longrightarrow>
    set evs \<subseteq> set evs' \<and> (\<forall>e \<in> set evs'. e \<in> set evs \<or> (\<exists>c \<in> set cs. e = closed_event (dc_day c) now)) \<and>
    (\<forall>c \<in> set cs. dc_day c \<in> set em \<or> closed_event (dc_day c) now \<in> set evs') \<and>
    (\<forall>d \<in> set em'. d \<in> set em \<or> closed_event d now \<in> set evs')"
proof (induction cs arbitrary: ps em evs)
  case (Cons c cs)
  note ih = Cons.IH [OF Cons.prems [unfolded commit_closes.simps]]
  show ?case
  proof (cases "dc_day c \<in> set em")
    case True
    with ih show ?thesis by auto
  next
    case False
    have "set (mark_emitted (dc_day c) em) \<subseteq> insert (dc_day c) (set em)" by (auto simp: mark_emitted_def)
    with ih False show ?thesis by auto
  qed
qed auto

lemma keys_delete: "fst ` set (AList.delete x ps) = fst ` set ps - {x}"
  by (force simp: AList.delete_eq)

lemma commit_closes_drained:
  "commit_closes now cs (ps, em, evs) = (ps', em', evs') \<Longrightarrow> k \<in> fst ` set ps' \<longleftrightarrow>
    k \<in> fst ` set ps \<and> k \<notin> dc_key ` set cs"
proof (induction cs arbitrary: ps em evs)
  case (Cons c cs)
  from Cons.IH [OF Cons.prems [unfolded commit_closes.simps], unfolded keys_delete] show ?case
    unfolding list.set image_insert by blast
qed simp

lemma closes_mem: "x \<in> set (closes p) \<longleftrightarrow> (dc_key x, dc_day x) \<in> set (ps_pending p)"
proof -
  have "set (closes p) = (\<lambda>(k, d). \<lparr>dc_key = k, dc_day = d\<rparr>) ` set (ps_pending p)" by (simp add: closes_def)
  then show ?thesis by (cases x) (force simp: image_iff)
qed

text \<open>C6: A day close is neither lost nor announced early. When the storage fails, a write of the
  poller leaves storage, memory and subscribers as they were, so every pending close is tried
  again. When it commits, every pending close is recorded in the storage, none is pending,
  and its day has been announced: now, or by a write that committed before; nothing but days
  closed now is announced.\<close>

theorem closes_kept_or_committed:
  assumes "poller_write g env w (p, wd) = (res, p', wd')" "pw_close w = closes p"
    "\<forall>k \<in> fst ` set (ps_pending p). owned g k"
  shows "case res of Inl e \<Rightarrow> p' = p \<and> wd' = wd
    | Inr rej \<Rightarrow> ps_pending p' = [] \<and> (\<forall>(k, d) \<in> set (ps_pending p). d \<le> closed_marks wd' k) \<and>
        (\<exists>evs. wd_events wd' = wd_events wd @ evs \<and>
          (\<forall>(k, d) \<in> set (ps_pending p). d \<in> set (ps_emitted p) \<or> closed_event d (en_start env) \<in> set evs) \<and>
          (\<forall>e \<in> set evs. \<exists>(k, d) \<in> set (ps_pending p). e = closed_event d (en_start env)))"
proof -
  obtain res1 st where wp: "write_poll g w (en_faults env) (wd_store wd) = (res1, st)" by (metis surj_pair)
  show ?thesis
  proof (cases res1)
    case (Inl e)
    then have "st = wd_store wd" using wp by (auto simp: write_poll_def split: sum.splits prod.splits)
    with assms(1) wp Inl show ?thesis by (auto simp: poller_write_def)
  next
    case (Inr rej)
    obtain ps em evs where cc: "commit_closes (en_start env) (closes p) (ps_pending p, ps_emitted p, [])
        = (ps, em, evs)" by (metis prod_cases3)
    have keys: "dc_key ` set (closes p) = fst ` set (ps_pending p)" by (force simp: closes_def)
    have r: "res = Inr rej" "ps_pending p' = ps" "wd_events wd' = wd_events wd @ evs" "wd_store wd' = st"
    proof -
      define q where "q = p\<lparr>ps_last_status := fold (\<lambda>r. AList.update (sr_key r) (sr_raw r)) (pw_status w) (ps_last_status p),
        ps_pending := ps, ps_emitted := em\<rparr>"
      have "committed w (en_start env) p = (q, evs)" by (simp add: committed_def assms(2) cc q_def)
      with assms(1) have "(res, p', wd') = (Inr rej, q, wd\<lparr>wd_store := st, wd_events := wd_events wd @ evs\<rparr>)"
        by (simp add: poller_write_def wp Inr)
      then show "res = Inr rej" "ps_pending p' = ps" "wd_events wd' = wd_events wd @ evs" "wd_store wd' = st"
        by (simp_all add: q_def)
    qed
    have ev: "\<forall>e \<in> set evs. e \<in> set [] \<or> (\<exists>c \<in> set (closes p). e = closed_event (dc_day c) (en_start env))"
      "\<forall>c \<in> set (closes p). dc_day c \<in> set (ps_emitted p) \<or> closed_event (dc_day c) (en_start env) \<in> set evs"
      by (rule commit_closes_events [OF cc, THEN conjunct2, THEN conjunct1],
          rule commit_closes_events [OF cc, THEN conjunct2, THEN conjunct2, THEN conjunct1])
    have "k \<notin> fst ` set ps" for k using commit_closes_drained [OF cc, of k] by (simp only: keys) simp
    then have "ps = []" by (cases ps) auto
    moreover have "d \<le> m_closed (s_meta st) k" if "(k, d) \<in> set (ps_pending p)" for k d
    proof -
      have "\<lparr>dc_key = k, dc_day = d\<rparr> \<in> set (pw_close w)" using that by (simp add: assms(2) closes_mem)
      moreover have "owned g k" using assms(3) imageI [OF that, of fst] by (simp only: fst_conv)
      then obtain reg where "by_key g k = Some reg" "poller_owned reg" unfolding owned_def by blast
      ultimately show ?thesis using write_poll_closes [OF wp [unfolded Inr], of "\<lparr>dc_key = k, dc_day = d\<rparr>"] by simp
    qed
    moreover have "d \<in> set (ps_emitted p) \<or> closed_event d (en_start env) \<in> set evs"
      if "(k, d) \<in> set (ps_pending p)" for k d
    proof -
      have "\<lparr>dc_key = k, dc_day = d\<rparr> \<in> set (closes p)" using that by (simp add: closes_mem)
      with ev(2) show ?thesis by (metis day_close.select_convs(2))
    qed
    moreover have "\<exists>kd \<in> set (ps_pending p). e = closed_event (snd kd) (en_start env)" if "e \<in> set evs" for e
    proof -
      have "\<exists>c \<in> set (closes p). e = closed_event (dc_day c) (en_start env)"
        using ev(1) that by (simp only: list.set empty_iff simp_thms)
      then obtain x where x: "x \<in> set (closes p)" "e = closed_event (dc_day x) (en_start env)" by blast
      show ?thesis by (rule bexI [OF _ x(1) [unfolded closes_mem]]) (simp add: x(2))
    qed
    ultimately show ?thesis unfolding r sum.case
      by (intro conjI exI [of _ evs]) (simp_all add: r split_beta, metis prod.collapse)
  qed
qed

definition pending_poller :: poller where
  "pending_poller = (new_poller solis_registry)\<lparr>ps_pending := [(pv_key, ''2024-01-31'')]\<rparr>"

lemma pv_owned_key: "owned solis_registry pv_key"
  unfolding owned_def using by_key_pv pv_owned by blast

theorem closes_kept_or_committed_witness:
  "case poller_write solis_registry offline_env \<lparr>pw_daily = [], pw_status = [], pw_close = closes pending_poller\<rparr>
      (pending_poller, first_world) of (res, p', wd') \<Rightarrow>
    (case res of Inl e \<Rightarrow> p' = pending_poller | Inr rej \<Rightarrow> ps_pending p' = [] \<and>
      ''2024-01-31'' \<le> closed_marks wd' pv_key)"
proof -
  obtain res p' wd' where w: "poller_write solis_registry offline_env \<lparr>pw_daily = [], pw_status = [],
      pw_close = closes pending_poller\<rparr> (pending_poller, first_world) = (res, p', wd')" by (metis prod_cases3)
  have pend: "ps_pending pending_poller = [(pv_key, ''2024-01-31'')]" by (simp add: pending_poller_def)
  have "\<forall>k \<in> fst ` set (ps_pending pending_poller). owned solis_registry k" by (simp add: pend pv_owned_key)
  from closes_kept_or_committed [OF w _ this] have "case res of Inl e \<Rightarrow> p' = pending_poller
      | Inr rej \<Rightarrow> ps_pending p' = [] \<and> ''2024-01-31'' \<le> closed_marks wd' pv_key"
    by (cases res) (simp_all add: pend del: Cons_less_Cons Cons_le_Cons)
  then show ?thesis by (simp only: w prod.case)
qed

end
