(* ===== verification/Aggregator.thy ===== *)
theory Aggregator
  imports Poller Cleanup
begin

text \<open>
  internal/aggregator/compute.go and aggregator.go: one run of the aggregator and the events
  that start one. Other components write to the storage while a run reads it: the \<open>n\<close>-th
  SUM of a run sees the database \<open>ae_view n\<close>, and the final write meets the store of that
  moment. \<open>agg\<close> is SQLite's SUM.
\<close>

section \<open>State and environment\<close>

definition debounce_factor :: int where "debounce_factor = 4"
definition heartbeat_factor :: int where "heartbeat_factor = 5"

datatype run_error = RunStore storage_error | RunKey key_error

record agg_env =
  ae_now :: int
  ae_beat :: int
  ae_has_data :: "storage_error + bool"
  ae_close :: close_state
  ae_view :: "nat \<Rightarrow> db"
  ae_fail :: "nat \<Rightarrow> bool"
  ae_faults :: "bool list"
  ae_cancelled :: bool

record run_state =
  rs_rows :: "period_row list"
  rs_freezes :: "freeze list"
  rs_folds :: "baseline_fold list"
  rs_current :: vals
  rs_base :: vals
  rs_base_year :: string
  rs_reads :: nat

text \<open>The entries of the baseline map that \<open>Totals\<close> looks up.\<close>

definition base_vals :: "edge list \<Rightarrow> (string \<rightharpoonup> float64) \<Rightarrow> vals" where
  "base_vals es b = concat (map (\<lambda>k. case b k of None \<Rightarrow> [] | Some v \<Rightarrow> [(k, v)])
     (remdups (map e_target es)))"

section \<open>Sums\<close>

fun run_sums :: "(float64 list \<Rightarrow> float64) \<Rightarrow> agg_env \<Rightarrow> string list \<Rightarrow> string \<Rightarrow> string \<Rightarrow> nat \<Rightarrow> vals
    \<Rightarrow> run_error + vals \<times> nat" where
  "run_sums agg env [] lo hi n out = Inr (out, n)"
| "run_sums agg env (k # ks) lo hi n out =
     (if ae_fail env n then Inl (RunStore DbFailure)
      else run_sums agg env ks lo hi (n + 1)
        (AList.update k (sum_rows agg (ae_view env n) k lo hi) out))"

definition collect :: "job \<Rightarrow> string \<Rightarrow> vals \<Rightarrow> run_state \<Rightarrow> run_state" where
  "collect j cur vs rs = rs\<lparr>
     rs_rows := rs_rows rs @ map (\<lambda>(k, v). \<lparr>pr_level = j_level j, pr_key = k, pr_period = j_key j,
       pr_value = v\<rparr>) vs,
     rs_freezes := (if j_freeze j then rs_freezes rs @ [\<lparr>fz_level = j_level j, fz_period = j_key j\<rparr>]
       else rs_freezes rs),
     rs_current := (if j_key j = cur then fold (\<lambda>(k, v). AList.update k v) vs (rs_current rs)
       else rs_current rs)\<rparr>"

section \<open>The steps of a run\<close>

fun net_days :: "registry \<Rightarrow> (float64 list \<Rightarrow> float64) \<Rightarrow> agg_env \<Rightarrow> string \<Rightarrow> job list \<Rightarrow> run_state
    \<Rightarrow> run_error + run_state" where
  "net_days g agg env today [] rs = Inr rs"
| "net_days g agg env today (j # js) rs =
     (let pairs = registry_nets g Daily;
          keys = concat (map (\<lambda>n. [n_export n, n_import n]) pairs) in
      case run_sums agg env keys (j_from j) (j_to j) (rs_reads rs) [] of Inl e \<Rightarrow> Inl e
      | Inr (sm, n) \<Rightarrow> net_days g agg env today js (collect j today (apply_net pairs sm) (rs\<lparr>rs_reads := n\<rparr>)))"

text \<open>The values of a month or year and the raw sums.\<close>

definition period_offset_vals :: "level \<Rightarrow> string \<Rightarrow> (string \<rightharpoonup> float64) \<Rightarrow> vals \<Rightarrow> vals" where
  "period_offset_vals l p offs vs = concat (map (\<lambda>(k, v). case offs (offset_key l p k) of
     None \<Rightarrow> [] | Some off \<Rightarrow> [(k, off)]) vs)"

definition level_values :: "registry \<Rightarrow> (float64 list \<Rightarrow> float64) \<Rightarrow> agg_env \<Rightarrow> level \<Rightarrow> job \<Rightarrow> nat
    \<Rightarrow> run_error + (vals \<times> vals) \<times> nat" where
  "level_values g agg env l j n =
     (let es = registry_edges g l in
      case run_sums agg env (source_keys es) (j_from j) (j_to j) n [] of Inl e \<Rightarrow> Inl e
      | Inr (sm, n) \<Rightarrow>
        let vs = apply_edges es sm;
            vs = add_offsets vs (period_offset_vals l (j_key j) (cs_offsets (ae_close env)) vs) in
        Inr ((merge_values [vs, apply_net (registry_nets g l) vs], sm), n))"

fun months :: "registry \<Rightarrow> (float64 list \<Rightarrow> float64) \<Rightarrow> agg_env \<Rightarrow> string \<Rightarrow> job list \<Rightarrow> run_state
    \<Rightarrow> run_error + run_state" where
  "months g agg env cur [] rs = Inr rs"
| "months g agg env cur (j # js) rs =
     (case level_values g agg env Monthly j (rs_reads rs) of Inl e \<Rightarrow> Inl e
      | Inr ((vs, sm), n) \<Rightarrow> months g agg env cur js (collect j cur vs (rs\<lparr>rs_reads := n\<rparr>)))"

definition fold_year :: "registry \<Rightarrow> job \<Rightarrow> vals \<Rightarrow> run_state \<Rightarrow> run_state" where
  "fold_year g j sm rs =
     (if j_freeze j \<and> rs_base_year rs < j_key j
      then let add = apply_edges (registry_edges g Total) sm in
        rs\<lparr>rs_folds := rs_folds rs @ [\<lparr>bf_year = j_key j, bf_add = add\<rparr>],
           rs_base := fold_values (rs_base rs) add, rs_base_year := j_key j\<rparr>
      else rs)"

fun years :: "registry \<Rightarrow> (float64 list \<Rightarrow> float64) \<Rightarrow> agg_env \<Rightarrow> string \<Rightarrow> job list \<Rightarrow> run_state
    \<Rightarrow> run_error + run_state" where
  "years g agg env cur [] rs = Inr rs"
| "years g agg env cur (j # js) rs =
     (case level_values g agg env Yearly j (rs_reads rs) of Inl e \<Rightarrow> Inl e
      | Inr ((vs, sm), n) \<Rightarrow>
          years g agg env cur js (fold_year g j sm (collect j cur vs (rs\<lparr>rs_reads := n\<rparr>))))"

definition total_job :: job where
  "total_job = \<lparr>j_level = Total, j_key = [], j_from = [], j_to = [], j_freeze = False\<rparr>"

definition totals_from :: "string \<Rightarrow> key_error + string" where
  "totals_from base_year = (if base_year = [] then Inr []
     else (case add_years base_year 1 of Inl e \<Rightarrow> Inl e | Inr nxt \<Rightarrow> Inr (nxt @ ''-01-01'')))"

definition run_totals :: "registry \<Rightarrow> (float64 list \<Rightarrow> float64) \<Rightarrow> agg_env \<Rightarrow> string \<Rightarrow> run_state
    \<Rightarrow> run_error + run_state" where
  "run_totals g agg env today rs =
     (case totals_from (rs_base_year rs) of Inl e \<Rightarrow> Inl (RunKey e)
      | Inr lo \<Rightarrow>
        let es = registry_edges g Total in
        (case run_sums agg env (source_keys es) lo today (rs_reads rs) [] of Inl e \<Rightarrow> Inl e
         | Inr (since, n) \<Rightarrow>
           let vs = totals es (rs_base rs) since;
               vs = merge_values [vs, apply_net (registry_nets g Total) vs] in
           Inr (collect total_job [] vs (rs\<lparr>rs_reads := n\<rparr>))))"

definition watermarks_of :: "close_state \<Rightarrow> watermarks" where
  "watermarks_of c = \<lparr>frozen_month = cs_month c, frozen_year = cs_year c,
     frozen_net_day = cs_net_day c, closed_through = cs_closed c\<rparr>"

definition compute :: "registry \<Rightarrow> (float64 list \<Rightarrow> float64) \<Rightarrow> agg_env \<Rightarrow> period
    \<Rightarrow> run_error + run_state" where
  "compute g agg env p =
     (case build_plan p (watermarks_of (ae_close env)) of Inl e \<Rightarrow> Inl (RunKey e)
      | Inr pl \<Rightarrow>
        let rs = \<lparr>rs_rows = [], rs_freezes = [], rs_folds = [], rs_current = [],
              rs_base = base_vals (registry_edges g Total) (cs_base (ae_close env)),
              rs_base_year = cs_base_year (ae_close env), rs_reads = 0\<rparr> in
        (case net_days g agg env (p_day p) (pl_days pl) rs of Inl e \<Rightarrow> Inl e | Inr rs \<Rightarrow>
         case months g agg env (p_month p) (pl_months pl) rs of Inl e \<Rightarrow> Inl e | Inr rs \<Rightarrow>
         case years g agg env (p_year p) (pl_years pl) rs of Inl e \<Rightarrow> Inl e | Inr rs \<Rightarrow>
         run_totals g agg env (p_day p) rs))"

definition run_write :: "agg_env \<Rightarrow> run_state \<Rightarrow> computed_write" where
  "run_write env rs = \<lparr>cw_rows = rs_rows rs, cw_freezes = rs_freezes rs, cw_folds = rs_folds rs,
     cw_at = ae_now env\<rparr>"

text \<open>Computed numbers as cache values; unknown keys are left out.\<close>

definition cache_values :: "registry \<Rightarrow> int \<Rightarrow> vals \<Rightarrow> (string \<times> reg_value) list" where
  "cache_values g ts vs = concat (map (\<lambda>(k, v). case by_key g k of None \<Rightarrow> []
     | Some reg \<Rightarrow> [(k, \<lparr>v_key = k, v_name = reg_name reg, v_raw = fdiv v (reg_scale reg), v_decoded = v,
         v_unit = reg_unit reg, v_time = ts, v_status = None\<rparr>)]) vs)"

text \<open>The rejected rows of a committed run are logged; the run counts as successful.\<close>

definition execute :: "registry \<Rightarrow> (float64 list \<Rightarrow> float64) \<Rightarrow> zone \<Rightarrow> agg_env \<Rightarrow> world
    \<Rightarrow> (run_error + storage_error list) \<times> world" where
  "execute g agg z env wd =
     (case compute g agg env (period_of z (ae_now env)) of Inl e \<Rightarrow> (Inl e, wd)
      | Inr rs \<Rightarrow> (case write_computed g (run_write env rs) (ae_faults env) (wd_store wd) of
          (Inl e, st) \<Rightarrow> (Inl (RunStore e), wd\<lparr>wd_store := st\<rparr>)
        | (Inr rej, st) \<Rightarrow>
            (case merge_domain domain_aggregator (cache_values g (ae_now env) (rs_current rs)) (ae_now env)
                (wd_cache wd) of (c, ev) \<Rightarrow>
              (Inr rej, wd\<lparr>wd_store := st, wd_cache := c,
                 wd_events := wd_events wd @ (case ev of None \<Rightarrow> [] | Some e \<Rightarrow> [e])\<rparr>))))"

section \<open>When a run starts\<close>

record aggregator =
  ag_status :: status
  ag_last_run :: "int option"
  ag_armed :: bool
  ag_debounce :: "int option"

definition new_aggregator :: aggregator where
  "new_aggregator = \<lparr>ag_status = new_status, ag_last_run = None, ag_armed = False, ag_debounce = None\<rparr>"

definition run_once :: "registry \<Rightarrow> (float64 list \<Rightarrow> float64) \<Rightarrow> zone \<Rightarrow> agg_env \<Rightarrow> aggregator \<times> world
    \<Rightarrow> aggregator \<times> world" where
  "run_once g agg z env s = (case s of (a, wd) \<Rightarrow>
     let a = a\<lparr>ag_status := beat (ae_beat env) (ag_status a)\<rparr> in
     if ae_has_data env = Inr False then (a, wd)
     else let a = a\<lparr>ag_last_run := Some (ae_now env)\<rparr>;
              (res, wd) = (case ae_has_data env of Inl e \<Rightarrow> (Inl (RunStore e), wd)
                | Inr b \<Rightarrow> execute g agg z env wd) in
       case res of
         Inl e \<Rightarrow> if ae_cancelled env then (a, wd)
           else (a\<lparr>ag_status := set_status Recovering ''aggregation run failed'' (ag_status a)\<rparr>, wd)
       | Inr rej \<Rightarrow> (a\<lparr>ag_status := set_status Healthy [] (ag_status a)\<rparr>, wd))"

text \<open>What an event asks for: a run now, or the delay after which the trailing run is due.\<close>

datatype reaction = RunNow | Arm int | Ignore

definition on_event :: "int \<Rightarrow> event \<Rightarrow> int \<Rightarrow> aggregator \<Rightarrow> reaction \<times> bool" where
  "on_event interval e now a =
     (if ev_kind e = PeriodClosedEvent then (RunNow, ag_armed a)
      else if ev_domain e \<noteq> domain_poller then (Ignore, ag_armed a)
      else let window = debounce_factor * interval in
        case ag_last_run a of None \<Rightarrow> (RunNow, ag_armed a)
        | Some t \<Rightarrow> if now - t \<ge> window then (RunNow, ag_armed a)
            else (if ag_armed a then Ignore else Arm (window - (now - t)), True))"

definition until_heartbeat :: "int \<Rightarrow> int \<Rightarrow> aggregator \<Rightarrow> int" where
  "until_heartbeat interval now a =
     (let hb = heartbeat_factor * interval in
      case ag_last_run a of None \<Rightarrow> hb
      | Some t \<Rightarrow> if hb - (now - t) > 0 then hb - (now - t) else hb)"

end
