(* ===== verification/AggregatorRun.thy ===== *)
theory AggregatorRun
  imports Aggregator PollerRun
begin

text \<open>
  What a run of the aggregator may do to the storage: it freezes only periods whose every day
  is closed, folds every year it freezes into the baseline, and so keeps two invariants of
  the storage that every other writer keeps as well.
\<close>

section \<open>Periods and their last days\<close>

fun period_end :: "level \<Rightarrow> string \<Rightarrow> string option" where
  "period_end Daily k = Some k"
| "period_end Monthly k = (case month_bounds k of Inl e \<Rightarrow> None | Inr (lo, hi) \<Rightarrow> Some hi)"
| "period_end Yearly k = (case year_bounds k of Inl e \<Rightarrow> None | Inr (lo, hi) \<Rightarrow> Some hi)"
| "period_end Total k = None"

definition ended_by :: "string \<Rightarrow> level \<Rightarrow> string \<Rightarrow> bool" where
  "ended_by ct l p \<longleftrightarrow> ct \<noteq> [] \<and> (case period_end l p of None \<Rightarrow> False | Some hi \<Rightarrow> hi \<le> ct)"

lemma ended_by_mono: "ended_by ct l p \<Longrightarrow> ct \<le> ct' \<Longrightarrow> ended_by ct' l p"
  by (auto simp: ended_by_def split: option.splits)

section \<open>Jobs of a plan\<close>

definition job_ok :: "watermarks \<Rightarrow> level \<Rightarrow> job \<Rightarrow> bool" where
  "job_ok w l j \<longleftrightarrow> j_level j = l \<and> (j_freeze j \<longrightarrow> ended_by (closed_through w) l (j_key j))"

lemma bounded_jobs_ok:
  "bounded_jobs p w l ks = Inr js \<Longrightarrow> l = Monthly \<or> l = Yearly \<Longrightarrow> j \<in> set js \<Longrightarrow> job_ok w l j"
  by (induction ks arbitrary: js)
    (auto simp: bounded_job_def job_ok_def ended_by_def split: sum.splits if_splits)

lemma build_plan_jobs:
  assumes "build_plan p w = Inr pl"
  shows "(\<forall>j \<in> set (pl_days pl). job_ok w Daily j) \<and> (\<forall>j \<in> set (pl_months pl). job_ok w Monthly j) \<and>
    (\<forall>j \<in> set (pl_years pl). job_ok w Yearly j)"
proof -
  obtain ds ms ys where 1: "day_jobs p w = Inr ds" and 2: "period_jobs p w Monthly (frozen_month w) = Inr ms"
    and 3: "period_jobs p w Yearly (frozen_year w) = Inr ys"
    and pl: "pl_days pl = ds" "pl_months pl = ms" "pl_years pl = ys"
    using assms by (auto simp: build_plan_def split: sum.splits)
  have "\<forall>j \<in> set ds. job_ok w Daily j"
    using 1 by (auto simp: day_jobs_def Let_def day_job_def job_ok_def ended_by_def split: sum.splits)
  moreover have "\<forall>j \<in> set ms. job_ok w Monthly j" "\<forall>j \<in> set ys. job_ok w Yearly j"
    using 2 3 by (auto simp: period_jobs_def split: sum.splits intro: bounded_jobs_ok)
  ultimately show ?thesis by (simp add: pl)
qed

section \<open>Freezes and folds of a run\<close>

definition freezes_ok :: "watermarks \<Rightarrow> string \<Rightarrow> run_state \<Rightarrow> bool" where
  "freezes_ok w base rs \<longleftrightarrow> base \<le> rs_base_year rs \<and>
     (\<forall>f \<in> set (rs_freezes rs). ended_by (closed_through w) (fz_level f) (fz_period f) \<and>
       (fz_level f = Yearly \<longrightarrow> fz_period f \<le> rs_base_year rs)) \<and>
     (rs_base_year rs = base \<or> (\<exists>f \<in> set (rs_folds rs). bf_year f = rs_base_year rs))"

lemma collect_simps [simp]:
  "rs_folds (collect j cur vs rs) = rs_folds rs" "rs_base_year (collect j cur vs rs) = rs_base_year rs"
  "rs_base (collect j cur vs rs) = rs_base rs"
  by (simp_all add: collect_def)

lemma collect_freezes_ok:
  "freezes_ok w base rs \<Longrightarrow> job_ok w l j \<Longrightarrow> l \<noteq> Yearly \<Longrightarrow> freezes_ok w base (collect j cur vs (rs\<lparr>rs_reads := n\<rparr>))"
  by (auto simp: freezes_ok_def job_ok_def collect_def)

lemma net_days_freezes:
  "net_days g agg env cur js rs = Inr rs' \<Longrightarrow> \<forall>j \<in> set js. job_ok w Daily j \<Longrightarrow> freezes_ok w base rs \<Longrightarrow>
    freezes_ok w base rs'"
  by (induction js arbitrary: rs) (auto simp: Let_def intro: collect_freezes_ok split: sum.splits)

lemma months_freezes:
  "months g agg env cur js rs = Inr rs' \<Longrightarrow> \<forall>j \<in> set js. job_ok w Monthly j \<Longrightarrow> freezes_ok w base rs \<Longrightarrow>
    freezes_ok w base rs'"
  by (induction js arbitrary: rs) (auto intro: collect_freezes_ok split: sum.splits)

lemma fold_year_freezes:
  "freezes_ok w base rs \<Longrightarrow> job_ok w Yearly j \<Longrightarrow>
    freezes_ok w base (fold_year g j sm (collect j cur vs (rs\<lparr>rs_reads := n\<rparr>)))"
  by (auto simp: freezes_ok_def job_ok_def collect_def fold_year_def Let_def)

lemma years_freezes:
  "years g agg env cur js rs = Inr rs' \<Longrightarrow> \<forall>j \<in> set js. job_ok w Yearly j \<Longrightarrow> freezes_ok w base rs \<Longrightarrow>
    freezes_ok w base rs'"
  by (induction js arbitrary: rs) (auto intro: fold_year_freezes split: sum.splits)

lemma run_totals_freezes:
  "run_totals g agg env cur rs = Inr rs' \<Longrightarrow> freezes_ok w base rs \<Longrightarrow> freezes_ok w base rs'"
  by (auto simp: run_totals_def Let_def freezes_ok_def collect_def total_job_def split: sum.splits)

lemma compute_freezes:
  assumes "compute g agg env p = Inr rs"
  shows "freezes_ok (watermarks_of (ae_close env)) (cs_base_year (ae_close env)) rs"
proof -
  let ?w = "watermarks_of (ae_close env)" and ?b = "cs_base_year (ae_close env)"
  let ?rs0 = "\<lparr>rs_rows = [], rs_freezes = [], rs_folds = [], rs_current = [],
    rs_base = base_vals (registry_edges g Total) (cs_base (ae_close env)), rs_base_year = ?b, rs_reads = 0\<rparr>"
  obtain pl rs1 rs2 rs3 where pl: "build_plan p ?w = Inr pl" and
    1: "net_days g agg env (p_day p) (pl_days pl) ?rs0 = Inr rs1" and
    2: "months g agg env (p_month p) (pl_months pl) rs1 = Inr rs2" and
    3: "years g agg env (p_year p) (pl_years pl) rs2 = Inr rs3" and
    4: "run_totals g agg env (p_day p) rs3 = Inr rs"
    using assms by (auto simp: compute_def Let_def split: sum.splits)
  note j = build_plan_jobs [OF pl]
  have "freezes_ok ?w ?b ?rs0" by (simp add: freezes_ok_def)
  with 1 j have "freezes_ok ?w ?b rs1" by (blast intro: net_days_freezes)
  with 2 j have "freezes_ok ?w ?b rs2" by (blast intro: months_freezes)
  with 3 j have "freezes_ok ?w ?b rs3" by (blast intro: years_freezes)
  with 4 show ?thesis by (rule run_totals_freezes)
qed

section \<open>The day every series is closed through\<close>

lemma close_through_Min:
  assumes "daily_keys g \<noteq> []"
  shows "close_through g m = (if \<exists>k \<in> set (daily_keys g). m_closed m k = [] then []
    else Min (m_closed m ` set (daily_keys g)))"
proof -
  obtain k ks where k: "daily_keys g = k # ks" using assms by (cases "daily_keys g") auto
  have "fold min (map (m_closed m) ks) (m_closed m k) = Min (set (map (m_closed m) (k # ks)))"
    by (simp only: list.map Min.set_eq_fold)
  then have f: "fold min (map (m_closed m) ks) (m_closed m k) = Min (m_closed m ` set (daily_keys g))"
    by (simp add: k)
  have "(\<exists>k \<in> set (daily_keys g). m_closed m k = []) \<longleftrightarrow> [] \<in> set (map (m_closed m) (daily_keys g))"
    by (force simp: image_iff)
  then show ?thesis using f by (simp add: close_through_def k Let_def)
qed

lemma close_through_le:
  assumes "k \<in> set (daily_keys g)" shows "close_through g m \<le> m_closed m k"
proof -
  have "daily_keys g \<noteq> []" using assms by auto
  then show ?thesis using assms by (simp add: close_through_Min)
qed

lemma close_through_mono:
  assumes "daily_keys g \<noteq> []" "\<And>k. m_closed m k \<le> m_closed m' k"
  shows "close_through g m \<le> close_through g m'"
proof -
  have ne: "m_closed m' k \<noteq> []" if "m_closed m k \<noteq> []" for k
    using assms(2) [of k] that by (metis Nil_le_Cons dual_order.antisym neq_Nil_conv)
  have "Min (m_closed m ` set (daily_keys g)) \<le> Min (m_closed m' ` set (daily_keys g))"
    using assms by (auto intro!: Min.boundedI intro: order_trans [OF Min_le])
  then show ?thesis using ne by (auto simp: close_through_Min assms(1))
qed

lemma close_through_cong: "m_closed m = m_closed m' \<Longrightarrow> close_through g m = close_through g m'"
  by (simp add: close_through_def)

section \<open>A poll keeps the sums of closed days\<close>

lemma filter_update:
  "\<not> P k \<Longrightarrow> filter (\<lambda>x. P (fst x)) (AList.update k v al) = filter (\<lambda>x. P (fst x)) al"
  by (induction al) auto

lemma write_poll_sum:
  assumes "write_poll g w faults s = (res, s')" "hi \<le> m_closed (s_meta s) k"
  shows "sum_rows agg (s_db s') k lo hi = sum_rows agg (s_db s) k lo hi"
proof -
  let ?F = "\<lambda>rs :: rows. filter (\<lambda>x. (\<lambda>(k', day). k' = k \<and> lo \<le> day \<and> day \<le> hi) (fst x)) rs"
  define P where "P = (\<lambda>(m :: meta, tx :: txn). hi \<le> m_closed m k \<and>
    ?F (d_daily (tx_db tx)) = ?F (d_daily (s_db s)))"
  have "\<exists>tx :: txn. tx_db tx = s_db s' \<and> P (s_meta s', tx)"
  proof (rule write_poll_inv [where P = P, OF assms(1)])
    show "P (s_meta s, tx)" if "tx_db tx = s_db s" for tx using that assms(2) by (simp add: P_def)
    show "P (m', tx')" if "P (m, tx)" "write_daily g r (m, tx) = Inr (m', tx')" for r m tx m' tx'
    proof -
      have "\<not> (dr_key r = k \<and> lo \<le> dr_day r \<and> dr_day r \<le> hi)"
        using that write_daily_Inr [OF that(2)] by (auto simp: P_def)
      then have "?F (max_upsert (dr_key r) (dr_day r) (dr_value r) (dr_raw r) (d_daily (tx_db tx))) =
          ?F (d_daily (tx_db tx))"
        by (auto simp: max_upsert_def split: option.split intro!: filter_update)
      then show ?thesis using that write_daily_Inr [OF that(2)] by (auto simp: P_def)
    qed
    show "P (m', tx')" if "P (m, tx)" "write_status g r (m, tx) = Inr (m', tx')" for r m tx m' tx'
      using that write_status_Inr [OF that(2)] by (auto simp: P_def)
    show "P (m', tx')" if "P (m, tx)" "close_day g r (m, tx) = Inr (m', tx')" for r m tx m' tx'
      using that close_day_Inr [OF that(2)]
      by (auto simp: P_def dest!: advance_Inr split: if_splits)
  qed
  then have "?F (d_daily (s_db s')) = ?F (d_daily (s_db s))" by (auto simp: P_def)
  moreover have "(\<lambda>((k', day), v :: float64 \<times> float64). k' = k \<and> lo \<le> day \<and> day \<le> hi) =
      (\<lambda>x. (\<lambda>(k', day). k' = k \<and> lo \<le> day \<and> day \<le> hi) (fst x))"
    by (auto simp: fun_eq_iff)
  ultimately show ?thesis by (simp add: sum_rows_def)
qed

section \<open>The writers of the storage\<close>

text \<open>
  The poller's writes, the retention and the two halves of an aggregator run: it reads the
  close state at its start and writes at its end, and the other writers run in between.
\<close>

inductive writer_step :: "registry \<Rightarrow> (float64 list \<Rightarrow> float64) \<Rightarrow> store \<times> close_state option
    \<Rightarrow> store \<times> close_state option \<Rightarrow> bool" for g agg where
  poll: "write_poll g w faults s = (res, s') \<Longrightarrow> writer_step g agg (s, c) (s', c)"
| clean: "cleanup_all cset z now f1 f2 f3 s = (errs, s') \<Longrightarrow> writer_step g agg (s, c) (s', c)"
| start: "writer_step g agg (s, c) (s, Some (close_state_of g s))"
| finish: "compute g agg env p = Inr rs \<Longrightarrow> ae_close env = c \<Longrightarrow>
    write_computed g (run_write env rs) faults s = (res, s') \<Longrightarrow>
    writer_step g agg (s, Some c) (s', None)"
| abandon: "writer_step g agg (s, Some c) (s, None)"

definition frozen_ok :: "registry \<Rightarrow> meta \<Rightarrow> bool" where
  "frozen_ok g m \<longleftrightarrow> (\<forall>l. l \<noteq> Total \<longrightarrow> ended_by (close_through g m) l (m_frozen m l)) \<and>
     m_frozen m Yearly \<le> m_base_year m"

definition writer_inv :: "registry \<Rightarrow> store \<times> close_state option \<Rightarrow> bool" where
  "writer_inv g s \<longleftrightarrow> frozen_ok g (s_meta (fst s)) \<and> (case snd s of None \<Rightarrow> True
     | Some c \<Rightarrow> cs_closed c \<le> close_through g (s_meta (fst s)) \<and> cs_base_year c \<le> m_base_year (s_meta (fst s)))"

lemma not_total_cases: "l \<noteq> Total \<longleftrightarrow> l = Daily \<or> l = Monthly \<or> l = Yearly"
  by (cases l) auto

lemma frozen_okI:
  assumes "frozen_ok g m" "close_through g m \<le> close_through g m'" "m_frozen m' = m_frozen m"
    "m_base_year m \<le> m_base_year m'"
  shows "frozen_ok g m'"
  using assms by (auto simp: frozen_ok_def intro: ended_by_mono order_trans)

lemma writer_inv_later:
  assumes "writer_inv g (s, c)" "close_through g (s_meta s) \<le> close_through g (s_meta s')"
    "m_frozen (s_meta s') = m_frozen (s_meta s)" "m_base_year (s_meta s) \<le> m_base_year (s_meta s')"
  shows "writer_inv g (s', c)"
  using assms frozen_okI [OF _ assms(2-4)]
  by (auto simp: writer_inv_def split: option.splits intro: order_trans)

lemma write_poll_base_year:
  assumes "write_poll g w faults s = (res, s')" shows "m_base_year (s_meta s') = m_base_year (s_meta s)"
proof -
  have "\<exists>tx :: txn. tx_db tx = s_db s' \<and> (\<lambda>(m, tx :: txn). m_base_year m = m_base_year (s_meta s)) (s_meta s', tx)"
    by (rule write_poll_inv [where P = "\<lambda>(m, tx :: txn). m_base_year m = m_base_year (s_meta s)", OF assms])
      (auto dest!: write_daily_Inr write_status_Inr close_day_Inr)
  then show ?thesis by simp
qed

lemma cleanup_marks:
  assumes "cleanup_all cfg z now f1 f2 f3 s = (errs, s')"
  shows "m_closed (s_meta s') = m_closed (s_meta s) \<and> m_frozen (s_meta s') = m_frozen (s_meta s) \<and>
    m_base_year (s_meta s') = m_base_year (s_meta s)"
proof -
  from assms obtain r1 s1 r2 s2 where
    1: "cleanup_periods (p_day (period_of z (now - set_daily_retention cfg))) f1 s = (r1, s1)" and
    2: "cleanup_status (now - set_error_retention cfg) f2 s1 = (r2, s2)" and
    3: "s_meta s' = s_meta s2" by (rule cleanup_all_split)
  show ?thesis using cleanup_periods_cases [OF 1] cleanup_status_frame [OF 2] 3 by auto
qed

lemma finish_inv:
  assumes "compute g agg env p = Inr rs" "write_computed g (run_write env rs) faults s = (res, s')"
    "writer_inv g (s, Some (ae_close env))"
  shows "writer_inv g (s', None)"
proof (cases res)
  case (Inl e)
  then have "s' = s" using assms(2) by (auto simp: write_computed_def split: sum.splits prod.splits)
  with assms(3) show ?thesis by (simp add: writer_inv_def)
next
  case (Inr rej)
  let ?m = "s_meta s" and ?m' = "s_meta s'"
  have ok: "frozen_ok g ?m" and through: "cs_closed (ae_close env) \<le> close_through g ?m"
    and base: "cs_base_year (ae_close env) \<le> m_base_year ?m"
    using assms(3) by (simp_all add: writer_inv_def)
  note fr = compute_freezes [OF assms(1), unfolded freezes_ok_def watermarks_of_def, simplified]
  have closed: "close_through g ?m' = close_through g ?m"
    by (rule close_through_cong, rule write_computed_closed [OF assms(2)])
  have "m_base_year ?m \<le> m_base_year ?m'" using write_computed_marks [OF assms(2)] by blast
  with base have "cs_base_year (ae_close env) \<le> m_base_year ?m'" by (rule order_trans)
  then have folds: "rs_base_year rs \<le> m_base_year ?m'"
    using fr folds_recorded [OF assms(2) [unfolded Inr]] unfolding run_write_def by fastforce
  have "ended_by (close_through g ?m') l (m_frozen ?m' l) \<and> (l = Yearly \<longrightarrow> m_frozen ?m' l \<le> m_base_year ?m')"
    if "l \<noteq> Total" for l
    using write_computed_marks [OF assms(2), of l]
  proof (elim conjE disjE bexE)
    assume "m_frozen ?m' l = m_frozen ?m l" "m_base_year ?m \<le> m_base_year ?m'"
    with ok that closed show ?thesis by (auto simp: frozen_ok_def intro: order_trans)
  next
    fix f assume "f \<in> set (cw_freezes (run_write env rs))" "fz_level f = l" "m_frozen ?m' l = fz_period f"
    with fr through folds closed show ?thesis
      by (auto simp: run_write_def intro: ended_by_mono order_trans)
  qed
  from this this [of Yearly] show ?thesis by (simp add: writer_inv_def frozen_ok_def)
qed

lemma writer_step_inv:
  assumes "writer_step g agg s s'" "daily_keys g \<noteq> []" "writer_inv g s" shows "writer_inv g s'"
  using assms(1)
proof cases
  case (poll w faults s res s' c)
  have "close_through g (s_meta s) \<le> close_through g (s_meta s')"
    by (rule close_through_mono [OF assms(2)]) (use write_poll_frame [OF poll(3)] in blast)
  with poll assms(3) show ?thesis using write_poll_frame [OF poll(3)] write_poll_base_year [OF poll(3)]
    by (auto intro: writer_inv_later)
next
  case (clean cset z now f1 f2 f3 s errs s' c)
  note m = cleanup_marks [OF clean(3)]
  then have "close_through g (s_meta s') = close_through g (s_meta s)" by (simp add: close_through_def)
  with m clean assms(3) show ?thesis by (auto intro: writer_inv_later)
next
  case (start s c)
  then show ?thesis using assms(3) by (simp add: writer_inv_def close_state_of_def Let_def)
next
  case (finish env p rs c faults s res s')
  then show ?thesis using assms(3) finish_inv [OF finish(3)] by simp
next
  case (abandon s c)
  then show ?thesis using assms(3) by (simp add: writer_inv_def)
qed

lemma writer_run_inv:
  "(writer_step g agg)\<^sup>*\<^sup>* s s' \<Longrightarrow> daily_keys g \<noteq> [] \<Longrightarrow> writer_inv g s \<Longrightarrow> writer_inv g s'"
  by (induction rule: rtranclp_induct) (auto intro: writer_step_inv)

lemma first_of_month_year:
  assumes "day_ok n"
  shows "month_first (month_index_of n) \<le> n" "year_start (year_of n) \<le> n"
proof -
  obtain y m d where d: "date_of n = Date y m d" by (cases "date_of n")
  have v: "valid_date (Date y m d)" "day_number (Date y m d) = n" using d by (metis valid_date_of, metis day_number_date_of)
  then have md: "1 \<le> m" "m \<le> 12" "1 \<le> d" by (simp_all add: valid_date_def)
  then have i: "month_index_of n = 12 * y + m - 1" by (simp add: month_index_of_def d)
  have "(12 * y + m - 1) div 12 = y" "(12 * y + m - 1) mod 12 = m - 1" using month_index [OF md(1,2), of y] by simp_all
  with v md show "month_first (month_index_of n) \<le> n" by (simp add: i month_first_def day_number_def)
  have "0 \<le> month_start (leap_day y) m" using md leap_day_01 [of y] by (intro month_start_nonneg) auto
  with v md show "year_start (year_of n) \<le> n" by (simp add: year_of_def d day_number_def)
qed

lemma cutover_frozen_ok:
  assumes "ensure_cutover g agg (period_of z t) faults s = (Inr (day, created), s')"
    "fresh_marks (s_meta s)" "731 \<le> day_index z t" "day_index z t < 3652059" "daily_keys g \<noteq> []"
  shows "frozen_ok g (s_meta s')"
proof -
  define n where "n = day_index z t"
  have n: "731 \<le> n" "n < 3652059" using assms(3,4) by (simp_all add: n_def)
  note c = ensure_cutover_marks [OF assms(1,2) n_def [symmetric]]
  have marks: "m_frozen (s_meta s') Monthly = month_key (month_index_of (n - 2) - 1)"
    "m_frozen (s_meta s') Yearly = fmt_year (year_of (n - 2) - 1)"
    "m_frozen (s_meta s') Daily = day_key (n - 2)"
    "\<forall>k \<in> set (daily_keys g). m_closed (s_meta s') k = day_key (n - 2)"
    "m_base_year (s_meta s') = fmt_year (year_of n - 1)"
    using c n by auto
  have ne: "day_key (n - 2) \<noteq> []" using day_key_nonempty by simp
  have "m_closed (s_meta s') ` set (daily_keys g) = {day_key (n - 2)}"
    using marks(4) assms(5) by (auto simp: image_iff) (metis list.set_intros(1) neq_Nil_conv)
  then have ct: "close_through g (s_meta s') = day_key (n - 2)"
    using marks(4) ne by (auto simp: close_through_Min assms(5))
  note y = year_bounds_of [of "n - 2"] and yn = year_bounds_of [of n]
  have ok: "day_ok (n - 2)" using n by (simp add: day_ok_iff)
  have "ended_by (day_key (n - 2)) Monthly (month_key (month_index_of (n - 2) - 1))"
    using y n first_of_month_year [OF ok] day_ok_month_last [of "month_index_of (n - 2) - 1"] ok ne
    by (simp add: ended_by_def month_bounds_key day_key_le_iff)
  moreover have "ended_by (day_key (n - 2)) Yearly (fmt_year (year_of (n - 2) - 1))"
    using y n first_of_month_year [OF ok] day_ok_year_last [of "year_of (n - 2) - 1"] ok ne
      year_bounds_key [of "year_of (n - 2) - 1"]
    by (simp add: ended_by_def day_key_le_iff year_ok_def)
  moreover have "ended_by (day_key (n - 2)) Daily (day_key (n - 2))" using ne by (simp add: ended_by_def)
  moreover have "fmt_year (year_of (n - 2) - 1) \<le> fmt_year (year_of n - 1)"
    using y yn n month_index_mono [of "n - 2" n] fmt_year_less_iff [of "year_of n - 1" "year_of (n - 2) - 1"]
    by (simp add: year_ok_def flip: not_less)
  ultimately show ?thesis unfolding frozen_ok_def ct
    by (simp add: not_total_cases imp_disjL all_conj_distrib marks(1-3) marks(5))
qed

text \<open>C2: What is frozen is final. From the first start on an empty meta table, over any run of poller
  writes, retention runs and aggregator runs that read the close state first and write later,
  with any failing statement in between: the frozen net day, month and year end on a day that
  every daily series is closed through, the frozen year is in the total baseline, and no later
  poller write changes a daily row or a sum up to that day. So a frozen value never goes
  stale.\<close>

theorem frozen_periods_final:
  assumes "ensure_cutover g agg (period_of z t) faults s0 = (Inr (day, created), s1)" "fresh_marks (s_meta s0)"
    "731 \<le> day_index z t" "day_index z t < 3652059" "daily_keys g \<noteq> []"
    "(writer_step g agg)\<^sup>*\<^sup>* (s1, None) (s, c)" "l \<noteq> Total" "write_poll g w faults' s = (res, s')"
  shows "m_frozen (s_meta s) Yearly \<le> m_base_year (s_meta s) \<and>
    (\<exists>hi. period_end l (m_frozen (s_meta s) l) = Some hi \<and> (\<forall>k \<in> set (daily_keys g).
      hi \<le> m_closed (s_meta s) k \<and> (\<forall>d \<le> hi. map_of (d_daily (s_db s')) (k, d) = map_of (d_daily (s_db s)) (k, d)) \<and>
      (\<forall>lo. sum_rows agg (s_db s') k lo hi = sum_rows agg (s_db s) k lo hi)))"
proof -
  have "writer_inv g (s1, None)" using cutover_frozen_ok [OF assms(1-5)] by (simp add: writer_inv_def)
  from writer_run_inv [OF assms(6,5) this] have ok: "frozen_ok g (s_meta s)" by (simp add: writer_inv_def)
  then obtain hi where hi: "period_end l (m_frozen (s_meta s) l) = Some hi" "hi \<le> close_through g (s_meta s)"
    using assms(7) by (auto simp: frozen_ok_def ended_by_def split: option.splits)
  have "hi \<le> m_closed (s_meta s) k" if "k \<in> set (daily_keys g)" for k
    using hi(2) close_through_le [OF that] by (rule order_trans)
  with hi(1) ok show ?thesis using write_poll_frame [OF assms(8)] write_poll_sum [OF assms(8)]
    by (auto simp: frozen_ok_def intro: order_trans)
qed

lemma february_cutover:
  "\<exists>s'. ensure_cutover solis_registry (\<lambda>vs. Fin 0) (period_of utc (19758 * ns_day)) [] empty_store
      = (Inr (day_key 738920, True), s')"
  by (rule cutover_commits [OF _ february_2024])
    (simp_all add: fresh_marks_def empty_store_def new_meta_def february_index)

lemma poll_run_once:
  "write_poll g w f s = (res, s') \<Longrightarrow> (writer_step g agg)\<^sup>*\<^sup>* (s, c) (s', c)"
  by (rule r_into_rtranclp, rule writer_step.poll)

theorem frozen_periods_final_witness:
  "\<exists>s s'. snd (write_poll solis_registry \<lparr>pw_daily = [], pw_status = [], pw_close = []\<rparr> [] s) = s' \<and>
    (\<exists>hi. period_end Daily (m_frozen (s_meta s) Daily) = Some hi \<and> hi \<le> m_closed (s_meta s) pv_key \<and>
      sum_rows (\<lambda>vs. Fin 0) (s_db s') pv_key [] hi = sum_rows (\<lambda>vs. Fin 0) (s_db s) pv_key [] hi)"
proof -
  let ?w = "\<lparr>pw_daily = [], pw_status = [], pw_close = []\<rparr>"
  obtain s1 where s1: "ensure_cutover solis_registry (\<lambda>vs. Fin 0) (period_of utc (19758 * ns_day)) [] empty_store
      = (Inr (day_key 738920, True), s1)" using february_cutover by blast
  obtain r2 s2 where 2: "write_poll solis_registry ?w [] s1 = (r2, s2)" by (metis surj_pair)
  obtain r3 s3 where 3: "write_poll solis_registry ?w [] s2 = (r3, s3)" by (metis surj_pair)
  have h: "fresh_marks (s_meta empty_store)" "731 \<le> day_index utc (19758 * ns_day)"
    "day_index utc (19758 * ns_day) < 3652059" "daily_keys solis_registry \<noteq> []" "Daily \<noteq> Total"
    unfolding february_2024(1) using pv_daily_key by (auto simp: fresh_marks_def empty_store_def new_meta_def)
  show ?thesis
    using frozen_periods_final [OF s1 h(1-4) poll_run_once [OF 2] h(5) 3] pv_daily_key 3
    by (intro exI [of _ s2] exI [of _ s3]) fastforce
qed

end
