(* ===== verification/AggregatorLoop.thy ===== *)
theory AggregatorLoop
  imports Aggregator
begin

text \<open>
  The select loop of internal/aggregator/aggregator.go: events, the debounce timer, the heartbeat
  and the beat. One round of the loop is one action; the action carries the environment of the
  run it may cause and the instant at which the loop resets the heartbeat afterwards. Which ready
  action the loop takes is the schedule's choice, so a schedule is a list of actions.
\<close>

section \<open>The loop\<close>

record agg_loop =
  al_agg :: "aggregator \<times> world"
  al_heartbeat :: int

datatype loop_action = EventReceived event | DebounceFired | HeartbeatFired | BeatFired

record loop_round =
  lr_env :: agg_env
  lr_after :: int
  lr_action :: loop_action

abbreviation round_at :: "loop_round \<Rightarrow> int" where "round_at r \<equiv> ae_now (lr_env r)"

definition last_run_of :: "agg_loop \<Rightarrow> int option" where
  "last_run_of s = ag_last_run (fst (al_agg s))"

definition debounce_of :: "agg_loop \<Rightarrow> int option" where
  "debounce_of s = ag_debounce (fst (al_agg s))"

definition armed :: "agg_loop \<Rightarrow> bool" where
  "armed s \<longleftrightarrow> ag_armed (fst (al_agg s))"

text \<open>The loop before its first round.\<close>

definition start_loop :: "int \<Rightarrow> int \<Rightarrow> aggregator \<times> world \<Rightarrow> agg_loop" where
  "start_loop interval now s = \<lparr>al_agg = (case s of (a, wd) \<Rightarrow>
       (a\<lparr>ag_status := beat now (ag_status a), ag_armed := False, ag_debounce := None\<rparr>, wd)),
     al_heartbeat = now + heartbeat_factor * interval\<rparr>"

text \<open>Whether a timer's channel is ready, and whether a round calls \<open>run\<close>.\<close>

definition ready :: "loop_round \<Rightarrow> agg_loop \<Rightarrow> bool" where
  "ready r s \<longleftrightarrow> (case lr_action r of
       DebounceFired \<Rightarrow> (case debounce_of s of None \<Rightarrow> False | Some d \<Rightarrow> d \<le> round_at r)
     | HeartbeatFired \<Rightarrow> al_heartbeat s \<le> round_at r
     | _ \<Rightarrow> True)"

definition calls_run :: "int \<Rightarrow> loop_round \<Rightarrow> agg_loop \<Rightarrow> bool" where
  "calls_run interval r s \<longleftrightarrow> (case lr_action r of
       EventReceived e \<Rightarrow> fst (on_event interval e (round_at r) (fst (al_agg s))) = RunNow
     | DebounceFired \<Rightarrow> True | HeartbeatFired \<Rightarrow> True | BeatFired \<Rightarrow> False)"

definition react :: "int \<Rightarrow> loop_round \<Rightarrow> aggregator \<Rightarrow> aggregator" where
  "react interval r a = (case lr_action r of
       EventReceived e \<Rightarrow> (case on_event interval e (round_at r) a of
           (Arm d, b) \<Rightarrow> a\<lparr>ag_armed := b, ag_debounce := Some (round_at r + d)\<rparr>
         | (_, b) \<Rightarrow> a\<lparr>ag_armed := b\<rparr>)
     | DebounceFired \<Rightarrow> a\<lparr>ag_armed := False, ag_debounce := None\<rparr>
     | HeartbeatFired \<Rightarrow> a
     | BeatFired \<Rightarrow> a\<lparr>ag_status := beat (ae_beat (lr_env r)) (ag_status a)\<rparr>)"

definition loop_round :: "registry \<Rightarrow> (float64 list \<Rightarrow> float64) \<Rightarrow> zone \<Rightarrow> int \<Rightarrow> loop_round \<Rightarrow> agg_loop \<Rightarrow> agg_loop" where
  "loop_round g agg z interval r s = (case al_agg s of (a, wd) \<Rightarrow>
     let s' = (react interval r a, wd);
         s' = (if calls_run interval r s then run_once g agg z (lr_env r) s' else s') in
     s\<lparr>al_agg := s', al_heartbeat := (if lr_action r = BeatFired then al_heartbeat s
       else lr_after r + until_heartbeat interval (lr_after r) (fst s'))\<rparr>)"

section \<open>Schedules\<close>

text \<open>Rounds follow each other, each takes a ready channel, and no timer that is due stays unserved for
  longer than \<open>lag\<close>.\<close>

fun schedule :: "registry \<Rightarrow> (float64 list \<Rightarrow> float64) \<Rightarrow> zone \<Rightarrow> int \<Rightarrow> int \<Rightarrow> int \<Rightarrow> agg_loop \<Rightarrow> loop_round list \<Rightarrow> bool" where
  "schedule g agg z interval lag now s [] = True"
| "schedule g agg z interval lag now s (r # rs) \<longleftrightarrow> now \<le> round_at r \<and> round_at r \<le> lr_after r \<and> ready r s \<and>
     round_at r \<le> al_heartbeat s + lag \<and> (\<forall>d. debounce_of s = Some d \<longrightarrow> round_at r \<le> d + lag) \<and>
     schedule g agg z interval lag (lr_after r) (loop_round g agg z interval r s) rs"

text \<open>The instants at which a schedule calls \<open>run\<close>.\<close>

fun run_times :: "registry \<Rightarrow> (float64 list \<Rightarrow> float64) \<Rightarrow> zone \<Rightarrow> int \<Rightarrow> agg_loop \<Rightarrow> loop_round list \<Rightarrow> int list" where
  "run_times g agg z interval s [] = []"
| "run_times g agg z interval s (r # rs) = (if calls_run interval r s then [round_at r] else [])
     @ run_times g agg z interval (loop_round g agg z interval r s) rs"

definition loop_inv :: "int \<Rightarrow> int \<Rightarrow> agg_loop \<Rightarrow> bool" where
  "loop_inv interval now s \<longleftrightarrow> armed s = (debounce_of s \<noteq> None) \<and>
     (\<forall>d. debounce_of s = Some d \<longrightarrow> d \<le> now + debounce_factor * interval) \<and>
     (\<forall>t. last_run_of s = Some t \<longrightarrow> t \<le> now) \<and> al_heartbeat s \<le> now + heartbeat_factor * interval"

lemma run_once_timers:
  "ag_armed (fst (run_once g agg z env s)) = ag_armed (fst s)"
  "ag_debounce (fst (run_once g agg z env s)) = ag_debounce (fst s)"
  "ag_last_run (fst (run_once g agg z env s)) = ag_last_run (fst s) \<or>
    ag_last_run (fst (run_once g agg z env s)) = Some (ae_now env)"
  by (auto simp: run_once_def Let_def split: prod.splits sum.splits)

lemma on_event_cases:
  assumes "on_event interval e now a = (x, b)"
  shows "(x = Ignore \<longrightarrow> b = ag_armed a) \<and> (x = RunNow \<longrightarrow> b = ag_armed a) \<and>
    (\<forall>d. x = Arm d \<longrightarrow> b \<and> \<not> ag_armed a \<and> (\<exists>t. ag_last_run a = Some t \<and> d = debounce_factor * interval - (now - t)))"
  using assms by (auto simp: on_event_def Let_def split: if_splits option.splits)

lemma until_heartbeat_bounds:
  assumes "0 < interval" "\<And>t. ag_last_run a = Some t \<Longrightarrow> t \<le> now"
  shows "0 < until_heartbeat interval now a" "until_heartbeat interval now a \<le> heartbeat_factor * interval"
  using assms by (auto simp: until_heartbeat_def Let_def heartbeat_factor_def split: option.split)

lemma loop_round_inv:
  assumes "loop_inv interval now s" "0 < interval" "now \<le> round_at r" "round_at r \<le> lr_after r"
  shows "loop_inv interval (lr_after r) (loop_round g agg z interval r s)"
proof -
  obtain a wd where s: "al_agg s = (a, wd)" by fastforce
  define a' where "a' = react interval r a"
  define s' where "s' = (if calls_run interval r s then run_once g agg z (lr_env r) (a', wd) else (a', wd))"
  have r': "loop_round g agg z interval r s = s\<lparr>al_agg := s', al_heartbeat := (if lr_action r = BeatFired then al_heartbeat s
       else lr_after r + until_heartbeat interval (lr_after r) (fst s'))\<rparr>"
    by (simp add: loop_round_def s Let_def a'_def s'_def)
  have a: "ag_armed a = (ag_debounce a \<noteq> None)" "\<And>d. ag_debounce a = Some d \<Longrightarrow> d \<le> now + debounce_factor * interval"
    "\<And>t. ag_last_run a = Some t \<Longrightarrow> t \<le> now" "al_heartbeat s \<le> now + heartbeat_factor * interval"
    using assms(1) by (auto simp: loop_inv_def s armed_def debounce_of_def last_run_of_def)
  have a': "ag_armed a' = (ag_debounce a' \<noteq> None)" "\<And>d. ag_debounce a' = Some d \<Longrightarrow> d \<le> lr_after r + debounce_factor * interval"
    "ag_last_run a' = ag_last_run a"
  proof -
    have le: "now \<le> lr_after r" using assms(3,4) by simp
    show "ag_last_run a' = ag_last_run a"
      by (simp add: a'_def react_def split: loop_action.split prod.split reaction.split)
    show "ag_armed a' = (ag_debounce a' \<noteq> None)"
    proof (cases "lr_action r")
      case (EventReceived e)
      obtain x b where "on_event interval e (round_at r) a = (x, b)" by fastforce
      then show ?thesis using EventReceived a(1) on_event_cases [of interval e "round_at r" a x b]
        by (cases x) (auto simp: a'_def react_def)
    qed (simp_all add: a'_def react_def a(1))
    fix d assume d: "ag_debounce a' = Some d"
    show "d \<le> lr_after r + debounce_factor * interval"
    proof (cases "ag_debounce a = Some d")
      case True
      then show ?thesis using a(2) le by force
    next
      case False
      then obtain e x b where e: "lr_action r = EventReceived e" "on_event interval e (round_at r) a = (Arm x, b)"
        "d = round_at r + x"
        using d by (auto simp: a'_def react_def split: loop_action.splits prod.splits reaction.splits)
      then obtain t where "ag_last_run a = Some t" "x = debounce_factor * interval - (round_at r - t)"
        using on_event_cases [OF e(2)] by auto
      then show ?thesis using a(3) e(3) le by force
    qed
  qed
  have s': "ag_armed (fst s') = ag_armed a'" "ag_debounce (fst s') = ag_debounce a'"
    "ag_last_run (fst s') = ag_last_run a' \<or> ag_last_run (fst s') = Some (round_at r)"
    using run_once_timers [of g agg z "lr_env r" "(a', wd)"] by (auto simp: s'_def)
  have last: "t \<le> lr_after r" if t: "ag_last_run (fst s') = Some t" for t
  proof -
    have "ag_last_run a = Some t \<or> t = round_at r" using s'(3) a'(3) t by auto
    then show ?thesis using a(3) [of t] assms(3,4) by auto
  qed
  have "al_heartbeat (loop_round g agg z interval r s) \<le> lr_after r + heartbeat_factor * interval"
    using until_heartbeat_bounds(2) [OF assms(2), of "fst s'" "lr_after r"] last a(4) assms(3,4) by (simp add: r')
  then show ?thesis using a' s' last by (simp add: loop_inv_def r' armed_def debounce_of_def last_run_of_def)
qed

lemma start_loop_inv: "0 < interval \<Longrightarrow> ag_last_run (fst s) = None \<Longrightarrow> loop_inv interval now (start_loop interval now s)"
  by (cases s) (simp add: loop_inv_def start_loop_def armed_def debounce_of_def last_run_of_def)

section \<open>Timers are served\<close>

lemma later_round: "\<exists>r \<in> A. x < f r \<Longrightarrow> y \<le> x \<Longrightarrow> \<exists>r \<in> A. y < (f r :: int)"
  by (meson le_less_trans)

lemma run_in_rest:
  assumes "\<exists>t \<in> set (run_times g agg z interval (loop_round g agg z interval r s) rs). lr_after r \<le> t \<and> t \<le> b"
    "now \<le> round_at r" "round_at r \<le> lr_after r"
  shows "\<exists>t \<in> set (run_times g agg z interval s (r # rs)). now \<le> t \<and> t \<le> b"
proof -
  obtain t where "t \<in> set (run_times g agg z interval (loop_round g agg z interval r s) rs)" "lr_after r \<le> t" "t \<le> b"
    using assms(1) by blast
  then show ?thesis using assms(2,3) by (intro bexI [of _ t]) auto
qed

lemma loop_round_last:
  "lr_action r = BeatFired \<Longrightarrow> al_heartbeat (loop_round g agg z interval r s) = al_heartbeat s"
  by (cases "al_agg s") (simp add: loop_round_def Let_def)

text \<open>A round that does not run keeps a pending trailing run.\<close>

lemma pending_kept:
  assumes "loop_inv interval now s" "debounce_of s = Some d" "\<not> calls_run interval r s"
  shows "debounce_of (loop_round g agg z interval r s) = Some d"
proof -
  obtain a wd where s: "al_agg s = (a, wd)" by fastforce
  have a: "ag_armed a" "ag_debounce a = Some d"
    using assms(1,2) by (auto simp: loop_inv_def s armed_def debounce_of_def)
  have "ag_debounce (react interval r a) = Some d"
  proof (cases "lr_action r")
    case (EventReceived e)
    obtain x b where x: "on_event interval e (round_at r) a = (x, b)" by fastforce
    then show ?thesis using EventReceived a on_event_cases [OF x] by (cases x) (auto simp: react_def)
  qed (use assms(3) a in \<open>auto simp: react_def calls_run_def\<close>)
  then show ?thesis using assms(3) by (simp add: loop_round_def s Let_def debounce_of_def)
qed

lemma pending_runs:
  assumes "schedule g agg z interval lag now s rs" "loop_inv interval now s" "0 < interval"
    "debounce_of s = Some d" "\<exists>r \<in> set rs. d + lag < round_at r"
  shows "\<exists>t \<in> set (run_times g agg z interval s rs). now \<le> t \<and> t \<le> d + lag"
  using assms
proof (induction rs arbitrary: now s)
  case (Cons r rs)
  have r: "now \<le> round_at r" "round_at r \<le> lr_after r" "round_at r \<le> d + lag"
    and rest: "schedule g agg z interval lag (lr_after r) (loop_round g agg z interval r s) rs"
    using Cons.prems(1,4) by auto
  show ?case
  proof (cases "calls_run interval r s")
    case True
    then show ?thesis using r by auto
  next
    case False
    have "\<exists>t \<in> set (run_times g agg z interval (loop_round g agg z interval r s) rs). lr_after r \<le> t \<and> t \<le> d + lag"
      using Cons.prems r by (intro Cons.IH rest loop_round_inv [OF Cons.prems(2,3)] pending_kept [OF Cons.prems(2,4) False]) auto
    then show ?thesis using r(1,2) by (rule run_in_rest)
  qed
qed simp

lemma event_pending:
  assumes "loop_inv interval now s" "0 < interval" "lr_action r = EventReceived e" "ev_domain e = domain_poller"
    "now \<le> round_at r" "\<not> calls_run interval r s"
  shows "\<exists>d. debounce_of (loop_round g agg z interval r s) = Some d \<and> d \<le> round_at r + debounce_factor * interval"
proof -
  obtain a wd where s: "al_agg s = (a, wd)" by fastforce
  obtain x b where x: "on_event interval e (round_at r) a = (x, b)" by fastforce
  have no: "x \<noteq> RunNow" using assms(3,6) by (simp add: calls_run_def s x)
  have a: "ag_armed a = (ag_debounce a \<noteq> None)" "\<And>d. ag_debounce a = Some d \<Longrightarrow> d \<le> now + debounce_factor * interval"
    "\<And>t. ag_last_run a = Some t \<Longrightarrow> t \<le> now"
    using assms(1) by (auto simp: loop_inv_def s armed_def debounce_of_def last_run_of_def)
  have "\<exists>d. ag_debounce (react interval r a) = Some d \<and> d \<le> round_at r + debounce_factor * interval"
  proof (cases x)
    case (Arm d)
    then obtain t where "ag_last_run a = Some t" "d = debounce_factor * interval - (round_at r - t)"
      using on_event_cases [OF x] by auto
    then show ?thesis using Arm a(3) assms(3,5) by (fastforce simp: react_def x)
  next
    case Ignore
    then have "ag_armed a" using x no assms(4) by (auto simp: on_event_def Let_def split: if_splits option.splits)
    then show ?thesis using Ignore a(1,2) assms(3,5) by (fastforce simp: react_def x)
  qed (use no in simp)
  then show ?thesis using assms(6) by (simp add: loop_round_def s Let_def debounce_of_def)
qed

text \<open>Reachability: a loop starts with an aggregator that never ran, and makes rounds.\<close>

inductive loop_reachable :: "registry \<Rightarrow> (float64 list \<Rightarrow> float64) \<Rightarrow> zone \<Rightarrow> int \<Rightarrow> int \<Rightarrow> agg_loop \<Rightarrow> bool"
  for g agg z interval where
  started: "loop_reachable g agg z interval now (start_loop interval now (new_aggregator, wd))"
| round: "loop_reachable g agg z interval now s \<Longrightarrow> now \<le> round_at r \<Longrightarrow> round_at r \<le> lr_after r \<Longrightarrow> ready r s \<Longrightarrow>
    loop_reachable g agg z interval (lr_after r) (loop_round g agg z interval r s)"

lemma loop_reachable_inv:
  "loop_reachable g agg z interval now s \<Longrightarrow> 0 < interval \<Longrightarrow> loop_inv interval now s"
proof (induction rule: loop_reachable.induct)
  case (started now wd)
  then show ?case by (intro start_loop_inv) (simp_all add: new_aggregator_def)
next
  case (round now s r)
  then show ?case by (intro loop_round_inv) auto
qed

text \<open>C18: No event of the poller is lost to the debounce: after any run of the loop, once an event of the
  poller's domain or the close of a period is received, the aggregator runs at once or at the latest four
  poll intervals later, plus the time a due timer may wait for the loop.\<close>

theorem poller_events_served:
  assumes "loop_reachable g agg z interval now s" "0 < interval"
    and "schedule g agg z interval lag now s (r # rs)"
    and "lr_action r = EventReceived e" "ev_domain e = domain_poller \<or> ev_kind e = PeriodClosedEvent"
    and "\<exists>r' \<in> set rs. round_at r + debounce_factor * interval + lag < round_at r'"
  shows "\<exists>t \<in> set (run_times g agg z interval s (r # rs)).
    round_at r \<le> t \<and> t \<le> max (round_at r) (round_at r + debounce_factor * interval + lag)"
proof (cases "calls_run interval r s")
  case False
  have inv: "loop_inv interval now s" using assms(1,2) by (rule loop_reachable_inv)
  have "ev_kind e \<noteq> PeriodClosedEvent" using False assms(4) by (auto simp: calls_run_def on_event_def)
  then have dom: "ev_domain e = domain_poller" using assms(5) by simp
  have r: "now \<le> round_at r" "round_at r \<le> lr_after r"
    and rest: "schedule g agg z interval lag (lr_after r) (loop_round g agg z interval r s) rs"
    using assms(3) by auto
  obtain d where d: "debounce_of (loop_round g agg z interval r s) = Some d" "d \<le> round_at r + debounce_factor * interval"
    using event_pending [OF inv assms(2,4) dom r(1) False] by blast
  have "\<exists>t \<in> set (run_times g agg z interval (loop_round g agg z interval r s) rs). lr_after r \<le> t \<and> t \<le> d + lag"
    using d(2) by (intro pending_runs [OF rest loop_round_inv [OF inv assms(2) r] assms(2) d(1)]
      later_round [OF assms(6)]) simp
  then obtain t where "t \<in> set (run_times g agg z interval (loop_round g agg z interval r s) rs)"
    "lr_after r \<le> t" "t \<le> d + lag" by blast
  then show ?thesis using r d(2) by (intro bexI [of _ t]) auto
qed simp

lemma quiet_runs:
  assumes "schedule g agg z interval lag now s rs" "\<forall>r \<in> set rs. \<forall>e. lr_action r \<noteq> EventReceived e"
    "\<exists>r \<in> set rs. al_heartbeat s + lag < round_at r"
  shows "\<exists>t \<in> set (run_times g agg z interval s rs). now \<le> t \<and> t \<le> al_heartbeat s + lag"
  using assms
proof (induction rs arbitrary: now s)
  case (Cons r rs)
  have r: "now \<le> round_at r" "round_at r \<le> lr_after r" "round_at r \<le> al_heartbeat s + lag"
    and rest: "schedule g agg z interval lag (lr_after r) (loop_round g agg z interval r s) rs"
    using Cons.prems(1) by auto
  show ?case
  proof (cases "calls_run interval r s")
    case True
    then show ?thesis using r by auto
  next
    case False
    then have "lr_action r = BeatFired" using Cons.prems(2) by (cases "lr_action r") (auto simp: calls_run_def)
    then have h: "al_heartbeat (loop_round g agg z interval r s) = al_heartbeat s" by (rule loop_round_last)
    have "\<exists>t \<in> set (run_times g agg z interval (loop_round g agg z interval r s) rs). lr_after r \<le> t \<and> t \<le> al_heartbeat s + lag"
      using Cons.IH [OF rest] Cons.prems(2,3) r(3) unfolding h by force
    then show ?thesis using r(1,2) by (rule run_in_rest)
  qed
qed simp

text \<open>The heartbeat keeps the stored periods fresh without events: whenever no event arrives for five poll
  intervals, plus the time a due timer may wait for the loop, the aggregator runs within them.\<close>

theorem heartbeat_runs:
  assumes "loop_reachable g agg z interval now s" "0 < interval" "schedule g agg z interval lag now s rs"
    and "\<forall>r \<in> set rs. \<forall>e. lr_action r \<noteq> EventReceived e"
    and "\<exists>r \<in> set rs. now + heartbeat_factor * interval + lag < round_at r"
  shows "\<exists>t \<in> set (run_times g agg z interval s rs). now \<le> t \<and> t \<le> now + heartbeat_factor * interval + lag"
proof -
  have h: "al_heartbeat s \<le> now + heartbeat_factor * interval"
    using loop_reachable_inv [OF assms(1,2)] by (simp add: loop_inv_def)
  then have "\<exists>r \<in> set rs. al_heartbeat s + lag < round_at r" by (intro later_round [OF assms(5)]) simp
  from quiet_runs [OF assms(3,4) this] show ?thesis using h by (meson add_right_mono order_trans)
qed

section \<open>An example\<close>

text \<open>An aggregator with an interval of 10 whose storage cannot be read: it runs at the first event, and
  the second one waits for the trailing run.\<close>

definition idle_env :: "int \<Rightarrow> agg_env" where
  "idle_env t = \<lparr>ae_now = t, ae_beat = t, ae_has_data = Inl DbFailure,
     ae_close = \<lparr>cs_cutover = [], cs_month = [], cs_year = [], cs_net_day = [], cs_closed = [], cs_base_year = [],
       cs_base = Map.empty, cs_offsets = Map.empty\<rparr>,
     ae_view = (\<lambda>_. \<lparr>d_daily = [], d_monthly = [], d_yearly = [], d_total = [], d_error = [], d_meta = []\<rparr>),
     ae_fail = (\<lambda>_. False), ae_faults = [], ae_cancelled = False\<rparr>"

definition example_round :: "int \<Rightarrow> loop_action \<Rightarrow> loop_round" where
  "example_round t act = \<lparr>lr_env = idle_env t, lr_after = t, lr_action = act\<rparr>"

definition poller_event :: event where
  "poller_event = \<lparr>ev_kind = ValuesUpdated, ev_domain = domain_poller, ev_keys = [], ev_at = 0, ev_day = []\<rparr>"

lemma idle_run: "run_once g agg z (idle_env t) (a, wd) = (a\<lparr>ag_status := set_status Recovering
    ''aggregation run failed'' (beat t (ag_status a)), ag_last_run := Some t\<rparr>, wd)"
  by (simp add: run_once_def idle_env_def Let_def)

lemmas example_rounds = example_round_def loop_round_def react_def calls_run_def ready_def debounce_of_def
  on_event_def until_heartbeat_def start_loop_def new_aggregator_def poller_event_def idle_run
  debounce_factor_def heartbeat_factor_def

lemma idle_now [simp]: "ae_now (idle_env t) = t"
  by (simp add: idle_env_def)

theorem poller_events_served_witness:
  "\<forall>g agg z wd. \<exists>t \<in> set (run_times g agg z 10 (loop_round g agg z 10 (example_round 1 (EventReceived poller_event))
      (start_loop 10 0 (new_aggregator, wd)))
    [example_round 2 (EventReceived poller_event), example_round 41 DebounceFired, example_round 60 BeatFired]).
    2 \<le> t \<and> t \<le> 47"
proof (intro allI)
  fix g agg z wd
  define r where "r = example_round 1 (EventReceived poller_event)"
  define s0 where "s0 = start_loop 10 0 (new_aggregator, wd)"
  have reach: "loop_reachable g agg z 10 (lr_after r) (loop_round g agg z 10 r s0)"
    unfolding s0_def by (rule loop_reachable.round [OF loop_reachable.started]) (simp_all add: r_def example_rounds)
  have sched: "schedule g agg z 10 5 (lr_after r) (loop_round g agg z 10 r s0)
      [example_round 2 (EventReceived poller_event), example_round 41 DebounceFired, example_round 60 BeatFired]"
    by (simp add: r_def s0_def example_rounds)
  have "\<exists>t \<in> set (run_times g agg z 10 (loop_round g agg z 10 r s0)
      [example_round 2 (EventReceived poller_event), example_round 41 DebounceFired, example_round 60 BeatFired]).
      round_at (example_round 2 (EventReceived poller_event)) \<le> t \<and>
      t \<le> max (round_at (example_round 2 (EventReceived poller_event)))
        (round_at (example_round 2 (EventReceived poller_event)) + debounce_factor * 10 + 5)"
    by (rule poller_events_served [OF reach _ sched, where e = poller_event])
      (simp_all add: example_round_def poller_event_def debounce_factor_def)
  then show "\<exists>t \<in> set (run_times g agg z 10 (loop_round g agg z 10 (example_round 1 (EventReceived poller_event))
      (start_loop 10 0 (new_aggregator, wd)))
    [example_round 2 (EventReceived poller_event), example_round 41 DebounceFired, example_round 60 BeatFired]).
    2 \<le> t \<and> t \<le> 47"
    unfolding r_def s0_def by (simp add: example_round_def debounce_factor_def del: run_times.simps)
qed

theorem heartbeat_runs_witness:
  "\<forall>g agg z wd. \<exists>t \<in> set (run_times g agg z 10 (start_loop 10 0 (new_aggregator, wd))
    [example_round 10 BeatFired, example_round 52 HeartbeatFired, example_round 60 BeatFired]). 0 \<le> t \<and> t \<le> 55"
proof (intro allI)
  fix g agg z wd
  have "schedule g agg z 10 5 0 (start_loop 10 0 (new_aggregator, wd))
      [example_round 10 BeatFired, example_round 52 HeartbeatFired, example_round 60 BeatFired]"
    by (simp add: example_rounds)
  from heartbeat_runs [OF loop_reachable.started _ this]
  show "\<exists>t \<in> set (run_times g agg z 10 (start_loop 10 0 (new_aggregator, wd))
    [example_round 10 BeatFired, example_round 52 HeartbeatFired, example_round 60 BeatFired]). 0 \<le> t \<and> t \<le> 55"
    by (simp add: example_round_def heartbeat_factor_def del: run_times.simps)
qed

end
