(* ===== verification/Lifecycle.thy ===== *)
theory Lifecycle
  imports Poller
begin

text \<open>
  Starting and stopping: the goroutine of the poller and the aggregator (Start and Stop of
  poller.go and aggregator.go), the timer loop of the poller, and the slot of util/slot.go
  through which app/factories.go publishes the Modbus client and the hub to those who use
  them, while the supervisor replaces instances. An operation under a mutex is one step;
  between two steps everything else may happen.
\<close>

section \<open>A worker\<close>

text \<open>\<open>wk_cancel\<close> says that Start set the cancel function, \<open>wk_ended\<close> that the context is done, \<open>wk_done\<close> that
  the loop closed its channel, \<open>wk_waiting\<close> that a Stop waits for it; goroutines and bus subscriptions are
  counted.\<close>

record worker =
  wk_stopped :: bool
  wk_cancel :: bool
  wk_ended :: bool
  wk_done :: bool
  wk_waiting :: bool
  wk_loops :: nat
  wk_subs :: nat

definition new_worker :: worker where
  "new_worker = \<lparr>wk_stopped = False, wk_cancel = False, wk_ended = False, wk_done = False, wk_waiting = False,
     wk_loops = 0, wk_subs = 0\<rparr>"

text \<open>The poller subscribes to nothing; the subscription of the aggregator fails when the bus is closed.\<close>

definition poller_start :: "worker \<Rightarrow> worker" where
  "poller_start w = (if wk_stopped w \<or> wk_cancel w then w
     else w\<lparr>wk_cancel := True, wk_loops := wk_loops w + 1\<rparr>)"

definition aggregator_start :: "bool \<Rightarrow> worker \<Rightarrow> bool \<times> worker" where
  "aggregator_start bus_closed w = (if wk_stopped w \<or> wk_cancel w then (True, w)
     else if bus_closed then (False, w)
     else (True, w\<lparr>wk_cancel := True, wk_subs := wk_subs w + 1, wk_loops := wk_loops w + 1\<rparr>))"

definition worker_stop :: "worker \<Rightarrow> worker" where
  "worker_stop w = (if wk_stopped w \<or> \<not> wk_cancel w then w\<lparr>wk_stopped := True\<rparr>
     else w\<lparr>wk_stopped := True, wk_ended := True, wk_waiting := True\<rparr>)"

definition loop_end :: "worker \<Rightarrow> worker" where
  "loop_end w = w\<lparr>wk_loops := wk_loops w - 1, wk_done := True\<rparr>"

definition stop_returns :: "bool \<Rightarrow> worker \<Rightarrow> worker" where
  "stop_returns subscribes w = w\<lparr>wk_waiting := False, wk_subs := (if subscribes then wk_subs w - 1 else wk_subs w)\<rparr>"

inductive worker_step :: "bool \<Rightarrow> worker \<Rightarrow> worker \<Rightarrow> bool" for subscribes where
  start_poller: "\<not> subscribes \<Longrightarrow> worker_step subscribes w (poller_start w)"
| start_aggregator: "subscribes \<Longrightarrow> worker_step subscribes w (snd (aggregator_start bus_closed w))"
| stop: "worker_step subscribes w (worker_stop w)"
| parent: "wk_cancel w \<Longrightarrow> worker_step subscribes w (w\<lparr>wk_ended := True\<rparr>)"
| ended: "wk_loops w > 0 \<Longrightarrow> wk_ended w \<Longrightarrow> worker_step subscribes w (loop_end w)"
| stopped: "wk_waiting w \<Longrightarrow> wk_done w \<Longrightarrow> worker_step subscribes w (stop_returns subscribes w)"

definition worker_inv :: "bool \<Rightarrow> worker \<Rightarrow> bool" where
  "worker_inv subscribes w \<longleftrightarrow> wk_loops w = (if wk_cancel w \<and> \<not> wk_done w then 1 else 0) \<and>
     (wk_done w \<longrightarrow> wk_cancel w) \<and> (wk_waiting w \<longrightarrow> wk_stopped w \<and> wk_cancel w \<and> wk_ended w) \<and>
     (wk_stopped w \<and> wk_cancel w \<and> \<not> wk_waiting w \<longrightarrow> wk_done w) \<and>
     wk_subs w = (if subscribes \<and> wk_cancel w \<and> (wk_stopped w \<longrightarrow> wk_waiting w) then 1 else 0)"

lemma worker_invD:
  assumes "worker_inv subscribes w"
  shows "wk_loops w = (if wk_cancel w \<and> \<not> wk_done w then 1 else 0)" "wk_done w \<Longrightarrow> wk_cancel w"
    "wk_waiting w \<Longrightarrow> wk_stopped w" "wk_waiting w \<Longrightarrow> wk_cancel w" "wk_waiting w \<Longrightarrow> wk_ended w"
    "wk_stopped w \<Longrightarrow> wk_cancel w \<Longrightarrow> \<not> wk_waiting w \<Longrightarrow> wk_done w"
    "wk_subs w = (if subscribes \<and> wk_cancel w \<and> (wk_stopped w \<longrightarrow> wk_waiting w) then 1 else 0)"
  using assms by (simp_all add: worker_inv_def)

lemma worker_step_inv: "worker_step subscribes w w' \<Longrightarrow> worker_inv subscribes w \<Longrightarrow> worker_inv subscribes w'"
proof (induction rule: worker_step.induct)
  case (start_poller w)
  then show ?case unfolding worker_inv_def poller_start_def
    by (cases "wk_stopped w"; cases "wk_cancel w"; simp)
next
  case (start_aggregator w bus_closed)
  then show ?case unfolding worker_inv_def aggregator_start_def
    by (cases "wk_stopped w"; cases "wk_cancel w"; cases bus_closed; simp)
next
  case (stop w)
  then show ?case unfolding worker_inv_def worker_stop_def
    by (cases "wk_stopped w"; cases "wk_cancel w"; cases "wk_waiting w"; simp)
next
  case (parent w)
  then show ?case unfolding worker_inv_def by (cases "wk_waiting w"; simp)
next
  case (ended w)
  then show ?case unfolding worker_inv_def loop_end_def
    by (cases "wk_cancel w"; cases "wk_done w"; cases "wk_waiting w"; simp)
next
  case (stopped w)
  then show ?case unfolding worker_inv_def stop_returns_def
    by (cases "wk_stopped w"; cases "wk_cancel w"; cases "wk_waiting w"; simp)
qed

lemma worker_run_inv: "(worker_step subscribes)\<^sup>*\<^sup>* w w' \<Longrightarrow> worker_inv subscribes w \<Longrightarrow> worker_inv subscribes w'"
  by (induction rule: rtranclp_induct) (auto intro: worker_step_inv)

lemma new_worker_inv: "worker_inv subscribes new_worker"
  by (simp add: worker_inv_def new_worker_def)

lemma stopped_stays: "worker_step subscribes w w' \<Longrightarrow> wk_stopped w \<Longrightarrow> wk_stopped w' \<and> wk_cancel w' = wk_cancel w"
  by (induction rule: worker_step.induct)
    (auto simp: poller_start_def aggregator_start_def worker_stop_def loop_end_def stop_returns_def)

text \<open>C19: The poller and the aggregator never run twice and leave nothing behind: after any mix of starts,
  stops and cancellations at most one goroutine and one subscription exist; once a Stop ran and none is
  waiting both are gone, and a Start that comes later changes nothing; a waiting Stop can always finish.\<close>

theorem worker_stops_cleanly:
  assumes "(worker_step subscribes)\<^sup>*\<^sup>* new_worker w"
  shows "wk_loops w \<le> 1 \<and> wk_subs w \<le> 1 \<and>
    (wk_stopped w \<and> \<not> wk_waiting w \<longrightarrow> wk_loops w = 0 \<and> wk_subs w = 0 \<and>
      poller_start w = w \<and> (\<forall>bus_closed. aggregator_start bus_closed w = (True, w))) \<and>
    (wk_waiting w \<longrightarrow> (\<exists>w'. (worker_step subscribes)\<^sup>*\<^sup>* w w' \<and> wk_stopped w' \<and> \<not> wk_waiting w'))"
proof -
  have inv: "worker_inv subscribes w" using assms new_worker_inv by (rule worker_run_inv)
  note d = worker_invD [OF inv]
  have fin: "\<exists>w'. (worker_step subscribes)\<^sup>*\<^sup>* w w' \<and> wk_stopped w' \<and> \<not> wk_waiting w'" if wt: "wk_waiting w"
  proof -
    define v where "v = (if wk_done w then w else loop_end w)"
    note st = d(3-5) [OF wt]
    have "(worker_step subscribes)\<^sup>*\<^sup>* w v"
    proof (cases "wk_done w")
      case False
      then have "worker_step subscribes w (loop_end w)" using d(1) st by (intro worker_step.ended) simp_all
      then show ?thesis using False by (simp add: v_def)
    qed (simp add: v_def)
    moreover have "worker_step subscribes v (stop_returns subscribes v)"
      using wt by (intro worker_step.stopped) (simp_all add: v_def loop_end_def)
    ultimately have "(worker_step subscribes)\<^sup>*\<^sup>* w (stop_returns subscribes v)" by (rule rtranclp.rtrancl_into_rtrancl)
    moreover have "wk_stopped (stop_returns subscribes v)" "\<not> wk_waiting (stop_returns subscribes v)"
      using st by (simp_all add: stop_returns_def v_def loop_end_def)
    ultimately show ?thesis by blast
  qed
  have "wk_loops w \<le> 1" "wk_subs w \<le> 1" using d(1,7) by simp_all
  moreover have "wk_loops w = 0 \<and> wk_subs w = 0 \<and> poller_start w = w \<and>
      (\<forall>bus_closed. aggregator_start bus_closed w = (True, w))" if "wk_stopped w" "\<not> wk_waiting w"
    using d(1,6,7) that by (cases "wk_cancel w") (simp_all add: poller_start_def aggregator_start_def)
  ultimately show ?thesis using fin by blast
qed

section \<open>The timer of the poller\<close>

text \<open>One round of the poll loop: the timer fires, a cycle runs until \<open>fin\<close>, the timer is set again.\<close>

record poll_loop =
  pl_state :: "poller \<times> world"
  pl_next :: int

definition poll_round :: "poller_settings \<Rightarrow> int \<Rightarrow> registry \<Rightarrow> rollover \<Rightarrow> zone \<Rightarrow> poll_env \<Rightarrow> int \<Rightarrow> poll_loop \<Rightarrow> poll_loop" where
  "poll_round cfg interval g r z env fin s =
     \<lparr>pl_state = snd (poll_cycle cfg g r z env (pl_state s)),
      pl_next = fin + max 0 (interval - (fin - en_start env))\<rparr>"

fun poll_rounds :: "poller_settings \<Rightarrow> int \<Rightarrow> registry \<Rightarrow> rollover \<Rightarrow> zone \<Rightarrow> int \<Rightarrow> poll_loop \<Rightarrow> (poll_env \<times> int) list \<Rightarrow> bool" where
  "poll_rounds cfg interval g r z lag s [] = True"
| "poll_rounds cfg interval g r z lag s ((env, fin) # rs) \<longleftrightarrow>
     pl_next s \<le> en_start env \<and> en_start env \<le> pl_next s + lag \<and> en_start env \<le> fin \<and>
     poll_rounds cfg interval g r z lag (poll_round cfg interval g r z env fin s) rs"

lemma poll_rounds_spaced:
  assumes "poll_rounds cfg interval g r z lag s rs" "Suc i < length rs"
  shows "en_start (fst (rs ! i)) + interval \<le> en_start (fst (rs ! Suc i)) \<and> snd (rs ! i) \<le> en_start (fst (rs ! Suc i)) \<and>
    en_start (fst (rs ! Suc i)) \<le> max (snd (rs ! i)) (en_start (fst (rs ! i)) + interval) + lag"
  using assms
proof (induction rs arbitrary: s i)
  case (Cons x rs)
  obtain env fin where x: "x = (env, fin)" by fastforce
  show ?case
  proof (cases i)
    case 0
    then obtain env' fin' rs' where rs: "rs = (env', fin') # rs'" using Cons.prems(2) by (cases rs) auto
    then have "pl_next (poll_round cfg interval g r z env fin s) \<le> en_start env'"
      "en_start env' \<le> pl_next (poll_round cfg interval g r z env fin s) + lag"
      using Cons.prems(1) by (auto simp: x)
    then show ?thesis by (auto simp: x rs 0 poll_round_def max_def split: if_splits)
  next
    case (Suc j)
    then show ?thesis using Cons.IH [of "poll_round cfg interval g r z env fin s" j] Cons.prems by (simp add: x)
  qed
qed simp

section \<open>The slot\<close>

text \<open>A store allocates a new pointer, and every instance stores once, so a pointer is named by the number of
  the instance that stored it.\<close>

type_synonym slot = "nat option"

definition slot_store :: "nat \<Rightarrow> slot \<Rightarrow> slot" where "slot_store i s = Some i"
definition slot_load :: "slot \<Rightarrow> nat option" where "slot_load s = s"

text \<open>The two halves of \<open>ClearIf\<close>: whether the loaded value is the caller's own, and the compare and swap.\<close>

definition slot_mine :: "nat \<Rightarrow> slot \<Rightarrow> bool" where "slot_mine i s \<longleftrightarrow> slot_load s = Some i"
definition slot_swap :: "nat \<Rightarrow> slot \<Rightarrow> bool \<times> slot" where
  "slot_swap i s = (if s = Some i then (True, None) else (False, s))"

datatype place = Fresh | Running | Ending | Looking | Swapping | Closing | Closed

record shared =
  sh_slot :: slot
  sh_place :: "nat \<Rightarrow> place"
  sh_stopped :: "nat \<Rightarrow> bool"
  sh_launched :: "nat \<Rightarrow> bool"
  sh_newest :: "nat option"

definition new_shared :: shared where
  "new_shared = \<lparr>sh_slot = None, sh_place = (\<lambda>_. Fresh), sh_stopped = (\<lambda>_. False), sh_launched = (\<lambda>_. False),
     sh_newest = None\<rparr>"

definition at_place :: "nat \<Rightarrow> place \<Rightarrow> shared \<Rightarrow> shared" where
  "at_place i p s = s\<lparr>sh_place := (sh_place s)(i := p)\<rparr>"

definition publish :: "nat \<Rightarrow> shared \<Rightarrow> shared" where
  "publish i s = s\<lparr>sh_slot := slot_store i (sh_slot s), sh_place := (sh_place s)(i := Running), sh_newest := Some i\<rparr>"

text \<open>The Modbus component publishes under the lock that also guards the flag; an instance that is stopped
  before its start only closes its client.\<close>

definition modbus_start :: "nat \<Rightarrow> shared \<Rightarrow> shared" where
  "modbus_start i s = (if sh_stopped s i \<or> sh_place s i \<noteq> Fresh then s else publish i s)"

definition modbus_stop :: "nat \<Rightarrow> shared \<Rightarrow> shared" where
  "modbus_stop i s = (let was = sh_stopped s i; s = s\<lparr>sh_stopped := (sh_stopped s)(i := True)\<rparr> in
     if was then s else if sh_place s i = Fresh then at_place i Closing s else at_place i Ending s)"

text \<open>The hub component starts its hub first and then publishes it, unless it was stopped in between. Its Stop is
  called once, by the supervisor; a second one would repeat the clearing, which is left out.\<close>

definition hub_launch :: "nat \<Rightarrow> shared \<Rightarrow> shared" where
  "hub_launch i s = s\<lparr>sh_launched := (sh_launched s)(i := True)\<rparr>"

definition hub_publish :: "nat \<Rightarrow> shared \<Rightarrow> shared" where
  "hub_publish i s = (let s = s\<lparr>sh_launched := (sh_launched s)(i := False)\<rparr> in
     if sh_stopped s i then s else publish i s)"

definition hub_stop :: "nat \<Rightarrow> shared \<Rightarrow> shared" where
  "hub_stop i s = (if sh_stopped s i then s
     else at_place i Looking (s\<lparr>sh_stopped := (sh_stopped s)(i := True)\<rparr>))"

text \<open>The steps of \<open>ClearIf\<close>: load and compare, then swap, and again if somebody stored in between.\<close>

definition clear_look :: "nat \<Rightarrow> shared \<Rightarrow> shared" where
  "clear_look i s = at_place i (if slot_mine i (sh_slot s) then Swapping else Closing) s"

definition clear_swap :: "nat \<Rightarrow> shared \<Rightarrow> shared" where
  "clear_swap i s = (case slot_swap i (sh_slot s) of (ok, sl) \<Rightarrow>
     at_place i (if ok then Closing else Looking) (s\<lparr>sh_slot := sl\<rparr>))"

inductive shared_step :: "shared \<Rightarrow> shared \<Rightarrow> bool" where
  modbus_start: "shared_step s (modbus_start i s)"
| modbus_stop: "shared_step s (modbus_stop i s)"
| hub_launch: "sh_place s i = Fresh \<Longrightarrow> shared_step s (hub_launch i s)"
| hub_publish: "sh_launched s i \<Longrightarrow> sh_place s i = Fresh \<or> sh_stopped s i \<Longrightarrow> shared_step s (hub_publish i s)"
| hub_stop: "shared_step s (hub_stop i s)"
| loop_ends: "sh_place s i = Ending \<Longrightarrow> shared_step s (at_place i Looking s)"
| look: "sh_place s i = Looking \<Longrightarrow> shared_step s (clear_look i s)"
| swap: "sh_place s i = Swapping \<Longrightarrow> shared_step s (clear_swap i s)"
| close: "sh_place s i = Closing \<Longrightarrow> shared_step s (at_place i Closed s)"

definition shared_inv :: "shared \<Rightarrow> bool" where
  "shared_inv s \<longleftrightarrow>
     (\<forall>i. sh_slot s = Some i \<longrightarrow> sh_place s i \<in> {Running, Ending, Looking, Swapping}) \<and>
     (\<forall>i. sh_stopped s i = (sh_place s i \<in> {Ending, Looking, Swapping, Closing, Closed})) \<and>
     (\<forall>i. sh_newest s = Some i \<and> \<not> sh_stopped s i \<longrightarrow> sh_slot s = Some i)"

lemma new_shared_inv: "shared_inv new_shared"
  by (simp add: shared_inv_def new_shared_def)

lemma shared_step_inv: "shared_step s s' \<Longrightarrow> shared_inv s \<Longrightarrow> shared_inv s'"
  apply (induction rule: shared_step.induct)
  subgoal by (auto simp: shared_inv_def modbus_start_def publish_def slot_store_def split: if_splits)
  subgoal by (auto simp: shared_inv_def modbus_stop_def at_place_def Let_def split: if_splits)
  subgoal by (auto simp: shared_inv_def hub_launch_def)
  subgoal by (auto simp: shared_inv_def hub_publish_def publish_def slot_store_def Let_def)
  subgoal by (auto simp: shared_inv_def hub_stop_def at_place_def)
  subgoal by (auto simp: shared_inv_def at_place_def)
  subgoal by (auto simp: shared_inv_def clear_look_def at_place_def slot_mine_def slot_load_def)
  subgoal by (auto simp: shared_inv_def clear_swap_def at_place_def slot_swap_def split: if_splits)
  subgoal by (auto simp: shared_inv_def at_place_def)
  done

text \<open>C20: The slot hands out live instances only: however starts, stops and the clearing of several instances
  interleave, what it holds was published and is neither closed nor about to be, and a stopped instance
  never withdraws a successor: the instance published last stays in the slot until it is stopped itself.\<close>

theorem slot_holds_live_instance:
  assumes "shared_step\<^sup>*\<^sup>* new_shared s"
  shows "(\<forall>i. slot_load (sh_slot s) = Some i \<longrightarrow> sh_place s i \<notin> {Fresh, Closing, Closed}) \<and>
    (\<forall>i. sh_newest s = Some i \<and> \<not> sh_stopped s i \<longrightarrow> slot_load (sh_slot s) = Some i)"
proof -
  have "shared_inv s" using assms
    by (induction rule: rtranclp_induct) (auto intro: new_shared_inv shared_step_inv)
  then show ?thesis by (auto simp: shared_inv_def slot_load_def)
qed

section \<open>Examples\<close>

theorem worker_stops_cleanly_witness:
  "\<exists>w'. (worker_step False)\<^sup>*\<^sup>* (worker_stop (poller_start new_worker)) w' \<and> wk_stopped w' \<and> \<not> wk_waiting w'"
proof -
  have "worker_step False new_worker (poller_start new_worker)" by (rule worker_step.start_poller) simp
  moreover have "worker_step False (poller_start new_worker) (worker_stop (poller_start new_worker))"
    by (rule worker_step.stop)
  ultimately have "(worker_step False)\<^sup>*\<^sup>* new_worker (worker_stop (poller_start new_worker))" by simp
  moreover have "wk_waiting (worker_stop (poller_start new_worker))"
    by (simp add: worker_stop_def poller_start_def new_worker_def)
  ultimately show ?thesis using worker_stops_cleanly by blast
qed

text \<open>Instance 0 hangs in its Stop while instance 1 takes over.\<close>

theorem slot_holds_live_instance_witness:
  "slot_load (sh_slot (modbus_start 1 (modbus_stop 0 (modbus_start 0 new_shared)))) = Some 1"
proof -
  have "shared_step new_shared (modbus_start 0 new_shared)" by (rule shared_step.modbus_start)
  moreover have "shared_step (modbus_start 0 new_shared) (modbus_stop 0 (modbus_start 0 new_shared))"
    by (rule shared_step.modbus_stop)
  moreover have "shared_step (modbus_stop 0 (modbus_start 0 new_shared))
      (modbus_start 1 (modbus_stop 0 (modbus_start 0 new_shared)))" by (rule shared_step.modbus_start)
  ultimately have "shared_step\<^sup>*\<^sup>* new_shared (modbus_start 1 (modbus_stop 0 (modbus_start 0 new_shared)))"
    by (meson rtranclp.rtrancl_refl rtranclp.rtrancl_into_rtrancl)
  moreover have "sh_newest (modbus_start 1 (modbus_stop 0 (modbus_start 0 new_shared))) = Some 1"
    "\<not> sh_stopped (modbus_start 1 (modbus_stop 0 (modbus_start 0 new_shared))) 1"
    by (simp_all add: modbus_start_def modbus_stop_def publish_def new_shared_def at_place_def Let_def)
  ultimately show ?thesis using slot_holds_live_instance by blast
qed

end
