(* ===== verification/Supervisor.thy ===== *)
theory Supervisor
  imports Status "HOL-Library.AList"
begin

text \<open>
  internal/health/supervisor.go, managed.go and health.go: the supervisor that creates the
  restartable components through their factories, restarts what failed or fell silent within
  a budget, and otherwise cancels the root context, so the process exits. Instants and
  durations are nanoseconds. A sweep holds the supervisor's lock; reports of instances and
  their own state arrive between the sweeps. What a factory returns, whether a Stop returned
  in time and what a probe answers is the environment of a sweep. Reasons are the values the
  texts print.
\<close>

section \<open>Constants\<close>

definition restart_budget :: int where "restart_budget = 3"
definition healthy_grace_factor :: int where "healthy_grace_factor = 3"
definition start_grace_factor :: int where "start_grace_factor = 5"
definition recovering_grace_factor :: int where "recovering_grace_factor = 10"
definition min_sweep_interval :: int where "min_sweep_interval = 5000000000"
definition stale_snapshot_factor :: int where "stale_snapshot_factor = 3"
definition sweeps_per_interval :: int where "sweeps_per_interval = 2"
definition supervisor_name :: string where "supervisor_name = ''health''"

lemmas supervision_constants = restart_budget_def healthy_grace_factor_def start_grace_factor_def
  recovering_grace_factor_def min_sweep_interval_def stale_snapshot_factor_def sweeps_per_interval_def

section \<open>Components\<close>

datatype reason = Reported string | NoHeartbeat int int | BudgetExhausted reason | StopTimedOut reason
  | FactoryFailed string | RestartedTimes int | PartFailed string | Stalled int int

abbreviation no_reason :: reason where "no_reason \<equiv> Reported []"

text \<open>\<open>mg_comp\<close> is the state and heartbeat the current instance shows; \<open>mg_live\<close> whether its
  context is still to be cancelled.\<close>

record managed =
  mg_name :: string
  mg_comp :: "status option"
  mg_live :: bool
  mg_started :: int
  mg_failures :: int
  mg_latched :: bool
  mg_gen :: int
  mg_reported :: bool
  mg_reason :: reason

definition new_managed :: "string \<Rightarrow> managed" where
  "new_managed name = \<lparr>mg_name = name, mg_comp = None, mg_live = False, mg_started = 0, mg_failures = 0,
     mg_latched = False, mg_gen = 0, mg_reported = False, mg_reason = no_reason\<rparr>"

definition reset_managed :: "int \<Rightarrow> managed \<Rightarrow> managed" where
  "reset_managed now m = m\<lparr>mg_gen := mg_gen m + 1, mg_started := now, mg_reported := False,
     mg_reason := no_reason\<rparr>"

definition report :: "int \<Rightarrow> health_state \<Rightarrow> reason \<Rightarrow> managed \<Rightarrow> managed" where
  "report gen st why m = (if gen \<noteq> mg_gen m then m
     else m\<lparr>mg_reported := (mg_reported m \<or> st = Failed), mg_reason := why\<rparr>)"

definition managed_state :: "managed \<Rightarrow> health_state" where
  "managed_state m = (case mg_comp m of None \<Rightarrow> Failed
     | Some c \<Rightarrow> if mg_latched m \<or> mg_reported m then Failed else hs_state c)"

definition grace_for :: "health_state \<Rightarrow> int \<Rightarrow> int" where
  "grace_for st interval = (if st = Recovering then recovering_grace_factor * interval
     else healthy_grace_factor * interval)"

definition reset_failures :: "health_state \<Rightarrow> int option \<Rightarrow> int \<Rightarrow> managed \<Rightarrow> managed" where
  "reset_failures st b interval m = (case b of None \<Rightarrow> m
     | Some t \<Rightarrow> if st = Healthy \<and> 0 < mg_failures m \<and> t - mg_started m \<ge> healthy_grace_factor * interval
         then m\<lparr>mg_failures := 0\<rparr> else m)"

text \<open>The reason for a restart, if one is needed, and the entry with its counter reset.\<close>

definition evaluate :: "int \<Rightarrow> int \<Rightarrow> managed \<Rightarrow> reason option \<times> managed" where
  "evaluate now interval m =
     (if mg_latched m then (None, m)
      else let st = managed_state m in
      if st = Failed then (Some (mg_reason m), m)
      else let b = (case mg_comp m of None \<Rightarrow> None | Some c \<Rightarrow> last_beat c);
               (ref, grace) = (case b of
                   Some t \<Rightarrow> if mg_started m < t then (t, grace_for st interval)
                     else (mg_started m, start_grace_factor * interval)
                 | None \<Rightarrow> (mg_started m, start_grace_factor * interval));
               silent = now - ref in
        if grace < silent then (Some (NoHeartbeat silent grace), m)
        else (None, reset_failures st b interval m))"

definition restart_failed :: "health_state \<Rightarrow> managed \<Rightarrow> bool" where
  "restart_failed st m \<longleftrightarrow> mg_latched m \<or> 1 < mg_failures m \<or> (mg_failures m = 1 \<and> st = Failed)"

record component_status =
  cs_state :: health_state
  cs_why :: reason
  cs_beat :: "int option"
  cs_restarts :: int
  cs_restartable :: bool

definition status_of :: "managed \<Rightarrow> component_status" where
  "status_of m = (let st = managed_state m in
     \<lparr>cs_state = st, cs_why = (if st \<noteq> Healthy then mg_reason m else no_reason),
      cs_beat = (case mg_comp m of None \<Rightarrow> None | Some c \<Rightarrow> last_beat c),
      cs_restarts = mg_failures m, cs_restartable = True\<rparr>)"

section \<open>The supervisor\<close>

record watched =
  wt_name :: string
  wt_state :: health_state
  wt_reason :: string

datatype overall = StatusOK | StatusDegraded | StatusFailed

record snapshot =
  sn_status :: overall
  sn_component :: string
  sn_reason :: reason
  sn_components :: "(string \<times> component_status) list"
  sn_at :: int

datatype cause = Shutdown | ParentDone | HealthFatal string reason

record supervisor =
  sv_interval :: int
  sv_cause :: "cause option"
  sv_managed :: "managed list"
  sv_watched :: "watched list"
  sv_snap :: snapshot

definition new_supervisor :: "int \<Rightarrow> int \<Rightarrow> supervisor" where
  "new_supervisor interval now = \<lparr>sv_interval = interval, sv_cause = None, sv_managed = [], sv_watched = [],
     sv_snap = \<lparr>sn_status = StatusOK, sn_component = [], sn_reason = no_reason, sn_components = [],
       sn_at = now\<rparr>\<rparr>"

definition manage :: "string \<Rightarrow> supervisor \<Rightarrow> supervisor" where
  "manage name s = s\<lparr>sv_managed := sv_managed s @ [new_managed name]\<rparr>"

definition watch :: "string \<Rightarrow> supervisor \<Rightarrow> supervisor" where
  "watch name s = s\<lparr>sv_watched := sv_watched s @ [\<lparr>wt_name = name, wt_state = Healthy, wt_reason = []\<rparr>]\<rparr>"

text \<open>The first cancellation of a context sets its cause.\<close>

definition cancel :: "cause \<Rightarrow> cause option \<Rightarrow> cause option" where
  "cancel c old = (case old of None \<Rightarrow> Some c | Some _ \<Rightarrow> old)"

definition sweep_interval :: "int \<Rightarrow> int" where
  "sweep_interval interval = max (interval div sweeps_per_interval) min_sweep_interval"

definition snapshot_at :: "int \<Rightarrow> supervisor \<Rightarrow> snapshot" where
  "snapshot_at now s = (let snap = sv_snap s;
       max_age = stale_snapshot_factor * sweep_interval (sv_interval s);
       age = now - sn_at snap in
     if max_age < age \<and> sn_status snap \<noteq> StatusFailed
     then snap\<lparr>sn_status := StatusFailed, sn_component := supervisor_name, sn_reason := Stalled age max_age\<rparr>
     else snap)"

section \<open>Starting, stopping, restarting\<close>

text \<open>What happens to one component: whether its Stop returns in time, the instant of the next
  start and what the factory yields (an error or panic, or an instance).\<close>

record life =
  li_stops :: bool
  li_now :: int
  li_made :: "string + status"

definition start :: "life \<Rightarrow> managed \<Rightarrow> managed" where
  "start li m = (let m = reset_managed (li_now li) m in
     case li_made li of Inl e \<Rightarrow> m\<lparr>mg_comp := None, mg_reason := FactoryFailed e\<rparr>
     | Inr c \<Rightarrow> m\<lparr>mg_comp := Some c, mg_live := True\<rparr>)"

definition stop :: "life \<Rightarrow> managed \<Rightarrow> bool \<times> managed" where
  "stop li m = (let m = m\<lparr>mg_live := False\<rparr> in
     if mg_comp m = None \<or> li_stops li then (True, m) else (False, m\<lparr>mg_comp := None\<rparr>))"

definition latch :: "reason \<Rightarrow> managed \<times> cause option \<Rightarrow> managed \<times> cause option" where
  "latch why s = (case s of (m, c) \<Rightarrow> (m\<lparr>mg_latched := True, mg_reason := why\<rparr>,
     cancel (HealthFatal (mg_name m) why) c))"

definition restart :: "life \<Rightarrow> reason \<Rightarrow> managed \<times> cause option \<Rightarrow> managed \<times> cause option" where
  "restart li why s = (case s of (m, c) \<Rightarrow>
     if mg_failures m \<ge> restart_budget then latch (BudgetExhausted why) (m, c)
     else case stop li (m\<lparr>mg_failures := mg_failures m + 1\<rparr>) of
         (False, m) \<Rightarrow> latch (StopTimedOut why) (m, c)
       | (True, m) \<Rightarrow> (start li m, c))"

definition restart_due :: "int \<Rightarrow> int \<Rightarrow> managed \<Rightarrow> bool" where
  "restart_due now interval m \<longleftrightarrow> now - mg_started m \<ge> sweep_interval interval"

section \<open>Sweeps\<close>

record sweep_env =
  sw_now :: int
  sw_life :: "nat \<Rightarrow> life"
  sw_probe :: "string \<Rightarrow> health_state \<times> string"

definition sweep_one :: "int \<Rightarrow> int \<Rightarrow> life \<Rightarrow> managed \<times> cause option \<Rightarrow> managed \<times> cause option" where
  "sweep_one now interval li s = (case s of (m, c) \<Rightarrow>
     case evaluate now interval m of (None, m) \<Rightarrow> (m, c)
     | (Some why, m) \<Rightarrow> if restart_due now interval m then restart li why (m, c) else (m, c))"

fun sweep_managed :: "sweep_env \<Rightarrow> int \<Rightarrow> nat \<Rightarrow> managed list \<times> cause option \<Rightarrow> managed list \<times> cause option" where
  "sweep_managed e interval i ([], c) = ([], c)"
| "sweep_managed e interval i (m # ms, c) =
     (if c \<noteq> None then (m # ms, c)
      else let (m, c) = sweep_one (sw_now e) interval (sw_life e i) (m, c);
               (ms, c) = sweep_managed e interval (i + 1) (ms, c) in (m # ms, c))"

fun sweep_watched :: "sweep_env \<Rightarrow> watched list \<times> cause option \<Rightarrow> watched list \<times> cause option" where
  "sweep_watched e ([], c) = ([], c)"
| "sweep_watched e (w # ws, c) =
     (let (st, why) = sw_probe e (wt_name w);
          c = (if st = Failed then cancel (HealthFatal (wt_name w) (PartFailed why)) c else c);
          (ws, c) = sweep_watched e (ws, c) in
      (w\<lparr>wt_state := st, wt_reason := why\<rparr> # ws, c))"

definition merge_status :: "string \<Rightarrow> component_status \<Rightarrow> bool \<Rightarrow> snapshot \<Rightarrow> snapshot" where
  "merge_status name st fatal snap =
     (if fatal
      then if sn_status snap \<noteq> StatusFailed
        then snap\<lparr>sn_status := StatusFailed, sn_component := name, sn_reason := cs_why st\<rparr> else snap
      else if (cs_state st \<noteq> Healthy \<or> 0 < cs_restarts st) \<and> sn_status snap = StatusOK
        then snap\<lparr>sn_status := StatusDegraded\<rparr> else snap)"

definition publish_managed :: "managed \<Rightarrow> snapshot \<Rightarrow> snapshot" where
  "publish_managed m snap =
     (let st = status_of m; failed = restart_failed (managed_state m) m;
          shown = (if failed \<and> cs_why st = no_reason then st\<lparr>cs_why := RestartedTimes (mg_failures m)\<rparr> else st) in
      merge_status (mg_name m) shown failed
        (snap\<lparr>sn_components := AList.update (mg_name m) st (sn_components snap)\<rparr>))"

definition publish_watched :: "watched \<Rightarrow> snapshot \<Rightarrow> snapshot" where
  "publish_watched w snap =
     (let st = \<lparr>cs_state = wt_state w, cs_why = Reported (wt_reason w), cs_beat = None, cs_restarts = 0,
          cs_restartable = False\<rparr> in
      merge_status (wt_name w) st (wt_state w = Failed)
        (snap\<lparr>sn_components := AList.update (wt_name w) st (sn_components snap)\<rparr>))"

definition publish_health :: "int \<Rightarrow> supervisor \<Rightarrow> supervisor" where
  "publish_health now s = s\<lparr>sv_snap := fold publish_watched (sv_watched s) (fold publish_managed (sv_managed s)
     \<lparr>sn_status = StatusOK, sn_component = [], sn_reason = no_reason, sn_components = [], sn_at = now\<rparr>)\<rparr>"

definition sweep :: "sweep_env \<Rightarrow> supervisor \<Rightarrow> supervisor" where
  "sweep e s = (let (ms, c) = sweep_managed e (sv_interval s) 0 (sv_managed s, sv_cause s);
       (ws, c) = sweep_watched e (sv_watched s, c) in
     publish_health (sw_now e) (s\<lparr>sv_managed := ms, sv_watched := ws, sv_cause := c\<rparr>))"

section \<open>The loop\<close>

text \<open>What happens to a supervisor: a report of an instance of some generation, a change of the
  state and heartbeat an instance shows, a sweep, a shutdown.\<close>

datatype action = Report nat int health_state reason | Show nat status | Sweep sweep_env | Cancel cause

fun act :: "action \<Rightarrow> supervisor \<Rightarrow> supervisor" where
  "act (Report i gen st why) s = (if i < length (sv_managed s)
     then s\<lparr>sv_managed := (sv_managed s)[i := report gen st why (sv_managed s ! i)]\<rparr> else s)"
| "act (Show i c) s = (if i < length (sv_managed s) \<and> mg_comp (sv_managed s ! i) \<noteq> None
     then s\<lparr>sv_managed := (sv_managed s)[i := (sv_managed s ! i)\<lparr>mg_comp := Some c\<rparr>]\<rparr> else s)"
| "act (Sweep e) s = sweep e s"
| "act (Cancel c) s = s\<lparr>sv_cause := cancel c (sv_cause s)\<rparr>"

fun start_all :: "sweep_env \<Rightarrow> nat \<Rightarrow> managed list \<Rightarrow> managed list" where
  "start_all e i [] = []"
| "start_all e i (m # ms) = start (sw_life e i) m # start_all e (i + 1) ms"

text \<open>\<open>Run\<close> up to the cancellation of the root context.\<close>

definition supervise :: "sweep_env \<Rightarrow> sweep_env \<Rightarrow> action list \<Rightarrow> supervisor \<Rightarrow> supervisor" where
  "supervise e0 e1 acts s = fold act acts (sweep e1 (s\<lparr>sv_managed := start_all e0 0 (sv_managed s)\<rparr>))"

text \<open>\<open>stopAll\<close> stops in reverse order, so \<open>sw_life\<close> is asked for the components from the last.\<close>

definition stop_all :: "sweep_env \<Rightarrow> supervisor \<Rightarrow> supervisor" where
  "stop_all e s = publish_health (sw_now e) (s\<lparr>sv_managed :=
     map (\<lambda>(i, m). snd (stop (sw_life e i) m)) (enumerate 0 (sv_managed s))\<rparr>)"

section \<open>One sweep\<close>

definition needs_restart :: "int \<Rightarrow> int \<Rightarrow> managed \<Rightarrow> bool" where
  "needs_restart now interval m \<longleftrightarrow> fst (evaluate now interval m) \<noteq> None \<and> restart_due now interval m"

definition restartable :: "life \<Rightarrow> managed \<Rightarrow> bool" where
  "restartable li m \<longleftrightarrow> mg_failures m < restart_budget \<and> (mg_comp m = None \<or> li_stops li)"

lemma evaluate_restart: "fst (evaluate now interval m) \<noteq> None \<Longrightarrow> snd (evaluate now interval m) = m"
  by (auto simp: evaluate_def Let_def split: option.splits prod.splits if_splits)

lemma sweep_one_idle:
  "\<not> needs_restart now interval m \<Longrightarrow>
    sweep_one now interval li (m, None) = (snd (evaluate now interval m), None)"
  using evaluate_restart [of now interval m]
  by (auto simp: sweep_one_def needs_restart_def split: option.splits prod.splits)

lemma sweep_one_restart:
  "needs_restart now interval m \<Longrightarrow> restartable li m \<Longrightarrow>
    sweep_one now interval li (m, None) = (start li (m\<lparr>mg_failures := mg_failures m + 1, mg_live := False\<rparr>), None)"
  using evaluate_restart [of now interval m]
  by (auto simp: sweep_one_def needs_restart_def restart_def stop_def restartable_def Let_def
      split: option.splits prod.splits)

lemma sweep_one_escalates:
  "needs_restart now interval m \<Longrightarrow> \<not> restartable li m \<Longrightarrow> snd (sweep_one now interval li (m, None)) \<noteq> None"
  using evaluate_restart [of now interval m]
  by (auto simp: sweep_one_def needs_restart_def restart_def stop_def latch_def cancel_def restartable_def Let_def
      split: option.splits prod.splits)

lemma sweep_one_cause:
  "snd (sweep_one now interval li (m, None)) = None \<longleftrightarrow> (needs_restart now interval m \<longrightarrow> restartable li m)"
  using sweep_one_idle sweep_one_restart sweep_one_escalates by (metis snd_conv)

lemma sweep_managed_length: "length (fst (sweep_managed e interval i (ms, c))) = length ms"
  by (induction e interval i "(ms, c)" arbitrary: ms c rule: sweep_managed.induct)
    (auto simp: Let_def split: prod.splits)

text \<open>The sweep reaches every component as long as none of them escalates.\<close>

lemma sweep_managed_cause:
  "snd (sweep_managed e interval i (ms, None)) = None \<longleftrightarrow>
    (\<forall>j < length ms. needs_restart (sw_now e) interval (ms ! j) \<longrightarrow> restartable (sw_life e (i + j)) (ms ! j))"
proof (induction ms arbitrary: i)
  case (Cons m ms)
  obtain m1 c1 where one: "sweep_one (sw_now e) interval (sw_life e i) (m, None) = (m1, c1)" by (metis surj_pair)
  have "c1 = None \<longleftrightarrow> (needs_restart (sw_now e) interval m \<longrightarrow> restartable (sw_life e i) m)"
    using one sweep_one_cause [of "sw_now e" interval "sw_life e i" m] by simp
  moreover have "snd (sweep_managed e interval i (m # ms, None)) =
      (if c1 = None then snd (sweep_managed e interval (i + 1) (ms, None)) else c1)"
    by (cases ms; cases c1) (simp_all add: one Let_def split: prod.splits)
  ultimately show ?case using Cons.IH [of "i + 1"] by (auto simp: All_less_Suc2)
qed simp

lemma sweep_managed_keeps_cause: "c \<noteq> None \<Longrightarrow> sweep_managed e interval i (ms, c) = (ms, c)"
  by (cases ms) auto

text \<open>Component \<open>j\<close> after a sweep: swept, unless an earlier one escalated.\<close>

lemma sweep_managed_nth:
  assumes "j < length ms"
  shows "fst (sweep_managed e interval i (ms, None)) ! j = ms ! j \<and> snd (sweep_managed e interval i (ms, None)) \<noteq> None
    \<or> fst (sweep_managed e interval i (ms, None)) ! j =
        fst (sweep_one (sw_now e) interval (sw_life e (i + j)) (ms ! j, None)) \<and>
      (snd (sweep_one (sw_now e) interval (sw_life e (i + j)) (ms ! j, None)) \<noteq> None \<longrightarrow>
        snd (sweep_managed e interval i (ms, None)) \<noteq> None)"
  using assms
proof (induction ms arbitrary: i j)
  case (Cons m ms)
  obtain m1 c1 where one: "sweep_one (sw_now e) interval (sw_life e i) (m, None) = (m1, c1)" by (metis surj_pair)
  have step: "sweep_managed e interval i (m # ms, None) =
      (m1 # fst (sweep_managed e interval (i + 1) (ms, c1)), snd (sweep_managed e interval (i + 1) (ms, c1)))"
    by (simp add: one Let_def split: prod.splits)
  show ?case
  proof (cases j)
    case 0
    have "fst (sweep_managed e interval i (m # ms, None)) ! j = m1" unfolding step by (simp add: 0)
    moreover have "c1 \<noteq> None \<Longrightarrow> snd (sweep_managed e interval i (m # ms, None)) \<noteq> None"
      unfolding step by (simp add: sweep_managed_keeps_cause)
    ultimately show ?thesis using one by (simp add: 0)
  next
    case (Suc j')
    show ?thesis
    proof (cases c1)
      case None
      show ?thesis using Cons.IH [of j' "i + 1"] Cons.prems Suc unfolding step by (simp add: None)
    next
      case (Some c)
      then show ?thesis unfolding step by (simp add: Suc sweep_managed_keeps_cause)
    qed
  qed
qed simp

lemma sweep_watched_cause:
  "snd (sweep_watched e (ws, c)) = None \<longleftrightarrow> c = None \<and> (\<forall>w \<in> set ws. fst (sw_probe e (wt_name w)) \<noteq> Failed)"
  by (induction e "(ws, c)" arbitrary: ws c rule: sweep_watched.induct)
    (auto simp: Let_def cancel_def split: prod.splits option.splits if_splits)

lemma sweep_parts:
  "sv_managed (sweep e s) = fst (sweep_managed e (sv_interval s) 0 (sv_managed s, sv_cause s))"
  "sv_cause (sweep e s) = snd (sweep_watched e (sv_watched s,
     snd (sweep_managed e (sv_interval s) 0 (sv_managed s, sv_cause s))))"
  "sv_interval (sweep e s) = sv_interval s"
  by (simp_all add: sweep_def publish_health_def split: prod.splits)

text \<open>What a sweep that does not escalate does to one component.\<close>

lemma sweep_one_effect:
  assumes "snd (sweep_one now interval li (m, None)) = None" "m' = fst (sweep_one now interval li (m, None))"
  shows "if needs_restart now interval m
    then mg_gen m' = mg_gen m + 1 \<and> mg_failures m' = mg_failures m + 1 \<and> mg_started m' = li_now li \<and>
      (case li_made li of Inl err \<Rightarrow> mg_comp m' = None \<and> managed_state m' = Failed
       | Inr c \<Rightarrow> mg_comp m' = Some c \<and> mg_live m')
    else mg_gen m' = mg_gen m \<and> mg_comp m' = mg_comp m \<and> mg_failures m' \<le> max 0 (mg_failures m)"
proof (cases "needs_restart now interval m")
  case True
  then have "restartable li m" using assms(1) by (simp add: sweep_one_cause)
  from sweep_one_restart [OF True this] True assms(2) show ?thesis
    by (simp add: start_def reset_managed_def managed_state_def Let_def split: sum.split)
next
  case False
  then show ?thesis using assms(2)
    by (auto simp: sweep_one_idle evaluate_def Let_def reset_failures_def split: option.splits prod.splits)
qed

text \<open>C12: The process is given up exactly when it must be. A sweep of a running supervisor cancels the
  root context if and only if a component that needs a restart, and whose last start is at least
  one sweep interval old, has used up its budget of restarts or does not stop in time, or a part
  that cannot be restarted reports failure; otherwise every such component is running its next
  generation or waits for the next sweep after a failed factory, and no other component loses
  its instance.\<close>

theorem escalation_exact:
  assumes "sv_cause s = None"
  shows "(sv_cause (sweep e s) = None \<longleftrightarrow>
      (\<forall>i < length (sv_managed s). needs_restart (sw_now e) (sv_interval s) (sv_managed s ! i) \<longrightarrow>
        mg_failures (sv_managed s ! i) < 3 \<and> (mg_comp (sv_managed s ! i) = None \<or> li_stops (sw_life e i))) \<and>
      (\<forall>w \<in> set (sv_watched s). fst (sw_probe e (wt_name w)) \<noteq> Failed)) \<and>
    (sv_cause (sweep e s) = None \<longrightarrow> (\<forall>i < length (sv_managed s).
      let m = sv_managed s ! i; m' = sv_managed (sweep e s) ! i in
      if needs_restart (sw_now e) (sv_interval s) m
      then mg_gen m' = mg_gen m + 1 \<and> mg_failures m' = mg_failures m + 1 \<and> mg_started m' = li_now (sw_life e i) \<and>
        (case li_made (sw_life e i) of Inl err \<Rightarrow> mg_comp m' = None \<and> managed_state m' = Failed
         | Inr c \<Rightarrow> mg_comp m' = Some c \<and> mg_live m')
      else mg_gen m' = mg_gen m \<and> mg_comp m' = mg_comp m \<and> mg_failures m' \<le> max 0 (mg_failures m)))"
proof -
  let ?r = "sweep_managed e (sv_interval s) 0 (sv_managed s, None)"
  have p: "sv_managed (sweep e s) = fst ?r" "sv_cause (sweep e s) = snd (sweep_watched e (sv_watched s, snd ?r))"
    using sweep_parts assms by simp_all
  have cause: "sv_cause (sweep e s) = None \<longleftrightarrow> snd ?r = None \<and>
      (\<forall>w \<in> set (sv_watched s). fst (sw_probe e (wt_name w)) \<noteq> Failed)"
    by (simp add: p sweep_watched_cause)
  moreover have "snd (sweep_one (sw_now e) (sv_interval s) (sw_life e i) (sv_managed s ! i, None)) = None \<and>
      sv_managed (sweep e s) ! i = fst (sweep_one (sw_now e) (sv_interval s) (sw_life e i) (sv_managed s ! i, None))"
    if "sv_cause (sweep e s) = None" "i < length (sv_managed s)" for i
    using sweep_managed_nth [OF that(2), of e "sv_interval s" 0] that(1) cause by (auto simp: p)
  then have "sv_cause (sweep e s) = None \<longrightarrow> (\<forall>i < length (sv_managed s).
      let m = sv_managed s ! i; m' = sv_managed (sweep e s) ! i in
      if needs_restart (sw_now e) (sv_interval s) m
      then mg_gen m' = mg_gen m + 1 \<and> mg_failures m' = mg_failures m + 1 \<and> mg_started m' = li_now (sw_life e i) \<and>
        (case li_made (sw_life e i) of Inl err \<Rightarrow> mg_comp m' = None \<and> managed_state m' = Failed
         | Inr c \<Rightarrow> mg_comp m' = Some c \<and> mg_live m')
      else mg_gen m' = mg_gen m \<and> mg_comp m' = mg_comp m \<and> mg_failures m' \<le> max 0 (mg_failures m))"
    unfolding Let_def by (intro impI allI sweep_one_effect) blast+
  ultimately show ?thesis using sweep_managed_cause [of e "sv_interval s" 0 "sv_managed s"]
    by (simp add: restartable_def restart_budget_def)
qed

section \<open>Runs\<close>

definition proven :: "int \<Rightarrow> managed \<Rightarrow> bool" where
  "proven interval m \<longleftrightarrow> (case mg_comp m of None \<Rightarrow> False | Some c \<Rightarrow> hs_state c = Healthy \<and>
     (case last_beat c of None \<Rightarrow> False
      | Some t \<Rightarrow> t - mg_started m \<ge> healthy_grace_factor * interval))"

text \<open>The sweeps of a run that find component \<open>i\<close> in need of a due restart, and whether any sweep
  finds it proven healthy.\<close>

fun failing_sweeps :: "nat \<Rightarrow> action list \<Rightarrow> supervisor \<Rightarrow> nat" where
  "failing_sweeps i [] s = 0"
| "failing_sweeps i (a # as) s = (case a of
     Sweep e \<Rightarrow> if needs_restart (sw_now e) (sv_interval s) (sv_managed s ! i) then 1 else 0
   | _ \<Rightarrow> 0) + failing_sweeps i as (act a s)"

fun ever_proven :: "nat \<Rightarrow> action list \<Rightarrow> supervisor \<Rightarrow> bool" where
  "ever_proven i [] s = False"
| "ever_proven i (a # as) s = ((case a of Sweep e \<Rightarrow> proven (sv_interval s) (sv_managed s ! i) | _ \<Rightarrow> False) \<or>
     ever_proven i as (act a s))"

definition within_budget :: "supervisor \<Rightarrow> bool" where
  "within_budget s \<longleftrightarrow> (\<forall>m \<in> set (sv_managed s). 0 \<le> mg_failures m \<and> mg_failures m \<le> restart_budget \<and>
     (mg_latched m \<longrightarrow> sv_cause s \<noteq> None))"

lemma sweep_one_budget:
  assumes "0 \<le> mg_failures m" "mg_failures m \<le> restart_budget"
    "r = sweep_one now interval li (m, None)"
  shows "0 \<le> mg_failures (fst r) \<and> mg_failures (fst r) \<le> restart_budget \<and>
    (mg_latched (fst r) \<longrightarrow> mg_latched m \<or> snd r \<noteq> None)"
proof (cases "needs_restart now interval m")
  case False
  then show ?thesis using assms
    by (auto simp: sweep_one_idle evaluate_def Let_def reset_failures_def split: option.splits prod.splits)
next
  case True
  show ?thesis
  proof (cases "restartable li m")
    case r: True
    then show ?thesis using assms sweep_one_restart [OF True r]
      by (simp add: restartable_def start_def reset_managed_def Let_def split: sum.split)
  next
    case False
    have "snd r \<noteq> None" using sweep_one_escalates [OF True False] assms(3) by simp
    moreover have "snd (evaluate now interval m) = m" using True evaluate_restart by (simp add: needs_restart_def)
    then have "mg_failures (fst r) = mg_failures m \<or>
        (mg_failures (fst r) = mg_failures m + 1 \<and> mg_failures m < restart_budget)"
      unfolding assms(3)
      by (auto simp: sweep_one_def restart_def stop_def latch_def Let_def start_def reset_managed_def
          split: option.splits prod.splits sum.splits)
    ultimately show ?thesis using assms by auto
  qed
qed

lemma cancel_Some [simp]: "cancel c x \<noteq> None"
  by (cases x) (simp_all add: cancel_def)

lemma sweep_keeps_cause:
  assumes "sv_cause s \<noteq> None" shows "sv_cause (sweep e s) \<noteq> None \<and> sv_managed (sweep e s) = sv_managed s"
  using assms by (simp add: sweep_parts sweep_managed_keeps_cause sweep_watched_cause)

lemma act_keeps_cause: "sv_cause s \<noteq> None \<Longrightarrow> sv_cause (act a s) \<noteq> None"
  using sweep_keeps_cause by (cases a) auto

lemma run_keeps_cause: "sv_cause s \<noteq> None \<Longrightarrow> sv_cause (fold act as s) \<noteq> None"
proof (induction as arbitrary: s)
  case (Cons a as)
  from Cons.IH [OF act_keeps_cause [OF Cons.prems]] show ?case by simp
qed simp

lemma sweep_length [simp]: "length (sv_managed (sweep e s)) = length (sv_managed s)"
  by (simp add: sweep_parts sweep_managed_length)

lemma act_length [simp]: "length (sv_managed (act a s)) = length (sv_managed s)"
  by (cases a) auto

lemma act_interval [simp]: "sv_interval (act a s) = sv_interval s"
  by (cases a) (auto simp: sweep_parts)

text \<open>Component \<open>i\<close> after a sweep of a running supervisor.\<close>

lemma sweep_nth:
  assumes "sv_cause s = None" "i < length (sv_managed s)"
  obtains "sv_managed (sweep e s) ! i = sv_managed s ! i" "sv_cause (sweep e s) \<noteq> None"
  | "sv_managed (sweep e s) ! i =
      fst (sweep_one (sw_now e) (sv_interval s) (sw_life e i) (sv_managed s ! i, None))"
    "snd (sweep_one (sw_now e) (sv_interval s) (sw_life e i) (sv_managed s ! i, None)) \<noteq> None \<longrightarrow>
      sv_cause (sweep e s) \<noteq> None"
  using sweep_managed_nth [OF assms(2), of e "sv_interval s" 0] assms(1)
  by (auto simp: sweep_parts sweep_watched_cause)

lemma sweep_budget:
  assumes "within_budget s" shows "within_budget (sweep e s)"
proof (cases "sv_cause s")
  case (Some c)
  then show ?thesis using assms sweep_keeps_cause [of s e] by (simp add: within_budget_def)
next
  case None
  have "0 \<le> mg_failures m \<and> mg_failures m \<le> restart_budget \<and> (mg_latched m \<longrightarrow> sv_cause (sweep e s) \<noteq> None)"
    if "i < length (sv_managed s)" "m = sv_managed (sweep e s) ! i" for i m
  proof -
    have old: "0 \<le> mg_failures (sv_managed s ! i)" "mg_failures (sv_managed s ! i) \<le> restart_budget"
      "\<not> mg_latched (sv_managed s ! i)"
      using assms that(1) None by (auto simp: within_budget_def)
    show ?thesis
    proof (rule sweep_nth [OF None that(1), of e])
      assume "sv_managed (sweep e s) ! i = sv_managed s ! i" "sv_cause (sweep e s) \<noteq> None"
      then show ?thesis using old that(2) by simp
    next
      assume "sv_managed (sweep e s) ! i =
          fst (sweep_one (sw_now e) (sv_interval s) (sw_life e i) (sv_managed s ! i, None))"
        "snd (sweep_one (sw_now e) (sv_interval s) (sw_life e i) (sv_managed s ! i, None)) \<noteq> None \<longrightarrow>
          sv_cause (sweep e s) \<noteq> None"
      then show ?thesis using sweep_one_budget [OF old(1,2) refl] old(3) that(2) by metis
    qed
  qed
  then show ?thesis by (metis within_budget_def in_set_conv_nth sweep_length)
qed

lemma act_budget:
  assumes "within_budget s" shows "within_budget (act a s)"
proof (cases a)
  case (Report i gen st why)
  have "mg_failures (report gen st why m) = mg_failures m \<and> mg_latched (report gen st why m) = mg_latched m" for m
    by (simp add: report_def)
  with Report assms show ?thesis
    by (auto simp: within_budget_def dest!: set_update_subset_insert [THEN subsetD])
next
  case (Show i c)
  with assms show ?thesis by (auto simp: within_budget_def dest!: set_update_subset_insert [THEN subsetD])
next
  case (Cancel c)
  with assms show ?thesis by (auto simp: within_budget_def)
qed (use assms sweep_budget in simp)

lemma unproven_failures:
  assumes "\<not> needs_restart now interval m" "\<not> proven interval m" shows "mg_failures (snd (evaluate now interval m)) = mg_failures m"
proof (cases "evaluate now interval m")
  case (Pair r m')
  then show ?thesis using assms(2)
    by (auto simp: evaluate_def Let_def reset_failures_def proven_def managed_state_def
        split: option.splits prod.splits if_splits)
qed

text \<open>Every failing sweep of a component that is not proven healthy uses up one restart.\<close>

lemma sweep_failures:
  assumes "sv_cause (sweep e s) = None" "i < length (sv_managed s)" "\<not> proven (sv_interval s) (sv_managed s ! i)"
  shows "mg_failures (sv_managed (sweep e s) ! i) = mg_failures (sv_managed s ! i) +
    (if needs_restart (sw_now e) (sv_interval s) (sv_managed s ! i) then 1 else 0)"
proof -
  let ?m = "sv_managed s ! i" and ?one = "sweep_one (sw_now e) (sv_interval s) (sw_life e i) (sv_managed s ! i, None)"
  have none: "sv_cause s = None" using assms(1) sweep_keeps_cause by blast
  from sweep_nth [OF none assms(2), of e] assms(1)
  have m': "sv_managed (sweep e s) ! i = fst ?one" "snd ?one = None" by metis+
  show ?thesis
  proof (cases "needs_restart (sw_now e) (sv_interval s) ?m")
    case True
    then show ?thesis using sweep_one_effect [OF m'(2,1)] by simp
  next
    case False
    then show ?thesis using m'(1) unproven_failures [OF False assms(3)] by (simp add: sweep_one_idle)
  qed
qed

lemma act_failures:
  "i < length (sv_managed s) \<Longrightarrow> (\<And>e. a \<noteq> Sweep e) \<Longrightarrow>
    mg_failures (sv_managed (act a s) ! i) = mg_failures (sv_managed s ! i)"
  by (cases a) (auto simp: nth_list_update report_def)

lemma failing_escalates:
  assumes "within_budget s" "i < length (sv_managed s)" "\<not> ever_proven i as s"
    "restart_budget < mg_failures (sv_managed s ! i) + int (failing_sweeps i as s)"
  shows "sv_cause (fold act as s) \<noteq> None"
  using assms
proof (induction as arbitrary: s)
  case Nil
  then have "mg_failures (sv_managed s ! i) \<le> restart_budget" by (simp add: within_budget_def)
  with Nil show ?case by simp
next
  case (Cons a as)
  show ?case
  proof (cases "sv_cause (act a s)")
    case (Some c)
    then show ?thesis using run_keeps_cause [of "act a s" as] by simp
  next
    case None
    have "restart_budget < mg_failures (sv_managed (act a s) ! i) + int (failing_sweeps i as (act a s))"
    proof (cases "\<exists>e. a = Sweep e")
      case True
      then obtain e where e: "a = Sweep e" by blast
      then show ?thesis using Cons.prems None sweep_failures [of e s i] by (simp split: if_splits)
    next
      case False
      then show ?thesis using Cons.prems act_failures [of i s a] by (cases a) auto
    qed
    then show ?thesis using Cons.IH [of "act a s"] Cons.prems act_budget by simp
  qed
qed

text \<open>C13: A component that does not recover takes the process down, and never burns more than its
  budget. From any supervisor whose counters are within the budget and whose latched
  components have cancelled the root context (every new one, and every one reached from it),
  over any run of sweeps, reports of any generation, heartbeats and state changes: no counter
  ever passes the budget of three, a component is latched only when the root context is
  cancelled, and once a component was found failing and due by as many sweeps as exceed the
  budget together with its counter (four from a counter of zero, whatever the counters of the
  others) without being proven healthy (a beat at least three poll intervals after its start),
  the root context is cancelled.\<close>

theorem failing_component_escalates:
  assumes "\<forall>m \<in> set (sv_managed s). 0 \<le> mg_failures m \<and> mg_failures m \<le> 3 \<and> (mg_latched m \<longrightarrow> sv_cause s \<noteq> None)"
    "i < length (sv_managed s)" "\<not> ever_proven i acts s"
    "4 \<le> mg_failures (sv_managed s ! i) + int (failing_sweeps i acts s)"
  shows "sv_cause (fold act acts s) \<noteq> None \<and>
    (\<forall>acts'. \<forall>m \<in> set (sv_managed (fold act acts' s)).
      0 \<le> mg_failures m \<and> mg_failures m \<le> 3 \<and> (mg_latched m \<longrightarrow> sv_cause (fold act acts' s) \<noteq> None))"
proof -
  have ok: "within_budget s" using assms(1) by (simp add: within_budget_def restart_budget_def)
  have "within_budget (fold act as s)" for as using ok
    by (induction as arbitrary: s) (simp_all add: act_budget)
  moreover have "restart_budget < mg_failures (sv_managed s ! i) + int (failing_sweeps i acts s)"
    using assms(4) by (simp add: restart_budget_def)
  ultimately show ?thesis using failing_escalates [OF ok assms(2,3)]
    by (simp add: within_budget_def restart_budget_def)
qed

section \<open>The published snapshot\<close>

definition bad_managed :: "managed \<Rightarrow> bool" where
  "bad_managed m \<longleftrightarrow> restart_failed (managed_state m) m"

definition doubtful :: "managed \<Rightarrow> bool" where
  "doubtful m \<longleftrightarrow> managed_state m \<noteq> Healthy \<or> 0 < mg_failures m"

definition join_status :: "bool \<Rightarrow> bool \<Rightarrow> overall \<Rightarrow> overall" where
  "join_status bad doubt st = (if bad \<or> st = StatusFailed then StatusFailed
     else if doubt \<or> st = StatusDegraded then StatusDegraded else StatusOK)"

lemma join_status_join [simp]:
  "join_status b d (join_status b' d' st) = join_status (b \<or> b') (d \<or> d') st"
  by (auto simp: join_status_def)

lemma publish_managed_status:
  "sn_status (publish_managed m snap) = join_status (bad_managed m) (doubtful m) (sn_status snap)"
  by (cases "sn_status snap")
    (auto simp: publish_managed_def merge_status_def join_status_def bad_managed_def doubtful_def status_of_def Let_def)

lemma publish_watched_status:
  "sn_status (publish_watched w snap) = join_status (wt_state w = Failed) (wt_state w \<noteq> Healthy) (sn_status snap)"
  by (cases "sn_status snap") (auto simp: publish_watched_def merge_status_def join_status_def Let_def)

lemma fold_status:
  assumes "\<And>x snap. sn_status (f x snap) = join_status (P x) (Q x) (sn_status snap)"
  shows "sn_status (fold f xs snap) = join_status (\<exists>x \<in> set xs. P x) (\<exists>x \<in> set xs. Q x) (sn_status snap)"
proof (induction xs arbitrary: snap)
  case Nil
  then show ?case by (cases "sn_status snap") (auto simp: join_status_def)
next
  case (Cons x xs)
  then show ?case by (simp add: assms) (simp only: disj_comms)
qed

lemma publish_health_status:
  "sn_status (sv_snap (publish_health now s)) =
    join_status ((\<exists>m \<in> set (sv_managed s). bad_managed m) \<or> (\<exists>w \<in> set (sv_watched s). wt_state w = Failed))
      ((\<exists>m \<in> set (sv_managed s). doubtful m) \<or> (\<exists>w \<in> set (sv_watched s). wt_state w \<noteq> Healthy)) StatusOK"
  by (simp add: publish_health_def fold_status [OF publish_managed_status] fold_status [OF publish_watched_status]
      disj_comms)

lemma publish_at: "sn_at (publish_managed m snap) = sn_at snap" "sn_at (publish_watched w snap) = sn_at snap"
  by (simp_all add: publish_managed_def publish_watched_def merge_status_def Let_def)

lemma publish_health_at: "sn_at (sv_snap (publish_health now s)) = now"
proof -
  have "sn_at (fold publish_managed ms snap) = sn_at snap" for ms snap
    by (induction ms arbitrary: snap) (simp_all add: publish_at)
  moreover have "sn_at (fold publish_watched ws snap) = sn_at snap" for ws snap
    by (induction ws arbitrary: snap) (simp_all add: publish_at)
  ultimately show ?thesis by (simp add: publish_health_def)
qed

lemma sweep_published: "publish_health (sw_now e) (sweep e s) = sweep e s"
  by (simp add: sweep_def publish_health_def split: prod.split)

text \<open>C14: Health fails closed. What is served after a sweep is ok only when the snapshot is at most
  three sweep intervals old, every managed component has an instance that is healthy, not
  reported failed and not latched, with no restart pending proof, and every watched part is
  healthy; it is failed exactly when the snapshot is older, a component is latched, was
  restarted twice or failed again after a restart, or a watched part failed.\<close>

theorem health_fails_closed:
  "(sn_status (snapshot_at now (sweep e s)) = StatusOK \<longleftrightarrow>
      now - sw_now e \<le> 3 * max (sv_interval s div 2) 5000000000 \<and>
      (\<forall>m \<in> set (sv_managed (sweep e s)). mg_failures m \<le> 0 \<and> \<not> mg_latched m \<and> \<not> mg_reported m \<and>
        (\<exists>c. mg_comp m = Some c \<and> hs_state c = Healthy)) \<and>
      (\<forall>w \<in> set (sv_watched (sweep e s)). wt_state w = Healthy)) \<and>
    (sn_status (snapshot_at now (sweep e s)) = StatusFailed \<longleftrightarrow>
      3 * max (sv_interval s div 2) 5000000000 < now - sw_now e \<or>
      (\<exists>m \<in> set (sv_managed (sweep e s)). mg_latched m \<or> 1 < mg_failures m \<or>
        mg_failures m = 1 \<and> managed_state m = Failed) \<or>
      (\<exists>w \<in> set (sv_watched (sweep e s)). wt_state w = Failed))"
proof -
  let ?ms = "set (sv_managed (sweep e s))" and ?ws = "set (sv_watched (sweep e s))"
  define bad doubt ok where
    "bad \<longleftrightarrow> (\<exists>m \<in> ?ms. mg_latched m \<or> 1 < mg_failures m \<or> mg_failures m = 1 \<and> managed_state m = Failed) \<or>
      (\<exists>w \<in> ?ws. wt_state w = Failed)" and
    "doubt \<longleftrightarrow> (\<exists>m \<in> ?ms. doubtful m) \<or> (\<exists>w \<in> ?ws. wt_state w \<noteq> Healthy)" and
    "ok \<longleftrightarrow> (\<forall>m \<in> ?ms. mg_failures m \<le> 0 \<and> \<not> mg_latched m \<and> \<not> mg_reported m \<and>
      (\<exists>c. mg_comp m = Some c \<and> hs_state c = Healthy)) \<and> (\<forall>w \<in> ?ws. wt_state w = Healthy)"
  have st: "sn_status (sv_snap (sweep e s)) = join_status bad doubt StatusOK" "sn_at (sv_snap (sweep e s)) = sw_now e"
    using publish_health_status [of "sw_now e" "sweep e s"] publish_health_at [of "sw_now e" "sweep e s"]
    by (simp_all add: sweep_published bad_def doubt_def bad_managed_def restart_failed_def)
  have age: "stale_snapshot_factor * sweep_interval (sv_interval s) = 3 * max (sv_interval s div 2) 5000000000"
    by (simp add: supervision_constants sweep_interval_def)
  have good: "(mg_failures m \<le> 0 \<and> \<not> mg_latched m \<and> \<not> mg_reported m \<and>
      (\<exists>c. mg_comp m = Some c \<and> hs_state c = Healthy)) \<longleftrightarrow> \<not> doubtful m" for m
    by (auto simp: doubtful_def managed_state_def not_less split: option.splits)
  have "mg_latched m \<or> 1 < mg_failures m \<or> mg_failures m = 1 \<and> managed_state m = Failed \<Longrightarrow> doubtful m" for m
    by (auto simp: doubtful_def managed_state_def split: option.splits)
  moreover have "st = Failed \<Longrightarrow> st \<noteq> Healthy" for st by simp
  ultimately have "bad \<or> doubt \<longleftrightarrow> \<not> ok" unfolding bad_def doubt_def ok_def good by blast
  moreover have "sn_status (snapshot_at now (sweep e s)) =
      (if 3 * max (sv_interval s div 2) 5000000000 < now - sw_now e then StatusFailed else join_status bad doubt StatusOK)"
    by (simp add: snapshot_at_def Let_def st sweep_parts age)
  ultimately show ?thesis unfolding bad_def [symmetric] ok_def [symmetric]
    by (auto simp: join_status_def not_less)
qed

section \<open>Concrete runs\<close>

text \<open>One component whose instances never beat, swept once a minute at a poll interval of ten seconds.\<close>

definition mute_sweep :: "int \<Rightarrow> sweep_env" where
  "mute_sweep minute = \<lparr>sw_now = minute * 60000000000, sw_life = (\<lambda>i. \<lparr>li_stops = True,
     li_now = minute * 60000000000, li_made = Inr new_status\<rparr>), sw_probe = (\<lambda>n. (Healthy, []))\<rparr>"

definition mute_supervisor :: supervisor where
  "mute_supervisor = (manage ''poller'' (new_supervisor 10000000000 0))\<lparr>sv_managed :=
     [start (sw_life (mute_sweep 0) 0) (new_managed ''poller'')]\<rparr>"

lemma mute_failures:
  "failing_sweeps 0 (map (\<lambda>t. Sweep (mute_sweep t)) [1, 2, 3, 4]) mute_supervisor = 4"
  "\<not> ever_proven 0 (map (\<lambda>t. Sweep (mute_sweep t)) [1, 2, 3, 4]) mute_supervisor"
  by code_simp+

text \<open>The counter stands at one after the first sweep; three more are enough.\<close>

lemma mute_again:
  "failing_sweeps 0 (map (\<lambda>t. Sweep (mute_sweep t)) [2, 3, 4]) (sweep (mute_sweep 1) mute_supervisor) = 3"
  "\<not> ever_proven 0 (map (\<lambda>t. Sweep (mute_sweep t)) [2, 3, 4]) (sweep (mute_sweep 1) mute_supervisor)"
  "mg_failures (sv_managed (sweep (mute_sweep 1) mute_supervisor) ! 0) = 1"
  by code_simp+

theorem failing_component_escalates_witness:
  "sv_cause (fold act (map (\<lambda>t. Sweep (mute_sweep t)) [2, 3, 4]) (sweep (mute_sweep 1) mute_supervisor)) \<noteq> None"
proof -
  let ?s = "sweep (mute_sweep 1) mute_supervisor"
  have "\<forall>m \<in> set (sv_managed ?s). 0 \<le> mg_failures m \<and> mg_failures m \<le> 3 \<and> (mg_latched m \<longrightarrow> sv_cause ?s \<noteq> None)"
    "0 < length (sv_managed ?s)" by code_simp+
  from failing_component_escalates [OF this mute_again(2)] mute_again(1,3) show ?thesis by simp
qed

theorem escalation_exact_witness: "sv_cause (sweep (mute_sweep 1) mute_supervisor) = None"
proof -
  have start: "sv_cause mute_supervisor = None" by code_simp
  have "\<forall>i < length (sv_managed mute_supervisor). mg_failures (sv_managed mute_supervisor ! i) < 3 \<and>
      li_stops (sw_life (mute_sweep 1) i)" "sv_watched mute_supervisor = []" by code_simp+
  then show ?thesis using escalation_exact [OF start, of "mute_sweep 1"] by simp
qed

theorem health_fails_closed_witness:
  "sn_status (snapshot_at 120000000000 (sweep (mute_sweep 1) mute_supervisor)) = StatusFailed"
proof -
  have "sw_now (mute_sweep 1) = 60000000000" by (simp add: mute_sweep_def)
  moreover have "sv_interval mute_supervisor = 10000000000" by code_simp
  ultimately show ?thesis using health_fails_closed [of 120000000000 "mute_sweep 1" mute_supervisor] by simp
qed

end
