(* ===== verification/Hub.thy ===== *)
theory Hub
  imports Cache Status PollerStore
begin

text \<open>
  internal/websocket: the hub that pushes changed values to subscribed clients. The hub's
  goroutine owns the clients; everything it does is one action on the hub's state. Each
  connection has a bounded queue of frames that its write pump empties. Frames are kept before
  their JSON encoding, which never fails for them: NaN and infinities become null. Loops over Go
  maps run in list order; the results hold for every order. A client id names one connection.
\<close>

section \<open>Protocol\<close>

definition flush_delay :: int where "flush_delay = 75000000"
definition stale_client_timeout :: int where "stale_client_timeout = 300000000000"
definition max_clients :: nat where "max_clients = 256"
definition max_keys_per_message :: nat where "max_keys_per_message = 256"
definition send_buffer :: nat where "send_buffer = 256"

definition two_decimals :: float64 where "two_decimals = Fin 100"

definition round_to_2_decimal_places :: "float64 \<Rightarrow> float64" where
  "round_to_2_decimal_places v = fdiv (fround (fmul v two_decimals)) two_decimals"

record client_message =
  cm_type :: string
  cm_keys :: "string list"

record value_dto =
  dt_value :: float64
  dt_time :: "int option"
  dt_unit :: string
  dt_status :: "Decoder.status option"

record pushed =
  pu_value :: float64
  pu_status :: "Decoder.status option"

definition pushed_equal :: "pushed \<Rightarrow> pushed \<Rightarrow> bool" where
  "pushed_equal p q \<longleftrightarrow> feq (pu_value p) (pu_value q) \<and> pu_status p = pu_status q"

definition state_of :: "reg_value \<Rightarrow> pushed" where
  "state_of v = \<lparr>pu_value = round_to_2_decimal_places (v_decoded v), pu_status = v_status v\<rparr>"

definition update_dto :: "reg_value \<Rightarrow> value_dto" where
  "update_dto v = \<lparr>dt_value = round_to_2_decimal_places (v_decoded v), dt_time = None, dt_unit = [],
     dt_status = v_status v\<rparr>"

definition full_dto :: "reg_value \<Rightarrow> value_dto" where
  "full_dto v = (update_dto v)\<lparr>dt_time := Some (v_time v), dt_unit := v_unit v\<rparr>"

datatype frame = SnapshotFrame "(string \<times> value_dto) list"
  | UpdateFrame int "(string \<times> value_dto) list" "string list"
  | PongFrame
  | TooManyKeys
  | UnknownType string
  | UnknownKeys "string list"

section \<open>State\<close>

record client =
  cl_send :: "frame list"
  cl_closed :: bool
  cl_active :: int

record client_state =
  ct_subs :: "string list"
  ct_last :: "(string \<times> pushed) list"

text \<open>What a client learns, in the order the hub does it: the frames queued for it, and the keys it
  unsubscribed and forgets. The log is not part of the code's state.\<close>

datatype item = Got frame | Forgot "string list"

record hub =
  hb_status :: Status.status
  hb_clients :: "(nat \<times> client_state) list"
  hb_conns :: "nat \<Rightarrow> client"
  hb_dirty :: bool
  hb_armed :: bool
  hb_stopped :: bool
  hb_log :: "nat \<Rightarrow> item list"

definition new_client :: "int \<Rightarrow> client" where
  "new_client now = \<lparr>cl_send = [], cl_closed = False, cl_active = now\<rparr>"

definition new_hub :: hub where
  "new_hub = \<lparr>hb_status = new_status, hb_clients = [], hb_conns = (\<lambda>c. new_client 0), hb_dirty = False,
     hb_armed = False, hb_stopped = False, hb_log = (\<lambda>c. [])\<rparr>"

section \<open>Sending\<close>

definition close_client :: "nat \<Rightarrow> hub \<Rightarrow> hub" where
  "close_client c h = h\<lparr>hb_conns := (hb_conns h)(c := (hb_conns h c)\<lparr>cl_closed := True\<rparr>)\<rparr>"

definition remove_client :: "nat \<Rightarrow> hub \<Rightarrow> hub" where
  "remove_client c h = close_client c (h\<lparr>hb_clients := AList.delete c (hb_clients h)\<rparr>)"

definition enqueue :: "frame \<Rightarrow> client \<Rightarrow> client \<times> bool" where
  "enqueue f cn = (if cl_closed cn then (cn, False)
     else if length (cl_send cn) < send_buffer then (cn\<lparr>cl_send := cl_send cn @ [f]\<rparr>, True) else (cn, False))"

definition send :: "nat \<Rightarrow> frame \<Rightarrow> hub \<Rightarrow> hub" where
  "send c f h = (case enqueue f (hb_conns h c) of
     (cn, True) \<Rightarrow> h\<lparr>hb_conns := (hb_conns h)(c := cn), hb_log := (hb_log h)(c := hb_log h c @ [Got f])\<rparr>
   | (cn, False) \<Rightarrow> remove_client c h)"

definition set_client :: "nat \<Rightarrow> client_state \<Rightarrow> hub \<Rightarrow> hub" where
  "set_client c st h = h\<lparr>hb_clients := AList.update c st (hb_clients h)\<rparr>"

section \<open>Commands\<close>

text \<open>The keys subscribed, newly added and unknown after the loop of \<open>subscribe\<close>.\<close>

fun add_keys :: "registry \<Rightarrow> string list \<Rightarrow> string list \<times> string list \<times> string list
    \<Rightarrow> string list \<times> string list \<times> string list" where
  "add_keys g [] s = s"
| "add_keys g (k # ks) (subs, added, unknown) =
     (if by_key g k = None then add_keys g ks (subs, added, unknown @ [k])
      else if k \<in> set subs then add_keys g ks (subs, added, unknown)
      else add_keys g ks (subs @ [k], added @ [k], unknown))"

definition subscribe_keys :: "registry \<Rightarrow> cache \<Rightarrow> nat \<Rightarrow> client_state \<Rightarrow> string list \<Rightarrow> hub \<Rightarrow> hub" where
  "subscribe_keys g ca c st keys h =
     (let (subs, added, unknown) = add_keys g keys (ct_subs st, [], []);
          st = st\<lparr>ct_subs := subs\<rparr>;
          h = set_client c st h;
          h = (if unknown \<noteq> [] then send c (UnknownKeys unknown) h else h) in
      if map_of (hb_clients h) c = None then h
      else let vs = get_multiple ca added;
               st = st\<lparr>ct_last := fold (\<lambda>(k, v). AList.update k (state_of v)) vs (ct_last st)\<rparr> in
        send c (SnapshotFrame (map (\<lambda>(k, v). (k, full_dto v)) vs)) (set_client c st h))"

definition handle :: "registry \<Rightarrow> cache \<Rightarrow> nat \<Rightarrow> client_message \<Rightarrow> hub \<Rightarrow> hub" where
  "handle g ca c msg h = (case map_of (hb_clients h) c of None \<Rightarrow> h
     | Some st \<Rightarrow>
       if length (cm_keys msg) > max_keys_per_message then send c TooManyKeys h
       else if cm_type msg = ''subscribe'' then subscribe_keys g ca c st (cm_keys msg) h
       else if cm_type msg = ''unsubscribe'' then
         (set_client c (st\<lparr>ct_subs := filter (\<lambda>k. k \<notin> set (cm_keys msg)) (ct_subs st),
            ct_last := filter (\<lambda>(k, p). k \<notin> set (cm_keys msg)) (ct_last st)\<rparr>) h)
           \<lparr>hb_log := (hb_log h)(c := hb_log h c @ [Forgot (cm_keys msg)])\<rparr>
       else if cm_type msg = ''ping'' then send c PongFrame h
       else send c (UnknownType (cm_type msg)) h)"

section \<open>Flushing\<close>

text \<open>The loop of \<open>diff\<close> over the subscribed keys.\<close>

fun diff_keys :: "(string \<times> reg_value) list \<Rightarrow> string list
    \<Rightarrow> (string \<times> pushed) list \<times> (string \<times> value_dto) list \<times> string list
    \<Rightarrow> (string \<times> pushed) list \<times> (string \<times> value_dto) list \<times> string list" where
  "diff_keys cur [] s = s"
| "diff_keys cur (k # ks) (seen, vs, gone) =
     (case map_of cur k of
        None \<Rightarrow> if map_of seen k \<noteq> None then diff_keys cur ks (AList.delete k seen, vs, gone @ [k])
          else diff_keys cur ks (seen, vs, gone)
      | Some v \<Rightarrow>
          let unchanged = (case map_of seen k of None \<Rightarrow> False | Some prev \<Rightarrow> pushed_equal prev (state_of v)) in
          if unchanged then diff_keys cur ks (seen, vs, gone)
          else diff_keys cur ks (AList.update k (state_of v) seen, AList.update k (update_dto v) vs, gone))"

definition diff :: "(string \<times> reg_value) list \<Rightarrow> client_state \<Rightarrow> client_state \<times> (string \<times> value_dto) list \<times> string list" where
  "diff cur st = (let (seen, vs, gone) = diff_keys cur (ct_subs st) (ct_last st, [], []) in
     (st\<lparr>ct_last := seen\<rparr>, vs, sort gone))"

definition union_keys :: "(nat \<times> client_state) list \<Rightarrow> string list" where
  "union_keys cs = sort (remdups (concat (map (ct_subs \<circ> snd) cs)))"

definition flush_client :: "(string \<times> reg_value) list \<Rightarrow> int \<Rightarrow> nat \<Rightarrow> hub \<Rightarrow> hub" where
  "flush_client cur ts c h = (case map_of (hb_clients h) c of None \<Rightarrow> h
     | Some st \<Rightarrow> (case diff cur st of (st', vs, gone) \<Rightarrow>
         if vs \<noteq> [] \<or> gone \<noteq> [] then send c (UpdateFrame ts vs gone) (set_client c st' h)
         else set_client c st' h))"

definition flush :: "cache \<Rightarrow> int \<Rightarrow> hub \<Rightarrow> hub" where
  "flush ca ts h = fold (flush_client (get_multiple ca (union_keys (hb_clients h))) ts) (map fst (hb_clients h)) h"

definition drop_stale :: "int \<Rightarrow> hub \<Rightarrow> hub" where
  "drop_stale now h = fold (\<lambda>c h. if now - cl_active (hb_conns h c) > stale_client_timeout
     then remove_client c h else h) (map fst (hb_clients h)) h"

definition close_all :: "hub \<Rightarrow> hub" where
  "close_all h = fold close_client (map fst (hb_clients h)) h"

section \<open>Actions\<close>

definition touch :: "nat \<Rightarrow> int \<Rightarrow> hub \<Rightarrow> hub" where
  "touch c now h = h\<lparr>hb_conns := (hb_conns h)(c := (hb_conns h c)\<lparr>cl_active := now\<rparr>)\<rparr>"

text \<open>\<open>Register\<close>, with its two errors.\<close>

datatype register_error = HubStopped | TooManyClients

definition register_client :: "nat \<Rightarrow> hub \<Rightarrow> register_error option \<times> hub" where
  "register_client c h = (if hb_stopped h then (Some HubStopped, h)
     else if length (hb_clients h) < max_clients
       then (None, set_client c \<lparr>ct_subs = [], ct_last = []\<rparr> h)
     else (Some TooManyClients, h))"

definition unregister_client :: "nat \<Rightarrow> hub \<Rightarrow> hub" where
  "unregister_client c h = (if map_of (hb_clients h) c \<noteq> None then remove_client c h else h)"

definition on_event :: "event \<Rightarrow> hub \<Rightarrow> hub" where
  "on_event e h = (if ev_kind e = ValuesUpdated \<and> \<not> hb_dirty h then h\<lparr>hb_dirty := True, hb_armed := True\<rparr> else h)"

text \<open>
  A new connection, a sign of life from it (a frame or pong), a command of it reaching the hub,
  its end, one frame written by its write pump, a bus event, the flush timer, the beat, and the
  stop of the hub. A stopped hub does nothing more for
  its clients; their pumps still run.
\<close>

datatype hub_action = Connect nat int | Touch nat int | Command nat client_message cache | Disconnect nat
  | WriteOut nat | Bus event | FlushTimer cache int | BeatTimer int | StopHub

fun hub_act :: "registry \<Rightarrow> hub_action \<Rightarrow> hub \<Rightarrow> hub" where
  "hub_act g (Connect c now) h = (if map_of (hb_clients h) c \<noteq> None then h
     else snd (register_client c (h\<lparr>hb_conns := (hb_conns h)(c := new_client now), hb_log := (hb_log h)(c := [])\<rparr>)))"
| "hub_act g (Touch c now) h = touch c now h"
| "hub_act g (Command c msg ca) h = (if hb_stopped h then h else handle g ca c msg h)"
| "hub_act g (Disconnect c) h = (if hb_stopped h then h else unregister_client c h)"
| "hub_act g (WriteOut c) h = h\<lparr>hb_conns := (hb_conns h)(c := (hb_conns h c)\<lparr>cl_send := tl (cl_send (hb_conns h c))\<rparr>)\<rparr>"
| "hub_act g (Bus e) h = (if hb_stopped h then h else on_event e h)"
| "hub_act g (FlushTimer ca now) h = (if hb_stopped h \<or> \<not> hb_armed h then h
     else flush ca now (h\<lparr>hb_dirty := False, hb_armed := False\<rparr>))"
| "hub_act g (BeatTimer now) h = (if hb_stopped h then h
     else drop_stale now (h\<lparr>hb_status := beat now (hb_status h)\<rparr>))"
| "hub_act g StopHub h = (if hb_stopped h then h else close_all (h\<lparr>hb_stopped := True\<rparr>))"

section \<open>What a client knows\<close>

definition dto_state :: "value_dto \<Rightarrow> pushed" where
  "dto_state d = \<lparr>pu_value = dt_value d, pu_status = dt_status d\<rparr>"

fun learn :: "item \<Rightarrow> (string \<rightharpoonup> pushed) \<Rightarrow> (string \<rightharpoonup> pushed)" where
  "learn (Got (SnapshotFrame vs)) m = m ++ (map_option dto_state \<circ> map_of vs)"
| "learn (Got (UpdateFrame ts vs gone)) m =
     (\<lambda>k. if k \<in> set gone then None else (m ++ (map_option dto_state \<circ> map_of vs)) k)"
| "learn (Got f) m = m"
| "learn (Forgot ks) m = (\<lambda>k. if k \<in> set ks then None else m k)"

definition view :: "item list \<Rightarrow> (string \<rightharpoonup> pushed)" where
  "view items = fold learn items Map.empty"

lemma view_simps [simp]: "view [] = Map.empty" "view (items @ [x]) = learn x (view items)"
  by (simp_all add: view_def)

lemma dto_states [simp]: "dto_state (update_dto v) = state_of v" "dto_state (full_dto v) = state_of v"
  by (simp_all add: dto_state_def update_dto_def full_dto_def state_of_def)

text \<open>The hub's record of a client is what the client knows, on subscribed keys only.\<close>

definition synced :: "hub \<Rightarrow> nat \<Rightarrow> bool" where
  "synced h c \<longleftrightarrow> (case map_of (hb_clients h) c of None \<Rightarrow> True
     | Some st \<Rightarrow> (hb_stopped h \<or> \<not> cl_closed (hb_conns h c)) \<and> view (hb_log h c) = map_of (ct_last st) \<and>
         dom (map_of (ct_last st)) \<subseteq> set (ct_subs st) \<and> distinct (ct_subs st))"

definition shape :: "hub \<Rightarrow> bool" where
  "shape h \<longleftrightarrow> distinct (map fst (hb_clients h)) \<and> length (hb_clients h) \<le> max_clients \<and>
     (\<forall>c. length (cl_send (hb_conns h c)) \<le> send_buffer) \<and> hb_dirty h = hb_armed h"

definition hub_inv :: "hub \<Rightarrow> bool" where
  "hub_inv h \<longleftrightarrow> shape h \<and> (\<forall>c. synced h c)"

section \<open>One client at a time\<close>

text \<open>What concerns one client.\<close>

definition view_of :: "hub \<Rightarrow> nat \<Rightarrow> client_state option \<times> client \<times> item list" where
  "view_of h c = (map_of (hb_clients h) c, hb_conns h c, hb_log h c)"

lemma synced_cong: "view_of h c = view_of h' c \<Longrightarrow> hb_stopped h = hb_stopped h' \<Longrightarrow> synced h c = synced h' c"
  by (auto simp: synced_def view_of_def split: option.splits)

lemma send_other [simp]: "c' \<noteq> c \<Longrightarrow> view_of (send c f h) c' = view_of h c'"
  by (auto simp: send_def view_of_def remove_client_def close_client_def delete_conv' split: prod.split bool.split)

lemma set_client_other [simp]: "c' \<noteq> c \<Longrightarrow> view_of (set_client c st h) c' = view_of h c'"
  by (simp add: set_client_def view_of_def update_conv')

lemma hub_flags [simp]:
  "hb_stopped (send c f h) = hb_stopped h" "hb_dirty (send c f h) = hb_dirty h" "hb_armed (send c f h) = hb_armed h"
  "hb_stopped (set_client c st h) = hb_stopped h" "hb_dirty (set_client c st h) = hb_dirty h"
  "hb_armed (set_client c st h) = hb_armed h"
  "hb_stopped (remove_client c h) = hb_stopped h" "hb_dirty (remove_client c h) = hb_dirty h"
  "hb_armed (remove_client c h) = hb_armed h"
  by (simp_all add: send_def set_client_def remove_client_def close_client_def split: prod.split bool.split)

text \<open>A frame is queued and logged, or its client is dropped because its queue is full.\<close>

lemma send_self:
  assumes "\<not> cl_closed (hb_conns h c)"
  obtains "length (cl_send (hb_conns h c)) < send_buffer" "hb_clients (send c f h) = hb_clients h"
    "hb_log (send c f h) c = hb_log h c @ [Got f]" "\<not> cl_closed (hb_conns (send c f h) c)"
    "length (cl_send (hb_conns (send c f h) c)) \<le> send_buffer"
  | "\<not> length (cl_send (hb_conns h c)) < send_buffer" "hb_clients (send c f h) = AList.delete c (hb_clients h)"
    "cl_send (hb_conns (send c f h) c) = cl_send (hb_conns h c)"
  using assms by (auto simp: send_def enqueue_def remove_client_def close_client_def split: if_splits)

lemma shape_send: "shape h \<Longrightarrow> shape (send c f h)"
  by (auto simp: shape_def send_def enqueue_def remove_client_def close_client_def distinct_delete
      split: prod.split bool.split intro: le_trans [OF length_delete_le])

lemma length_update:
  "k \<in> fst ` set al \<Longrightarrow> length (AList.update k v al) = length al"
  by (induction al) auto

lemma shape_set_client:
  assumes "shape h" "map_of (hb_clients h) c \<noteq> None" shows "shape (set_client c st h)"
  using assms by (auto simp: shape_def set_client_def distinct_update length_update map_of_eq_None_iff)

text \<open>A new record of a client, with the frame that tells it.\<close>

lemma synced_send:
  assumes "\<not> cl_closed (hb_conns h c)" "map_of (hb_clients h) c = Some st"
    "learn (Got f) (view (hb_log h c)) = map_of (ct_last st)" "dom (map_of (ct_last st)) \<subseteq> set (ct_subs st)"
    "distinct (ct_subs st)"
  shows "synced (send c f h) c"
  using assms(1)
  by (rule send_self [of h c f]) (use assms in \<open>auto simp: synced_def delete_conv'\<close>)

lemma all_synced_send:
  assumes "\<forall>c' \<noteq> c. synced h c'" "synced (send c f h) c" shows "synced (send c f h) c'"
proof (cases "c' = c")
  case False
  with assms(1) show ?thesis using synced_cong [of "send c f h" c' h] by simp
qed (use assms(2) in simp)

lemma syncedD:
  assumes "synced h c" "\<not> hb_stopped h" "map_of (hb_clients h) c = Some st"
  shows "\<not> cl_closed (hb_conns h c)" "view (hb_log h c) = map_of (ct_last st)"
    "dom (map_of (ct_last st)) \<subseteq> set (ct_subs st)" "distinct (ct_subs st)"
  using assms by (simp_all add: synced_def)

lemma hub_invD: "hub_inv h \<Longrightarrow> synced h c"
  by (simp add: hub_inv_def)

text \<open>A frame that carries no values.\<close>

lemma hub_inv_notice:
  assumes "hub_inv h" "\<not> hb_stopped h" "map_of (hb_clients h) c = Some st" "\<And>m. learn (Got f) m = m"
  shows "hub_inv (send c f h)"
proof -
  have "synced h c" using assms(1) by (simp add: hub_inv_def)
  then have "synced (send c f h) c" using assms(2-4) by (intro synced_send) (auto simp: synced_def)
  with assms(1) show ?thesis by (auto simp: hub_inv_def shape_send intro: all_synced_send)
qed

section \<open>Commands keep the record\<close>

lemma get_multiple_map: "map_of (get_multiple ca ks) k = (if k \<in> set ks then cache_get ca k else None)"
  by (induction ks) (auto simp: cache_get_def update_conv' split: option.splits)

lemma get_multiple_distinct: "distinct (map fst (get_multiple ca ks))"
  by (induction ks) (auto simp: distinct_update split: option.split)

lemma add_keys_split:
  "add_keys g keys (subs, added, unknown) = (subs', added', unknown') \<Longrightarrow>
    \<exists>new. subs' = subs @ new \<and> added' = added @ new \<and> distinct new \<and> set new \<inter> set subs = {} \<and>
      set new \<subseteq> set keys"
proof (induction keys arbitrary: subs added unknown)
  case (Cons k ks)
  show ?case
  proof (cases "by_key g k = None \<or> k \<in> set subs")
    case True
    then obtain u where "add_keys g ks (subs, added, u) = (subs', added', unknown')"
      using Cons.prems by (auto split: if_splits)
    from Cons.IH [OF this] show ?thesis by auto
  next
    case False
    then have "add_keys g ks (subs @ [k], added @ [k], unknown) = (subs', added', unknown')"
      using Cons.prems by (simp split: if_splits)
    from Cons.IH [OF this] obtain new where "subs' = (subs @ [k]) @ new" "added' = (added @ [k]) @ new"
      "distinct new" "set new \<inter> set (subs @ [k]) = {}" "set new \<subseteq> set ks" by blast
    then show ?thesis using False by (intro exI [of _ "k # new"]) auto
  qed
qed auto

lemma fold_update_states:
  assumes "distinct (map fst vs)"
  shows "map_of (fold (\<lambda>(k, v). AList.update k (f v)) vs seen) = map_of seen ++ (map_option f \<circ> map_of vs)"
  using assms
proof (induction vs arbitrary: seen)
  case (Cons kv vs)
  obtain k v where kv: "kv = (k, v)" by (cases kv)
  with Cons.prems have "map_of vs k = None" by (auto simp: map_of_eq_None_iff)
  with Cons kv show ?case by (auto simp: fun_eq_iff map_add_def update_conv' split: option.split)
qed (simp add: fun_eq_iff map_add_def)

lemma snapshot_states:
  "(map_option dto_state \<circ> map_of (map (\<lambda>(k, v). (k, full_dto v)) vs)) = (map_option state_of \<circ> map_of vs)"
  by (induction vs) (auto simp: fun_eq_iff)

lemma subscribe_inv:
  assumes "hub_inv h" "\<not> hb_stopped h" "map_of (hb_clients h) c = Some st"
  shows "hub_inv (subscribe_keys g ca c st keys h)"
proof -
  obtain subs added unknown where ak: "add_keys g keys (ct_subs st, [], []) = (subs, added, unknown)"
    by (metis prod_cases3)
  from add_keys_split [OF ak] obtain new where new: "subs = ct_subs st @ new" "added = new" "distinct new"
    "set new \<inter> set (ct_subs st) = {}" by auto
  define st1 h1 h2 where "st1 = st\<lparr>ct_subs := subs\<rparr>" and "h1 = set_client c st1 h" and
    "h2 = (if unknown \<noteq> [] then send c (UnknownKeys unknown) h1 else h1)"
  have st: "\<not> cl_closed (hb_conns h c)" "view (hb_log h c) = map_of (ct_last st)"
    "dom (map_of (ct_last st)) \<subseteq> set (ct_subs st)" "distinct (ct_subs st)"
    using syncedD [OF hub_invD [OF assms(1)] assms(2,3)] .
  have "synced h1 c" using st new by (auto simp: synced_def h1_def st1_def set_client_def update_conv')
  moreover have "synced h1 c'" if "c' \<noteq> c" for c'
    using assms(1) that synced_cong [of h1 c' h] by (simp add: hub_inv_def h1_def)
  moreover have "shape h1" using assms by (simp add: hub_inv_def h1_def shape_set_client)
  ultimately have inv1: "hub_inv h1" by (metis hub_inv_def)
  moreover have run: "\<not> hb_stopped h1" "map_of (hb_clients h1) c = Some st1"
    using assms(2) by (simp_all add: h1_def set_client_def update_conv')
  ultimately have inv2: "hub_inv h2" by (auto simp: h2_def intro: hub_inv_notice)
  have sub: "subscribe_keys g ca c st keys h = (if map_of (hb_clients h2) c = None then h2
      else let vs = get_multiple ca new; st = st1\<lparr>ct_last := fold (\<lambda>(k, v). AList.update k (state_of v)) vs (ct_last st1)\<rparr> in
        send c (SnapshotFrame (map (\<lambda>(k, v). (k, full_dto v)) vs)) (set_client c st h2))"
    unfolding subscribe_keys_def ak prod.case Let_def new(2) h2_def h1_def st1_def ..
  show ?thesis
  proof (cases "map_of (hb_clients h2) c")
    case None
    then show ?thesis using inv2 by (simp add: sub)
  next
    case (Some st2)
    have cl: "hb_clients h2 = hb_clients h1"
      using Some run unfolding h2_def
      by (auto simp: send_def remove_client_def close_client_def delete_conv' split: prod.splits bool.splits if_splits)
    then have st2: "st2 = st1" using Some run by simp
    define vs st3 where "vs = get_multiple ca new" and
      "st3 = st1\<lparr>ct_last := fold (\<lambda>(k, v). AList.update k (state_of v)) vs (ct_last st1)\<rparr>"
    have last3: "map_of (ct_last st3) = map_of (ct_last st1) ++ (map_option state_of \<circ> map_of vs)"
      using fold_update_states [OF get_multiple_distinct, of state_of] by (simp add: st3_def vs_def)
    have s2: "synced h2 c" "\<not> hb_stopped h2" using inv2 run by (auto simp: hub_inv_def h2_def)
    then have ok2: "\<not> cl_closed (hb_conns h2 c)" "view (hb_log h2 c) = map_of (ct_last st1)"
      "dom (map_of (ct_last st1)) \<subseteq> set (ct_subs st1)" "distinct (ct_subs st1)"
      using Some st2 by (auto simp: synced_def)
    have "dom (map_of vs) \<subseteq> set new" by (auto simp: vs_def get_multiple_map split: if_splits)
    then have "dom (map_of (ct_last st3)) \<subseteq> set (ct_subs st3)"
      using ok2(3) unfolding last3 by (auto simp: st3_def st1_def new(1))
    moreover have "learn (Got (SnapshotFrame (map (\<lambda>(k, v). (k, full_dto v)) vs))) (view (hb_log (set_client c st3 h2) c))
        = map_of (ct_last st3)"
      using ok2(2) by (simp add: last3 snapshot_states set_client_def)
    ultimately have "synced (send c (SnapshotFrame (map (\<lambda>(k, v). (k, full_dto v)) vs)) (set_client c st3 h2)) c"
      using ok2 by (intro synced_send [where st = st3]) (simp_all add: set_client_def update_conv' st3_def)
    moreover have "synced (set_client c st3 h2) c'" if "c' \<noteq> c" for c'
      using inv2 that synced_cong [of "set_client c st3 h2" c' h2] by (simp add: hub_inv_def)
    moreover have "shape (set_client c st3 h2)" using inv2 Some by (simp add: hub_inv_def shape_set_client)
    ultimately have "hub_inv (send c (SnapshotFrame (map (\<lambda>(k, v). (k, full_dto v)) vs)) (set_client c st3 h2))"
      by (auto simp: hub_inv_def shape_send intro: all_synced_send)
    then show ?thesis using Some by (simp add: sub Let_def vs_def st3_def)
  qed
qed

lemma map_of_without:
  "map_of (filter (\<lambda>(k, p). k \<notin> S) al) = (\<lambda>k. if k \<in> S then None else map_of al k)"
  by (induction al) (auto simp: fun_eq_iff)

lemma unsubscribe_inv:
  assumes "hub_inv h" "\<not> hb_stopped h" "map_of (hb_clients h) c = Some st"
    "st' = st\<lparr>ct_subs := filter (\<lambda>k. k \<notin> set ks) (ct_subs st), ct_last := filter (\<lambda>(k, p). k \<notin> set ks) (ct_last st)\<rparr>"
    "h' = (set_client c st' h)\<lparr>hb_log := (hb_log h)(c := hb_log h c @ [Forgot ks])\<rparr>"
  shows "hub_inv h'"
proof -
  note st = syncedD [OF hub_invD [OF assms(1)] assms(2,3)]
  have last': "map_of (ct_last st') = (\<lambda>k. if k \<in> set ks then None else map_of (ct_last st) k)"
    unfolding assms(4) by (simp add: map_of_without)
  have "synced h' c'" for c'
  proof (cases "c' = c")
    case True
    have "dom (map_of (ct_last st')) \<subseteq> set (ct_subs st')"
      using st(3) unfolding last' by (auto simp: assms(4) split: if_splits)
    with True st last' show ?thesis
      by (auto simp: synced_def assms(5) set_client_def update_conv' assms(4))
  next
    case False
    then have "view_of h' c' = view_of h c'" by (simp add: assms(5) view_of_def set_client_def update_conv')
    with assms(1) show ?thesis using synced_cong [of h' c' h] by (simp add: hub_inv_def assms(5))
  qed
  moreover have "shape h'" using shape_set_client [of h c st'] assms(1,3)
    by (simp add: hub_inv_def assms(5) shape_def set_client_def)
  ultimately show ?thesis by (simp add: hub_inv_def)
qed

lemma handle_inv:
  assumes "hub_inv h" "\<not> hb_stopped h" shows "hub_inv (handle g ca c msg h)"
proof (cases "map_of (hb_clients h) c")
  case None
  then show ?thesis using assms(1) by (simp add: handle_def)
next
  case (Some st)
  note n = hub_inv_notice [OF assms Some]
  show ?thesis using n subscribe_inv [OF assms Some] unsubscribe_inv [OF assms Some refl refl]
    by (simp add: handle_def Some)
qed

section \<open>A flush\<close>

definition fresh :: "reg_value option \<Rightarrow> pushed option \<Rightarrow> bool" where
  "fresh cur p \<longleftrightarrow> (case cur of None \<Rightarrow> p \<noteq> None
     | Some v \<Rightarrow> (case p of None \<Rightarrow> True | Some prev \<Rightarrow> \<not> pushed_equal prev (state_of v)))"

lemma fresh_None [simp]: "fresh None p \<longleftrightarrow> p \<noteq> None"
  by (simp add: fresh_def)

lemma diff_keys_spec:
  assumes "diff_keys cur ks (seen, vs, gone) = (seen', vs', gone')" "distinct ks"
  shows "(\<forall>k. map_of seen' k = (if k \<in> set ks \<and> fresh (map_of cur k) (map_of seen k)
        then map_option state_of (map_of cur k) else map_of seen k)) \<and>
    (\<forall>k. map_of vs' k = (if k \<in> set ks \<and> fresh (map_of cur k) (map_of seen k) \<and> map_of cur k \<noteq> None
        then map_option update_dto (map_of cur k) else map_of vs k)) \<and>
    set gone' = set gone \<union> {k \<in> set ks. map_of cur k = None \<and> map_of seen k \<noteq> None}"
  using assms
proof (induction ks arbitrary: seen vs gone)
  case (Cons k ks)
  have k: "k \<notin> set ks" "distinct ks" using Cons.prems(2) by auto
  show ?case
  proof (cases "map_of cur k")
    case None
    show ?thesis
    proof (cases "map_of seen k")
      case n: None
      then have "diff_keys cur ks (seen, vs, gone) = (seen', vs', gone')" using Cons.prems(1) None by simp
      from Cons.IH [OF this k(2)] k(1) show ?thesis by (auto simp: None n)
    next
      case (Some p)
      then have "diff_keys cur ks (AList.delete k seen, vs, gone @ [k]) = (seen', vs', gone')"
        using Cons.prems(1) None by simp
      from Cons.IH [OF this k(2)] k(1) show ?thesis by (auto simp: None Some delete_conv')
    qed
  next
    case (Some v)
    show ?thesis
    proof (cases "fresh (Some v) (map_of seen k)")
      case True
      then have "diff_keys cur ks (AList.update k (state_of v) seen, AList.update k (update_dto v) vs, gone) = (seen', vs', gone')"
        using Cons.prems(1) Some by (simp add: fresh_def split: option.splits)
      from Cons.IH [OF this k(2)] k(1) True show ?thesis by (auto simp: Some update_conv')
    next
      case False
      then have "diff_keys cur ks (seen, vs, gone) = (seen', vs', gone')"
        using Cons.prems(1) Some by (simp add: fresh_def split: option.splits)
      from Cons.IH [OF this k(2)] k(1) False show ?thesis by (auto simp: Some)
    qed
  qed
qed auto

lemma diff_spec:
  assumes "diff cur st = (st', vs, gone)" "distinct (ct_subs st)" "dom (map_of (ct_last st)) \<subseteq> set (ct_subs st)"
  shows "ct_subs st' = ct_subs st"
    "map_of (ct_last st') k = (if k \<in> set (ct_subs st) \<and> fresh (map_of cur k) (map_of (ct_last st) k)
        then map_option state_of (map_of cur k) else map_of (ct_last st) k)"
    "map_of vs k = (if k \<in> set (ct_subs st) \<and> fresh (map_of cur k) (map_of (ct_last st) k) \<and> map_of cur k \<noteq> None
        then map_option update_dto (map_of cur k) else None)"
    "set gone = {k \<in> set (ct_subs st). map_of cur k = None \<and> map_of (ct_last st) k \<noteq> None}"
proof -
  obtain seen g2 where d: "diff_keys cur (ct_subs st) (ct_last st, [], []) = (seen, vs, g2)"
    "st' = st\<lparr>ct_last := seen\<rparr>" "gone = sort g2"
    using assms(1) by (auto simp: diff_def split: prod.splits)
  from diff_keys_spec [OF d(1) assms(2)] show "ct_subs st' = ct_subs st"
    "map_of (ct_last st') k = (if k \<in> set (ct_subs st) \<and> fresh (map_of cur k) (map_of (ct_last st) k)
        then map_option state_of (map_of cur k) else map_of (ct_last st) k)"
    "map_of vs k = (if k \<in> set (ct_subs st) \<and> fresh (map_of cur k) (map_of (ct_last st) k) \<and> map_of cur k \<noteq> None
        then map_option update_dto (map_of cur k) else None)"
    "set gone = {k \<in> set (ct_subs st). map_of cur k = None \<and> map_of (ct_last st) k \<noteq> None}"
    by (simp_all add: d(2,3))
qed

lemma learn_diff:
  assumes "diff cur st = (st', vs, gone)" "distinct (ct_subs st)" "dom (map_of (ct_last st)) \<subseteq> set (ct_subs st)"
  shows "learn (Got (UpdateFrame ts vs gone)) (map_of (ct_last st)) = map_of (ct_last st')"
    "vs = [] \<Longrightarrow> gone = [] \<Longrightarrow> map_of (ct_last st') = map_of (ct_last st)"
    "dom (map_of (ct_last st')) \<subseteq> set (ct_subs st')"
proof -
  note d = diff_spec [OF assms]
  show l: "learn (Got (UpdateFrame ts vs gone)) (map_of (ct_last st)) = map_of (ct_last st')"
    by (rule ext) (auto simp: d map_add_def fresh_def split: option.split)
  show "map_of (ct_last st') = map_of (ct_last st)" if "vs = []" "gone = []"
    unfolding l [symmetric] by (simp add: that map_add_def)
  show "dom (map_of (ct_last st')) \<subseteq> set (ct_subs st')"
    using subsetD [OF assms(3), OF domI] by (auto simp: d split: if_splits)
qed

text \<open>The flush of one client.\<close>

definition in_step :: "(string \<times> reg_value) list \<Rightarrow> hub \<Rightarrow> nat \<Rightarrow> bool" where
  "in_step cur h c \<longleftrightarrow> (case map_of (hb_clients h) c of None \<Rightarrow> True
     | Some st \<Rightarrow> (\<forall>k \<in> set (ct_subs st). \<not> fresh (map_of cur k) (map_of (ct_last st) k) \<or>
         map_of (ct_last st) k = map_option state_of (map_of cur k)))"

lemma in_step_cong: "view_of h c = view_of h' c \<Longrightarrow> in_step cur h c = in_step cur h' c"
  by (auto simp: in_step_def view_of_def)

lemma flush_client_other [simp]: "c' \<noteq> c \<Longrightarrow> view_of (flush_client cur ts c h) c' = view_of h c'"
  by (simp add: flush_client_def split: option.split prod.split)

lemma flush_client_flags [simp]: "hb_stopped (flush_client cur ts c h) = hb_stopped h"
  by (simp add: flush_client_def split: option.split prod.split)

text \<open>What it sends: nothing, or one frame of subscribed keys; a client is dropped for its own full
  queue only.\<close>

definition one_update :: "hub \<Rightarrow> hub \<Rightarrow> nat \<Rightarrow> bool" where
  "one_update h h' c \<longleftrightarrow> (case map_of (hb_clients h) c of None \<Rightarrow> map_of (hb_clients h') c = None
     | Some st \<Rightarrow> (case map_of (hb_clients h') c of
         None \<Rightarrow> length (cl_send (hb_conns h c)) = send_buffer
       | Some st' \<Rightarrow> ct_subs st' = ct_subs st \<and> (hb_log h' c = hb_log h c \<or>
           (\<exists>ts vs gone. hb_log h' c = hb_log h c @ [Got (UpdateFrame ts vs gone)] \<and>
             set (map fst vs) \<union> set gone \<subseteq> set (ct_subs st)))))"

lemma flush_client_inv:
  assumes "hub_inv h" "\<not> hb_stopped h"
  shows "hub_inv (flush_client cur ts c h) \<and> in_step cur (flush_client cur ts c h) c \<and>
    one_update h (flush_client cur ts c h) c"
proof (cases "map_of (hb_clients h) c")
  case None
  then show ?thesis using assms(1) by (simp add: flush_client_def in_step_def one_update_def)
next
  case (Some st)
  note st = syncedD [OF hub_invD [OF assms(1)] assms(2) Some]
  obtain st' vs gone where d: "diff cur st = (st', vs, gone)" by (metis prod_cases3)
  note dsp = diff_spec [OF d st(4,3)] and l = learn_diff [OF d st(4,3)]
  define f where "f = UpdateFrame ts vs gone"
  define quiet where "quiet \<longleftrightarrow> vs = [] \<and> gone = []"
  let ?h1 = "set_client c st' h" and ?h' = "flush_client cur ts c h"
  have h': "?h' = (if quiet then ?h1 else send c f ?h1)"
    by (simp add: flush_client_def Some d quiet_def f_def)
  have subs': "distinct (ct_subs st')" using dsp(1) st(4) by simp
  have h1: "\<not> cl_closed (hb_conns ?h1 c)" "map_of (hb_clients ?h1) c = Some st'" "hb_log ?h1 c = hb_log h c"
    "hb_conns ?h1 c = hb_conns h c"
    using st(1) by (simp_all add: set_client_def update_conv')
  have "synced ?h' c"
  proof (cases quiet)
    case True
    then show ?thesis using l h1 st subs' by (simp add: h' synced_def quiet_def)
  next
    case False
    have "synced (send c f ?h1) c"
      using l st h1 subs' by (intro synced_send [where st = st']) (simp_all add: f_def)
    with False show ?thesis by (simp add: h')
  qed
  moreover have "synced ?h' c'" if "c' \<noteq> c" for c'
    using assms(1) synced_cong [of ?h' c' h] that by (simp add: hub_inv_def)
  moreover have "shape ?h'"
    using assms(1) Some shape_set_client [of h c st'] by (simp add: h' hub_inv_def shape_send)
  ultimately have "hub_inv ?h'" by (metis hub_inv_def)
  moreover have up: "\<forall>k \<in> set (ct_subs st'). \<not> fresh (map_of cur k) (map_of (ct_last st') k) \<or>
      map_of (ct_last st') k = map_option state_of (map_of cur k)"
    by (auto simp: dsp(1,2))
  have sub: "set (map fst vs) \<union> set gone \<subseteq> set (ct_subs st)"
  proof -
    have "k \<in> set (ct_subs st)" if "k \<in> fst ` set vs" for k
      using that dsp(3) [of k] by (metis map_of_eq_None_iff)
    then show ?thesis using dsp(4) by auto
  qed
  have le: "length (cl_send (hb_conns h c)) \<le> send_buffer" using assms(1) by (simp add: hub_inv_def shape_def)
  have "in_step cur ?h' c \<and> one_update h ?h' c"
  proof (cases quiet)
    case True
    then show ?thesis using up h1 dsp(1) by (simp add: h' in_step_def one_update_def Some)
  next
    case False
    show ?thesis
    proof (rule send_self [OF h1(1), of f])
      assume "hb_clients (send c f ?h1) = hb_clients ?h1" "hb_log (send c f ?h1) c = hb_log ?h1 c @ [Got f]"
      then show ?thesis using up h1 False sub dsp(1)
        by (auto simp: h' in_step_def one_update_def Some f_def)
    next
      assume "\<not> length (cl_send (hb_conns ?h1 c)) < send_buffer"
        "hb_clients (send c f ?h1) = AList.delete c (hb_clients ?h1)"
      then show ?thesis using h1 False le by (simp add: h' in_step_def one_update_def Some delete_conv')
    qed
  qed
  ultimately show ?thesis by blast
qed

lemma one_update_cong:
  "view_of h c = view_of h2 c \<Longrightarrow> view_of h' c = view_of h2' c \<Longrightarrow> one_update h h' c = one_update h2 h2' c"
  unfolding view_of_def prod.inject one_update_def by (elim conjE) (simp only:)

lemma flush_fold:
  assumes "hub_inv h" "\<not> hb_stopped h" "distinct cs" "h' = fold (flush_client cur ts) cs h"
  shows "hub_inv h' \<and> (\<forall>c \<in> set cs. in_step cur h' c \<and> one_update h h' c) \<and>
    (\<forall>c. c \<notin> set cs \<longrightarrow> view_of h' c = view_of h c) \<and> hb_stopped h' = hb_stopped h"
  using assms
proof (induction cs arbitrary: h)
  case (Cons c cs)
  let ?h1 = "flush_client cur ts c h"
  note one = flush_client_inv [OF Cons.prems(1,2), of cur ts c]
  have ih: "hub_inv h' \<and> (\<forall>c \<in> set cs. in_step cur h' c \<and> one_update ?h1 h' c) \<and>
      (\<forall>c. c \<notin> set cs \<longrightarrow> view_of h' c = view_of ?h1 c) \<and> hb_stopped h' = hb_stopped ?h1"
    using Cons.IH [of ?h1] one Cons.prems by simp
  have c: "c \<notin> set cs" using Cons.prems(3) by simp
  have "in_step cur h' c' \<and> one_update h h' c'" if "c' \<in> set (c # cs)" for c'
  proof (cases "c' = c")
    case True
    then have "view_of h' c' = view_of ?h1 c'" using ih c by blast
    then show ?thesis using one True in_step_cong [of h' c' ?h1] one_update_cong [of h c' h h' ?h1] by simp
  next
    case False
    then show ?thesis using ih that one_update_cong [of h c' ?h1 h' h'] by simp
  qed
  with ih c show ?case by (metis flush_client_flags flush_client_other list.set_intros(1) list.set_intros(2))
qed simp

lemma flush_inv:
  assumes "hub_inv h" "\<not> hb_stopped h" "hb_armed h"
  shows "hub_inv (hub_act g (FlushTimer ca now) h) \<and> (\<forall>c. one_update h (hub_act g (FlushTimer ca now) h) c \<and>
    (case map_of (hb_clients (hub_act g (FlushTimer ca now) h)) c of None \<Rightarrow> True
     | Some st \<Rightarrow> \<forall>k \<in> set (ct_subs st). \<not> fresh (cache_get ca k) (map_of (ct_last st) k) \<or>
         map_of (ct_last st) k = map_option state_of (cache_get ca k)))"
proof -
  let ?h0 = "h\<lparr>hb_dirty := False, hb_armed := False\<rparr>"
  let ?cur = "get_multiple ca (union_keys (hb_clients h))" and ?cs = "map fst (hb_clients h)"
  let ?h' = "fold (flush_client ?cur now) ?cs ?h0"
  have "synced ?h0 c" for c using assms(1) synced_cong [of ?h0 c h] by (simp add: hub_inv_def view_of_def)
  then have inv0: "hub_inv ?h0" "\<not> hb_stopped ?h0" "distinct ?cs"
    using assms by (auto simp: hub_inv_def shape_def)
  note f = flush_fold [OF inv0 refl, of ?cur now]
  have v0: "view_of ?h0 c = view_of h c" for c by (simp add: view_of_def)
  have one: "one_update h ?h' c" for c
  proof (cases "c \<in> set ?cs")
    case True
    then show ?thesis using f one_update_cong [OF v0 refl] by blast
  next
    case False
    then have "view_of ?h' c = view_of h c" using f v0 by simp
    moreover have "map_of (hb_clients h) c = None" using False by (simp add: map_of_eq_None_iff)
    ultimately show ?thesis by (simp add: one_update_def view_of_def)
  qed
  have "\<not> fresh (cache_get ca k) (map_of (ct_last st) k) \<or> map_of (ct_last st) k = map_option state_of (cache_get ca k)"
    if st: "map_of (hb_clients ?h') c = Some st" and k: "k \<in> set (ct_subs st)" for c st k
  proof -
    obtain st0 where st0: "map_of (hb_clients h) c = Some st0" "ct_subs st = ct_subs st0"
      using one [of c] st by (auto simp: one_update_def split: option.splits)
    then have "(c, st0) \<in> set (hb_clients h)" by (simp add: map_of_SomeD)
    then have "c \<in> set ?cs" "k \<in> set (union_keys (hb_clients h))"
      using k st0(2) by (force simp: union_keys_def)+
    then have "in_step ?cur ?h' c" using f by blast
    then have "\<not> fresh (map_of ?cur k) (map_of (ct_last st) k) \<or>
        map_of (ct_last st) k = map_option state_of (map_of ?cur k)"
      using st k by (simp add: in_step_def)
    moreover have "map_of ?cur k = cache_get ca k"
      using \<open>k \<in> set (union_keys (hb_clients h))\<close> by (simp add: get_multiple_map)
    ultimately show ?thesis by (simp only:)
  qed
  then show ?thesis using f one assms(2,3) by (auto simp: flush_def split: option.split)
qed

section \<open>Every action keeps the record\<close>

lemma remove_inv: "hub_inv h \<Longrightarrow> hub_inv (remove_client c h)"
proof -
  assume h: "hub_inv h"
  have "synced (remove_client c h) c'" for c'
  proof (cases "c' = c")
    case False
    then have "view_of (remove_client c h) c' = view_of h c'"
      by (simp add: view_of_def remove_client_def close_client_def delete_conv')
    with h show ?thesis using synced_cong [of "remove_client c h" c' h] by (simp add: hub_inv_def)
  qed (simp add: synced_def remove_client_def close_client_def delete_conv')
  moreover have "shape (remove_client c h)" using h
    by (auto simp: hub_inv_def shape_def remove_client_def close_client_def distinct_delete
        intro: le_trans [OF length_delete_le])
  ultimately show ?thesis by (simp add: hub_inv_def)
qed

text \<open>An action that changes nothing a record depends on.\<close>

lemma hub_inv_frame:
  assumes "hub_inv h" "hb_clients h' = hb_clients h" "hb_log h' = hb_log h" "hb_dirty h' = hb_armed h'"
    "\<And>c. length (cl_send (hb_conns h' c)) \<le> length (cl_send (hb_conns h c))"
    "hb_stopped h' \<or> hb_stopped h' = hb_stopped h \<and> (\<forall>c. cl_closed (hb_conns h' c) = cl_closed (hb_conns h c))"
  shows "hub_inv h'"
proof -
  have "synced h' c" for c using hub_invD [OF assms(1), of c] assms(2,3,6)
    by (auto simp: synced_def split: option.splits)
  moreover have "shape h'" using assms(1,2,4,5) by (auto simp: hub_inv_def shape_def intro: le_trans)
  ultimately show ?thesis by (simp add: hub_inv_def)
qed

lemma drop_stale_inv: "hub_inv h \<Longrightarrow> hub_inv (drop_stale now h)"
proof -
  have "hub_inv h \<Longrightarrow> hub_inv (fold (\<lambda>c h. if now - cl_active (hb_conns h c) > stale_client_timeout
     then remove_client c h else h) cs h)" for cs
    by (induction cs arbitrary: h) (simp_all add: remove_inv)
  then show "hub_inv h \<Longrightarrow> ?thesis" by (simp add: drop_stale_def)
qed

lemma close_all_inv: "hub_inv h \<Longrightarrow> hub_inv (close_all (h\<lparr>hb_stopped := True\<rparr>))"
proof -
  assume h: "hub_inv h"
  have "hb_clients (fold close_client cs h0) = hb_clients h0 \<and> hb_log (fold close_client cs h0) = hb_log h0 \<and>
      hb_stopped (fold close_client cs h0) = hb_stopped h0 \<and> hb_dirty (fold close_client cs h0) = hb_dirty h0 \<and>
      hb_armed (fold close_client cs h0) = hb_armed h0 \<and>
      (\<forall>c. cl_send (hb_conns (fold close_client cs h0) c) = cl_send (hb_conns h0 c))" for cs and h0 :: hub
    by (induction cs arbitrary: h0) (simp_all add: close_client_def)
  from this [of "map fst (hb_clients h)" "h\<lparr>hb_stopped := True\<rparr>"] h show ?thesis
    by (intro hub_inv_frame [OF h]) (simp_all add: close_all_def hub_inv_def shape_def)
qed

lemma connect_inv:
  assumes "hub_inv h" shows "hub_inv (hub_act g (Connect c now) h)"
proof (cases "map_of (hb_clients h) c")
  case None
  define h0 where "h0 = h\<lparr>hb_conns := (hb_conns h)(c := new_client now), hb_log := (hb_log h)(c := [])\<rparr>"
  have v: "view_of h0 c' = view_of h c'" if "c' \<noteq> c" for c' using that by (simp add: h0_def view_of_def)
  have s0: "synced h0 c'" for c'
  proof (cases "c' = c")
    case False
    with assms v show ?thesis using synced_cong [of h0 c' h] by (simp add: hub_inv_def h0_def)
  qed (simp add: synced_def h0_def None)
  have sh0: "shape h0" using assms by (auto simp: hub_inv_def shape_def h0_def new_client_def)
  let ?h1 = "set_client c \<lparr>ct_subs = [], ct_last = []\<rparr> h0"
  have "synced ?h1 c'" for c'
  proof (cases "c' = c")
    case False
    with s0 show ?thesis using synced_cong [of ?h1 c' h0] by simp
  qed (simp add: synced_def set_client_def update_conv' h0_def new_client_def)
  moreover have "shape ?h1" if "length (hb_clients h0) < max_clients"
  proof -
    have "length (AList.update c st al) \<le> Suc (length al)" for st and al :: "(nat \<times> client_state) list"
      by (induction al) auto
    from this [of "\<lparr>ct_subs = [], ct_last = []\<rparr>" "hb_clients h0"] show ?thesis using sh0 that
      by (simp add: shape_def set_client_def distinct_update)
  qed
  ultimately have "\<forall>c'. synced ?h1 c'" "length (hb_clients h0) < max_clients \<Longrightarrow> shape ?h1" by blast+
  moreover have "\<forall>c'. synced h0 c'" using s0 by blast
  ultimately show ?thesis using sh0
    by (auto simp add: None h0_def [symmetric] register_client_def hub_inv_def)
qed (use assms in simp)

lemma hub_act_inv: "hub_inv h \<Longrightarrow> hub_inv (hub_act g a h)"
proof -
  assume h: "hub_inv h"
  show ?thesis
  proof (cases a)
    case (Connect c now)
    with h connect_inv show ?thesis by blast
  next
    case (Touch c now)
    with h show ?thesis by (intro hub_inv_frame [OF h]) (auto simp: touch_def hub_inv_def shape_def)
  next
    case (Command c msg ca)
    with h handle_inv show ?thesis by simp
  next
    case (Disconnect c)
    with h remove_inv show ?thesis by (simp add: unregister_client_def)
  next
    case (WriteOut c)
    with h show ?thesis by (intro hub_inv_frame [OF h]) (auto simp: hub_inv_def shape_def)
  next
    case (Bus e)
    with h show ?thesis by (intro hub_inv_frame [OF h]) (auto simp: on_event_def hub_inv_def shape_def)
  next
    case (FlushTimer ca now)
    with h flush_inv [OF h] show ?thesis by (cases "hb_stopped h \<or> \<not> hb_armed h") auto
  next
    case (BeatTimer now)
    have "hub_inv (h\<lparr>hb_status := beat now (hb_status h)\<rparr>)"
      using h by (intro hub_inv_frame [OF h]) (auto simp: hub_inv_def shape_def)
    with h BeatTimer drop_stale_inv show ?thesis by simp
  next
    case StopHub
    with h close_all_inv show ?thesis by simp
  qed
qed

lemma hub_run_inv: "hub_inv (fold (hub_act g) acts new_hub)"
proof -
  have "hub_inv h \<Longrightarrow> hub_inv (fold (hub_act g) acts h)" for h
    by (induction acts arbitrary: h) (simp_all add: hub_act_inv)
  moreover have "hub_inv new_hub"
    by (simp add: hub_inv_def synced_def shape_def new_hub_def new_client_def)
  ultimately show ?thesis by blast
qed

section \<open>The flush timer\<close>

lemma hub_flags_fold:
  "hb_armed (fold close_client cs h) = hb_armed h" "hb_armed (drop_stale now h) = hb_armed h"
proof -
  show "hb_armed (fold close_client cs h) = hb_armed h"
    by (induction cs arbitrary: h) (simp_all add: close_client_def)
  have "hb_armed (fold (\<lambda>c h. if P c h then remove_client c h else h) cs h) = hb_armed h" for P cs h
    by (induction cs arbitrary: h) simp_all
  then show "hb_armed (drop_stale now h) = hb_armed h" by (simp add: drop_stale_def)
qed

lemma handle_armed: "hb_armed (handle g ca c msg h) = hb_armed h"
  by (simp add: handle_def subscribe_keys_def Let_def split: option.split prod.split)

lemma act_armed:
  assumes "\<forall>ca now. a \<noteq> FlushTimer ca now" "hb_armed h" shows "hb_armed (hub_act g a h)"
proof (cases a)
  case (FlushTimer ca now)
  then show ?thesis using assms(1) by blast
qed (use assms(2) in \<open>simp_all add: handle_armed hub_flags_fold register_client_def unregister_client_def
    on_event_def touch_def close_all_def\<close>)

lemma run_armed:
  "\<forall>a \<in> set acts. \<forall>ca now. a \<noteq> FlushTimer ca now \<Longrightarrow> hb_armed h \<Longrightarrow> hb_armed (fold (hub_act g) acts h)"
  by (induction acts arbitrary: h) (simp_all add: act_armed)

lemma update_armed:
  assumes "hub_inv h" "\<not> hb_stopped h" "ev_kind e = ValuesUpdated" "\<forall>a \<in> set acts. \<forall>ca now. a \<noteq> FlushTimer ca now"
  shows "hb_armed (fold (hub_act g) acts (hub_act g (Bus e) h))"
proof (rule run_armed [OF assms(4)])
  have "hb_dirty h = hb_armed h" using assms(1) by (simp add: hub_inv_def shape_def)
  then show "hb_armed (hub_act g (Bus e) h)" using assms(2,3) by (simp add: on_event_def)
qed

lemma flush_flags: "hb_armed (flush ca ts h) = hb_armed h"
proof -
  have "hb_armed (fold (flush_client cur ts) cs h) = hb_armed h" for cur cs
    by (induction cs arbitrary: h) (simp_all add: flush_client_def set_client_def send_def
        split: option.split prod.split bool.split)
  then show ?thesis by (simp add: flush_def)
qed

lemma update_keeps_armed:
  assumes "ev_kind e = ValuesUpdated" "\<not> hb_stopped (fold (hub_act g) as1 new_hub)"
    "\<forall>a \<in> set as2. \<forall>ca now. a \<noteq> FlushTimer ca now"
  shows "hb_armed (fold (hub_act g) (as1 @ Bus e # as2) new_hub)"
  using update_armed [OF hub_run_inv assms(2,1,3)] by simp

text \<open>C21: Clients see the current values, and a slow client hurts only itself. In every reachable state
  of the hub: at most 256 clients are connected and no queue holds more than 256 frames; what a
  connected client has learnt from its frames is exactly the hub's record of it, on subscribed
  keys only; a flush is armed whenever a value update came in while the hub ran and no flush
  has run since, whatever else happened in between. When the flush runs it is disarmed and
  every client still connected knows the rounded current value of each subscribed key, or
  that it has none; it was sent no frame or one update of subscribed keys, and a client is
  dropped only if its own queue was full.\<close>

theorem hub_keeps_clients_in_sync:
  assumes "h = fold (hub_act g) acts new_hub" "h' = hub_act g (FlushTimer ca now) h"
  shows "length (hb_clients h) \<le> 256 \<and> (\<forall>c. length (cl_send (hb_conns h c)) \<le> 256) \<and> hb_dirty h = hb_armed h \<and>
    (\<forall>as1 e as2. acts = as1 @ Bus e # as2 \<and> ev_kind e = ValuesUpdated \<and>
       \<not> hb_stopped (fold (hub_act g) as1 new_hub) \<and> (\<forall>a \<in> set as2. \<forall>ca' now'. a \<noteq> FlushTimer ca' now') \<longrightarrow>
       hb_armed h) \<and>
    (\<forall>c st. map_of (hb_clients h) c = Some st \<longrightarrow>
       view (hb_log h c) = map_of (ct_last st) \<and> dom (map_of (ct_last st)) \<subseteq> set (ct_subs st)) \<and>
    (hb_armed h \<and> \<not> hb_stopped h \<longrightarrow> \<not> hb_armed h' \<and> (\<forall>c st. map_of (hb_clients h) c = Some st \<longrightarrow>
      (case map_of (hb_clients h') c of None \<Rightarrow> length (cl_send (hb_conns h c)) = 256
       | Some st' \<Rightarrow> ct_subs st' = ct_subs st \<and>
          (\<forall>k \<in> set (ct_subs st). case cache_get ca k of None \<Rightarrow> view (hb_log h' c) k = None
            | Some v \<Rightarrow> \<exists>p. view (hb_log h' c) k = Some p \<and> (p = state_of v \<or> pushed_equal p (state_of v))) \<and>
          (hb_log h' c = hb_log h c \<or> (\<exists>ts vs gone. hb_log h' c = hb_log h c @ [Got (UpdateFrame ts vs gone)] \<and>
             set (map fst vs) \<union> set gone \<subseteq> set (ct_subs st))))))"
proof -
  have inv: "hub_inv h" using assms(1) hub_run_inv by simp
  then have sh: "shape h" and sy: "\<And>c. synced h c" by (simp_all add: hub_inv_def)
  have "view (hb_log h c) = map_of (ct_last st) \<and> dom (map_of (ct_last st)) \<subseteq> set (ct_subs st)"
    if "map_of (hb_clients h) c = Some st" for c st using sy [of c] that by (simp add: synced_def)
  moreover have "hb_armed h" if "acts = as1 @ Bus e # as2 \<and> ev_kind e = ValuesUpdated \<and>
       \<not> hb_stopped (fold (hub_act g) as1 new_hub) \<and> (\<forall>a \<in> set as2. \<forall>ca' now'. a \<noteq> FlushTimer ca' now')"
    for as1 e as2 using update_keeps_armed that assms(1) by blast
  moreover have "\<not> hb_armed h'" if "hb_armed h \<and> \<not> hb_stopped h" using that assms(2) by (simp add: flush_flags)
  moreover have "case map_of (hb_clients h') c of None \<Rightarrow> length (cl_send (hb_conns h c)) = 256
       | Some st' \<Rightarrow> ct_subs st' = ct_subs st \<and>
          (\<forall>k \<in> set (ct_subs st). case cache_get ca k of None \<Rightarrow> view (hb_log h' c) k = None
            | Some v \<Rightarrow> \<exists>p. view (hb_log h' c) k = Some p \<and> (p = state_of v \<or> pushed_equal p (state_of v))) \<and>
          (hb_log h' c = hb_log h c \<or> (\<exists>ts vs gone. hb_log h' c = hb_log h c @ [Got (UpdateFrame ts vs gone)] \<and>
             set (map fst vs) \<union> set gone \<subseteq> set (ct_subs st)))"
    if armed: "hb_armed h \<and> \<not> hb_stopped h" and st: "map_of (hb_clients h) c = Some st" for c st
  proof -
    note f = flush_inv [OF inv conjunct2 [OF armed] conjunct1 [OF armed], of g ca now, folded assms(2)]
    have one: "one_update h h' c" and inv': "hub_inv h'" using f by blast+
    show ?thesis
    proof (cases "map_of (hb_clients h') c")
      case None
      with one st show ?thesis by (simp add: one_update_def send_buffer_def)
    next
      case (Some st')
      have subs: "ct_subs st' = ct_subs st" using one st Some by (simp add: one_update_def)
      have view': "view (hb_log h' c) = map_of (ct_last st')"
        using hub_invD [OF inv', of c] Some by (simp add: synced_def)
      have "case cache_get ca k of None \<Rightarrow> view (hb_log h' c) k = None
          | Some v \<Rightarrow> \<exists>p. view (hb_log h' c) k = Some p \<and> (p = state_of v \<or> pushed_equal p (state_of v))"
        if "k \<in> set (ct_subs st)" for k
      proof -
        have "\<not> fresh (cache_get ca k) (map_of (ct_last st') k) \<or>
            map_of (ct_last st') k = map_option state_of (cache_get ca k)"
          using f Some that subs by (auto split: option.splits)
        then show ?thesis unfolding view' by (cases "cache_get ca k") (auto simp: fresh_def split: option.splits)
      qed
      with one st Some subs show ?thesis by (simp add: one_update_def)
    qed
  qed
  moreover have "length (hb_clients h) \<le> 256 \<and> (\<forall>c. length (cl_send (hb_conns h c)) \<le> 256) \<and>
      hb_dirty h = hb_armed h" using sh by (simp add: shape_def max_clients_def send_buffer_def)
  ultimately show ?thesis by blast
qed

definition demo_hub :: "hub" where
  "demo_hub = fold (hub_act solis_registry) [Connect 1 0,
     Command 1 \<lparr>cm_type = ''subscribe'', cm_keys = [pv_key]\<rparr> new_cache,
     Bus (updated_event domain_poller [pv_key] 5)] new_hub"

lemma demo_hub_client:
  "hb_armed demo_hub \<and> \<not> hb_stopped demo_hub \<and> cl_send (hb_conns demo_hub 1) = [SnapshotFrame []] \<and>
    map_of (hb_clients demo_hub) 1 = Some \<lparr>ct_subs = [pv_key], ct_last = []\<rparr>"
  by (simp add: demo_hub_def by_key_pv new_hub_def register_client_def max_clients_def set_client_def new_client_def
      handle_def max_keys_per_message_def subscribe_keys_def Let_def send_def enqueue_def send_buffer_def
      on_event_def updated_event_def new_cache_def)

theorem hub_keeps_clients_in_sync_witness:
  "\<exists>p. view (hb_log (hub_act solis_registry (FlushTimer \<lparr>ca_data = [(pv_key, demo_value pv_key 7)],
      ca_owner = [], ca_updated = []\<rparr> 9) demo_hub) 1) pv_key = Some p"
proof -
  let ?ca = "\<lparr>ca_data = [(pv_key, demo_value pv_key 7)], ca_owner = [], ca_updated = []\<rparr>"
  define h' where "h' = hub_act solis_registry (FlushTimer ?ca 9) demo_hub"
  have "cache_get ?ca pv_key = Some (demo_value pv_key 7)" by (simp add: cache_get_def)
  with hub_keeps_clients_in_sync [OF demo_hub_def h'_def] demo_hub_client show ?thesis
    unfolding h'_def [symmetric] by (fastforce split: option.splits)
qed

end
