(* ===== verification/Modbus.thy ===== *)
theory Modbus
  imports Supervisor "HOL-Library.Word" "HOL-Library.Char_ord"
begin

text \<open>
  internal/modbus and the component of internal/app/factories.go that adapts it: the settings of
  the connection, the classification of read errors, and the loop that keeps the single
  connection alive with exponential backoff and beats while it waits. The protocol itself is a
  library: its error values are the constructors of \<open>sv_error\<close>. Instants and durations are
  nanoseconds.
\<close>

section \<open>Settings\<close>

definition initial_backoff :: int where "initial_backoff = 1000000000"
definition max_backoff :: int where "max_backoff = 30000000000"
definition backoff_factor :: int where "backoff_factor = 2"
definition max_port :: int where "max_port = 65535"
definition min_data_bits :: int where "min_data_bits = 5"
definition max_data_bits :: int where "max_data_bits = 8"
definition max_stop_bits :: int where "max_stop_bits = 2"
definition max_line_failures :: nat where "max_line_failures = 5"

record settings =
  set_address :: string
  set_unit :: "8 word"
  set_timeout :: int
  set_speed :: int
  set_data_bits :: int
  set_parity :: string
  set_stop_bits :: int

text \<open>\<open>strings.Cut\<close> at the first separator, and \<open>net.SplitHostPort\<close>.\<close>

fun cut_at :: "string \<Rightarrow> string \<Rightarrow> (string \<times> string) option" where
  "cut_at sep [] = (if sep = [] then Some ([], []) else None)"
| "cut_at sep (c # cs) = (if take (length sep) (c # cs) = sep then Some ([], drop (length sep) (c # cs))
     else (case cut_at sep cs of None \<Rightarrow> None | Some (a, b) \<Rightarrow> Some (c # a, b)))"

definition last_colon :: "string \<Rightarrow> (string \<times> string) option" where
  "last_colon s = (if CHR '':'' \<in> set s
     then Some (rev (tl (dropWhile (\<lambda>c. c \<noteq> CHR '':'') (rev s))), rev (takeWhile (\<lambda>c. c \<noteq> CHR '':'') (rev s)))
     else None)"

definition split_host_port :: "string \<Rightarrow> (string \<times> string) option" where
  "split_host_port s = (case last_colon s of None \<Rightarrow> None
     | Some (front, port) \<Rightarrow>
       if s \<noteq> [] \<and> hd s = CHR ''['' then
         (case cut_at '']'' s of None \<Rightarrow> None
          | Some (host, rest) \<Rightarrow> if rest = CHR '':'' # port \<and> CHR ''['' \<notin> set (tl s) \<and> CHR '']'' \<notin> set rest
              then Some (tl host, port) else None)
       else if CHR '':'' \<in> set front \<or> CHR ''['' \<in> set s \<or> CHR '']'' \<in> set s then None
       else Some (front, port))"

text \<open>\<open>strconv.Atoi\<close> up to its range, which the port check is narrower than.\<close>

fun digits_value :: "string \<Rightarrow> int \<Rightarrow> int option" where
  "digits_value [] n = Some n"
| "digits_value (c # cs) n = (if CHR ''0'' \<le> c \<and> c \<le> CHR ''9''
     then digits_value cs (10 * n + (of_char c - 48)) else None)"

definition atoi :: "string \<Rightarrow> int option" where
  "atoi s = (case s of [] \<Rightarrow> None
     | c # cs \<Rightarrow> if c = CHR ''-'' \<or> c = CHR ''+'' then (if cs = [] then None
         else map_option (\<lambda>n. if c = CHR ''-'' then - n else n) (digits_value cs 0))
       else digits_value s 0)"

datatype settings_error = BadAddress string | BadTimeout int | BadHostPort string | BadPort string
  | BadParity string | BadDataBits int | BadStopBits int

datatype line_parity = ParityNone | ParityEven | ParityOdd

definition parity :: "string \<Rightarrow> line_parity option" where
  "parity p = (if p = [] \<or> p = ''N'' \<or> p = ''n'' then Some ParityNone
     else if p = ''E'' \<or> p = ''e'' then Some ParityEven
     else if p = ''O'' \<or> p = ''o'' then Some ParityOdd else None)"

definition scheme_of :: "settings \<Rightarrow> (string \<times> string) option" where
  "scheme_of s = (case cut_at ''://'' (set_address s) of None \<Rightarrow> None
     | Some (scheme, rest) \<Rightarrow> if rest \<noteq> [] then Some (scheme, rest) else None)"

definition validate_host_port :: "string \<Rightarrow> settings_error option" where
  "validate_host_port address = (case cut_at ''://'' address of None \<Rightarrow> Some (BadHostPort address)
     | Some (_, hostport) \<Rightarrow> (case split_host_port hostport of None \<Rightarrow> Some (BadHostPort address)
         | Some (host, port) \<Rightarrow> if host = [] then Some (BadHostPort address)
             else (case atoi port of None \<Rightarrow> Some (BadPort port)
               | Some n \<Rightarrow> if n \<le> 0 \<or> max_port < n then Some (BadPort port) else None)))"

definition validate_serial :: "settings \<Rightarrow> settings_error option" where
  "validate_serial s =
     (if parity (set_parity s) = None then Some (BadParity (set_parity s))
      else if set_data_bits s \<noteq> 0 \<and> (set_data_bits s < min_data_bits \<or> max_data_bits < set_data_bits s)
        then Some (BadDataBits (set_data_bits s))
      else if max_stop_bits < set_stop_bits s then Some (BadStopBits (set_stop_bits s))
      else None)"

definition validate_settings :: "settings \<Rightarrow> settings_error option" where
  "validate_settings s = (case scheme_of s of None \<Rightarrow> Some (BadAddress (set_address s))
     | Some (scheme, _) \<Rightarrow>
       if scheme \<noteq> ''tcp'' \<and> scheme \<noteq> ''rtu'' then Some (BadAddress (set_address s))
       else if set_timeout s \<le> 0 then Some (BadTimeout (set_timeout s))
       else (case (if scheme = ''tcp'' then validate_host_port (set_address s) else None) of
           Some e \<Rightarrow> Some e
         | None \<Rightarrow> validate_serial s))"

section \<open>Errors of a read\<close>

datatype sv_error = IllegalFunction | IllegalDataAddress | IllegalDataValue | ServerDeviceFailure
  | Acknowledge | ServerDeviceBusy | MemoryParityError | GWPathUnavailable | GWTargetFailedToRespond
  | BadUnitId | UnexpectedParameters | BadCRC | ShortFrame | ProtocolError | RequestTimedOut | OtherSvError

text \<open>An error of the library, or any other (a closed socket).\<close>

type_synonym read_failure = "sv_error option"

definition line_error :: "sv_error \<Rightarrow> bool" where
  "line_error e \<longleftrightarrow> e = BadCRC \<or> e = ShortFrame \<or> e = ProtocolError \<or> e = RequestTimedOut"

definition exception_reply :: "sv_error \<Rightarrow> bool" where
  "exception_reply e \<longleftrightarrow> \<not> line_error e \<and> e \<noteq> OtherSvError"

definition keeps_connection :: "bool \<Rightarrow> read_failure \<Rightarrow> bool" where
  "keeps_connection rtu err = (case err of None \<Rightarrow> False
     | Some e \<Rightarrow> if exception_reply e then True else if line_error e then rtu else False)"

section \<open>The client and its loop\<close>

text \<open>Where the loop stands: at its head, between its beat and the look at the connection, connecting,
  or waiting until a deadline with a timer due at an instant, waking early on a lost connection or
  not.\<close>

datatype place = Head | Beaten | Connecting | Waiting bool int int | Exited

record modbus =
  md_rtu :: bool
  md_every :: int
  md_open :: bool
  md_connected :: bool
  md_lost :: bool
  md_failures :: nat
  md_place :: place
  md_backoff :: int
  md_status :: status

text \<open>\<open>New\<close>, and \<open>Run\<close> before its first round.\<close>

definition new_modbus :: "settings \<Rightarrow> int \<Rightarrow> settings_error + modbus" where
  "new_modbus s every = (case validate_settings s of Some e \<Rightarrow> Inl e
     | None \<Rightarrow> Inr \<lparr>md_rtu = (case scheme_of s of Some (sc, _) \<Rightarrow> sc = ''rtu'' | None \<Rightarrow> False),
         md_every = (if every \<le> 0 then initial_backoff else every), md_open = False, md_connected = False,
         md_lost = False, md_failures = 0, md_place = Head, md_backoff = initial_backoff,
         md_status = new_status\<rparr>)"

definition too_many_line_failures :: "read_failure \<Rightarrow> modbus \<Rightarrow> bool \<times> modbus" where
  "too_many_line_failures err m = (case err of None \<Rightarrow> (False, m)
     | Some e \<Rightarrow> if \<not> md_rtu m then (False, m)
       else if line_error e then (max_line_failures \<le> md_failures m + 1, m\<lparr>md_failures := md_failures m + 1\<rparr>)
       else (False, m\<lparr>md_failures := 0\<rparr>))"

definition mark_lost :: "modbus \<Rightarrow> modbus" where
  "mark_lost m = (if md_connected m
     then m\<lparr>md_connected := False, md_failures := 0, md_open := False, md_lost := True\<rparr> else m)"

text \<open>The end of a \<open>ReadRegisters\<close> call that found the connection up.\<close>

definition read_end :: "(read_failure + 16 word list) \<Rightarrow> modbus \<Rightarrow> modbus" where
  "read_end r m = (case r of Inr regs \<Rightarrow> m\<lparr>md_failures := 0\<rparr>
     | Inl err \<Rightarrow> if \<not> keeps_connection (md_rtu m) err then mark_lost m
       else (case too_many_line_failures err m of (True, m) \<Rightarrow> mark_lost m | (False, m) \<Rightarrow> m))"

definition may_read :: "modbus \<Rightarrow> bool" where
  "may_read m \<longleftrightarrow> md_open m \<and> md_connected m"

definition close_modbus :: "modbus \<Rightarrow> modbus" where
  "close_modbus m = m\<lparr>md_connected := False, md_open := False\<rparr>"

text \<open>The beat of the component: connected is healthy, reconnecting is recovering.\<close>

definition component_beat :: "int \<Rightarrow> modbus \<Rightarrow> modbus" where
  "component_beat now m = (let st = beat now (md_status m) in
     m\<lparr>md_status := (if md_connected m then set_status Healthy [] st
       else set_status Recovering ''modbus disconnected, reconnecting'' st)\<rparr>)"

text \<open>\<open>wait\<close> from an instant on: the timer of its next round, or its end.\<close>

definition waiting :: "bool \<Rightarrow> int \<Rightarrow> int \<Rightarrow> modbus \<Rightarrow> modbus" where
  "waiting on_lost deadline now m = (let left = deadline - now in
     if left \<le> 0
     then m\<lparr>md_place := Head, md_backoff := (if on_lost then md_backoff m
       else min (md_backoff m * backoff_factor) max_backoff)\<rparr>
     else m\<lparr>md_place := Waiting on_lost deadline (now + min left (md_every m))\<rparr>)"

text \<open>
  What happens to a client at an instant: the beat that opens a round of the loop, its look at the
  connection, the result of connecting, the timer of a wait, its wake-up by a lost connection, the
  end of a read of the poller, the end of the loop's context.
\<close>

datatype modbus_action = Round | Look | ConnectDone bool | TimerFires | LostWakes
  | ReadEnds "read_failure + 16 word list" | Finish

fun modbus_act :: "int \<times> modbus_action \<Rightarrow> modbus \<Rightarrow> modbus" where
  "modbus_act (t, Round) m = (if md_place m \<noteq> Head then m else (component_beat t m)\<lparr>md_place := Beaten\<rparr>)"
| "modbus_act (t, Look) m = (if md_place m \<noteq> Beaten then m
     else if md_connected m then waiting True (t + md_every m) t (m\<lparr>md_backoff := initial_backoff\<rparr>)
     else m\<lparr>md_place := Connecting\<rparr>)"
| "modbus_act (t, ConnectDone ok) m = (if md_place m \<noteq> Connecting then m
     else if ok then m\<lparr>md_open := True, md_connected := True, md_backoff := initial_backoff, md_place := Head\<rparr>
     else waiting False (t + md_backoff m) t m)"
| "modbus_act (t, TimerFires) m = (case md_place m of
       Waiting on_lost deadline due \<Rightarrow> if t < due then m else waiting on_lost deadline t (component_beat t m)
     | _ \<Rightarrow> m)"
| "modbus_act (t, LostWakes) m = (case md_place m of
       Waiting on_lost deadline due \<Rightarrow> if on_lost \<and> md_lost m then m\<lparr>md_lost := False, md_place := Head\<rparr> else m
     | _ \<Rightarrow> m)"
| "modbus_act (t, ReadEnds r) m = read_end r m"
| "modbus_act (t, Finish) m = (if md_place m = Connecting then m else m\<lparr>md_place := Exited\<rparr>)"

section \<open>Which reads lose the connection\<close>

definition kept :: "bool \<Rightarrow> read_failure + 16 word list \<Rightarrow> bool" where
  "kept rtu r \<longleftrightarrow> (case r of Inl err \<Rightarrow> keeps_connection rtu err | Inr _ \<Rightarrow> True)"

definition line_failure :: "read_failure + 16 word list \<Rightarrow> bool" where
  "line_failure r \<longleftrightarrow> (case r of Inl (Some e) \<Rightarrow> line_error e | _ \<Rightarrow> False)"

definition trailing :: "(read_failure + 16 word list) list \<Rightarrow> nat" where
  "trailing rs = length (takeWhile line_failure (rev rs))"

lemma trailing_simps [simp]:
  "trailing [] = 0" "trailing (rs @ [r]) = (if line_failure r then trailing rs + 1 else 0)"
  by (simp_all add: trailing_def)

lemma trailing_five:
  "n \<le> trailing rs \<longleftrightarrow> (\<exists>xs ys. rs = xs @ ys \<and> length ys = n \<and> (\<forall>r \<in> set ys. line_failure r))"
proof
  assume n: "n \<le> trailing rs"
  let ?ys = "rev (take n (takeWhile line_failure (rev rs)))"
  have "take n (takeWhile line_failure (rev rs)) = take n (rev rs)"
    using n by (metis trailing_def takeWhile_dropWhile_id take_append diff_is_0_eq take0 append_Nil2)
  then have "rs = rev (drop n (rev rs)) @ ?ys" by (metis append_take_drop_id rev_append rev_rev_ident)
  moreover have "length ?ys = n" using n by (simp add: trailing_def)
  moreover have "\<forall>r \<in> set ?ys. line_failure r" by (auto dest!: in_set_takeD set_takeWhileD)
  ultimately show "\<exists>xs ys. rs = xs @ ys \<and> length ys = n \<and> (\<forall>r \<in> set ys. line_failure r)" by blast
next
  assume "\<exists>xs ys. rs = xs @ ys \<and> length ys = n \<and> (\<forall>r \<in> set ys. line_failure r)"
  then obtain xs ys where y: "rs = xs @ ys" "length ys = n" "\<forall>r \<in> set ys. line_failure r" by blast
  have "takeWhile line_failure (rev ys @ rev xs) = rev ys @ takeWhile line_failure (rev xs)"
    by (rule takeWhile_append2) (use y(3) in simp)
  then show "n \<le> trailing rs" using y(1,2) by (simp add: trailing_def)
qed

lemma read_end_rtu [simp]: "md_rtu (read_end r m) = md_rtu m"
  by (auto simp: read_end_def mark_lost_def too_many_line_failures_def Let_def
      split: sum.split option.split prod.split bool.split if_splits)

lemma reads_rtu [simp]: "md_rtu (fold read_end rs m) = md_rtu m"
  by (induction rs arbitrary: m) simp_all

lemma read_end_connected:
  assumes "md_connected m"
  shows "md_connected (read_end r m) \<longleftrightarrow> kept (md_rtu m) r \<and> \<not> (line_failure r \<and> max_line_failures \<le> md_failures m + 1)"
    "md_connected (read_end r m) \<Longrightarrow> md_failures (read_end r m) =
      (if line_failure r then md_failures m + 1 else if md_rtu m \<or> (\<exists>regs. r = Inr regs) then 0 else md_failures m)"
  using assms
  by (auto simp: read_end_def kept_def line_failure_def keeps_connection_def mark_lost_def too_many_line_failures_def
      exception_reply_def split: sum.splits option.splits if_splits prod.splits bool.splits)

lemma read_end_lost: "\<not> md_connected m \<Longrightarrow> \<not> md_connected (read_end r m)"
  by (auto simp: read_end_def mark_lost_def too_many_line_failures_def
      split: sum.split option.split prod.split bool.split if_splits)

lemma read_end_wakes: "md_connected m \<or> md_lost m \<Longrightarrow> md_connected (read_end r m) \<or> md_lost (read_end r m)"
  by (auto simp: read_end_def mark_lost_def too_many_line_failures_def
      split: sum.split option.split prod.split bool.split if_splits)

definition five_in_row :: "(read_failure + 16 word list) list \<Rightarrow> bool" where
  "five_in_row rs \<longleftrightarrow> (\<exists>xs ys zs. rs = xs @ ys @ zs \<and> length ys = max_line_failures \<and> (\<forall>r \<in> set ys. line_failure r))"

lemma five_in_row_Nil [simp]: "\<not> five_in_row []"
  by (simp add: five_in_row_def max_line_failures_def)

lemma five_in_row_snoc: "five_in_row (rs @ [r]) \<longleftrightarrow> five_in_row rs \<or> max_line_failures \<le> trailing (rs @ [r])"
proof
  assume "five_in_row (rs @ [r])"
  then obtain xs ys zs where l: "rs @ [r] = xs @ ys @ zs" "length ys = max_line_failures" "\<forall>r \<in> set ys. line_failure r"
    unfolding five_in_row_def by blast
  show "five_in_row rs \<or> max_line_failures \<le> trailing (rs @ [r])"
  proof (cases zs rule: rev_cases)
    case Nil
    then have "rs @ [r] = xs @ ys" using l(1) by simp
    then show ?thesis using l(2,3) trailing_five [of max_line_failures "rs @ [r]"] by blast
  next
    case (snoc zs' z)
    then have "rs = xs @ ys @ zs'" using l(1) by simp
    then show ?thesis using l(2,3) unfolding five_in_row_def by blast
  qed
next
  assume "five_in_row rs \<or> max_line_failures \<le> trailing (rs @ [r])"
  then show "five_in_row (rs @ [r])"
  proof
    assume "five_in_row rs"
    then obtain xs ys zs where l: "rs = xs @ ys @ zs" "length ys = max_line_failures" "\<forall>r \<in> set ys. line_failure r"
      unfolding five_in_row_def by blast
    then have "rs @ [r] = xs @ ys @ (zs @ [r])" by simp
    then show ?thesis using l(2,3) unfolding five_in_row_def by blast
  next
    assume "max_line_failures \<le> trailing (rs @ [r])"
    then obtain xs ys where l: "rs @ [r] = xs @ ys" "length ys = max_line_failures" "\<forall>r \<in> set ys. line_failure r"
      using trailing_five [of max_line_failures "rs @ [r]"] by blast
    then have "rs @ [r] = xs @ ys @ []" by simp
    then show ?thesis using l(2,3) unfolding five_in_row_def by blast
  qed
qed

lemma kept_line: "line_failure r \<Longrightarrow> kept rtu r = rtu"
  by (auto simp: line_failure_def kept_def keeps_connection_def exception_reply_def split: sum.splits option.splits)

lemma no_trailing: "\<forall>r \<in> set rs. kept False r \<Longrightarrow> trailing rs = 0"
proof (induction rs rule: rev_induct)
  case (snoc r rs)
  then show ?case using kept_line [of r False] by auto
qed simp

lemma reads_connected:
  assumes "md_connected m" "md_failures m = 0"
  shows "(md_connected (fold read_end rs m) \<longleftrightarrow> (\<forall>r \<in> set rs. kept (md_rtu m) r) \<and> \<not> five_in_row rs) \<and>
    (md_connected (fold read_end rs m) \<longrightarrow> md_failures (fold read_end rs m) = trailing rs)"
proof (induction rs rule: rev_induct)
  case Nil
  then show ?case using assms by simp
next
  case (snoc r rs)
  let ?m = "fold read_end rs m"
  have step: "fold read_end (rs @ [r]) m = read_end r ?m" by simp
  show ?case
  proof (cases "md_connected ?m")
    case False
    then show ?thesis using snoc read_end_lost [OF False, of r] unfolding step five_in_row_snoc by auto
  next
    case True
    have f: "md_failures ?m = trailing rs" and k: "\<forall>r \<in> set rs. kept (md_rtu m) r" "\<not> five_in_row rs"
      using snoc True by blast+
    have "md_connected (read_end r ?m) \<longleftrightarrow> kept (md_rtu m) r \<and> \<not> max_line_failures \<le> trailing (rs @ [r])"
      using read_end_connected(1) [OF True, of r] f by (simp add: max_line_failures_def)
    moreover have "md_failures (read_end r ?m) = trailing (rs @ [r])" if c: "md_connected (read_end r ?m)"
    proof (cases "md_rtu m")
      case True
      then show ?thesis using read_end_connected(2) [OF \<open>md_connected ?m\<close> c] f by simp
    next
      case False
      then show ?thesis using read_end_connected(2) [OF \<open>md_connected ?m\<close> c] f no_trailing [of rs] k by simp
    qed
    ultimately show ?thesis using k unfolding step five_in_row_snoc by auto
  qed
qed

text \<open>The connection is given up exactly when it must be. From a fresh connection, whatever reads
  end one after another: on TCP it is lost by the first error that is not an exception reply of
  the device; on RTU by the first error that is neither an exception reply nor a line error
  (timeout, bad CRC, short or broken frame), or by five line errors in a row; a lost connection
  lets no read through and wakes the loop.\<close>

theorem reads_lose_connection:
  assumes "md_connected m" "md_failures m = 0" "m' = fold read_end rs m"
  shows "(md_connected m' \<longleftrightarrow>
      (\<forall>err. Inl err \<in> set rs \<longrightarrow> (\<exists>e. err = Some e \<and> e \<noteq> OtherSvError \<and>
        (md_rtu m \<or> e \<notin> {BadCRC, ShortFrame, ProtocolError, RequestTimedOut}))) \<and>
      \<not> (\<exists>xs ys zs. rs = xs @ ys @ zs \<and> length ys = 5 \<and>
        (\<forall>r \<in> set ys. \<exists>e \<in> {BadCRC, ShortFrame, ProtocolError, RequestTimedOut}. r = Inl (Some e)))) \<and>
    (\<not> md_connected m' \<longrightarrow> \<not> may_read m' \<and> md_lost m')"
proof -
  have kept: "kept (md_rtu m) r \<longleftrightarrow> (\<forall>err. r = Inl err \<longrightarrow> (\<exists>e. err = Some e \<and> e \<noteq> OtherSvError \<and>
        (md_rtu m \<or> e \<notin> {BadCRC, ShortFrame, ProtocolError, RequestTimedOut})))" for r
    by (auto simp: kept_def keeps_connection_def exception_reply_def line_error_def split: sum.splits option.splits)
  have line: "line_failure r = (\<exists>e \<in> {BadCRC, ShortFrame, ProtocolError, RequestTimedOut}. r = Inl (Some e))" for r
    by (auto simp: line_failure_def line_error_def split: sum.splits option.splits)
  have c: "md_connected m' \<longleftrightarrow> (\<forall>r \<in> set rs. kept (md_rtu m) r) \<and> \<not> five_in_row rs"
    using reads_connected [OF assms(1,2), of rs] unfolding assms(3) by (rule conjunct1)
  have k: "(\<forall>r \<in> set rs. kept (md_rtu m) r) \<longleftrightarrow> (\<forall>err. Inl err \<in> set rs \<longrightarrow> (\<exists>e. err = Some e \<and> e \<noteq> OtherSvError \<and>
        (md_rtu m \<or> e \<notin> {BadCRC, ShortFrame, ProtocolError, RequestTimedOut})))"
    unfolding kept by blast
  have f: "five_in_row rs \<longleftrightarrow> (\<exists>xs ys zs. rs = xs @ ys @ zs \<and> length ys = 5 \<and>
        (\<forall>r \<in> set ys. \<exists>e \<in> {BadCRC, ShortFrame, ProtocolError, RequestTimedOut}. r = Inl (Some e)))"
    unfolding five_in_row_def line max_line_failures_def by (rule refl)
  have w: "md_connected x \<or> md_lost x \<Longrightarrow> md_connected (fold read_end rs x) \<or> md_lost (fold read_end rs x)" for x rs
  proof (induction rs arbitrary: x)
    case (Cons r rs)
    show ?case using Cons.IH [OF read_end_wakes [OF Cons.prems]] by simp
  qed simp
  have "\<not> md_connected m' \<longrightarrow> \<not> may_read m' \<and> md_lost m'"
    using w [of m rs] assms(1,3) unfolding may_read_def by blast
  then show ?thesis unfolding c k f by (intro conjI refl)
qed

theorem reads_lose_connection_witness:
  "\<exists>m. md_connected m \<and> \<not> md_connected (fold read_end (replicate 5 (Inl (Some RequestTimedOut))) m) \<and>
    md_lost (fold read_end (replicate 5 (Inl (Some RequestTimedOut))) m)"
proof -
  define m where "m = \<lparr>md_rtu = True, md_every = 5000000000, md_open = True, md_connected = True, md_lost = False,
    md_failures = 0, md_place = Waiting True 5000000000 5000000000, md_backoff = initial_backoff, md_status = new_status\<rparr>"
  let ?rs = "replicate 5 (Inl (Some RequestTimedOut)) :: (read_failure + 16 word list) list"
  have "?rs = [] @ ?rs @ []" "length ?rs = 5"
    "\<forall>r \<in> set ?rs. \<exists>e \<in> {BadCRC, ShortFrame, ProtocolError, RequestTimedOut}. r = Inl (Some e)" by simp_all
  then have "\<exists>xs ys zs. ?rs = xs @ ys @ zs \<and> length ys = 5 \<and>
      (\<forall>r \<in> set ys. \<exists>e \<in> {BadCRC, ShortFrame, ProtocolError, RequestTimedOut}. r = Inl (Some e))" by blast
  then have "\<not> md_connected (fold read_end ?rs m) \<and> md_lost (fold read_end ?rs m)"
    using reads_lose_connection [of m "fold read_end ?rs m" ?rs] unfolding m_def by simp
  moreover have "md_connected m" by (simp add: m_def)
  ultimately show ?thesis by blast
qed

section \<open>The silence of a client\<close>

text \<open>
  A loop that is scheduled within \<open>e\<close> and whose connection attempts end within \<open>T\<close>: from where it
  stands since an instant, its next step comes in time. Reads of the poller end at any instant.
\<close>

definition in_time :: "int \<Rightarrow> int \<Rightarrow> int \<Rightarrow> modbus \<Rightarrow> int \<Rightarrow> bool" where
  "in_time e T since m t \<longleftrightarrow> (case md_place m of Head \<Rightarrow> t \<le> since + e | Beaten \<Rightarrow> t \<le> since + e
     | Connecting \<Rightarrow> t \<le> since + T | Waiting _ _ due \<Rightarrow> t \<le> due + e | Exited \<Rightarrow> True)"

fun punctual :: "int \<Rightarrow> int \<Rightarrow> int \<Rightarrow> int \<Rightarrow> (int \<times> modbus_action) list \<Rightarrow> int \<Rightarrow> modbus \<Rightarrow> bool" where
  "punctual e T since prev [] now m \<longleftrightarrow> prev \<le> now \<and> in_time e T since m now"
| "punctual e T since prev (x # xs) now m \<longleftrightarrow> prev \<le> fst x \<and> in_time e T since m (fst x) \<and>
     punctual e T (if md_place (modbus_act x m) = md_place m then since else fst x) (fst x) xs now (modbus_act x m)"

definition quiet :: "int \<Rightarrow> int \<Rightarrow> int \<Rightarrow> int \<Rightarrow> int \<Rightarrow> modbus \<Rightarrow> bool" where
  "quiet e T E t0 since m \<longleftrightarrow> md_every m = E \<and> t0 \<le> hs_beat (md_status m) \<and> hs_state (md_status m) \<noteq> Failed \<and>
     1000000000 \<le> md_backoff m \<and> md_backoff m \<le> 30000000000 \<and>
     (case md_place m of Head \<Rightarrow> since \<le> hs_beat (md_status m) + T + E + 2 * e
      | Beaten \<Rightarrow> since = hs_beat (md_status m)
      | Connecting \<Rightarrow> since \<le> hs_beat (md_status m) + e
      | Waiting _ _ due \<Rightarrow> due \<le> hs_beat (md_status m) + T + E + e | Exited \<Rightarrow> True)"

lemma beat_fields [simp]:
  "hs_beat (md_status (component_beat t m)) = t" "hs_state (md_status (component_beat t m)) \<noteq> Failed"
  "md_every (component_beat t m) = md_every m" "md_backoff (component_beat t m) = md_backoff m"
  "md_place (component_beat t m) = md_place m"
  by (simp_all add: component_beat_def beat_def set_status_def Let_def)

lemma waiting_fields [simp]:
  "md_status (waiting l d t m) = md_status m" "md_every (waiting l d t m) = md_every m"
  by (simp_all add: waiting_def Let_def)

lemma waiting_backoff:
  assumes "1000000000 \<le> md_backoff m" "md_backoff m \<le> 30000000000"
  shows "1000000000 \<le> md_backoff (waiting l d t m) \<and> md_backoff (waiting l d t m) \<le> 30000000000"
  using assms by (auto simp: waiting_def Let_def max_backoff_def backoff_factor_def)

lemma waiting_place:
  "md_place (waiting l d t m) = Head \<or> (\<exists>due. md_place (waiting l d t m) = Waiting l d due \<and> t < due \<and> due \<le> t + md_every m)"
  if "0 < md_every m"
  using that by (auto simp: waiting_def Let_def)

lemma read_end_loop [simp]:
  "md_place (read_end r m) = md_place m" "md_status (read_end r m) = md_status m"
  "md_every (read_end r m) = md_every m" "md_backoff (read_end r m) = md_backoff m"
  by (auto simp: read_end_def mark_lost_def too_many_line_failures_def
      split: sum.split option.split prod.split bool.split if_splits)

lemma quiet_waiting:
  assumes "1000000000 \<le> md_backoff m" "md_backoff m \<le> 30000000000" "md_every m = E" "0 < E"
    "t0 \<le> hs_beat (md_status m)" "hs_state (md_status m) \<noteq> Failed" "t \<le> hs_beat (md_status m) + T + e" "0 \<le> e"
  shows "quiet e T E t0 t (waiting l d t m)"
  using waiting_place [of m l d t] waiting_backoff [of m l d t] assms by (auto simp: quiet_def)

lemma quiet_step:
  assumes "quiet e T E t0 since m" "in_time e T since m (fst x)" "t0 \<le> fst x" "0 < E" "0 \<le> e" "0 \<le> T"
  shows "quiet e T E t0 (if md_place (modbus_act x m) = md_place m then since else fst x) (modbus_act x m)"
proof -
  obtain t a where x: "x = (t, a)" by (cases x)
  show ?thesis
  proof (cases a)
    case Round
    then show ?thesis using assms by (auto simp: x quiet_def in_time_def)
  next
    case Look
    show ?thesis
    proof (cases "md_place m = Beaten \<and> md_connected m")
      case True
      let ?m = "m\<lparr>md_backoff := initial_backoff\<rparr>"
      have "quiet e T E t0 t (waiting True (t + md_every m) t ?m)"
        using assms True by (intro quiet_waiting) (auto simp: x quiet_def in_time_def initial_backoff_def)
      moreover have "md_place (waiting True (t + md_every m) t ?m) \<noteq> Beaten"
        using waiting_place [of ?m True "t + md_every m" t] assms(1,4) by (auto simp: quiet_def)
      ultimately show ?thesis using True Look by (simp add: x)
    next
      case False
      then show ?thesis using assms Look by (auto simp: x quiet_def in_time_def)
    qed
  next
    case (ConnectDone ok)
    show ?thesis
    proof (cases "md_place m = Connecting \<and> \<not> ok")
      case True
      have "quiet e T E t0 t (waiting False (t + md_backoff m) t m)"
        using assms True by (intro quiet_waiting) (auto simp: x quiet_def in_time_def)
      moreover have "md_place (waiting False (t + md_backoff m) t m) \<noteq> Connecting"
        using waiting_place [of m False "t + md_backoff m" t] assms(1,4) by (auto simp: quiet_def)
      ultimately show ?thesis using True ConnectDone by (simp add: x)
    next
      case False
      then show ?thesis using assms ConnectDone by (auto simp: x quiet_def in_time_def initial_backoff_def)
    qed
  next
    case TimerFires
    show ?thesis
    proof (cases "\<exists>l d due. md_place m = Waiting l d due \<and> due \<le> t")
      case True
      then obtain l d due where w: "md_place m = Waiting l d due" "due \<le> t" by blast
      let ?m = "component_beat t m"
      have "quiet e T E t0 t (waiting l d t ?m)"
        using assms by (intro quiet_waiting) (auto simp: x quiet_def)
      moreover have "md_place (waiting l d t ?m) \<noteq> md_place m"
        using waiting_place [of ?m l d t] assms(1,4) w by (auto simp: quiet_def)
      ultimately show ?thesis using w TimerFires by (simp add: x)
    next
      case False
      then have "modbus_act x m = m" using TimerFires by (cases "md_place m") (auto simp: x)
      then show ?thesis using assms(1) by simp
    qed
  next
    case LostWakes
    then show ?thesis using assms by (auto simp: x quiet_def in_time_def split: place.splits)
  next
    case (ReadEnds r)
    then show ?thesis using assms(1) by (auto simp: x quiet_def split: place.splits)
  next
    case Finish
    then show ?thesis using assms by (auto simp: x quiet_def)
  qed
qed

lemma quiet_run:
  assumes "punctual e T since prev xs now m" "quiet e T E t0 since m" "t0 \<le> prev" "0 < E" "0 \<le> e" "0 \<le> T"
    "m' = fold modbus_act xs m"
  shows "\<exists>since'. quiet e T E t0 since' m' \<and> in_time e T since' m' now \<and> t0 \<le> now"
  using assms
proof (induction xs arbitrary: since prev m)
  case Nil
  then show ?case by auto
next
  case (Cons x xs)
  then have "t0 \<le> fst x" by simp
  from Cons.prems quiet_step [OF Cons.prems(2) _ this Cons.prems(4-6)] this show ?case
    by (intro Cons.IH [OF _ _ \<open>t0 \<le> fst x\<close>]) simp_all
qed

text \<open>C34: A reconnecting device does not get its component restarted. Whatever reads end, connections
  fail or succeed and timers fire, in any order, a client whose loop is scheduled within \<open>e\<close> and
  whose connection attempts end within \<open>T\<close> has beaten in the last \<open>T + every + 3e\<close>, and waits between
  one and thirty seconds before its next attempt; when that is within three intervals, the
  supervisor finds no reason to restart the component that shows this state.\<close>

theorem reconnecting_never_looks_silent:
  assumes "new_modbus cfg every = Inr m0" "0 < every" "0 \<le> e" "0 \<le> T"
    "punctual e T t0 t0 xs now (modbus_act (t0, Round) m0)" "m = fold modbus_act xs (modbus_act (t0, Round) m0)"
    "md_place m \<noteq> Exited"
  shows "now - hs_beat (md_status m) \<le> T + every + 3 * e \<and> initial_backoff \<le> md_backoff m \<and> md_backoff m \<le> max_backoff \<and>
    (T + 3 * e \<le> 2 * every \<and> mg_comp g = Some (md_status m) \<and> \<not> mg_latched g \<and> \<not> mg_reported g \<and>
      0 \<le> mg_started g \<and> mg_started g < t0 \<longrightarrow> fst (evaluate now every g) = None)"
proof -
  have m0: "md_place m0 = Head" "md_every m0 = every" "md_backoff m0 = initial_backoff"
    using assms(1,2) by (auto simp: new_modbus_def split: option.splits)
  have "quiet e T every t0 t0 (modbus_act (t0, Round) m0)" by (simp add: quiet_def m0 initial_backoff_def)
  from quiet_run [OF assms(5) this order_refl assms(2,3,4,6)]
  obtain since where q: "quiet e T every t0 since m" "in_time e T since m now" by blast
  have gap: "now - hs_beat (md_status m) \<le> T + every + 3 * e"
    using q assms(2,3,4,7) by (auto simp: quiet_def in_time_def split: place.splits)
  have b: "initial_backoff \<le> md_backoff m" "md_backoff m \<le> max_backoff"
    using q by (simp_all add: quiet_def initial_backoff_def max_backoff_def)
  have "fst (evaluate now every g) = None"
    if g: "T + 3 * e \<le> 2 * every" "mg_comp g = Some (md_status m)" "\<not> mg_latched g" "\<not> mg_reported g"
      "0 \<le> mg_started g" "mg_started g < t0"
  proof -
    have st: "managed_state g = hs_state (md_status m)" "hs_state (md_status m) \<noteq> Failed"
      and later: "mg_started g < hs_beat (md_status m)" "hs_beat (md_status m) \<noteq> 0"
      using g q by (auto simp: managed_state_def quiet_def)
    have "now - hs_beat (md_status m) \<le> grace_for (managed_state g) every"
      using gap g(1) assms(2) by (simp add: grace_for_def supervision_constants)
    then show ?thesis using st later g by (simp add: evaluate_def last_beat_def Let_def)
  qed
  with gap b show ?thesis by blast
qed

definition example_settings :: settings where
  "example_settings = \<lparr>set_address = ''tcp://10.0.0.7:502'', set_unit = 1, set_timeout = 5000000000, set_speed = 0,
     set_data_bits = 0, set_parity = [], set_stop_bits = 0\<rparr>"

definition example_run :: "(int \<times> modbus_action) list" where
  "example_run = [(1000000001, Look), (6000000000, ConnectDone False), (7000000000, TimerFires), (7000000001, Round),
     (7000000002, Look)]"

theorem reconnecting_never_looks_silent_witness:
  "\<exists>(m :: modbus) (g :: managed). md_place m = Connecting \<and> md_backoff m = 2000000000 \<and> mg_comp g = Some (md_status m) \<and>
    fst (evaluate 12000000000 5000000000 g) = None"
proof -
  let ?first = "\<lambda>c. modbus_act (1000000000, Round) c"
  obtain c where c: "new_modbus example_settings 5000000000 = Inr c" "md_place (fold modbus_act example_run (?first c)) = Connecting"
    "md_backoff (fold modbus_act example_run (?first c)) = 2000000000"
    "punctual 1000000000 5000000000 1000000000 1000000000 example_run 12000000000 (?first c)"
  proof -
    have "case new_modbus example_settings 5000000000 of Inl _ \<Rightarrow> False
      | Inr c \<Rightarrow> md_place (fold modbus_act example_run (?first c)) = Connecting \<and>
         md_backoff (fold modbus_act example_run (?first c)) = 2000000000 \<and>
         punctual 1000000000 5000000000 1000000000 1000000000 example_run 12000000000 (?first c)"
      by code_simp
    then show thesis by (cases "new_modbus example_settings 5000000000") (auto intro: that)
  qed
  let ?m = "fold modbus_act example_run (?first c)"
  let ?g = "(new_managed ''modbus'')\<lparr>mg_comp := Some (md_status ?m)\<rparr>"
  have "fst (evaluate 12000000000 5000000000 ?g) = None"
    using reconnecting_never_looks_silent [OF c(1) _ _ _ c(4) refl, of ?g] c(2)
    by (simp add: new_managed_def)
  then show ?thesis using c(2,3) by (intro exI [of _ ?m] exI [of _ ?g]) simp
qed

end
