(* ===== verification/Backfill.thy ===== *)
theory Backfill
  imports Cleanup
begin

text \<open>
  internal/storage/backfill.go and internal/maintenance (backfill.go, report.go): the offline job
  that recomputes the months and years of recent years from the daily rows, in one transaction
  that bypasses the freeze marks, and reports what it changed. The lock, the backup and the
  opening of the database are I/O: the environment of a job says how they ended. The values of
  a period are written in key order; the baseline is written in the order of a list with
  distinct keys, where the code ranges over a map. \<open>agg\<close> is SQLite's SUM.
\<close>

section \<open>The transaction of a backfill\<close>

definition clear_offset :: "string \<Rightarrow> meta \<times> txn \<Rightarrow> storage_error + meta \<times> txn" where
  "clear_offset k s = (case s of (m, tx) \<Rightarrow>
     if m_offsets m k = None then Inr (m, tx)
     else (case exec True (\<lambda>d. d\<lparr>d_meta := AList.delete (meta_offset @ k) (d_meta d)\<rparr>) tx of Inl e \<Rightarrow> Inl e
       | Inr tx' \<Rightarrow> Inr (m\<lparr>m_offsets := (m_offsets m)(k := None)\<rparr>, tx')))"

definition put_period :: "registry \<Rightarrow> int \<Rightarrow> level \<Rightarrow> string \<Rightarrow> string \<Rightarrow> float64 \<Rightarrow> meta \<times> txn
    \<Rightarrow> storage_error + meta \<times> txn" where
  "put_period g ts l k p v s =
     (case lookup_reg g k of Inl e \<Rightarrow> Inl e | Inr reg \<Rightarrow>
      if l \<noteq> Monthly \<and> l \<noteq> Yearly then Inl (BadLevel (level_string l)) else
      case check_domain reg l of Some e \<Rightarrow> Inl e | None \<Rightarrow>
      case clear_offset (offset_key l p k) s of Inl e \<Rightarrow> Inl e | Inr (m, tx) \<Rightarrow>
      case upsert_period reg \<lparr>pr_level = l, pr_key = k, pr_period = p, pr_value = v\<rparr> ts tx of Inl e \<Rightarrow> Inl e
      | Inr tx \<Rightarrow> Inr (m, tx))"

definition min_day :: "db \<Rightarrow> string" where
  "min_day d = (case map (snd \<circ> fst) (d_daily d) of [] \<Rightarrow> [] | x # xs \<Rightarrow> fold min xs x)"

definition first_daily_day :: "txn \<Rightarrow> storage_error + string \<times> txn" where
  "first_daily_day tx = query min_day tx"

definition set_base :: "string \<times> float64 \<Rightarrow> meta \<times> txn \<Rightarrow> storage_error + meta \<times> txn" where
  "set_base kv s = (case s of (m, tx) \<Rightarrow>
     case put_meta (meta_baseline @ fst kv) (MFloat (snd kv)) tx of Inl e \<Rightarrow> Inl e
     | Inr tx' \<Rightarrow> Inr (m\<lparr>m_base := (m_base m)(fst kv \<mapsto> snd kv)\<rparr>, tx'))"

definition put_baseline :: "vals \<Rightarrow> meta \<times> txn \<Rightarrow> storage_error + meta \<times> txn" where
  "put_baseline vs s = each set_base vs s"

section \<open>The report\<close>

record line =
  ln_level :: string
  ln_key :: string
  ln_period :: string
  ln_old :: float64
  ln_had :: bool
  ln_new :: float64
  ln_unit :: string

record skip =
  sk_level :: string
  sk_period :: string
  sk_first :: string

record report =
  rp_lines :: "line list"
  rp_skipped :: "skip list"

definition unchanged_epsilon :: float64 where "unchanged_epsilon = rnd (5 / 1000)"

definition empty_report :: report where
  "empty_report = \<lparr>rp_lines = [], rp_skipped = []\<rparr>"

definition add_line :: "line \<Rightarrow> report \<Rightarrow> report" where
  "add_line l r = r\<lparr>rp_lines := rp_lines r @ [l]\<rparr>"

definition add_skip :: "skip \<Rightarrow> report \<Rightarrow> report" where
  "add_skip s r = r\<lparr>rp_skipped := rp_skipped r @ [s]\<rparr>"

definition unchanged :: "line \<Rightarrow> bool" where
  "unchanged l \<longleftrightarrow> ln_had l \<and> fless (fabs (fsub (ln_new l) (ln_old l))) unchanged_epsilon"

definition lower :: "line \<Rightarrow> bool" where
  "lower l \<longleftrightarrow> ln_had l \<and> fless (ln_new l) (ln_old l)"

definition counts :: "report \<Rightarrow> nat \<times> nat \<times> nat" where
  "counts r = fold (\<lambda>l (recomputed, same, low).
     if unchanged l then (recomputed + 1, same + 1, low)
     else if lower l then (recomputed + 1, same, low + 1)
     else (recomputed + 1, same, low)) (rp_lines r) (0, 0, 0)"

definition sorted_keys :: "vals \<Rightarrow> string list" where
  "sorted_keys vs = sort (map fst vs)"

definition unit_of :: "registry \<Rightarrow> string \<Rightarrow> string" where
  "unit_of g k = (case by_key g k of None \<Rightarrow> [] | Some r \<Rightarrow> reg_unit r)"

section \<open>The job\<close>

record options =
  op_years :: int
  op_force :: bool

record recomputer =
  rc_now :: period
  rc_first :: string
  rc_force :: bool

record span =
  bj_level :: level
  bj_key :: string
  bj_from :: string
  bj_to :: string

datatype backfill_error = ArgError int | Locked | BackupFailed | OutputFailed | OpenFailed
  | PurgedHistory string | InStorage storage_error

definition incomplete :: "recomputer \<Rightarrow> span \<Rightarrow> bool" where
  "incomplete r j \<longleftrightarrow> \<not> rc_force r \<and> (rc_first r = [] \<or> bj_from j < rc_first r)"

fun job_sums :: "(float64 list \<Rightarrow> float64) \<Rightarrow> string list \<Rightarrow> string \<Rightarrow> string \<Rightarrow> vals \<Rightarrow> txn
    \<Rightarrow> storage_error + vals \<times> txn" where
  "job_sums agg [] lo hi out tx = Inr (out, tx)"
| "job_sums agg (k # ks) lo hi out tx = (case sum_daily agg k lo hi tx of Inl e \<Rightarrow> Inl e
     | Inr (v, tx) \<Rightarrow> job_sums agg ks lo hi (AList.update k v out) tx)"

type_synonym job_state = "report \<times> meta \<times> txn"

definition put_row :: "registry \<Rightarrow> int \<Rightarrow> span \<Rightarrow> vals \<Rightarrow> string \<Rightarrow> job_state \<Rightarrow> storage_error + job_state" where
  "put_row g ts j vs k s = (case s of (rep, m, tx) \<Rightarrow>
     case period_value (bj_level j) k (bj_key j) tx of Inl e \<Rightarrow> Inl e | Inr (old, tx) \<Rightarrow>
     case put_period g ts (bj_level j) k (bj_key j) (getv vs k) (m, tx) of Inl e \<Rightarrow> Inl e
     | Inr (m, tx) \<Rightarrow> Inr (add_line \<lparr>ln_level = level_string (bj_level j), ln_key = k, ln_period = bj_key j,
         ln_old = (case old of None \<Rightarrow> Fin 0 | Some v \<Rightarrow> v), ln_had = (old \<noteq> None), ln_new = getv vs k,
         ln_unit = unit_of g k\<rparr> rep, m, tx))"

definition period_job :: "registry \<Rightarrow> (float64 list \<Rightarrow> float64) \<Rightarrow> int \<Rightarrow> recomputer \<Rightarrow> span \<Rightarrow> job_state
    \<Rightarrow> storage_error + job_state" where
  "period_job g agg ts r j s = (case s of (rep, m, tx) \<Rightarrow>
     if incomplete r j
     then Inr (add_skip \<lparr>sk_level = level_string (bj_level j), sk_period = bj_key j, sk_first = rc_first r\<rparr> rep, m, tx)
     else let es = registry_edges g (bj_level j) in
       (case job_sums agg (source_keys es) (bj_from j) (bj_to j) [] tx of Inl e \<Rightarrow> Inl e
        | Inr (sm, tx) \<Rightarrow>
          let vs = apply_edges es sm;
              vs = merge_values [vs, apply_net (registry_nets g (bj_level j)) vs] in
          each (put_row g ts j vs) (sorted_keys vs) (rep, m, tx)))"

definition months_of :: "string \<Rightarrow> period \<Rightarrow> key_error + string list" where
  "months_of year now = (case add_months (year @ ''-01'') (-1) of Inl e \<Rightarrow> Inl e
     | Inr prev \<Rightarrow> months_between prev (if p_month now < year @ ''-12'' then p_month now else year @ ''-12''))"

definition month_job :: "registry \<Rightarrow> (float64 list \<Rightarrow> float64) \<Rightarrow> int \<Rightarrow> recomputer \<Rightarrow> string \<Rightarrow> job_state
    \<Rightarrow> storage_error + job_state" where
  "month_job g agg ts r month s = (case month_bounds month of Inl e \<Rightarrow> Inl (BadKey e)
     | Inr (lo, hi) \<Rightarrow> period_job g agg ts r \<lparr>bj_level = Monthly, bj_key = month, bj_from = lo,
         bj_to = min hi (p_day (rc_now r))\<rparr> s)"

definition year_job :: "registry \<Rightarrow> (float64 list \<Rightarrow> float64) \<Rightarrow> int \<Rightarrow> recomputer \<Rightarrow> string \<Rightarrow> job_state
    \<Rightarrow> storage_error + job_state" where
  "year_job g agg ts r year s =
     (case months_of year (rc_now r) of Inl e \<Rightarrow> Inl (BadKey e) | Inr months \<Rightarrow>
      case each (month_job g agg ts r) months s of Inl e \<Rightarrow> Inl e | Inr s \<Rightarrow>
      case year_bounds year of Inl e \<Rightarrow> Inl (BadKey e) | Inr (lo, hi) \<Rightarrow>
      period_job g agg ts r \<lparr>bj_level = Yearly, bj_key = year, bj_from = lo, bj_to = min hi (p_day (rc_now r))\<rparr> s)"

definition back_year :: "registry \<Rightarrow> (float64 list \<Rightarrow> float64) \<Rightarrow> int \<Rightarrow> recomputer \<Rightarrow> int \<Rightarrow> job_state
    \<Rightarrow> storage_error + job_state" where
  "back_year g agg ts r back s = (case add_years (p_year (rc_now r)) (- back) of Inl e \<Rightarrow> Inl (BadKey e)
     | Inr year \<Rightarrow> year_job g agg ts r year s)"

definition baseline_from :: "meta \<Rightarrow> string \<Rightarrow> bool \<Rightarrow> string option" where
  "baseline_from m year force =
     (if year = [] then None else if force then Some []
      else if length (m_cutover m) < 4 \<or> year < take 4 (m_cutover m) then None
      else Some (take 4 (m_cutover m) @ ''-01-01''))"

definition base_line :: "registry \<Rightarrow> (string \<rightharpoonup> float64) \<Rightarrow> vals \<Rightarrow> string \<Rightarrow> line" where
  "base_line g old vs k = \<lparr>ln_level = ''total'', ln_key = k, ln_period = ''baseline'',
     ln_old = (case old k of None \<Rightarrow> Fin 0 | Some v \<Rightarrow> v), ln_had = (old k \<noteq> None), ln_new = getv vs k,
     ln_unit = unit_of g k\<rparr>"

definition refresh_baseline :: "registry \<Rightarrow> (float64 list \<Rightarrow> float64) \<Rightarrow> recomputer \<Rightarrow> job_state
    \<Rightarrow> storage_error + job_state" where
  "refresh_baseline g agg r s = (case s of (rep, m, tx) \<Rightarrow>
     case baseline_from m (m_base_year m) (rc_force r) of None \<Rightarrow> Inr (rep, m, tx)
     | Some lo \<Rightarrow> let es = registry_edges g Total in
       (case job_sums agg (source_keys es) lo (m_base_year m @ ''-12-31'') [] tx of Inl e \<Rightarrow> Inl e
        | Inr (sm, tx) \<Rightarrow>
          let vs = apply_edges es sm;
              rep = fold (\<lambda>k. add_line (base_line g (m_base m) vs k)) (sorted_keys vs) rep in
          (case put_baseline vs (m, tx) of Inl e \<Rightarrow> Inl e | Inr s \<Rightarrow> Inr (rep, s))))"

definition run_years :: "registry \<Rightarrow> (float64 list \<Rightarrow> float64) \<Rightarrow> int \<Rightarrow> recomputer \<Rightarrow> int \<Rightarrow> job_state
    \<Rightarrow> storage_error + job_state" where
  "run_years g agg ts r years s = (case each (back_year g agg ts r) (rev [0..years]) s of Inl e \<Rightarrow> Inl e
     | Inr s \<Rightarrow> if 0 < years then refresh_baseline g agg r s else Inr s)"

definition baseline_purged :: "meta \<Rightarrow> string \<Rightarrow> bool \<Rightarrow> bool" where
  "baseline_purged m purged force \<longleftrightarrow>
     (case baseline_from m (m_base_year m) force of None \<Rightarrow> False | Some lo \<Rightarrow> lo < purged)"

definition check_purged :: "meta \<Rightarrow> period \<Rightarrow> options \<Rightarrow> backfill_error option" where
  "check_purged m now opts = (if m_purged m = [] then None
     else case add_years (p_year now) (- op_years opts) of Inl e \<Rightarrow> Some (InStorage (BadKey e))
       | Inr oldest \<Rightarrow> if oldest @ ''-01-01'' < m_purged m \<or>
           (0 < op_years opts \<and> baseline_purged m (m_purged m) (op_force opts))
         then Some (PurgedHistory (m_purged m)) else None)"

definition recompute :: "registry \<Rightarrow> (float64 list \<Rightarrow> float64) \<Rightarrow> int \<Rightarrow> period \<Rightarrow> options \<Rightarrow> meta \<times> txn
    \<Rightarrow> backfill_error + job_state" where
  "recompute g agg ts now opts s = (case s of (m, tx) \<Rightarrow>
     case check_purged m now opts of Some e \<Rightarrow> Inl e | None \<Rightarrow>
     case first_daily_day tx of Inl e \<Rightarrow> Inl (InStorage e) | Inr (first, tx) \<Rightarrow>
     case run_years g agg ts \<lparr>rc_now = now, rc_first = first, rc_force = op_force opts\<rparr> (op_years opts)
         (empty_report, m, tx) of
       Inl e \<Rightarrow> Inl (InStorage e) | Inr s \<Rightarrow> Inr s)"

text \<open>\<open>Storage.Backfill\<close>: one transaction; the rows and the copy of the meta table change together or
  not at all.\<close>

definition backfill :: "(meta \<times> txn \<Rightarrow> backfill_error + 'a \<times> meta \<times> txn) \<Rightarrow> bool list \<Rightarrow> store
    \<Rightarrow> (backfill_error + 'a) \<times> store" where
  "backfill f faults s =
     (case exec True (\<lambda>d. d) \<lparr>tx_db = s_db s, tx_faults = faults\<rparr> of Inl e \<Rightarrow> (Inl (InStorage e), s)
      | Inr tx \<Rightarrow> (case f (s_meta s, tx) of Inl e \<Rightarrow> (Inl e, s)
        | Inr (a, m, tx) \<Rightarrow> (case exec True (\<lambda>d. d) tx of Inl e \<Rightarrow> (Inl (InStorage e), s)
          | Inr tx \<Rightarrow> (Inr a, s\<lparr>s_db := tx_db tx, s_meta := m\<rparr>))))"

record job_env =
  je_locked :: bool
  je_backup :: bool
  je_output :: bool
  je_open :: bool
  je_report :: bool
  je_zone :: zone
  je_now :: int
  je_stamp :: int
  je_faults :: "bool list"

definition run_backfill :: "registry \<Rightarrow> (float64 list \<Rightarrow> float64) \<Rightarrow> job_env \<Rightarrow> options \<Rightarrow> store
    \<Rightarrow> (backfill_error + report) \<times> store" where
  "run_backfill g agg e opts s =
     (if op_years opts < 0 then (Inl (ArgError (op_years opts)), s)
      else if \<not> je_locked e then (Inl Locked, s)
      else if \<not> je_backup e then (Inl BackupFailed, s)
      else if \<not> je_output e then (Inl OutputFailed, s)
      else if \<not> je_open e then (Inl OpenFailed, s)
      else case backfill (recompute g agg (je_stamp e) (period_of (je_zone e) (je_now e)) opts) (je_faults e) s of
          (Inl err, s') \<Rightarrow> (Inl err, s')
        | (Inr rep, s') \<Rightarrow> (if je_report e then Inr rep else Inl OutputFailed, s'))"

section \<open>What one period does\<close>

text \<open>The values of a period as sums over the daily rows.\<close>

definition sums_of :: "(float64 list \<Rightarrow> float64) \<Rightarrow> db \<Rightarrow> string list \<Rightarrow> string \<Rightarrow> string \<Rightarrow> vals" where
  "sums_of agg d ks lo hi = fold (\<lambda>k. AList.update k (sum_rows agg d k lo hi)) ks []"

definition job_vals :: "registry \<Rightarrow> (float64 list \<Rightarrow> float64) \<Rightarrow> db \<Rightarrow> span \<Rightarrow> vals" where
  "job_vals g agg d j = (let es = registry_edges g (bj_level j);
       vs = apply_edges es (sums_of agg d (source_keys es) (bj_from j) (bj_to j)) in
     merge_values [vs, apply_net (registry_nets g (bj_level j)) vs])"

definition row_value :: "registry \<Rightarrow> vals \<Rightarrow> string \<Rightarrow> (float64 \<times> float64) option \<Rightarrow> (float64 \<times> float64) option" where
  "row_value g vs k old = (case map_of vs k of None \<Rightarrow> old
     | Some v \<Rightarrow> Some (v, raw_of (the (by_key g k)) v))"

lemma sums_of_map: "map_of (sums_of agg d ks lo hi) k = (if k \<in> set ks then Some (sum_rows agg d k lo hi) else None)"
proof -
  have "map_of (fold (\<lambda>k. AList.update k (sum_rows agg d k lo hi)) ks out) k =
      (if k \<in> set ks then Some (sum_rows agg d k lo hi) else map_of out k)" for out
    by (induction ks arbitrary: out) (auto simp: update_conv')
  then show ?thesis by (simp add: sums_of_def)
qed

lemma job_sums_Inr:
  "job_sums agg ks lo hi out tx = Inr (sm, tx') \<Longrightarrow>
    tx_db tx' = tx_db tx \<and> sm = fold (\<lambda>k. AList.update k (sum_rows agg (tx_db tx) k lo hi)) ks out"
proof (induction ks arbitrary: out tx)
  case (Cons k ks)
  then obtain v tx1 where 1: "sum_daily agg k lo hi tx = Inr (v, tx1)"
    "job_sums agg ks lo hi (AList.update k v out) tx1 = Inr (sm, tx')" by (auto split: sum.splits)
  have "v = sum_rows agg (tx_db tx) k lo hi" "tx_db tx1 = tx_db tx"
    using 1(1) by (auto simp: sum_daily_def dest: query_Inr)
  with Cons.IH [OF 1(2)] show ?case by simp
qed simp

text \<open>The frame of a step: everything but months, years and their offsets, and the total baseline.\<close>

definition back_frame :: "meta \<times> txn \<Rightarrow> meta \<times> txn \<Rightarrow> bool" where
  "back_frame s s' \<longleftrightarrow> (case (s, s') of ((m, tx), (m', tx')) \<Rightarrow>
     d_daily (tx_db tx') = d_daily (tx_db tx) \<and> d_total (tx_db tx') = d_total (tx_db tx) \<and>
     d_error (tx_db tx') = d_error (tx_db tx) \<and>
     m_cutover m' = m_cutover m \<and> m_closed m' = m_closed m \<and> m_frozen m' = m_frozen m \<and>
     m_base_year m' = m_base_year m \<and> m_purged m' = m_purged m \<and>
     (coherent (tx_db tx) m \<longrightarrow> coherent (tx_db tx') m'))"

lemma back_frame_refl: "tx_db tx' = tx_db tx \<Longrightarrow> back_frame (m, tx) (m, tx')"
  by (simp add: back_frame_def)

lemma back_frame_trans: "back_frame s t \<Longrightarrow> back_frame t u \<Longrightarrow> back_frame s u"
  by (cases s; cases t; cases u) (simp add: back_frame_def)

lemma back_frame_sums: "back_frame (m, tx) (m', tx') \<Longrightarrow> job_vals g agg (tx_db tx') = job_vals g agg (tx_db tx)"
  by (simp add: back_frame_def job_vals_def sums_of_def sum_rows_def fun_eq_iff)

lemma coherent_delete:
  assumes "coherent d m"
  shows "coherent (d\<lparr>d_meta := AList.delete (meta_offset @ x) (d_meta d)\<rparr>) (m\<lparr>m_offsets := (m_offsets m)(x := None)\<rparr>)"
proof -
  have "map_of (AList.delete (meta_offset @ x) (d_meta d)) = (map_of (d_meta d))(meta_offset @ x := None)"
    by (simp add: delete_conv')
  moreover have "set (AList.delete (meta_offset @ x) (d_meta d)) \<subseteq> set (d_meta d)" by (auto simp: AList.delete_eq)
  ultimately show ?thesis using assms view_text(10) [of "map_of (d_meta d)" x] unfolding coherent_def
    by (auto simp: distinct_delete)
qed

lemma clear_offset_Inr:
  assumes "clear_offset x (m, tx) = Inr (m', tx')"
  shows "m' = m\<lparr>m_offsets := (m_offsets m)(x := None)\<rparr> \<and> (\<exists>y. tx_db tx' = (tx_db tx)\<lparr>d_meta := y\<rparr>) \<and>
    (coherent (tx_db tx) m \<longrightarrow> coherent (tx_db tx') m')"
proof (cases "m_offsets m x = None")
  case True
  then have "(m_offsets m)(x := None) = m_offsets m" by auto
  then have "m = m\<lparr>m_offsets := (m_offsets m)(x := None)\<rparr>" by simp
  moreover have "\<exists>y. tx_db tx = (tx_db tx)\<lparr>d_meta := y\<rparr>" by (rule exI [of _ "d_meta (tx_db tx)"]) simp
  ultimately show ?thesis using assms True by (auto simp: clear_offset_def)
next
  case False
  then show ?thesis using assms coherent_delete [of "tx_db tx" m x]
    by (auto simp: clear_offset_def dest!: exec_Inr split: sum.splits)
qed

lemma put_period_Inr:
  assumes "put_period g ts l k p v (m, tx) = Inr (m', tx')"
  obtains reg where "by_key g k = Some reg" "l = Monthly \<or> l = Yearly" "check_domain reg l = None"
    "back_frame (m, tx) (m', tx')" "m' = m\<lparr>m_offsets := (m_offsets m)(offset_key l p k := None)\<rparr>"
    "\<And>l' k' p'. level_rows l' (tx_db tx') (k', p') =
      (if l' = l \<and> k' = k \<and> p' = p then Some (v, raw_of reg v) else level_rows l' (tx_db tx) (k', p'))"
proof -
  obtain reg m1 tx1 where 1: "by_key g k = Some reg" "l = Monthly \<or> l = Yearly" "check_domain reg l = None"
    "clear_offset (offset_key l p k) (m, tx) = Inr (m1, tx1)" "m' = m1"
    "tx_db tx' = upsert_in l k p v (raw_of reg v) ts (tx_db tx1)"
    using assms by (auto simp: put_period_def lookup_reg_def upsert_period_def Let_def dest!: exec_Inr
        split: option.splits sum.splits if_splits)
  from clear_offset_Inr [OF 1(4)] obtain y where
    2: "m' = m\<lparr>m_offsets := (m_offsets m)(offset_key l p k := None)\<rparr>" "tx_db tx1 = (tx_db tx)\<lparr>d_meta := y\<rparr>"
      "coherent (tx_db tx) m \<longrightarrow> coherent (tx_db tx1) m1" using 1(5) by auto
  have "level_rows l' (tx_db tx1) (k', p') = level_rows l' (tx_db tx) (k', p')" for l' k' p'
    using 2(2) by (cases l') simp_all
  then have rows: "level_rows l' (tx_db tx') (k', p') =
      (if l' = l \<and> k' = k \<and> p' = p then Some (v, raw_of reg v) else level_rows l' (tx_db tx) (k', p'))" for l' k' p'
    using 1(2) unfolding 1(6) upsert_in_rows by auto
  have "coherent (tx_db tx1) m1 \<Longrightarrow> coherent (tx_db tx') m'"
    unfolding 1(5) by (rule coherent_frame) (simp_all add: 1(6))
  then have "back_frame (m, tx) (m', tx')" using 1(2,6) 2 by (auto simp: back_frame_def upsert_in_def)
  with that 1 2(1) rows show thesis by blast
qed

text \<open>The rows of the keys, their offsets, and nothing else.\<close>

lemma put_rows:
  assumes "each (put_row g ts j vs) ks (rep, m, tx) = Inr (rep', m', tx')"
  shows "back_frame (m, tx) (m', tx') \<and> m_base m' = m_base m \<and>
    (\<forall>x. m_offsets m' x = (if \<exists>k \<in> set ks. x = offset_key (bj_level j) (bj_key j) k then None else m_offsets m x)) \<and>
    (\<forall>l k p. level_rows l (tx_db tx') (k, p) = (if l = bj_level j \<and> p = bj_key j \<and> k \<in> set ks
       then Some (getv vs k, raw_of (the (by_key g k)) (getv vs k)) else level_rows l (tx_db tx) (k, p))) \<and>
    (\<forall>k \<in> set ks. \<exists>reg. by_key g k = Some reg \<and> check_domain reg (bj_level j) = None)"
  using assms
proof (induction ks arbitrary: rep m tx)
  case Nil
  then show ?case by (simp add: back_frame_refl)
next
  case (Cons k ks)
  obtain s1 where "put_row g ts j vs k (rep, m, tx) = Inr s1" "each (put_row g ts j vs) ks s1 = Inr (rep', m', tx')"
    using Cons.prems by (auto split: sum.splits)
  then obtain rep1 m1 tx1 where 1: "put_row g ts j vs k (rep, m, tx) = Inr (rep1, m1, tx1)"
    "each (put_row g ts j vs) ks (rep1, m1, tx1) = Inr (rep', m', tx')" by (cases s1) auto
  obtain old tx0 where 0: "period_value (bj_level j) k (bj_key j) tx = Inr (old, tx0)"
    "put_period g ts (bj_level j) k (bj_key j) (getv vs k) (m, tx0) = Inr (m1, tx1)"
    using 1(1) by (auto simp: put_row_def split: sum.splits)
  have t0: "tx_db tx0 = tx_db tx" using 0(1) by (auto simp: period_value_def dest: query_Inr split: if_splits)
  from 0(2) obtain reg where r: "by_key g k = Some reg" "check_domain reg (bj_level j) = None"
    and fr: "back_frame (m, tx0) (m1, tx1)" and
    off: "m1 = m\<lparr>m_offsets := (m_offsets m)(offset_key (bj_level j) (bj_key j) k := None)\<rparr>" and
    rows: "\<And>l' k' p'. level_rows l' (tx_db tx1) (k', p') = (if l' = bj_level j \<and> k' = k \<and> p' = bj_key j
      then Some (getv vs k, raw_of reg (getv vs k)) else level_rows l' (tx_db tx0) (k', p'))"
    by (rule put_period_Inr) blast
  note ih = Cons.IH [OF 1(2)]
  have "back_frame (m, tx) (m', tx')"
    using back_frame_trans [OF back_frame_trans [OF back_frame_refl [OF t0] fr]] ih by blast
  moreover have "\<forall>x. m_offsets m' x = (if \<exists>k' \<in> set (k # ks). x = offset_key (bj_level j) (bj_key j) k' then None else m_offsets m x)"
    using ih by (simp add: off)
  moreover have "\<forall>l k' p. level_rows l (tx_db tx') (k', p) = (if l = bj_level j \<and> p = bj_key j \<and> k' \<in> set (k # ks)
       then Some (getv vs k', raw_of (the (by_key g k')) (getv vs k')) else level_rows l (tx_db tx) (k', p))"
    using ih by (simp add: rows t0 r(1))
  moreover have "m_base m' = m_base m" using ih by (simp add: off)
  ultimately show ?case using ih r by simp
qed

definition job_effect :: "registry \<Rightarrow> (float64 list \<Rightarrow> float64) \<Rightarrow> (span \<Rightarrow> bool) \<Rightarrow> span set
    \<Rightarrow> meta \<times> txn \<Rightarrow> meta \<times> txn \<Rightarrow> bool" where
  "job_effect g agg skipped js s s' \<longleftrightarrow> (case (s, s') of ((m, tx), (m', tx')) \<Rightarrow>
     back_frame s s' \<and> m_base m' = m_base m \<and>
     (\<forall>j \<in> js. \<not> skipped j \<longrightarrow> (\<forall>k. level_rows (bj_level j) (tx_db tx') (k, bj_key j) =
         row_value g (job_vals g agg (tx_db tx) j) k (level_rows (bj_level j) (tx_db tx) (k, bj_key j)) \<and>
       (k \<in> dom (map_of (job_vals g agg (tx_db tx) j)) \<longrightarrow>
         m_offsets m' (offset_key (bj_level j) (bj_key j) k) = None))) \<and>
     (\<forall>l p. (\<forall>j \<in> js. bj_level j = l \<and> bj_key j = p \<longrightarrow> skipped j) \<longrightarrow>
       (\<forall>k. level_rows l (tx_db tx') (k, p) = level_rows l (tx_db tx) (k, p))) \<and>
     (\<forall>x. m_offsets m' x \<noteq> m_offsets m x \<longrightarrow> m_offsets m' x = None \<and> (\<exists>j \<in> js. \<not> skipped j \<and>
       (\<exists>k \<in> dom (map_of (job_vals g agg (tx_db tx) j)). x = offset_key (bj_level j) (bj_key j) k))))"

lemma period_job_effect:
  assumes "period_job g agg ts r j (rep, m, tx) = Inr (rep', m', tx')"
  shows "job_effect g agg (incomplete r) {j} (m, tx) (m', tx')"
proof (cases "incomplete r j")
  case True
  then show ?thesis using assms by (auto simp: period_job_def job_effect_def back_frame_refl)
next
  case False
  obtain sm tx1 where 1: "job_sums agg (source_keys (registry_edges g (bj_level j))) (bj_from j) (bj_to j) [] tx = Inr (sm, tx1)"
    using assms False by (auto simp: period_job_def Let_def split: sum.splits)
  from job_sums_Inr [OF 1] have t1: "tx_db tx1 = tx_db tx"
    and sm: "sm = sums_of agg (tx_db tx) (source_keys (registry_edges g (bj_level j))) (bj_from j) (bj_to j)"
    by (simp_all add: sums_of_def)
  let ?vs = "job_vals g agg (tx_db tx) j"
  have "each (put_row g ts j ?vs) (sorted_keys ?vs) (rep, m, tx1) = Inr (rep', m', tx')"
    using assms False 1 sm by (simp add: period_job_def Let_def job_vals_def)
  from put_rows [OF this] have p: "back_frame (m, tx1) (m', tx')" "m_base m' = m_base m"
    "\<And>x. m_offsets m' x = (if \<exists>k \<in> set (sorted_keys ?vs). x = offset_key (bj_level j) (bj_key j) k then None else m_offsets m x)"
    "\<And>l k p. level_rows l (tx_db tx') (k, p) = (if l = bj_level j \<and> p = bj_key j \<and> k \<in> set (sorted_keys ?vs)
       then Some (getv ?vs k, raw_of (the (by_key g k)) (getv ?vs k)) else level_rows l (tx_db tx1) (k, p))"
    by blast+
  have ks: "set (sorted_keys ?vs) = dom (map_of ?vs)" by (simp add: sorted_keys_def dom_map_of_conv_image_fst)
  have v: "(if k \<in> dom (map_of ?vs) then Some (getv ?vs k, raw_of (the (by_key g k)) (getv ?vs k)) else old)
      = row_value g ?vs k old" for k old
    by (auto simp: row_value_def getv_def split: option.split)
  have "back_frame (m, tx) (m', tx')" using back_frame_trans [OF back_frame_refl [OF t1] p(1)] .
  then show ?thesis using p(2-4) False
    unfolding job_effect_def ks prod.case by (auto simp: v t1)
qed

text \<open>Jobs one after another, when no two of them share their level and key.\<close>

definition consistent :: "span set \<Rightarrow> bool" where
  "consistent js \<longleftrightarrow> (\<forall>i \<in> js. \<forall>j \<in> js. bj_level i = bj_level j \<and> bj_key i = bj_key j \<longrightarrow> i = j)"

lemma row_value_twice: "row_value g vs k (row_value g vs k old) = row_value g vs k old"
  by (simp add: row_value_def split: option.split)

lemma job_effect_trans:
  assumes 1: "job_effect g agg sk js (m, tx) (m1, tx1)" and 2: "job_effect g agg sk is (m1, tx1) (m2, tx2)"
    and c: "consistent (js \<union> is)"
  shows "job_effect g agg sk (js \<union> is) (m, tx) (m2, tx2)"
proof -
  have fr: "back_frame (m, tx) (m1, tx1)" "back_frame (m1, tx1) (m2, tx2)" using 1 2 by (simp_all add: job_effect_def)
  note vals = back_frame_sums [OF fr(1)]
  have r1: "j \<in> js \<Longrightarrow> \<not> sk j \<Longrightarrow> level_rows (bj_level j) (tx_db tx1) (k, bj_key j) =
      row_value g (job_vals g agg (tx_db tx) j) k (level_rows (bj_level j) (tx_db tx) (k, bj_key j))" for j k
    using 1 by (simp add: job_effect_def)
  have r2: "j \<in> is \<Longrightarrow> \<not> sk j \<Longrightarrow> level_rows (bj_level j) (tx_db tx2) (k, bj_key j) =
      row_value g (job_vals g agg (tx_db tx) j) k (level_rows (bj_level j) (tx_db tx1) (k, bj_key j))" for j k
    using 2 by (simp add: job_effect_def vals)
  have u1: "\<forall>j \<in> js. bj_level j = l \<and> bj_key j = p \<longrightarrow> sk j \<Longrightarrow>
      level_rows l (tx_db tx1) (k, p) = level_rows l (tx_db tx) (k, p)" for l k p
    using 1 by (simp add: job_effect_def)
  have u2: "\<forall>j \<in> is. bj_level j = l \<and> bj_key j = p \<longrightarrow> sk j \<Longrightarrow>
      level_rows l (tx_db tx2) (k, p) = level_rows l (tx_db tx1) (k, p)" for l k p
    using 2 by (simp add: job_effect_def)
  have o1: "m_offsets m1 x \<noteq> m_offsets m x \<Longrightarrow> m_offsets m1 x = None \<and> (\<exists>j \<in> js. \<not> sk j \<and>
      (\<exists>k \<in> dom (map_of (job_vals g agg (tx_db tx) j)). x = offset_key (bj_level j) (bj_key j) k))" for x
    using 1 by (simp add: job_effect_def)
  have o2: "m_offsets m2 x \<noteq> m_offsets m1 x \<Longrightarrow> m_offsets m2 x = None \<and> (\<exists>j \<in> is. \<not> sk j \<and>
      (\<exists>k \<in> dom (map_of (job_vals g agg (tx_db tx) j)). x = offset_key (bj_level j) (bj_key j) k))" for x
    using 2 by (simp add: job_effect_def vals)
  have rows: "level_rows (bj_level j) (tx_db tx2) (k, bj_key j) =
      row_value g (job_vals g agg (tx_db tx) j) k (level_rows (bj_level j) (tx_db tx) (k, bj_key j))"
    if j: "j \<in> js \<union> is" "\<not> sk j" for j k
  proof -
    have only: "i = j" if "i \<in> js \<union> is" "bj_level i = bj_level j" "bj_key i = bj_key j" for i
      using c that j(1) unfolding consistent_def by blast
    have step1: "level_rows (bj_level j) (tx_db tx1) (k, bj_key j) =
        (if j \<in> js then row_value g (job_vals g agg (tx_db tx) j) k (level_rows (bj_level j) (tx_db tx) (k, bj_key j))
         else level_rows (bj_level j) (tx_db tx) (k, bj_key j))"
    proof (cases "j \<in> js")
      case True then show ?thesis using r1 j(2) by simp
    next
      case False
      then have "\<forall>i \<in> js. bj_level i = bj_level j \<and> bj_key i = bj_key j \<longrightarrow> sk i" using only by blast
      from u1 [OF this] False show ?thesis by simp
    qed
    show ?thesis
    proof (cases "j \<in> is")
      case True then show ?thesis using r2 j(2) step1 by (simp add: row_value_twice)
    next
      case False
      then have "\<forall>i \<in> is. bj_level i = bj_level j \<and> bj_key i = bj_key j \<longrightarrow> sk i" using only by blast
      from u2 [OF this] False step1 j(1) show ?thesis by simp
    qed
  qed
  have offs: "m_offsets m2 (offset_key (bj_level j) (bj_key j) k) = None"
    if j: "j \<in> js \<union> is" "\<not> sk j" "k \<in> dom (map_of (job_vals g agg (tx_db tx) j))" for j k
  proof (cases "j \<in> is")
    case True
    then show ?thesis using 2 j(2,3) by (simp add: job_effect_def vals)
  next
    case False
    then have "m_offsets m1 (offset_key (bj_level j) (bj_key j) k) = None" using 1 j by (simp add: job_effect_def)
    then show ?thesis using o2 [of "offset_key (bj_level j) (bj_key j) k"] by (metis (no_types))
  qed
  have base: "m_base m2 = m_base m" using 1 2 by (simp add: job_effect_def)
  have keep: "level_rows l (tx_db tx2) (k, p) = level_rows l (tx_db tx) (k, p)"
    if "\<forall>j \<in> js \<union> is. bj_level j = l \<and> bj_key j = p \<longrightarrow> sk j" for l p k
    using u1 [of l p k] u2 [of l p k] that by simp
  have gone: "m_offsets m2 x = None \<and> (\<exists>j \<in> js \<union> is. \<not> sk j \<and>
      (\<exists>k \<in> dom (map_of (job_vals g agg (tx_db tx) j)). x = offset_key (bj_level j) (bj_key j) k))"
    if "m_offsets m2 x \<noteq> m_offsets m x" for x
  proof (cases "m_offsets m2 x = m_offsets m1 x")
    case True
    then show ?thesis using o1 [of x] that by auto
  next
    case False
    then show ?thesis using o2 [of x] by auto
  qed
  show ?thesis unfolding job_effect_def prod.case
    using back_frame_trans [OF fr] base rows offs keep gone by blast
qed

lemma job_effect_offsets:
  "job_effect g agg sk js (m, tx) (m', tx') \<Longrightarrow> m_offsets m' x = m_offsets m x \<or> m_offsets m' x = None"
  by (cases "m_offsets m' x = m_offsets m x") (simp_all add: job_effect_def)

lemma period_jobs_effect:
  assumes "each (period_job g agg ts r) js (rep, m, tx) = Inr (rep', m', tx')" "consistent (set js)"
  shows "job_effect g agg (incomplete r) (set js) (m, tx) (m', tx')"
  using assms
proof (induction js arbitrary: rep m tx)
  case Nil
  then show ?case by (simp add: job_effect_def back_frame_refl)
next
  case (Cons j js)
  obtain s1 where s1: "period_job g agg ts r j (rep, m, tx) = Inr s1" "each (period_job g agg ts r) js s1 = Inr (rep', m', tx')"
    using Cons.prems by (auto split: sum.splits)
  obtain rep1 m1 tx1 where "s1 = (rep1, m1, tx1)" by (cases s1)
  note 1 = s1 [unfolded this]
  have c: "consistent (set js)" "consistent ({j} \<union> set js)" using Cons.prems(2) by (auto simp: consistent_def)
  from job_effect_trans [OF period_job_effect [OF 1(1)] Cons.IH [OF 1(2) c(1)] c(2)] show ?case by simp
qed

section \<open>The months and years of a job\<close>

definition month_span :: "int \<Rightarrow> int \<Rightarrow> span" where
  "month_span n i = \<lparr>bj_level = Monthly, bj_key = month_key i, bj_from = day_key (month_first i),
     bj_to = day_key (min (month_first (i + 1) - 1) n)\<rparr>"

definition year_span :: "int \<Rightarrow> int \<Rightarrow> span" where
  "year_span n y = \<lparr>bj_level = Yearly, bj_key = fmt_year y, bj_from = day_key (year_start y),
     bj_to = day_key (min (year_start (y + 1) - 1) n)\<rparr>"

definition year_spans :: "int \<Rightarrow> int \<Rightarrow> span list" where
  "year_spans n y = map (month_span n) [12 * y..min (12 * y + 11) (month_index_of n)] @ [year_span n y]"

definition job_spans :: "int \<Rightarrow> int \<Rightarrow> span list" where
  "job_spans n years = concat (map (year_spans n) [year_of n - years..year_of n])"

lemma each_append: "each f (xs @ ys) s = (case each f xs s of Inl e \<Rightarrow> Inl e | Inr s \<Rightarrow> each f ys s)"
  by (induction xs arbitrary: s) (auto split: sum.splits)

lemma each_map: "each f (map h xs) s = each (f \<circ> h) xs s"
  by (induction xs arbitrary: s) (auto split: sum.splits)

lemma each_cong: "(\<And>x s. x \<in> set xs \<Longrightarrow> f x s = h x s) \<Longrightarrow> each f xs s = each h xs s"
  by (induction xs arbitrary: s) (auto split: sum.splits)

lemma each_concat: "each f (concat xss) s = each (each f) xss s"
  by (induction xss arbitrary: s) (simp_all add: each_append split: sum.split)

lemma month_key_of: "0 \<le> y \<Longrightarrow> y \<le> 9999 \<Longrightarrow> month_key (12 * y) = fmt_year y @ ''-01''"
  "0 \<le> y \<Longrightarrow> y \<le> 9999 \<Longrightarrow> month_key (12 * y + 11) = fmt_year y @ ''-12''"
proof -
  assume y: "0 \<le> y" "y \<le> 9999"
  then have ok: "year_ok y" by (simp add: year_ok_def)
  have p: "padded 2 (Suc 0) = ''01''" "padded 2 12 = ''12''" by code_simp+
  have d: "(12 * y + 11) div 12 = y" "(12 * y + 11) mod 12 = 11" by simp_all
  show "month_key (12 * y) = fmt_year y @ ''-01''" using fmt_month_padded [OF ok, of 1]
    by (simp add: month_key_def fmt_year_padded [OF ok] p)
  show "month_key (12 * y + 11) = fmt_year y @ ''-12''" unfolding month_key_def d using fmt_month_padded [OF ok, of 12]
    by (simp add: fmt_year_padded [OF ok] p)
qed

lemma min_keys: "day_ok a \<Longrightarrow> day_ok b \<Longrightarrow> min (day_key a) (day_key b) = day_key (min a b)"
  by (simp add: min_def day_key_le_iff)

lemma months_of_keys:
  assumes "p_month p = month_key i" "12 * y \<le> i" "1 \<le> y" "y \<le> 9998" "i + 1 < 120000"
  shows "months_of (fmt_year y) p = Inr (map month_key [12 * y..min (12 * y + 11) i])"
proof -
  have prev: "add_months (month_key (12 * y)) (-1) = Inr (month_key (12 * y - 1))"
    using assms by (simp add: key_simps)
  have "(if month_key i < fmt_year y @ ''-12'' then month_key i else fmt_year y @ ''-12'')
      = month_key (min (12 * y + 11) i)"
    using assms month_key_less_iff [of i "12 * y + 11"] month_key_of(2) [of y] by (auto simp: min_def)
  moreover have "months_between (month_key (12 * y - 1)) (month_key (min (12 * y + 11) i)) =
      Inr (map month_key [12 * y - 1 + 1..min (12 * y + 11) i])"
    by (rule months_between_keys_aux) (use assms in auto)
  ultimately show ?thesis using prev assms(3,4) month_key_of(1) [of y] assms(1)
    by (simp add: months_of_def split del: if_split cong: if_cong)
qed

lemma year_jobs:
  assumes "rc_now r = period_of z t" "day_index z t = n" "day_ok n" "year_of n < 9999" "1 \<le> y" "y \<le> year_of n"
  shows "year_job g agg ts r (fmt_year y) s = each (period_job g agg ts r) (year_spans n y) s"
proof -
  have i: "12 * y \<le> month_index_of n" "month_index_of n + 1 < 120000" "0 \<le> month_index_of n"
    using month_index_bounds [OF assms(3)] assms(4-6) by linarith+
  have p: "p_month (rc_now r) = month_key (month_index_of n)" "p_day (rc_now r) = day_key n"
    using period_of_keys [of z t] assms(1,2) by simp_all
  have mo: "month_job g agg ts r (month_key i) s = period_job g agg ts r (month_span n i) s"
    if "0 \<le> i" "i + 1 < 120000" for i s
    using month_bounds_key [of i] min_keys [OF day_ok_month_last [OF that] assms(3)] that p(2)
    by (simp add: month_job_def month_span_def)
  have yr: "year_bounds (fmt_year y) = Inr (day_key (year_start y), day_key (year_start (y + 1) - 1))"
    by (rule year_bounds_key) (use assms in \<open>simp add: year_ok_def\<close>)
  have last: "min (day_key (year_start (y + 1) - 1)) (day_key n) = day_key (min (year_start (y + 1) - 1) n)"
    by (rule min_keys [OF day_ok_year_last assms(3)]) (use assms in auto)
  have "each (month_job g agg ts r) (map month_key [12 * y..min (12 * y + 11) (month_index_of n)]) s
      = each (period_job g agg ts r) (map (month_span n) [12 * y..min (12 * y + 11) (month_index_of n)]) s"
    unfolding each_map by (rule each_cong) (use i assms(5) mo in auto)
  then show ?thesis
    using months_of_keys [OF p(1) i(1) assms(5) _ i(2)] assms(4-6) yr last p(2)
    by (simp add: year_job_def year_spans_def each_append year_span_def split: sum.split)
qed

lemma run_years_jobs:
  assumes "rc_now r = period_of z t" "day_index z t = n" "day_ok n" "year_of n < 9999" "years < year_of n" "0 \<le> years"
  shows "each (back_year g agg ts r) (rev [0..years]) s = each (period_job g agg ts r) (job_spans n years) s"
proof -
  have y: "p_year (rc_now r) = fmt_year (year_of n)"
    using period_of_keys [of z t] assms(1,2) by (simp add: civil_def year_of_def)
  have one: "back_year g agg ts r b s = each (period_job g agg ts r) (year_spans n (year_of n - b)) s"
    if "0 \<le> b \<and> b \<le> years" for b s
    using year_jobs [OF assms(1-4), of "year_of n - b"] that assms(4,5) y add_years_key [of "year_of n" "- b"]
    by (simp add: back_year_def year_ok_def)
  have "map (\<lambda>b. year_of n - b) (rev [0..years]) = [year_of n - years..year_of n]"
    using assms(6)
  proof (induction "nat years" arbitrary: years)
    case 0
    then have "years = 0" by simp
    then show ?case by simp
  next
    case (Suc k)
    then have "0 \<le> years - 1" "k = nat (years - 1)" by simp_all
    from Suc.hyps(1) [OF this(2,1)] Suc.prems show ?case
      using upto_rec1 [of "year_of n - years" "year_of n"] upto_rec2 [of 0 years] Suc.hyps(2)
      by (simp add: algebra_simps)
  qed
  note ys = this
  have "job_spans n years = concat (map (year_spans n) (map (\<lambda>b. year_of n - b) (rev [0..years])))"
    unfolding job_spans_def ys ..
  then have "each (period_job g agg ts r) (job_spans n years) s =
      each (each (period_job g agg ts r) \<circ> year_spans n \<circ> (\<lambda>b. year_of n - b)) (rev [0..years]) s"
    by (simp only: each_concat each_map)
  also have "\<dots> = each (back_year g agg ts r) (rev [0..years]) s"
    by (rule each_cong) (simp add: one)
  finally show ?thesis ..
qed

section \<open>The values of a period\<close>

lemma map_update_distinct: "distinct (map fst al) \<Longrightarrow> distinct (map fst (AList.update k v al))"
  by (rule distinct_update)

lemma apply_edges_map:
  assumes "distinct (map e_target es)"
  shows "distinct (map fst (apply_edges es sm)) \<and> dom (map_of (apply_edges es sm)) = e_target ` set es \<and>
    (\<forall>e \<in> set es. map_of (apply_edges es sm) (e_target e) = Some (getv sm (e_source e)))"
  using assms
proof (induction es rule: rev_induct)
  case Nil
  then show ?case by (simp add: apply_edges_def)
next
  case (snoc e es)
  have "apply_edges (es @ [e]) sm = AList.update (e_target e) (getv sm (e_source e)) (apply_edges es sm)"
    by (simp add: apply_edges_def)
  moreover have "e_target x \<noteq> e_target e" if "x \<in> set es" for x using snoc.prems that by (auto simp: image_iff)
  ultimately show ?case using snoc by (auto simp: update_conv' distinct_update)
qed

lemma apply_net_map:
  assumes "distinct (map n_target ps)"
  shows "distinct (map fst (apply_net ps vs)) \<and> dom (map_of (apply_net ps vs)) \<subseteq> n_target ` set ps \<and>
    (\<forall>p \<in> set ps. \<forall>a b. map_of vs (n_export p) = Some a \<and> map_of vs (n_import p) = Some b \<longrightarrow>
      map_of (apply_net ps vs) (n_target p) = Some (fsub a b))"
  using assms
proof (induction ps rule: rev_induct)
  case Nil
  then show ?case by (simp add: apply_net_def)
next
  case (snoc p ps)
  have "apply_net (ps @ [p]) vs = (case (map_of vs (n_export p), map_of vs (n_import p)) of
     (Some e, Some i) \<Rightarrow> AList.update (n_target p) (fsub e i) (apply_net ps vs) | _ \<Rightarrow> apply_net ps vs)"
    unfolding apply_net_def foldl_append foldl.simps ..
  note step = this
  have D: "distinct (map fst (apply_net ps vs))" and S: "dom (map_of (apply_net ps vs)) \<subseteq> n_target ` set ps"
    and V: "q \<in> set ps \<Longrightarrow> map_of vs (n_export q) = Some a \<Longrightarrow> map_of vs (n_import q) = Some b \<Longrightarrow>
      map_of (apply_net ps vs) (n_target q) = Some (fsub a b)" for q a b
    using snoc by auto
  have neq: "n_target x \<noteq> n_target p" if "x \<in> set ps" for x using snoc.prems that by (auto simp: image_iff)
  show ?case
  proof (cases "\<exists>e i. map_of vs (n_export p) = Some e \<and> map_of vs (n_import p) = Some i")
    case True
    then obtain e i where ei: "map_of vs (n_export p) = Some e" "map_of vs (n_import p) = Some i" by blast
    then have u: "apply_net (ps @ [p]) vs = AList.update (n_target p) (fsub e i) (apply_net ps vs)" using step by simp
    have "dom (map_of (apply_net (ps @ [p]) vs)) \<subseteq> n_target ` set (ps @ [p])" unfolding u update_conv' using S by auto
    moreover have "map_of (apply_net (ps @ [p]) vs) (n_target q) = Some (fsub a b)"
      if "q \<in> set (ps @ [p])" "map_of vs (n_export q) = Some a" "map_of vs (n_import q) = Some b" for q a b
      unfolding u update_conv' using that neq [of q] V [of q a b] ei by auto
    ultimately show ?thesis using D unfolding u by (auto intro: distinct_update)
  next
    case False
    then have u: "apply_net (ps @ [p]) vs = apply_net ps vs" using step by (auto split: option.splits)
    have "dom (map_of (apply_net (ps @ [p]) vs)) \<subseteq> n_target ` set (ps @ [p])" unfolding u using S by auto
    moreover have "map_of (apply_net (ps @ [p]) vs) (n_target q) = Some (fsub a b)"
      if "q \<in> set (ps @ [p])" "map_of vs (n_export q) = Some a" "map_of vs (n_import q) = Some b" for q a b
      unfolding u using that V [of q a b] False by auto
    ultimately show ?thesis using D unfolding u by blast
  qed
qed

lemma merge_two:
  assumes "distinct (map fst b)" "distinct (map fst a)"
  shows "map_of (merge_values [a, b]) k = (case map_of b k of None \<Rightarrow> map_of a k | Some v \<Rightarrow> Some v)"
proof -
  have f: "map_of (foldl (\<lambda>out (k, v). AList.update k v out) out m) k =
      (case map_of m k of None \<Rightarrow> map_of out k | Some v \<Rightarrow> Some v)" if "distinct (map fst m)" for out m
    using that
  proof (induction m arbitrary: out)
    case (Cons x m)
    then have "map_of m (fst x) = None" by (simp add: map_of_eq_None_iff)
    with Cons show ?case by (auto simp: update_conv' split: option.split prod.split)
  qed simp
  show ?thesis using f [OF assms(1)] f [OF assms(2)] by (simp add: merge_values_def split: option.split)
qed

text \<open>The months and years of the program's registers: a source's sum at each edge's target, the
  difference at each net pair's.\<close>

lemma solis_nets:
  assumes "l = Monthly \<or> l = Yearly"
  shows "distinct (map n_target (registry_nets solis_registry l))"
    "p \<in> set (registry_nets solis_registry l) \<Longrightarrow>
      n_export p \<in> e_target ` set (registry_edges solis_registry l) \<and>
      n_import p \<in> e_target ` set (registry_edges solis_registry l)"
proof -
  have g: "registry_nets solis_registry l = filter (\<lambda>n. n_level n = l) (map net_pair_of [Daily, Monthly, Yearly, Total])"
    "registry_edges solis_registry l = filter (\<lambda>e. e_level e = l)
      (concat (map (\<lambda>k. map (energy_edge k) computed_levels) energy_kinds))"
    by (simp_all add: registry_nets_def registry_edges_def solis_registry_def nets_at_def edges_at_def
        net_registers_def energy_registers_def Let_def)
  show "distinct (map n_target (registry_nets solis_registry l))"
    unfolding g using assms by (auto simp: net_pair_of_def Let_def)
  show "n_export p \<in> e_target ` set (registry_edges solis_registry l) \<and>
      n_import p \<in> e_target ` set (registry_edges solis_registry l)" if "p \<in> set (registry_nets solis_registry l)"
  proof -
    have p: "p = net_pair_of l" using assms that unfolding g by (auto simp: net_pair_of_def Let_def)
    let ?x = "kind ''grid_export'' ''Grid Export'' 33175 '' (Computed)''"
      and ?i = "kind ''grid_import'' ''Grid Import'' 33171 '' (Computed)''"
    have edge: "energy_edge k l \<in> set (registry_edges solis_registry l)" if "k \<in> set energy_kinds" for k
      unfolding g using assms that by (auto simp: computed_levels_def energy_edge_def)
    have "?x \<in> set energy_kinds" "?i \<in> set energy_kinds" by (simp_all add: energy_kinds_def Let_def)
    moreover have "n_export p = e_target (energy_edge ?x l)" "n_import p = e_target (energy_edge ?i l)"
      by (simp_all add: p net_pair_of_def energy_edge_def kind_def Let_def)
    ultimately show ?thesis using edge by blast
  qed
qed

text \<open>The lookups of a period's values, for any registry whose level is well formed.\<close>

lemma level_vals:
  fixes es :: "edge list" and ps :: "net_pair list" and sm :: vals
  assumes e: "distinct (map e_target es)" and p: "distinct (map n_target ps)"
    and fresh: "n_target ` set ps \<inter> e_target ` set es = {}"
  defines "vs \<equiv> merge_values [apply_edges es sm, apply_net ps (apply_edges es sm)]"
  shows "x \<in> set es \<Longrightarrow> map_of vs (e_target x) = Some (getv sm (e_source x))"
    "q \<in> set ps \<Longrightarrow> n_export q \<in> e_target ` set es \<Longrightarrow> n_import q \<in> e_target ` set es \<Longrightarrow>
      \<exists>a b. map_of vs (n_export q) = Some a \<and> map_of vs (n_import q) = Some b \<and> map_of vs (n_target q) = Some (fsub a b)"
    "dom (map_of vs) \<subseteq> e_target ` set es \<union> n_target ` set ps"
proof -
  let ?ev = "apply_edges es sm" and ?nv = "apply_net ps (apply_edges es sm)"
  note ev = apply_edges_map [OF e, of sm] and nv = apply_net_map [OF p, of ?ev]
  have m: "map_of vs k = (case map_of ?nv k of None \<Rightarrow> map_of ?ev k | Some v \<Rightarrow> Some v)" for k
    unfolding vs_def by (rule merge_two [OF conjunct1 [OF nv] conjunct1 [OF ev]])
  have edge: "map_of vs (e_target x) = Some (getv sm (e_source x))" if x: "x \<in> set es" for x
  proof -
    have "map_of ?nv (e_target x) = None" using nv fresh x by blast
    then show ?thesis unfolding m using ev x by simp
  qed
  then show "x \<in> set es \<Longrightarrow> map_of vs (e_target x) = Some (getv sm (e_source x))" .
  show "\<exists>a b. map_of vs (n_export q) = Some a \<and> map_of vs (n_import q) = Some b \<and> map_of vs (n_target q) = Some (fsub a b)"
    if q: "q \<in> set ps" "n_export q \<in> e_target ` set es" "n_import q \<in> e_target ` set es"
  proof -
    obtain x y where x: "x \<in> set es" "n_export q = e_target x" and y: "y \<in> set es" "n_import q = e_target y"
      using q by blast
    have "map_of ?ev (n_export q) = Some (getv sm (e_source x))" "map_of ?ev (n_import q) = Some (getv sm (e_source y))"
      using ev x y by simp_all
    with nv q(1) have "map_of ?nv (n_target q) = Some (fsub (getv sm (e_source x)) (getv sm (e_source y)))" by blast
    then have "map_of vs (n_target q) = Some (fsub (getv sm (e_source x)) (getv sm (e_source y)))" unfolding m by simp
    with edge [OF x(1)] edge [OF y(1)] x(2) y(2) show ?thesis by simp
  qed
  show "dom (map_of vs) \<subseteq> e_target ` set es \<union> n_target ` set ps"
  proof
    fix k assume "k \<in> dom (map_of vs)"
    then have "k \<in> dom (map_of ?nv) \<or> k \<in> dom (map_of ?ev)" unfolding domIff m by (auto split: option.splits)
    then show "k \<in> e_target ` set es \<union> n_target ` set ps" using ev nv by blast
  qed
qed

lemma solis_job_vals:
  assumes "bj_level j = Monthly \<or> bj_level j = Yearly"
  shows "e \<in> set (registry_edges solis_registry (bj_level j)) \<Longrightarrow>
      map_of (job_vals solis_registry agg d j) (e_target e) = Some (sum_rows agg d (e_source e) (bj_from j) (bj_to j))"
    "p \<in> set (registry_nets solis_registry (bj_level j)) \<Longrightarrow>
      \<exists>a b. map_of (job_vals solis_registry agg d j) (n_export p) = Some a \<and>
        map_of (job_vals solis_registry agg d j) (n_import p) = Some b \<and>
        map_of (job_vals solis_registry agg d j) (n_target p) = Some (fsub a b)"
proof -
  let ?es = "registry_edges solis_registry (bj_level j)" and ?ps = "registry_nets solis_registry (bj_level j)"
  let ?sm = "sums_of agg d (source_keys ?es) (bj_from j) (bj_to j)"
  have fresh: "n_target ` set ?ps \<inter> e_target ` set ?es = {}"
    using solis_table.net_fresh by (auto simp: registry_nets_def nets_at_def registry_edges_def edges_at_def)
  note vals = level_vals [OF solis_table.targets_distinct_at solis_nets(1) [OF assms] fresh, where sm = ?sm]
  have j: "job_vals solis_registry agg d j = merge_values [apply_edges ?es ?sm, apply_net ?ps (apply_edges ?es ?sm)]"
    unfolding job_vals_def Let_def ..
  show "map_of (job_vals solis_registry agg d j) (e_target e) = Some (sum_rows agg d (e_source e) (bj_from j) (bj_to j))"
    if e: "e \<in> set ?es"
  proof -
    have "e_source e \<in> set (source_keys ?es)" using e by (simp add: source_keys_def)
    then have "getv ?sm (e_source e) = sum_rows agg d (e_source e) (bj_from j) (bj_to j)" by (simp add: getv_def sums_of_map)
    then show ?thesis unfolding j using vals(1) [OF e] by simp
  qed
  show "\<exists>a b. map_of (job_vals solis_registry agg d j) (n_export p) = Some a \<and>
        map_of (job_vals solis_registry agg d j) (n_import p) = Some b \<and>
        map_of (job_vals solis_registry agg d j) (n_target p) = Some (fsub a b)" if p: "p \<in> set ?ps"
    unfolding j using vals(2) [OF p] solis_nets(2) [OF assms p] by blast
qed

section \<open>A whole job\<close>

definition skipped_span :: "options \<Rightarrow> db \<Rightarrow> span \<Rightarrow> bool" where
  "skipped_span opts d j \<longleftrightarrow> \<not> op_force opts \<and> (min_day d = [] \<or> bj_from j < min_day d)"

lemma job_spans_set: "j \<in> set (job_spans n years) \<longleftrightarrow> (\<exists>y. year_of n - years \<le> y \<and> y \<le> year_of n \<and>
    (j = year_span n y \<or> (\<exists>i. 12 * y \<le> i \<and> i \<le> 12 * y + 11 \<and> i \<le> month_index_of n \<and> j = month_span n i)))"
proof -
  have "j \<in> set (year_spans n y) \<longleftrightarrow> j = year_span n y \<or>
      (\<exists>i. 12 * y \<le> i \<and> i \<le> 12 * y + 11 \<and> i \<le> month_index_of n \<and> j = month_span n i)" for y
    by (auto simp: year_spans_def)
  then show ?thesis by (auto simp: job_spans_def)
qed

lemma job_spans_consistent:
  assumes "day_ok n" "year_of n < 9999" "years < year_of n"
  shows "consistent (set (job_spans n years))"
  unfolding consistent_def
proof (intro ballI impI)
  fix a b assume a: "a \<in> set (job_spans n years)" and b: "b \<in> set (job_spans n years)"
    and same: "bj_level a = bj_level b \<and> bj_key a = bj_key b"
  have mi: "month_index_of n < 120000" using month_index_bounds [OF assms(1)] assms(2) by linarith
  have months: "i = j" if "0 \<le> i" "i < 120000" "0 \<le> j" "j < 120000" "month_key i = month_key j" for i j
    using month_key_less_iff [OF that(1-4)] month_key_less_iff [OF that(3,4,1,2)] that(5) by fastforce
  have years: "y = z" if "year_ok y" "year_ok z" "fmt_year y = fmt_year z" for y z
    using fmt_year_less_iff [OF that(1,2)] fmt_year_less_iff [OF that(2,1)] that(3) by fastforce
  from a b show "a = b" unfolding job_spans_set
  proof (elim exE conjE disjE)
    fix y y' assume "a = year_span n y" "b = year_span n y'" "year_of n - years \<le> y" "y \<le> year_of n"
      "year_of n - years \<le> y'" "y' \<le> year_of n"
    then show "a = b" using same assms(2,3) years [of y y'] by (simp add: year_span_def year_ok_def)
  next
    fix y y' i assume "a = year_span n y" "b = month_span n i"
    then show "a = b" using same by (simp add: year_span_def month_span_def)
  next
    fix y y' i assume "a = month_span n i" "b = year_span n y'"
    then show "a = b" using same by (simp add: year_span_def month_span_def)
  next
    fix y y' i i' assume "a = month_span n i" "b = month_span n i'" "year_of n - years \<le> y" "12 * y \<le> i"
      "i \<le> month_index_of n" "year_of n - years \<le> y'" "12 * y' \<le> i'" "i' \<le> month_index_of n"
    then show "a = b" using same assms(3) mi months [of i i'] by (simp add: month_span_def)
  qed
qed

lemma set_bases:
  assumes "each set_base vs (m, tx) = Inr (m', tx')" "distinct (map fst vs)"
  shows "back_frame (m, tx) (m', tx') \<and> m_offsets m' = m_offsets m \<and>
    (\<forall>l x. level_rows l (tx_db tx') x = level_rows l (tx_db tx) x) \<and> m_base m' = m_base m ++ map_of vs"
  using assms
proof (induction vs arbitrary: m tx)
  case Nil
  then show ?case by (simp add: back_frame_refl)
next
  case (Cons kv vs)
  obtain k v where kv: "kv = (k, v)" by fastforce
  obtain s1 where "set_base (k, v) (m, tx) = Inr s1" "each set_base vs s1 = Inr (m', tx')"
    using Cons.prems(1) kv by (auto split: sum.splits)
  then obtain m1 tx1 where 1: "set_base (k, v) (m, tx) = Inr (m1, tx1)" "each set_base vs (m1, tx1) = Inr (m', tx')"
    by (cases s1) auto
  have b: "m1 = m\<lparr>m_base := (m_base m)(k \<mapsto> v)\<rparr>"
    "tx_db tx1 = (tx_db tx)\<lparr>d_meta := AList.update (meta_baseline @ k) (MFloat v) (d_meta (tx_db tx))\<rparr>"
    using 1(1) by (auto simp: set_base_def dest: put_meta_Inr split: sum.splits)
  have "coherent (tx_db tx) m \<Longrightarrow> coherent (tx_db tx1) m1"
    using coherent_puts(8) [of "tx_db tx" m k v] coherent_view [of "tx_db tx" m] b by simp
  then have fr: "back_frame (m, tx) (m1, tx1)" by (simp add: back_frame_def b)
  have rows: "level_rows l (tx_db tx1) x = level_rows l (tx_db tx) x" for l x
    by (cases x; cases l) (simp_all add: b)
  have "map_of vs k = None" using Cons.prems(2) kv by (simp add: map_of_eq_None_iff)
  then have "(m_base m)(k \<mapsto> v) ++ map_of vs = m_base m ++ map_of ((k, v) # vs)"
    by (auto simp: map_add_def fun_eq_iff split: option.split)
  note base = this
  have "distinct (map fst vs)" using Cons.prems(2) by simp
  note ih = Cons.IH [OF 1(2) this]
  have m1: "m_offsets m1 = m_offsets m" "m_base m1 = (m_base m)(k \<mapsto> v)" by (simp_all add: b)
  have "back_frame (m, tx) (m', tx')" using back_frame_trans [OF fr] ih by blast
  then show ?case using ih unfolding m1 rows base kv by blast
qed

definition base_vals_of :: "registry \<Rightarrow> (float64 list \<Rightarrow> float64) \<Rightarrow> db \<Rightarrow> string \<Rightarrow> string \<Rightarrow> vals" where
  "base_vals_of g agg d lo year = (let es = registry_edges g Total in
     apply_edges es (sums_of agg d (source_keys es) lo (year @ ''-12-31'')))"

lemma refresh_baseline_Inr:
  assumes "refresh_baseline g agg r (rep, m, tx) = Inr (rep', m', tx')" "distinct (map e_target (registry_edges g Total))"
  shows "back_frame (m, tx) (m', tx') \<and> m_offsets m' = m_offsets m \<and>
    (\<forall>l x. level_rows l (tx_db tx') x = level_rows l (tx_db tx) x) \<and>
    m_base m' = (case baseline_from m (m_base_year m) (rc_force r) of None \<Rightarrow> m_base m
      | Some lo \<Rightarrow> m_base m ++ map_of (base_vals_of g agg (tx_db tx) lo (m_base_year m)))"
proof (cases "baseline_from m (m_base_year m) (rc_force r)")
  case None
  then show ?thesis using assms by (simp add: refresh_baseline_def back_frame_refl)
next
  case (Some lo)
  let ?es = "registry_edges g Total"
  obtain sm tx1 where 1: "job_sums agg (source_keys ?es) lo (m_base_year m @ ''-12-31'') [] tx = Inr (sm, tx1)"
    "put_baseline (apply_edges ?es sm) (m, tx1) = Inr (m', tx')"
    using assms(1) Some by (auto simp: refresh_baseline_def Let_def split: sum.splits)
  from job_sums_Inr [OF 1(1)] have t1: "tx_db tx1 = tx_db tx"
    and sm: "sm = sums_of agg (tx_db tx) (source_keys ?es) lo (m_base_year m @ ''-12-31'')"
    by (simp_all add: sums_of_def)
  have vs: "apply_edges ?es sm = base_vals_of g agg (tx_db tx) lo (m_base_year m)"
    by (simp add: base_vals_of_def sm Let_def)
  have "distinct (map fst (apply_edges ?es sm))" using apply_edges_map [OF assms(2)] by blast
  from set_bases [OF 1(2) [unfolded put_baseline_def] this]
  show ?thesis using back_frame_trans [OF back_frame_refl [OF t1]] t1 by (simp add: Some vs)
qed

text \<open>The effect of a successful job: its periods, then the baseline.\<close>

lemma backfill_effect:
  assumes "backfill (recompute solis_registry agg ts (period_of z t) opts) faults s = (Inr out, s')"
    "day_index z t = n" "day_ok n" "year_of n < 9999" "0 \<le> op_years opts" "op_years opts < year_of n"
  obtains m1 tx tx1 tx' where "tx_db tx = s_db s" "tx_db tx' = s_db s'"
    "check_purged (s_meta s) (period_of z t) opts = None"
    "job_effect solis_registry agg (skipped_span opts (s_db s)) (set (job_spans n (op_years opts))) (s_meta s, tx) (m1, tx1)"
    "back_frame (m1, tx1) (s_meta s', tx')" "m_offsets (s_meta s') = m_offsets m1"
    "\<And>l x. level_rows l (s_db s') x = level_rows l (tx_db tx1) x"
    "m_base (s_meta s') = (case if 0 < op_years opts then baseline_from (s_meta s) (m_base_year (s_meta s)) (op_force opts) else None of
      None \<Rightarrow> m_base (s_meta s)
      | Some lo \<Rightarrow> m_base (s_meta s) ++ map_of (base_vals_of solis_registry agg (s_db s) lo (m_base_year (s_meta s))))"
proof -
  obtain tx0 st tx9 where 0: "exec True (\<lambda>d. d) \<lparr>tx_db = s_db s, tx_faults = faults\<rparr> = Inr tx0"
    "recompute solis_registry agg ts (period_of z t) opts (s_meta s, tx0) = Inr (out, s_meta s', st)"
    "exec True (\<lambda>d. d) st = Inr tx9" "s_db s' = tx_db tx9"
    using assms(1) by (auto simp: backfill_def split: sum.splits prod.splits)
  have db: "tx_db tx0 = s_db s" "s_db s' = tx_db st" using exec_Inr [OF 0(1)] exec_Inr [OF 0(3)] 0(4) by simp_all
  obtain first tx where 1: "check_purged (s_meta s) (period_of z t) opts = None" "first_daily_day tx0 = Inr (first, tx)"
    "run_years solis_registry agg ts \<lparr>rc_now = period_of z t, rc_first = first, rc_force = op_force opts\<rparr> (op_years opts)
      (empty_report, s_meta s, tx) = Inr (out, s_meta s', st)"
    using 0(2) by (auto simp: recompute_def split: option.splits sum.splits)
  let ?r = "\<lparr>rc_now = period_of z t, rc_first = first, rc_force = op_force opts\<rparr>"
  have tx: "tx_db tx = s_db s" "first = min_day (s_db s)"
    using 1(2) db by (auto simp: first_daily_day_def dest: query_Inr)
  have sk: "incomplete ?r = skipped_span opts (s_db s)" by (rule ext) (simp add: incomplete_def skipped_span_def tx)
  have runs: "each (back_year solis_registry agg ts ?r) (rev [0..op_years opts]) x
      = each (period_job solis_registry agg ts ?r) (job_spans n (op_years opts)) x" for x
    by (rule run_years_jobs [OF _ assms(2,3,4,6,5)]) simp
  obtain x where x: "each (period_job solis_registry agg ts ?r) (job_spans n (op_years opts)) (empty_report, s_meta s, tx) = Inr x"
    "(if 0 < op_years opts then refresh_baseline solis_registry agg ?r x else Inr x) = Inr (out, s_meta s', st)"
    using 1(3) unfolding run_years_def runs by (auto split: sum.splits)
  obtain rep1 m1 tx1 where x1: "x = (rep1, m1, tx1)" by (cases x)
  have eff: "job_effect solis_registry agg (skipped_span opts (s_db s)) (set (job_spans n (op_years opts))) (s_meta s, tx) (m1, tx1)"
    using period_jobs_effect [OF x(1) [unfolded x1] job_spans_consistent [OF assms(3,4,6)]] unfolding sk .
  then have fr: "back_frame (s_meta s, tx) (m1, tx1)" "m_base m1 = m_base (s_meta s)" by (simp_all add: job_effect_def)
  then have same: "m_base_year m1 = m_base_year (s_meta s)" "m_cutover m1 = m_cutover (s_meta s)"
    "d_daily (tx_db tx1) = d_daily (s_db s)" by (simp_all add: back_frame_def tx)
  then have vals: "base_vals_of solis_registry agg (tx_db tx1) = base_vals_of solis_registry agg (s_db s)"
    by (simp add: base_vals_of_def sums_of_def sum_rows_def fun_eq_iff)
  have last: "back_frame (m1, tx1) (s_meta s', st) \<and> m_offsets (s_meta s') = m_offsets m1 \<and>
      (\<forall>l y. level_rows l (tx_db st) y = level_rows l (tx_db tx1) y) \<and>
      m_base (s_meta s') = (case if 0 < op_years opts then baseline_from (s_meta s) (m_base_year (s_meta s)) (op_force opts) else None of
        None \<Rightarrow> m_base (s_meta s)
        | Some lo \<Rightarrow> m_base (s_meta s) ++ map_of (base_vals_of solis_registry agg (s_db s) lo (m_base_year (s_meta s))))"
  proof (cases "0 < op_years opts")
    case True
    then have r: "refresh_baseline solis_registry agg ?r (rep1, m1, tx1) = Inr (out, s_meta s', st)" using x(2) x1 by simp
    have "baseline_from m1 (m_base_year m1) (op_force opts) = baseline_from (s_meta s) (m_base_year (s_meta s)) (op_force opts)"
      by (simp add: baseline_from_def same)
    with refresh_baseline_Inr [OF r solis_table.targets_distinct_at] True show ?thesis
      unfolding vals same fr(2) recomputer.simps by simp
  next
    case False
    then show ?thesis using x(2) x1 fr(2) by (simp add: back_frame_refl)
  qed
  show thesis by (rule that [OF tx(1) db(2) [symmetric] 1(1) eff]) (use last db(2) in auto)
qed

lemma job_span_level: "j \<in> set (job_spans n years) \<Longrightarrow> bj_level j = Monthly \<or> bj_level j = Yearly"
  by (auto simp: job_spans_set month_span_def year_span_def)

lemma backfill_values:
  assumes "backfill (recompute solis_registry agg ts (period_of z t) opts) faults s = (Inr out, s')"
    "day_index z t = n" "day_ok n" "year_of n < 9999" "0 \<le> op_years opts" "op_years opts < year_of n"
  shows "(\<forall>j \<in> set (job_spans n (op_years opts)). \<not> skipped_span opts (s_db s) j \<longrightarrow>
      (\<forall>e \<in> set (registry_edges solis_registry (bj_level j)).
        m_offsets (s_meta s') (offset_key (bj_level j) (bj_key j) (e_target e)) = None \<and>
        (\<exists>raw. level_rows (bj_level j) (s_db s') (e_target e, bj_key j) =
          Some (sum_rows agg (s_db s) (e_source e) (bj_from j) (bj_to j), raw))) \<and>
      (\<forall>p \<in> set (registry_nets solis_registry (bj_level j)). \<exists>a b ra rb raw.
        level_rows (bj_level j) (s_db s') (n_export p, bj_key j) = Some (a, ra) \<and>
        level_rows (bj_level j) (s_db s') (n_import p, bj_key j) = Some (b, rb) \<and>
        level_rows (bj_level j) (s_db s') (n_target p, bj_key j) = Some (fsub a b, raw))) \<and>
    (\<forall>lo. 0 < op_years opts \<and> baseline_from (s_meta s) (m_base_year (s_meta s)) (op_force opts) = Some lo \<longrightarrow>
      (\<forall>e \<in> set (registry_edges solis_registry Total). m_base (s_meta s') (e_target e) =
        Some (sum_rows agg (s_db s) (e_source e) lo (m_base_year (s_meta s) @ ''-12-31''))))"
proof -
  from backfill_effect [OF assms] obtain m1 tx tx1 tx' where tx: "tx_db tx = s_db s" and
    eff: "job_effect solis_registry agg (skipped_span opts (s_db s)) (set (job_spans n (op_years opts))) (s_meta s, tx) (m1, tx1)" and
    offs: "m_offsets (s_meta s') = m_offsets m1" and rows: "\<And>l x. level_rows l (s_db s') x = level_rows l (tx_db tx1) x" and
    base: "m_base (s_meta s') = (case if 0 < op_years opts then baseline_from (s_meta s) (m_base_year (s_meta s)) (op_force opts) else None of
      None \<Rightarrow> m_base (s_meta s)
      | Some lo \<Rightarrow> m_base (s_meta s) ++ map_of (base_vals_of solis_registry agg (s_db s) lo (m_base_year (s_meta s))))"
    by metis
  have row: "level_rows (bj_level j) (s_db s') (k, bj_key j) = Some (v, raw_of (the (by_key solis_registry k)) v) \<and>
      m_offsets (s_meta s') (offset_key (bj_level j) (bj_key j) k) = None"
    if "j \<in> set (job_spans n (op_years opts))" "\<not> skipped_span opts (s_db s) j"
      "map_of (job_vals solis_registry agg (s_db s) j) k = Some v" for j k v
    using eff that unfolding rows offs job_effect_def prod.case tx row_value_def by auto
  have 1: "m_offsets (s_meta s') (offset_key (bj_level j) (bj_key j) (e_target e)) = None \<and>
        (\<exists>raw. level_rows (bj_level j) (s_db s') (e_target e, bj_key j) =
          Some (sum_rows agg (s_db s) (e_source e) (bj_from j) (bj_to j), raw))"
    if "j \<in> set (job_spans n (op_years opts))" "\<not> skipped_span opts (s_db s) j"
      "e \<in> set (registry_edges solis_registry (bj_level j))" for j e
    using row [OF that(1,2) solis_job_vals(1) [OF job_span_level [OF that(1)] that(3)]] by blast
  have 2: "\<exists>a b ra rb raw. level_rows (bj_level j) (s_db s') (n_export p, bj_key j) = Some (a, ra) \<and>
        level_rows (bj_level j) (s_db s') (n_import p, bj_key j) = Some (b, rb) \<and>
        level_rows (bj_level j) (s_db s') (n_target p, bj_key j) = Some (fsub a b, raw)"
    if "j \<in> set (job_spans n (op_years opts))" "\<not> skipped_span opts (s_db s) j"
      "p \<in> set (registry_nets solis_registry (bj_level j))" for j p
    using row [OF that(1,2)] solis_job_vals(2) [OF job_span_level [OF that(1)] that(3)] by blast
  have 3: "m_base (s_meta s') (e_target e) =
        Some (sum_rows agg (s_db s) (e_source e) lo (m_base_year (s_meta s) @ ''-12-31''))"
    if "0 < op_years opts \<and> baseline_from (s_meta s) (m_base_year (s_meta s)) (op_force opts) = Some lo"
      "e \<in> set (registry_edges solis_registry Total)" for lo e
  proof -
    have "e_source e \<in> set (source_keys (registry_edges solis_registry Total))" using that(2) by (simp add: source_keys_def)
    then have "map_of (base_vals_of solis_registry agg (s_db s) lo (m_base_year (s_meta s))) (e_target e) =
        Some (sum_rows agg (s_db s) (e_source e) lo (m_base_year (s_meta s) @ ''-12-31''))"
      using apply_edges_map [OF solis_table.targets_distinct_at, of Total] that(2)
      by (simp add: base_vals_of_def Let_def getv_def sums_of_map)
    then show ?thesis using base that(1) by simp
  qed
  from 1 2 3 show ?thesis by blast
qed

text \<open>C23: A backfill that returns has recomputed what it covers. Every month and year from the first
  of the requested closed years to today whose daily history is complete (or every one, with
  force) holds at each edge's target the sum of the source's daily rows from the period's first
  day to its last or today, and at each net pair's target the difference of its two values; the
  offset of the period is gone, so the aggregator does not add it again. When a closed year is
  touched and the baseline has one, each total's baseline is the sum from the cutover year (or
  from the start of history, with force) to the baseline year.\<close>

theorem backfill_recomputes:
  assumes "backfill (recompute solis_registry agg ts (period_of z t) opts) faults s = (Inr out, s')"
    "day_index z t = n" "day_ok n" "year_of n < 9999" "0 \<le> op_years opts" "op_years opts < year_of n"
  shows "(\<forall>j \<in> set (job_spans n (op_years opts)). \<not> skipped_span opts (s_db s) j \<longrightarrow>
      (\<forall>e \<in> set (registry_edges solis_registry (bj_level j)).
        m_offsets (s_meta s') (offset_key (bj_level j) (bj_key j) (e_target e)) = None \<and>
        (\<exists>raw. level_rows (bj_level j) (s_db s') (e_target e, bj_key j) =
          Some (sum_rows agg (s_db s) (e_source e) (bj_from j) (bj_to j), raw))) \<and>
      (\<forall>p \<in> set (registry_nets solis_registry (bj_level j)). \<exists>a b ra rb raw.
        level_rows (bj_level j) (s_db s') (n_export p, bj_key j) = Some (a, ra) \<and>
        level_rows (bj_level j) (s_db s') (n_import p, bj_key j) = Some (b, rb) \<and>
        level_rows (bj_level j) (s_db s') (n_target p, bj_key j) = Some (fsub a b, raw))) \<and>
    (\<forall>lo. 0 < op_years opts \<and> baseline_from (s_meta s) (m_base_year (s_meta s)) (op_force opts) = Some lo \<longrightarrow>
      (\<forall>e \<in> set (registry_edges solis_registry Total). m_base (s_meta s') (e_target e) =
        Some (sum_rows agg (s_db s) (e_source e) lo (m_base_year (s_meta s) @ ''-12-31''))))"
  by (rule backfill_values [OF assms])

text \<open>C24: A backfill leaves alone what it does not cover. When it fails, nothing has changed. When it
  returns, a month or year outside the requested years, or one whose start lies before the first
  daily row (unless forced), keeps its rows; the daily rows, totals, status rows and every
  watermark are as before; offsets only disappear; and the copy of the meta table still agrees
  with its rows.\<close>

theorem backfill_keeps_the_rest:
  assumes "backfill (recompute solis_registry agg ts (period_of z t) opts) faults s = (res, s')"
    "day_index z t = n" "day_ok n" "year_of n < 9999" "0 \<le> op_years opts" "op_years opts < year_of n"
  shows "(isl res \<longrightarrow> s' = s) \<and>
    ((\<forall>j \<in> set (job_spans n (op_years opts)). bj_level j = l \<and> bj_key j = p \<longrightarrow> skipped_span opts (s_db s) j) \<longrightarrow>
      level_rows l (s_db s') (k, p) = level_rows l (s_db s) (k, p)) \<and>
    d_daily (s_db s') = d_daily (s_db s) \<and> d_total (s_db s') = d_total (s_db s) \<and> d_error (s_db s') = d_error (s_db s) \<and>
    m_frozen (s_meta s') = m_frozen (s_meta s) \<and> m_closed (s_meta s') = m_closed (s_meta s) \<and>
    m_cutover (s_meta s') = m_cutover (s_meta s) \<and> m_base_year (s_meta s') = m_base_year (s_meta s) \<and>
    m_purged (s_meta s') = m_purged (s_meta s) \<and>
    (m_offsets (s_meta s') x = m_offsets (s_meta s) x \<or> m_offsets (s_meta s') x = None) \<and>
    (coherent (s_db s) (s_meta s) \<longrightarrow> coherent (s_db s') (s_meta s'))"
proof (cases res)
  case (Inl e)
  then have "s' = s" using assms(1) by (auto simp: backfill_def split: sum.splits prod.splits)
  then show ?thesis using Inl by simp
next
  case (Inr out)
  from backfill_effect [OF assms(1) [unfolded Inr] assms(2-6)] obtain m1 tx tx1 tx' where
    db: "tx_db tx = s_db s" "tx_db tx' = s_db s'" and
    eff: "job_effect solis_registry agg (skipped_span opts (s_db s)) (set (job_spans n (op_years opts))) (s_meta s, tx) (m1, tx1)" and
    fr: "back_frame (m1, tx1) (s_meta s', tx')" and
    offs: "m_offsets (s_meta s') = m_offsets m1" and rows: "\<And>l x. level_rows l (s_db s') x = level_rows l (tx_db tx1) x"
    by metis
  have "back_frame (s_meta s, tx) (m1, tx1)" using eff by (simp add: job_effect_def)
  from back_frame_trans [OF this fr]
  have frame: "d_daily (s_db s') = d_daily (s_db s)" "d_total (s_db s') = d_total (s_db s)" "d_error (s_db s') = d_error (s_db s)"
    "m_frozen (s_meta s') = m_frozen (s_meta s)" "m_closed (s_meta s') = m_closed (s_meta s)"
    "m_cutover (s_meta s') = m_cutover (s_meta s)" "m_base_year (s_meta s') = m_base_year (s_meta s)"
    "m_purged (s_meta s') = m_purged (s_meta s)" "coherent (s_db s) (s_meta s) \<longrightarrow> coherent (s_db s') (s_meta s')"
    unfolding back_frame_def prod.case db by blast+
  have keep: "(\<forall>j \<in> set (job_spans n (op_years opts)). bj_level j = l \<and> bj_key j = p \<longrightarrow> skipped_span opts (s_db s) j) \<Longrightarrow>
      level_rows l (s_db s') (k, p) = level_rows l (s_db s) (k, p)"
    using eff unfolding rows job_effect_def prod.case db by presburger
  have gone: "m_offsets (s_meta s') x = m_offsets (s_meta s) x \<or> m_offsets (s_meta s') x = None"
    using job_effect_offsets [OF eff] unfolding offs .
  show ?thesis unfolding Inr by (intro conjI impI frame keep gone) simp_all
qed

section \<open>A job after cleanups\<close>

lemma cleanup_daily:
  assumes "cleanup_all cfg z now f1 f2 f3 s = (errs, s')"
  shows "m_purged (s_meta s) \<le> m_purged (s_meta s') \<and>
    (m_purged (s_meta s') \<le> lo \<longrightarrow> sum_rows agg (s_db s') k lo hi = sum_rows agg (s_db s) k lo hi)"
proof -
  from assms obtain r1 s1 r2 s2 where
    1: "cleanup_periods (p_day (period_of z (now - set_daily_retention cfg))) f1 s = (r1, s1)" and
    2: "cleanup_status (now - set_error_retention cfg) f2 s1 = (r2, s2)" and
    3: "s_db s' = s_db s2" "s_meta s' = s_meta s2" by (rule cleanup_all_split)
  have s': "m_purged (s_meta s') = m_purged (s_meta s1)" "d_daily (s_db s') = d_daily (s_db s1)"
    using cleanup_status_frame [OF 2] 3 by auto
  show ?thesis
  proof (cases "s1 = s")
    case True
    with s' show ?thesis by (simp add: sum_rows_def)
  next
    case False
    with cleanup_periods_cases [OF 1] obtain cutoff n nd tx tx' where
      c: "m_purged (s_meta s) < cutoff" "tx_db tx = s_db s" "tx_db tx' = s_db s1" "purge_periods cutoff tx = Inr ((n, nd), tx')"
        "s_meta s1 = (if nd > 0 then (s_meta s)\<lparr>m_purged := cutoff\<rparr> else s_meta s)" by blast
    note p = purge_periods_Inr [OF c(4), unfolded c(2,3)]
    show ?thesis
    proof (cases "nd > 0")
      case True
      have "filter (\<lambda>((k', day), v). k' = k \<and> lo \<le> day \<and> day \<le> hi) (d_daily (s_db s1))
          = filter (\<lambda>((k', day), v). k' = k \<and> lo \<le> day \<and> day \<le> hi) (d_daily (s_db s))" if "cutoff \<le> lo"
        using p that by (auto simp: filter_filter intro!: filter_cong)
      then show ?thesis using True c(1,5) s' by (auto simp: sum_rows_def)
    next
      case False
      then have "filter (\<lambda>((k, p), v). p < cutoff) (d_daily (s_db s)) = []" using p by simp
      then have "d_daily (s_db s1) = d_daily (s_db s)"
        using p by (auto simp: filter_empty_conv intro!: filter_True)
      then show ?thesis using False c(5) s' by (simp add: sum_rows_def)
    qed
  qed
qed

lemma cleanups_daily:
  assumes "(\<lambda>s s'. \<exists>cfg z now f1 f2 f3 errs. cleanup_all cfg z now f1 f2 f3 s = (errs, s'))\<^sup>*\<^sup>* s s1"
  shows "m_purged (s_meta s) \<le> m_purged (s_meta s1) \<and>
    (m_purged (s_meta s1) \<le> lo \<longrightarrow> sum_rows agg (s_db s1) k lo hi = sum_rows agg (s_db s) k lo hi)"
  using assms
proof (induction rule: rtranclp_induct)
  case (step s1 s2)
  then obtain cfg z now f1 f2 f3 errs where "cleanup_all cfg z now f1 f2 f3 s1 = (errs, s2)" by blast
  note one = cleanup_daily [OF this]
  then have "m_purged (s_meta s) \<le> m_purged (s_meta s2)" using step.IH order_trans by blast
  moreover have "sum_rows agg (s_db s2) k lo hi = sum_rows agg (s_db s) k lo hi" if lo: "m_purged (s_meta s2) \<le> lo"
  proof -
    have "m_purged (s_meta s1) \<le> lo" using one lo order_trans by blast
    then show ?thesis using one lo step.IH by metis
  qed
  ultimately show ?case by blast
qed simp

lemma year_start_key: "0 \<le> y \<Longrightarrow> y < 9999 \<Longrightarrow> day_key (year_start y) = fmt_year y @ ''-01-01''"
proof -
  assume y: "0 \<le> y" "y < 9999"
  then have ok: "year_ok y" by (simp add: year_ok_def)
  have "padded 2 1 = ''01''" by code_simp
  moreover have "valid_date (Date y 1 1)" by (rule valid_first) simp_all
  ultimately show ?thesis using fmt_day_padded [of "Date y 1 1"] ok
    by (simp add: day_key_def year_start_first valid_first fmt_year_padded)
qed

lemma check_purged_spans:
  assumes "check_purged m (period_of z t) opts = None" "day_index z t = n" "day_ok n" "year_of n < 9999"
    "0 \<le> op_years opts" "op_years opts < year_of n" "j \<in> set (job_spans n (op_years opts))"
  shows "m_purged m \<le> bj_from j"
proof (cases "m_purged m = []")
  case False
  let ?y = "year_of n - op_years opts"
  have y: "1 \<le> ?y" "?y < 9999" using assms(4-6) by simp_all
  have "p_year (period_of z t) = fmt_year (year_of n)"
    using period_of_keys [of z t] assms(2) by (simp add: civil_def year_of_def)
  moreover have "year_ok (year_of n)" using assms(4-6) by (simp add: year_ok_def)
  ultimately have "add_years (p_year (period_of z t)) (- op_years opts) = Inr (fmt_year ?y)" by (simp add: key_simps)
  then have p: "m_purged m \<le> day_key (year_start ?y)"
    using assms(1) False y year_start_key [of ?y] by (auto simp: check_purged_def not_less split: if_splits)
  have ok: "day_ok (year_start ?y)" using y by (intro day_ok_year_start) (simp add: year_ok_def)
  from assms(7) have "day_key (year_start ?y) \<le> bj_from j" unfolding job_spans_set
  proof (elim exE conjE disjE)
    fix u assume u: "?y \<le> u" "u \<le> year_of n" "j = year_span n u"
    then have "year_start ?y \<le> year_start u" "day_ok (year_start u)" using y assms(4)
      by (auto intro!: year_start_mono day_ok_year_start simp: year_ok_def)
    then show ?thesis using u ok by (simp add: year_span_def day_key_le_iff)
  next
    fix u i assume u: "?y \<le> u" "u \<le> year_of n" "12 * u \<le> i" "i \<le> 12 * u + 11" "j = month_span n i"
    then have "i div 12 = u" by linarith
    then have "year_start u \<le> month_first i"
      using leap_day_01 [of u] by (auto simp: month_first_def day_number_def intro: month_start_nonneg)
    moreover have "year_start ?y \<le> year_start u" using u by (intro year_start_mono) simp
    moreover have "day_ok (month_first i)" using u y assms(4) by (intro day_ok_month_first) auto
    ultimately show ?thesis using u ok by (simp add: month_span_def day_key_le_iff)
  qed
  with p show ?thesis by simp
qed simp

section \<open>A job returns\<close>

lemma each_returns:
  "(\<And>x s. x \<in> set xs \<Longrightarrow> P s \<Longrightarrow> \<exists>s'. f x s = Inr s' \<and> P s') \<Longrightarrow> P s \<Longrightarrow> \<exists>s'. each f xs s = Inr s' \<and> P s'"
proof (induction xs arbitrary: s)
  case (Cons x xs)
  obtain s1 where "f x s = Inr s1" "P s1" using Cons.prems by (meson list.set_intros(1))
  moreover have "\<exists>s'. f y s = Inr s' \<and> P s'" if "y \<in> set xs" "P s" for y s
    using Cons.prems(1) that by (meson list.set_intros(2))
  ultimately show ?case using Cons.IH by simp
qed simp

lemma rnd_not_NaN [simp]: "rnd q \<noteq> NaN"
  by (simp add: rnd_def Let_def)

lemma fsub_not_NaN: "is_finite a \<Longrightarrow> is_finite b \<Longrightarrow> fsub a b \<noteq> NaN"
  by (cases a; cases b) (simp_all add: fsub_def)

lemma fdiv_not_NaN: "v \<noteq> NaN \<Longrightarrow> q \<noteq> 0 \<Longrightarrow> fdiv v (Fin q) \<noteq> NaN"
  by (simp add: fdiv_def Let_def signed_zero_def)

text \<open>The registers of a period are in the table, in the aggregator's domain, with a scale.\<close>

lemma solis_scale: "r \<in> set table_regs \<Longrightarrow> \<exists>q. reg_scale r = Fin q \<and> q \<noteq> 0"
proof -
  assume "r \<in> set table_regs"
  then have "reg_scale r = scale_ten \<or> reg_scale r = scale_one"
    by (auto simp: table_regs_def energy_registers_def energy_daily_def energy_computed_def net_registers_def
        net_register_def status_registers_def status_register_def live_registers_def live_register_def Let_def
        split: prod.splits)
  then show ?thesis by (auto simp: scale_ten_eq scale_one_def)
qed

lemma solis_target:
  assumes "l = Monthly \<or> l = Yearly"
    "k \<in> e_target ` set (registry_edges solis_registry l) \<union> n_target ` set (registry_nets solis_registry l)"
  obtains reg q where "by_key solis_registry k = Some reg" "check_domain reg l = None" "reg_scale reg = Fin q" "q \<noteq> 0"
proof -
  note goal = that
  have bk: "by_key solis_registry = map_of (map (\<lambda>r. (reg_key r, r)) table_regs)"
    by (rule ext) (simp add: by_key_def solis_registry_def)
  have found: thesis if "map_of table_shape k = Some (store_for_level l, n, p)" for n p
  proof -
    note shape = that
    obtain r where r: "by_key solis_registry k = Some r" "reg_shape r = (store_for_level l, n, p)"
      unfolding bk by (rule shape_Some [OF shape]) blast
    have "r \<in> set (g_regs solis_registry)" using r(1) solis_table.lookup by blast
    then obtain q where "reg_scale r = Fin q" "q \<noteq> 0" using solis_scale by (auto simp: solis_registry_def)
    moreover have "check_domain r l = None" using r(2) assms(1) by (auto simp: check_domain_def reg_shape_def computed_def)
    ultimately show thesis using r(1) goal by blast
  qed
  from assms(2) show thesis
  proof
    assume "k \<in> e_target ` set (registry_edges solis_registry l)"
    then obtain e where "e \<in> set (snd energy_registers)" "e_level e = l" "k = e_target e"
      by (auto simp: registry_edges_def edges_at_def solis_registry_def)
    then show thesis using table_edges_ok found by (auto simp: edge_shape_ok_def)
  next
    assume "k \<in> n_target ` set (registry_nets solis_registry l)"
    then obtain p where "p \<in> set (snd net_registers)" "n_level p = l" "k = n_target p"
      by (auto simp: registry_nets_def nets_at_def solis_registry_def)
    then show thesis using table_nets_ok found by (auto simp: net_shape_ok_def Let_def)
  qed
qed

lemma job_value_not_NaN:
  assumes "bj_level j = Monthly \<or> bj_level j = Yearly" "\<And>vs. is_finite (agg vs)"
    "map_of (job_vals solis_registry agg d j) k = Some v"
  shows "k \<in> e_target ` set (registry_edges solis_registry (bj_level j)) \<union> n_target ` set (registry_nets solis_registry (bj_level j))"
    "v \<noteq> NaN"
proof -
  let ?es = "registry_edges solis_registry (bj_level j)" and ?ps = "registry_nets solis_registry (bj_level j)"
  have fin: "is_finite (sum_rows agg d k lo hi)" for k lo hi using assms(2) by (simp add: sum_rows_def Let_def)
  have "n_target ` set ?ps \<inter> e_target ` set ?es = {}"
    using solis_table.net_fresh by (auto simp: registry_nets_def nets_at_def registry_edges_def edges_at_def)
  note vals = level_vals(3) [OF solis_table.targets_distinct_at solis_nets(1) [OF assms(1)] this]
  show k: "k \<in> e_target ` set ?es \<union> n_target ` set ?ps"
    using vals assms(3) unfolding job_vals_def Let_def by blast
  note ev = solis_job_vals(1) [OF assms(1), of _ agg d] and nv = solis_job_vals(2) [OF assms(1), of _ agg d]
  from k show "v \<noteq> NaN"
  proof
    assume "k \<in> e_target ` set ?es"
    then obtain e where "e \<in> set ?es" "k = e_target e" by blast
    then show ?thesis using ev [of e] assms(3) fin [of "e_source e" "bj_from j" "bj_to j"] by auto
  next
    assume "k \<in> n_target ` set ?ps"
    then obtain p where p: "p \<in> set ?ps" "k = n_target p" by blast
    from nv [OF p(1)] obtain a b where ab: "map_of (job_vals solis_registry agg d j) (n_export p) = Some a"
      "map_of (job_vals solis_registry agg d j) (n_import p) = Some b" "v = fsub a b" using p assms(3) by auto
    obtain x y where "x \<in> set ?es" "n_export p = e_target x" "y \<in> set ?es" "n_import p = e_target y"
      using solis_nets(2) [OF assms(1) p(1)] by blast
    then have "is_finite a" "is_finite b" using ab ev fin by auto
    then show ?thesis unfolding ab(3) by (rule fsub_not_NaN)
  qed
qed

text \<open>No fault is left, and the daily rows are those of the start.\<close>

definition job_quiet :: "db \<Rightarrow> job_state \<Rightarrow> bool" where
  "job_quiet d s \<longleftrightarrow> (case s of (rep, m, tx) \<Rightarrow> tx_faults tx = [] \<and> d_daily (tx_db tx) = d_daily d)"

lemma query_quiet: "tx_faults tx = [] \<Longrightarrow> \<exists>tx'. query f tx = Inr (f (tx_db tx), tx') \<and> tx_faults tx' = [] \<and> tx_db tx' = tx_db tx"
  by (simp add: query_def exec_def)

lemma job_sums_returns:
  "tx_faults tx = [] \<Longrightarrow> \<exists>sm tx'. job_sums agg ks lo hi out tx = Inr (sm, tx') \<and> tx_faults tx' = [] \<and> tx_db tx' = tx_db tx"
proof (induction ks arbitrary: out tx)
  case (Cons k ks)
  obtain tx1 where "sum_daily agg k lo hi tx = Inr (sum_rows agg (tx_db tx) k lo hi, tx1)" "tx_faults tx1 = []" "tx_db tx1 = tx_db tx"
    using query_quiet [OF Cons.prems, of "\<lambda>d. sum_rows agg d k lo hi"] unfolding sum_daily_def by blast
  with Cons.IH [of tx1] show ?case by fastforce
qed simp

lemma put_row_returns:
  assumes l: "bj_level j = Monthly \<or> bj_level j = Yearly" and v: "getv vs k \<noteq> NaN" and q: "job_quiet d s"
    and k: "k \<in> e_target ` set (registry_edges solis_registry (bj_level j)) \<union> n_target ` set (registry_nets solis_registry (bj_level j))"
  shows "\<exists>s'. put_row solis_registry ts j vs k s = Inr s' \<and> job_quiet d s'"
proof -
  obtain rep m tx where s: "s = (rep, m, tx)" by (cases s)
  have t: "tx_faults tx = []" "d_daily (tx_db tx) = d_daily d" using q by (simp_all add: job_quiet_def s)
  obtain old tx1 where 1: "period_value (bj_level j) k (bj_key j) tx = Inr (old, tx1)" "tx_faults tx1 = []" "tx_db tx1 = tx_db tx"
    using query_quiet [OF t(1), of "\<lambda>d. map_option fst (level_rows (bj_level j) d (k, bj_key j))"] l
    unfolding period_value_def by auto
  from solis_target [OF l k] obtain reg c where r: "by_key solis_registry k = Some reg" "check_domain reg (bj_level j) = None"
    "reg_scale reg = Fin c" "c \<noteq> 0" by blast
  have raw: "raw_of reg (getv vs k) \<noteq> NaN" unfolding raw_of_def r(3) by (rule fdiv_not_NaN [OF v r(4)])
  obtain m2 tx2 where 2: "clear_offset (offset_key (bj_level j) (bj_key j) k) (m, tx1) = Inr (m2, tx2)" "tx_faults tx2 = []"
    "d_daily (tx_db tx2) = d_daily (tx_db tx1)"
    using 1(2) by (cases "m_offsets m (offset_key (bj_level j) (bj_key j) k) = None") (simp_all add: clear_offset_def exec_def)
  have "\<exists>tx3. put_period solis_registry ts (bj_level j) k (bj_key j) (getv vs k) (m, tx1) = Inr (m2, tx3) \<and> tx_faults tx3 = [] \<and>
      d_daily (tx_db tx3) = d_daily (tx_db tx2)"
    using l r 2 v raw by (auto simp: put_period_def lookup_reg_def upsert_period_def Let_def exec_def upsert_in_def)
  then show ?thesis using 1 2 t by (auto simp: s put_row_def job_quiet_def)
qed

lemma period_job_returns:
  assumes l: "bj_level j = Monthly \<or> bj_level j = Yearly" and fin: "\<And>vs. is_finite (agg vs)" and q: "job_quiet d s"
  shows "\<exists>s'. period_job solis_registry agg ts r j s = Inr s' \<and> job_quiet d s'"
proof -
  obtain rep m tx where s: "s = (rep, m, tx)" by (cases s)
  have t: "tx_faults tx = []" "d_daily (tx_db tx) = d_daily d" using q by (simp_all add: job_quiet_def s)
  show ?thesis
  proof (cases "incomplete r j")
    case True
    then show ?thesis using t by (simp add: period_job_def s job_quiet_def)
  next
    case False
    let ?es = "registry_edges solis_registry (bj_level j)"
    obtain sm tx1 where 1: "job_sums agg (source_keys ?es) (bj_from j) (bj_to j) [] tx = Inr (sm, tx1)" "tx_faults tx1 = []" "tx_db tx1 = tx_db tx"
      using job_sums_returns [OF t(1)] by blast
    have sm: "sm = sums_of agg (tx_db tx) (source_keys ?es) (bj_from j) (bj_to j)"
      using job_sums_Inr [OF 1(1)] by (simp add: sums_of_def)
    let ?vs = "job_vals solis_registry agg (tx_db tx) j"
    have "\<exists>s'. each (put_row solis_registry ts j ?vs) (sorted_keys ?vs) (rep, m, tx1) = Inr s' \<and> job_quiet d s'"
    proof (rule each_returns)
      show "job_quiet d (rep, m, tx1)" using 1 t by (simp add: job_quiet_def)
      fix k x assume k: "k \<in> set (sorted_keys ?vs)" and x: "job_quiet d x"
      then have "map_of ?vs k \<noteq> None" by (simp add: sorted_keys_def map_of_eq_None_iff)
      then obtain v where v: "map_of ?vs k = Some v" by blast
      note ok = job_value_not_NaN [OF l fin v]
      show "\<exists>x'. put_row solis_registry ts j ?vs k x = Inr x' \<and> job_quiet d x'"
        by (rule put_row_returns [OF l _ x ok(1)]) (use v ok(2) in \<open>simp add: getv_def\<close>)
    qed
    then show ?thesis using False 1 by (simp add: s period_job_def job_vals_def sm Let_def)
  qed
qed

lemma refresh_returns: "job_quiet d s \<Longrightarrow> \<exists>s'. refresh_baseline g agg r s = Inr s' \<and> job_quiet d s'"
proof -
  assume q: "job_quiet d s"
  obtain rep m tx where s: "s = (rep, m, tx)" by (cases s)
  have t: "tx_faults tx = []" "d_daily (tx_db tx) = d_daily d" using q by (simp_all add: job_quiet_def s)
  show ?thesis
  proof (cases "baseline_from m (m_base_year m) (rc_force r)")
    case None
    then show ?thesis using q by (simp add: s refresh_baseline_def)
  next
    case (Some lo)
    let ?es = "registry_edges g Total"
    obtain sm tx1 where 1: "job_sums agg (source_keys ?es) lo (m_base_year m @ ''-12-31'') [] tx = Inr (sm, tx1)"
      "tx_faults tx1 = []" "tx_db tx1 = tx_db tx" using job_sums_returns [OF t(1)] by blast
    let ?P = "\<lambda>(m, tx). tx_faults tx = [] \<and> d_daily (tx_db tx) = d_daily d"
    have "\<exists>s'. each set_base (apply_edges ?es sm) (m, tx1) = Inr s' \<and> ?P s'"
    proof (rule each_returns)
      show "\<exists>x'. set_base kv x = Inr x' \<and> ?P x'" if "?P x" for kv x
        using that by (cases x) (simp add: set_base_def put_meta_def exec_def)
    qed (use 1 t in simp)
    then show ?thesis using 1 by (auto simp: s refresh_baseline_def Some Let_def put_baseline_def job_quiet_def)
  qed
qed

lemma backfill_ends:
  assumes "check_purged (s_meta s) (period_of z t) opts = None" "\<And>vs. is_finite (agg vs)"
    "day_index z t = n" "day_ok n" "year_of n < 9999" "0 \<le> op_years opts" "op_years opts < year_of n"
  shows "\<exists>out s'. backfill (recompute solis_registry agg ts (period_of z t) opts) [] s = (Inr out, s')"
proof -
  let ?tx = "\<lparr>tx_db = s_db s, tx_faults = []\<rparr>"
  let ?r = "\<lparr>rc_now = period_of z t, rc_first = min_day (s_db s), rc_force = op_force opts\<rparr>"
  have first: "first_daily_day ?tx = Inr (min_day (s_db s), ?tx)" by (simp add: first_daily_day_def query_def)
  have runs: "each (back_year solis_registry agg ts ?r) (rev [0..op_years opts]) x
      = each (period_job solis_registry agg ts ?r) (job_spans n (op_years opts)) x" for x
    by (rule run_years_jobs [OF _ assms(3,4,5,7,6)]) simp
  have "\<exists>x. each (period_job solis_registry agg ts ?r) (job_spans n (op_years opts)) (empty_report, s_meta s, ?tx) = Inr x \<and>
      job_quiet (s_db s) x"
  proof (rule each_returns)
    show "\<exists>y'. period_job solis_registry agg ts ?r j y = Inr y' \<and> job_quiet (s_db s) y'"
      if "j \<in> set (job_spans n (op_years opts))" "job_quiet (s_db s) y" for j y
      by (rule period_job_returns [OF job_span_level [OF that(1)] assms(2) that(2)])
  qed (simp add: job_quiet_def)
  then obtain x where x: "each (back_year solis_registry agg ts ?r) (rev [0..op_years opts]) (empty_report, s_meta s, ?tx) = Inr x"
    "job_quiet (s_db s) x" unfolding runs by blast
  have "\<exists>y. run_years solis_registry agg ts ?r (op_years opts) (empty_report, s_meta s, ?tx) = Inr y \<and> job_quiet (s_db s) y"
    using x refresh_returns [OF x(2), of solis_registry agg ?r] by (cases "0 < op_years opts") (simp_all only: run_years_def sum.case if_True if_False, auto)
  then obtain rep m tx where y: "run_years solis_registry agg ts ?r (op_years opts) (empty_report, s_meta s, ?tx) = Inr (rep, m, tx)"
    "tx_faults tx = []" by (auto simp: job_quiet_def)
  then have "recompute solis_registry agg ts (period_of z t) opts (s_meta s, ?tx) = Inr (rep, m, tx)"
    using assms(1) first by (simp add: recompute_def)
  then show ?thesis using y(2) by (simp add: backfill_def exec_def)
qed

section \<open>What the report says\<close>

text \<open>The line of a value with what the table held before the job, the lines of a period, those of the
  baseline, and a skipped period.\<close>

definition report_line :: "registry \<Rightarrow> vals \<Rightarrow> db \<Rightarrow> span \<Rightarrow> string \<Rightarrow> line" where
  "report_line g vs d j k = (let old = map_option fst (level_rows (bj_level j) d (k, bj_key j)) in
     \<lparr>ln_level = level_string (bj_level j), ln_key = k, ln_period = bj_key j,
       ln_old = (case old of None \<Rightarrow> Fin 0 | Some v \<Rightarrow> v), ln_had = (old \<noteq> None), ln_new = getv vs k,
       ln_unit = unit_of g k\<rparr>)"

definition job_lines :: "registry \<Rightarrow> (float64 list \<Rightarrow> float64) \<Rightarrow> db \<Rightarrow> span \<Rightarrow> line list" where
  "job_lines g agg d j = (let vs = job_vals g agg d j in map (report_line g vs d j) (sorted_keys vs))"

definition base_lines :: "registry \<Rightarrow> (float64 list \<Rightarrow> float64) \<Rightarrow> db \<Rightarrow> meta \<Rightarrow> bool \<Rightarrow> line list" where
  "base_lines g agg d m force = (case baseline_from m (m_base_year m) force of None \<Rightarrow> []
     | Some lo \<Rightarrow> let vs = base_vals_of g agg d lo (m_base_year m) in
         map (base_line g (m_base m) vs) (sorted_keys vs))"

definition skip_of :: "string \<Rightarrow> span \<Rightarrow> skip" where
  "skip_of first j = \<lparr>sk_level = level_string (bj_level j), sk_period = bj_key j, sk_first = first\<rparr>"

definition span_id :: "span \<Rightarrow> level \<times> string" where
  "span_id j = (bj_level j, bj_key j)"

lemma put_row_report:
  assumes "put_row g ts j vs k (rep, m, tx) = Inr (rep', m', tx')"
  shows "rep' = add_line (report_line g vs (tx_db tx) j k) rep \<and>
    (\<forall>k'. k' \<noteq> k \<longrightarrow> level_rows (bj_level j) (tx_db tx') (k', bj_key j) = level_rows (bj_level j) (tx_db tx) (k', bj_key j))"
proof -
  obtain old tx0 where 0: "period_value (bj_level j) k (bj_key j) tx = Inr (old, tx0)"
    "put_period g ts (bj_level j) k (bj_key j) (getv vs k) (m, tx0) = Inr (m', tx')"
    "rep' = add_line \<lparr>ln_level = level_string (bj_level j), ln_key = k, ln_period = bj_key j,
         ln_old = (case old of None \<Rightarrow> Fin 0 | Some v \<Rightarrow> v), ln_had = (old \<noteq> None), ln_new = getv vs k,
         ln_unit = unit_of g k\<rparr> rep"
    using assms by (auto simp: put_row_def split: sum.splits)
  have "tx_db tx0 = tx_db tx" "old = map_option fst (level_rows (bj_level j) (tx_db tx) (k, bj_key j))"
    using 0(1) by (auto simp: period_value_def dest: query_Inr split: if_splits)
  moreover from 0(2) have "level_rows (bj_level j) (tx_db tx') (k', bj_key j) = level_rows (bj_level j) (tx_db tx0) (k', bj_key j)"
    if "k' \<noteq> k" for k' by (rule put_period_Inr) (simp add: that)
  ultimately show ?thesis unfolding 0(3) by (simp add: report_line_def Let_def)
qed

lemma put_rows_report:
  assumes "each (put_row g ts j vs) ks (rep, m, tx) = Inr (rep', m', tx')" "distinct ks"
  shows "rep' = rep\<lparr>rp_lines := rp_lines rep @ map (report_line g vs (tx_db tx) j) ks\<rparr>"
  using assms
proof (induction ks arbitrary: rep m tx)
  case (Cons k ks)
  obtain s1 where "put_row g ts j vs k (rep, m, tx) = Inr s1" "each (put_row g ts j vs) ks s1 = Inr (rep', m', tx')"
    using Cons.prems by (auto split: sum.splits)
  then obtain rep1 m1 tx1 where 1: "put_row g ts j vs k (rep, m, tx) = Inr (rep1, m1, tx1)"
    "each (put_row g ts j vs) ks (rep1, m1, tx1) = Inr (rep', m', tx')" by (cases s1) auto
  note p = put_row_report [OF 1(1)]
  have "map (report_line g vs (tx_db tx1) j) ks = map (report_line g vs (tx_db tx) j) ks"
    using p Cons.prems(2) by (auto simp: report_line_def)
  then show ?case using Cons.IH [OF 1(2)] p Cons.prems(2) by (simp add: add_line_def)
qed simp

lemma merge_values_distinct: "distinct (map fst (merge_values ms))"
proof -
  have one: "distinct (map fst (foldl (\<lambda>out (k, v). AList.update k v out) out m))" if "distinct (map fst out)" for out m
    using that by (induction m arbitrary: out) (auto intro: distinct_update)
  have "distinct (map fst (foldl (\<lambda>out m. foldl (\<lambda>out (k, v). AList.update k v out) out m) out ms))"
    if "distinct (map fst out)" for out
    using that by (induction ms arbitrary: out) (auto intro: one)
  then show ?thesis by (simp add: merge_values_def)
qed

lemma period_job_report:
  assumes "period_job g agg ts r j (rep, m, tx) = Inr (rep', m', tx')"
  shows "rep' = (if incomplete r j then add_skip (skip_of (rc_first r) j) rep
    else rep\<lparr>rp_lines := rp_lines rep @ job_lines g agg (tx_db tx) j\<rparr>)"
proof (cases "incomplete r j")
  case True
  then show ?thesis using assms by (simp add: period_job_def skip_of_def)
next
  case False
  obtain sm tx1 where 1: "job_sums agg (source_keys (registry_edges g (bj_level j))) (bj_from j) (bj_to j) [] tx = Inr (sm, tx1)"
    using assms False by (auto simp: period_job_def Let_def split: sum.splits)
  from job_sums_Inr [OF 1] have t1: "tx_db tx1 = tx_db tx"
    and sm: "sm = sums_of agg (tx_db tx) (source_keys (registry_edges g (bj_level j))) (bj_from j) (bj_to j)"
    by (simp_all add: sums_of_def)
  let ?vs = "job_vals g agg (tx_db tx) j"
  have "each (put_row g ts j ?vs) (sorted_keys ?vs) (rep, m, tx1) = Inr (rep', m', tx')"
    using assms False 1 sm by (simp add: period_job_def Let_def job_vals_def)
  moreover have "distinct (sorted_keys ?vs)"
    by (simp add: sorted_keys_def job_vals_def Let_def merge_values_distinct)
  ultimately show ?thesis
    using put_rows_report [of g ts j ?vs "sorted_keys ?vs" rep m tx1 rep' m' tx'] False by (simp add: job_lines_def Let_def t1)
qed

lemma period_jobs_report:
  assumes "each (period_job g agg ts r) js (rep, m, tx) = Inr (rep', m', tx')" "distinct (map span_id js)"
  shows "rep' = \<lparr>rp_lines = rp_lines rep @ concat (map (job_lines g agg (tx_db tx)) (filter (\<lambda>j. \<not> incomplete r j) js)),
    rp_skipped = rp_skipped rep @ map (skip_of (rc_first r)) (filter (incomplete r) js)\<rparr>"
  using assms
proof (induction js arbitrary: rep m tx)
  case (Cons j js)
  obtain s1 where s1: "period_job g agg ts r j (rep, m, tx) = Inr s1" "each (period_job g agg ts r) js s1 = Inr (rep', m', tx')"
    using Cons.prems by (auto split: sum.splits)
  obtain rep1 m1 tx1 where "s1 = (rep1, m1, tx1)" by (cases s1)
  note 1 = s1 [unfolded this]
  have eff: "job_effect g agg (incomplete r) {j} (m, tx) (m1, tx1)" using period_job_effect [OF 1(1)] .
  have "job_lines g agg (tx_db tx1) i = job_lines g agg (tx_db tx) i" if "i \<in> set js" for i
  proof -
    have "span_id i \<noteq> span_id j" using Cons.prems(2) that by (auto simp: image_iff)
    then have "level_rows (bj_level i) (tx_db tx1) (k, bj_key i) = level_rows (bj_level i) (tx_db tx) (k, bj_key i)" for k
      using eff by (auto simp: job_effect_def span_id_def)
    moreover have "job_vals g agg (tx_db tx1) = job_vals g agg (tx_db tx)"
      by (rule back_frame_sums [of m tx m1 tx1]) (use eff in \<open>simp add: job_effect_def\<close>)
    ultimately show ?thesis by (simp add: job_lines_def report_line_def Let_def)
  qed
  then have "map (job_lines g agg (tx_db tx1)) (filter (\<lambda>j. \<not> incomplete r j) js)
      = map (job_lines g agg (tx_db tx)) (filter (\<lambda>j. \<not> incomplete r j) js)" by simp
  note lines = this
  have "distinct (map span_id js)" using Cons.prems(2) by simp
  from Cons.IH [OF 1(2) this, unfolded lines] show ?case
    using period_job_report [OF 1(1)] by (cases "incomplete r j") (simp_all add: add_skip_def)
qed simp

lemma refresh_report:
  assumes "refresh_baseline g agg r (rep, m, tx) = Inr (rep', m', tx')"
  shows "rep' = rep\<lparr>rp_lines := rp_lines rep @ base_lines g agg (tx_db tx) m (rc_force r)\<rparr>"
proof (cases "baseline_from m (m_base_year m) (rc_force r)")
  case None
  then show ?thesis using assms by (simp add: refresh_baseline_def base_lines_def)
next
  case (Some lo)
  let ?es = "registry_edges g Total"
  obtain sm tx1 where 1: "job_sums agg (source_keys ?es) lo (m_base_year m @ ''-12-31'') [] tx = Inr (sm, tx1)"
    "rep' = fold (\<lambda>k. add_line (base_line g (m_base m) (apply_edges ?es sm) k)) (sorted_keys (apply_edges ?es sm)) rep"
    using assms Some by (auto simp: refresh_baseline_def Let_def split: sum.splits)
  have "fold (\<lambda>k. add_line (f k)) ks rep = rep\<lparr>rp_lines := rp_lines rep @ map f ks\<rparr>" for f :: "string \<Rightarrow> line" and ks
    by (induction ks arbitrary: rep) (simp_all add: add_line_def)
  then show ?thesis using 1(2) job_sums_Inr [OF 1(1)]
    by (simp add: base_lines_def Some base_vals_of_def Let_def sums_of_def)
qed

lemma job_spans_distinct:
  assumes "day_ok n" "year_of n < 9999" "years < year_of n"
  shows "distinct (map span_id (job_spans n years))"
proof -
  have mi: "month_index_of n < 120000" using month_index_bounds [OF assms(1)] assms(2) by linarith
  have months: "i = j" if "0 \<le> i" "i < 120000" "0 \<le> j" "j < 120000" "month_key i = month_key j" for i j
    using month_key_less_iff [OF that(1-4)] month_key_less_iff [OF that(3,4,1,2)] that(5) by fastforce
  have ys: "y = z" if "year_ok y" "year_ok z" "fmt_year y = fmt_year z" for y z
    using fmt_year_less_iff [OF that(1,2)] fmt_year_less_iff [OF that(2,1)] that(3) by fastforce
  have ids: "map span_id (year_spans n y) =
      map (Pair Monthly) (map month_key [12 * y..min (12 * y + 11) (month_index_of n)]) @ [(Yearly, fmt_year y)]" for y
    by (simp add: year_spans_def span_id_def month_span_def year_span_def)
  let ?ys = "[year_of n - years..year_of n]"
  have one: "distinct (map span_id (year_spans n y))" if "y \<in> set ?ys" for y
  proof -
    have "inj_on month_key {12 * y..min (12 * y + 11) (month_index_of n)}"
      by (rule inj_onI) (use that mi assms(3) months in auto)
    then show ?thesis unfolding ids by (auto simp: distinct_map inj_on_def)
  qed
  have two: "set (map span_id (year_spans n y)) \<inter> set (map span_id (year_spans n z)) = {}"
    if "y \<in> set ?ys" "z \<in> set ?ys" "y \<noteq> z" for y z
  proof -
    have "fmt_year y \<noteq> fmt_year z" using ys [of y z] that assms(2,3) by (auto simp: year_ok_def)
    moreover have "month_key i \<noteq> month_key j"
      if "12 * y \<le> i" "i \<le> 12 * y + 11" "i \<le> month_index_of n" "12 * z \<le> j" "j \<le> 12 * z + 11" "j \<le> month_index_of n" for i j
    proof
      assume "month_key i = month_key j"
      then have "i = j" using months [of i j] that mi \<open>y \<in> set ?ys\<close> \<open>z \<in> set ?ys\<close> assms(3) by simp
      then show False using that \<open>y \<noteq> z\<close> by linarith
    qed
    ultimately show ?thesis unfolding ids by (auto simp: image_iff)
  qed
  have "distinct (concat (map (\<lambda>y. map span_id (year_spans n y)) ys'))" if "distinct ys'" "set ys' \<subseteq> set ?ys" for ys'
    using that
  proof (induction ys')
    case (Cons y zs)
    have "set (map span_id (year_spans n y)) \<inter> set (concat (map (\<lambda>y. map span_id (year_spans n y)) zs)) = {}"
    proof -
      have "set (map span_id (year_spans n y)) \<inter> set (map span_id (year_spans n z)) = {}" if "z \<in> set zs" for z
        by (rule two) (use Cons.prems that in auto)
      then show ?thesis unfolding set_concat set_map image_image by blast
    qed
    then show ?case using Cons one [of y] by simp
  qed simp
  then show ?thesis by (simp add: job_spans_def map_concat comp_def)
qed

lemma backfill_report:
  assumes "backfill (recompute solis_registry agg ts (period_of z t) opts) faults s = (Inr out, s')"
    "day_index z t = n" "day_ok n" "year_of n < 9999" "0 \<le> op_years opts" "op_years opts < year_of n"
  shows "out = \<lparr>rp_lines = concat (map (job_lines solis_registry agg (s_db s))
        (filter (\<lambda>j. \<not> skipped_span opts (s_db s) j) (job_spans n (op_years opts)))) @
      (if 0 < op_years opts then base_lines solis_registry agg (s_db s) (s_meta s) (op_force opts) else []),
    rp_skipped = map (skip_of (min_day (s_db s))) (filter (skipped_span opts (s_db s)) (job_spans n (op_years opts)))\<rparr>"
proof -
  obtain tx0 st where 0: "exec True (\<lambda>d. d) \<lparr>tx_db = s_db s, tx_faults = faults\<rparr> = Inr tx0"
    "recompute solis_registry agg ts (period_of z t) opts (s_meta s, tx0) = Inr (out, s_meta s', st)"
    using assms(1) by (auto simp: backfill_def split: sum.splits prod.splits)
  obtain first tx where 1: "first_daily_day tx0 = Inr (first, tx)"
    "run_years solis_registry agg ts \<lparr>rc_now = period_of z t, rc_first = first, rc_force = op_force opts\<rparr> (op_years opts)
      (empty_report, s_meta s, tx) = Inr (out, s_meta s', st)"
    using 0(2) by (auto simp: recompute_def split: option.splits sum.splits)
  let ?r = "\<lparr>rc_now = period_of z t, rc_first = first, rc_force = op_force opts\<rparr>"
  have tx: "tx_db tx = s_db s" "first = min_day (s_db s)"
    using 1(1) exec_Inr [OF 0(1)] by (auto simp: first_daily_day_def dest: query_Inr)
  have sk: "incomplete ?r = skipped_span opts (s_db s)" by (rule ext) (simp add: incomplete_def skipped_span_def tx)
  have runs: "each (back_year solis_registry agg ts ?r) (rev [0..op_years opts]) x
      = each (period_job solis_registry agg ts ?r) (job_spans n (op_years opts)) x" for x
    by (rule run_years_jobs [OF _ assms(2,3,4,6,5)]) simp
  obtain x where x: "each (period_job solis_registry agg ts ?r) (job_spans n (op_years opts)) (empty_report, s_meta s, tx) = Inr x"
    "(if 0 < op_years opts then refresh_baseline solis_registry agg ?r x else Inr x) = Inr (out, s_meta s', st)"
    using 1(2) unfolding run_years_def runs by (auto split: sum.splits)
  obtain rep1 m1 tx1 where x1: "x = (rep1, m1, tx1)" by (cases x)
  have rep1: "rep1 = \<lparr>rp_lines = concat (map (job_lines solis_registry agg (s_db s))
        (filter (\<lambda>j. \<not> skipped_span opts (s_db s) j) (job_spans n (op_years opts)))),
      rp_skipped = map (skip_of (min_day (s_db s))) (filter (skipped_span opts (s_db s)) (job_spans n (op_years opts)))\<rparr>"
    using period_jobs_report [OF x(1) [unfolded x1] job_spans_distinct [OF assms(3,4,6)]]
    by (simp add: sk tx(1) tx(2) [symmetric] empty_report_def)
  have eff: "job_effect solis_registry agg (skipped_span opts (s_db s)) (set (job_spans n (op_years opts))) (s_meta s, tx) (m1, tx1)"
    using period_jobs_effect [OF x(1) [unfolded x1] job_spans_consistent [OF assms(3,4,6)]] unfolding sk .
  then have same: "m_base m1 = m_base (s_meta s)" "m_base_year m1 = m_base_year (s_meta s)" "m_cutover m1 = m_cutover (s_meta s)"
    "d_daily (tx_db tx1) = d_daily (s_db s)" by (simp_all add: job_effect_def back_frame_def tx)
  then have "base_vals_of solis_registry agg (tx_db tx1) = base_vals_of solis_registry agg (s_db s)"
    by (simp add: base_vals_of_def sums_of_def sum_rows_def fun_eq_iff)
  then have "base_lines solis_registry agg (tx_db tx1) m1 (op_force opts)
      = base_lines solis_registry agg (s_db s) (s_meta s) (op_force opts)"
    by (simp add: base_lines_def baseline_from_def same)
  then show ?thesis using x(2) refresh_report [of solis_registry agg ?r rep1 m1 tx1 out "s_meta s'" st]
    by (cases "0 < op_years opts") (simp_all add: x1 rep1)
qed


lemma backfill_skips:
  assumes "backfill (recompute solis_registry agg ts (period_of z t) opts) faults s = (Inr out, s')"
    "day_index z t = n" "day_ok n" "year_of n < 9999" "0 \<le> op_years opts" "op_years opts < year_of n"
    "j \<in> set (job_spans n (op_years opts))" "skipped_span opts (s_db s) j"
  shows "level_rows (bj_level j) (s_db s') (k, bj_key j) = level_rows (bj_level j) (s_db s) (k, bj_key j)"
proof -
  from backfill_effect [OF assms(1-6)] obtain m1 tx tx1 where tx: "tx_db tx = s_db s" and
    eff: "job_effect solis_registry agg (skipped_span opts (s_db s)) (set (job_spans n (op_years opts))) (s_meta s, tx) (m1, tx1)" and
    rows: "\<And>l x. level_rows l (s_db s') x = level_rows l (tx_db tx1) x"
    by metis
  have "\<forall>i \<in> set (job_spans n (op_years opts)). bj_level i = bj_level j \<and> bj_key i = bj_key j \<longrightarrow>
      skipped_span opts (s_db s) i"
    using job_spans_consistent [OF assms(3,4,6)] assms(7,8) unfolding consistent_def by blast
  then show ?thesis using eff unfolding rows job_effect_def prod.case tx by presburger
qed

text \<open>C25: Without database faults a backfill ends with a report of what it did, unless retention has
  removed days it would need, for whatever finite sums the database computes (of fewer past
  years than the number of the current year, so that the first requested year is after year
  0). The report lists, in order, as skipped exactly the months and years that start before
  the first daily row or have none (no month or year with force), and has a line for every
  value of every other month and year, with the value the table held before the job and the
  recomputed one, followed by the refreshed baselines when closed years are requested and the
  baseline has one. Every edge's target of a period that is not skipped then holds the sum of
  its source's daily rows in the table, every refreshed total its baseline, and a skipped
  period keeps the rows it had.\<close>

theorem backfill_returns:
  assumes "check_purged (s_meta s) (period_of z t) opts = None" "\<And>vs. is_finite (agg vs)"
    "day_index z t = n" "day_ok n" "year_of n < 9999" "0 \<le> op_years opts" "op_years opts < year_of n"
  shows "\<exists>out s'. backfill (recompute solis_registry agg ts (period_of z t) opts) [] s = (Inr out, s') \<and>
    rp_skipped out = map (skip_of (min_day (s_db s)))
      (filter (skipped_span opts (s_db s)) (job_spans n (op_years opts))) \<and>
    rp_lines out = concat (map (job_lines solis_registry agg (s_db s))
        (filter (\<lambda>j. \<not> skipped_span opts (s_db s) j) (job_spans n (op_years opts)))) @
      (if 0 < op_years opts then base_lines solis_registry agg (s_db s) (s_meta s) (op_force opts) else []) \<and>
    (\<forall>j \<in> set (job_spans n (op_years opts)). \<not> skipped_span opts (s_db s) j \<longrightarrow>
      (\<forall>e \<in> set (registry_edges solis_registry (bj_level j)).
        \<exists>raw. level_rows (bj_level j) (s_db s') (e_target e, bj_key j) =
          Some (sum_rows agg (s_db s) (e_source e) (bj_from j) (bj_to j), raw))) \<and>
    (\<forall>j \<in> set (job_spans n (op_years opts)). skipped_span opts (s_db s) j \<longrightarrow>
      (\<forall>k. level_rows (bj_level j) (s_db s') (k, bj_key j) = level_rows (bj_level j) (s_db s) (k, bj_key j))) \<and>
    (\<forall>lo. 0 < op_years opts \<and> baseline_from (s_meta s) (m_base_year (s_meta s)) (op_force opts) = Some lo \<longrightarrow>
      (\<forall>e \<in> set (registry_edges solis_registry Total). m_base (s_meta s') (e_target e) =
        Some (sum_rows agg (s_db s) (e_source e) lo (m_base_year (s_meta s) @ ''-12-31''))))"
proof -
  from assms have "\<exists>out s'. backfill (recompute solis_registry agg ts (period_of z t) opts) [] s = (Inr out, s')"
    by (rule backfill_ends)
  then obtain out s' where r: "backfill (recompute solis_registry agg ts (period_of z t) opts) [] s = (Inr out, s')"
    by blast
  note report = backfill_report [OF r assms(3-7)] and vals = backfill_values [OF r assms(3-7)]
    and kept = backfill_skips [OF r assms(3-7)]
  have "rp_skipped out = map (skip_of (min_day (s_db s)))
      (filter (skipped_span opts (s_db s)) (job_spans n (op_years opts)))"
    "rp_lines out = concat (map (job_lines solis_registry agg (s_db s))
        (filter (\<lambda>j. \<not> skipped_span opts (s_db s) j) (job_spans n (op_years opts)))) @
      (if 0 < op_years opts then base_lines solis_registry agg (s_db s) (s_meta s) (op_force opts) else [])"
    using report by simp_all
  with r vals kept show ?thesis by blast
qed

section \<open>Cleanups before a job\<close>

text \<open>Retention never lowers what a backfill writes. After any number of cleanups, a backfill either
  refuses or sums only days that no cleanup has touched: the sums of every month and year it
  covers, and of the baseline it refreshes, are those of the full history.\<close>

theorem backfill_after_cleanups:
  assumes "(\<lambda>s s'. \<exists>cfg z now f1 f2 f3 errs. cleanup_all cfg z now f1 f2 f3 s = (errs, s'))\<^sup>*\<^sup>* s0 s"
    "backfill (recompute solis_registry agg ts (period_of z t) opts) faults s = (Inr out, s')"
    "day_index z t = n" "day_ok n" "year_of n < 9999" "0 \<le> op_years opts" "op_years opts < year_of n"
  shows "(\<forall>j \<in> set (job_spans n (op_years opts)).
      sum_rows agg (s_db s) k (bj_from j) (bj_to j) = sum_rows agg (s_db s0) k (bj_from j) (bj_to j)) \<and>
    (0 < op_years opts \<and> baseline_from (s_meta s) (m_base_year (s_meta s)) (op_force opts) = Some lo \<longrightarrow>
      sum_rows agg (s_db s) k lo hi = sum_rows agg (s_db s0) k lo hi)"
proof -
  from backfill_effect [OF assms(2-7)] have c: "check_purged (s_meta s) (period_of z t) opts = None" by metis
  have same: "sum_rows agg (s_db s) k lo hi = sum_rows agg (s_db s0) k lo hi" if "m_purged (s_meta s) \<le> lo" for lo hi
    using cleanups_daily [OF assms(1)] that by blast
  have "m_purged (s_meta s) \<le> lo"
    if "0 < op_years opts \<and> baseline_from (s_meta s) (m_base_year (s_meta s)) (op_force opts) = Some lo"
    using c that by (auto simp: check_purged_def baseline_purged_def not_less split: if_splits sum.splits)
  then show ?thesis using same check_purged_spans [OF c assms(3-7)] by blast
qed

section \<open>Examples\<close>

text \<open>One daily row of 1 January 2024, a purged row of the year before, today 5 February 2024.\<close>

definition example_store :: store where
  "example_store = \<lparr>s_db = \<lparr>d_daily = [((pv_key, ''2024-01-01''), Fin 7, Fin 70)], d_monthly = [], d_yearly = [],
       d_total = [], d_error = [], d_meta = []\<rparr>, s_meta = new_meta, s_vacuumed = None\<rparr>"

definition example_options :: options where
  "example_options = \<lparr>op_years = 0, op_force = False\<rparr>"

definition example_sum :: "float64 list \<Rightarrow> float64" where
  "example_sum vs = Fin 7"

lemma example_year: "year_of 738920 = 2024" "day_ok 738920"
  using february_2024_date by (simp_all add: year_of_def day_okI)

lemma example_run:
  assumes "check_purged (s_meta s) (period_of utc (19758 * ns_day)) example_options = None"
  obtains out s' where
    "backfill (recompute solis_registry example_sum 0 (period_of utc (19758 * ns_day)) example_options) [] s = (Inr out, s')"
proof -
  note goal = that
  have "\<exists>out s'. backfill (recompute solis_registry example_sum 0 (period_of utc (19758 * ns_day)) example_options) [] s = (Inr out, s')"
    by (rule backfill_ends [OF assms _ february_2024 example_year(2)])
      (simp_all add: example_sum_def example_options_def example_year)
  with goal show thesis by blast
qed

lemma example_span: "year_span 738920 2024 = \<lparr>bj_level = Yearly, bj_key = ''2024'', bj_from = ''2024-01-01'', bj_to = ''2024-02-05''\<rparr>"
proof -
  have y: "fmt_year 2024 = ''2024''" using fmt_year_padded [of 2024] by (simp add: year_ok_def) code_simp
  then have "day_key (year_start 2024) = ''2024-01-01''" using year_start_key [of 2024] by simp
  moreover note y
  moreover have "min (year_start 2025 - 1) 738920 = 738920" by (simp add: year_start_def)
  moreover have "day_key 738920 = ''2024-02-05''" unfolding day_key_def february_2024_date by code_simp
  ultimately show ?thesis by (simp add: year_span_def)
qed

lemma example_in: "year_span 738920 2024 \<in> set (job_spans 738920 0)"
  unfolding job_spans_set by (rule exI [of _ 2024]) (simp add: example_year)

lemma example_edge: "\<lparr>e_level = Yearly, e_source = pv_key, e_target = ''pv_energy_yearly''\<rparr> \<in> set (registry_edges solis_registry Yearly)"
  by (simp add: registry_edges_def edges_at_def solis_registry_def energy_registers_def energy_kinds_def kind_def
      computed_levels_def energy_edge_def pv_key_def Let_def)

definition forced_options :: options where
  "forced_options = \<lparr>op_years = 0, op_force = True\<rparr>"

theorem backfill_returns_witness:
  "\<exists>out s' raw. backfill (recompute solis_registry example_sum 0 (period_of utc (19758 * ns_day)) forced_options) [] example_store
      = (Inr out, s') \<and> rp_skipped out = [] \<and>
    level_rows Yearly (s_db s') (''pv_energy_yearly'', ''2024'') = Some (Fin 7, raw)"
proof -
  let ?d = "s_db example_store"
  have sm: "sum_rows example_sum ?d pv_key ''2024-01-01'' ''2024-02-05'' = Fin 7"
    by (simp add: sum_rows_def example_store_def example_sum_def)
  have sk: "skipped_span forced_options ?d = (\<lambda>j. False)"
    by (simp add: skipped_span_def forced_options_def fun_eq_iff)
  have pre: "check_purged (s_meta example_store) (period_of utc (19758 * ns_day)) forced_options = None"
    "\<And>vs. is_finite (example_sum vs)" "op_years forced_options = 0" "year_of 738920 < 9999" "0 < year_of 738920"
    by (simp_all add: check_purged_def example_store_def new_meta_def example_sum_def forced_options_def example_year)
  obtain out s' where r: "backfill (recompute solis_registry example_sum 0 (period_of utc (19758 * ns_day)) forced_options) []
      example_store = (Inr out, s')" "rp_skipped out = []"
    "\<forall>j \<in> set (job_spans 738920 0). \<forall>e \<in> set (registry_edges solis_registry (bj_level j)).
      \<exists>raw. level_rows (bj_level j) (s_db s') (e_target e, bj_key j) =
        Some (sum_rows example_sum ?d (e_source e) (bj_from j) (bj_to j), raw)"
    using backfill_returns [where agg = example_sum and ts = 0, OF pre(1,2) february_2024 example_year(2) pre(4)] pre(3,5)
    unfolding sk by auto
  from r(3) [rule_format, OF example_in, unfolded example_span span.simps, OF example_edge]
  have "\<exists>raw. level_rows Yearly (s_db s') (''pv_energy_yearly'', ''2024'') = Some (Fin 7, raw)" by (simp add: sm)
  with r show ?thesis by blast
qed

theorem backfill_recomputes_witness:
  "\<exists>s' raw. level_rows Yearly (s_db s') (''pv_energy_yearly'', ''2024'') = Some (Fin 7, raw) \<and>
    (\<exists>out. backfill (recompute solis_registry example_sum 0 (period_of utc (19758 * ns_day)) example_options) [] example_store
      = (Inr out, s'))"
proof -
  have "check_purged (s_meta example_store) (period_of utc (19758 * ns_day)) example_options = None"
    by (simp add: check_purged_def example_store_def new_meta_def)
  then obtain out s' where r:
    "backfill (recompute solis_registry example_sum 0 (period_of utc (19758 * ns_day)) example_options) [] example_store = (Inr out, s')"
    by (rule example_run)
  have sk: "\<not> skipped_span example_options (s_db example_store) (year_span 738920 2024)"
    by (simp add: skipped_span_def example_store_def min_day_def example_span)
  have sm: "sum_rows example_sum (s_db example_store) pv_key ''2024-01-01'' ''2024-02-05'' = Fin 7"
    by (simp add: sum_rows_def example_store_def example_sum_def)
  from backfill_recomputes [OF r february_2024 example_year(2), THEN conjunct1] example_in sk example_edge
  obtain raw where "level_rows Yearly (s_db s') (''pv_energy_yearly'', ''2024'') = Some (Fin 7, raw)"
    by (fastforce simp: example_options_def example_year example_span sm)
  with r show ?thesis by blast
qed

theorem backfill_keeps_the_rest_witness:
  "d_daily (s_db (snd (backfill (recompute solis_registry example_sum 0 (period_of utc (19758 * ns_day)) example_options) [] example_store)))
     = d_daily (s_db example_store)"
  using backfill_keeps_the_rest [OF surjective_pairing february_2024 example_year(2), of example_options]
  by (simp add: example_options_def example_year)

lemma kept_purged:
  assumes "cleanup_all cfg z now f1 f2 f3 demo_kept = (errs, s)"
  shows "m_purged (s_meta s) \<le> ''2024-01-01''"
proof -
  from assms obtain r1 s1 r2 s2 where
    1: "cleanup_periods (p_day (period_of z (now - set_daily_retention cfg))) f1 demo_kept = (r1, s1)" and
    2: "cleanup_status (now - set_error_retention cfg) f2 s1 = (r2, s2)" and
    3: "s_db s = s_db s2" "s_meta s = s_meta s2" by (rule cleanup_all_split)
  have "m_purged (s_meta demo_kept) = []" by (simp add: demo_kept_def new_meta_def)
  then have "m_purged (s_meta s1) \<le> ''2024-01-01''"
    using cleanup_periods_cases [OF 1] by (auto simp: demo_kept_open)
  then show ?thesis using cleanup_status_frame [OF 2] 3 by simp
qed

theorem backfill_after_cleanups_witness:
  "\<exists>s errs. cleanup_all \<lparr>set_daily_retention = 30 * ns_day, set_error_retention = ns_day\<rparr> utc (19788 * ns_day) [] [] False demo_kept
      = (errs, s) \<and>
    sum_rows example_sum (s_db s) pv_key ''2024-01-01'' ''2024-02-05''
      = sum_rows example_sum (s_db demo_kept) pv_key ''2024-01-01'' ''2024-02-05''"
proof -
  let ?cfg = "\<lparr>set_daily_retention = 30 * ns_day, set_error_retention = ns_day\<rparr>"
  obtain errs s where c: "cleanup_all ?cfg utc (19788 * ns_day) [] [] False demo_kept = (errs, s)" by fastforce
  have "add_years (p_year (period_of utc (19758 * ns_day))) 0 = Inr ''2024''"
    using add_years_key [of 2024 0] period_of_keys [of utc "19758 * ns_day"] february_2024 february_2024_date example_span
    by (simp add: civil_def year_ok_def year_span_def)
  then have "check_purged (s_meta s) (period_of utc (19758 * ns_day)) example_options = None"
    using leD [OF kept_purged [OF c]] by (simp add: check_purged_def example_options_def)
  then obtain out s' where r:
    "backfill (recompute solis_registry example_sum 0 (period_of utc (19758 * ns_day)) example_options) [] s = (Inr out, s')"
    by (rule example_run)
  have "(\<lambda>s s'. \<exists>cfg z now f1 f2 f3 errs. cleanup_all cfg z now f1 f2 f3 s = (errs, s'))\<^sup>*\<^sup>* demo_kept s"
    using c by (intro r_into_rtranclp) blast
  from backfill_after_cleanups [OF this r february_2024 example_year(2), of pv_key] example_in
  have "sum_rows example_sum (s_db s) pv_key ''2024-01-01'' ''2024-02-05''
      = sum_rows example_sum (s_db demo_kept) pv_key ''2024-01-01'' ''2024-02-05''"
    by (fastforce simp: example_options_def example_year example_span)
  with c show ?thesis by blast
qed

end
