(* ===== verification/Stamps.thy ===== *)
theory Stamps
  imports Calendar
begin

text \<open>
  Instants as text: period.TimestampLayout (status changes, storage/read_store.go and
  service/service.go), a fixed-width UTC format whose string order is the order of the instants
  in milliseconds.
\<close>

section \<open>The clock of a day\<close>

definition hour_of :: "int \<Rightarrow> int" where "hour_of c = c div ns_hour"
definition minute_of :: "int \<Rightarrow> int" where "minute_of c = c div ns_minute mod 60"
definition second_of :: "int \<Rightarrow> int" where "second_of c = c div ns_second mod 60"
definition milli_of :: "int \<Rightarrow> int" where "milli_of c = c mod ns_second div 1000000"

lemmas clock_defs = hour_of_def minute_of_def second_of_def milli_of_def

lemma clock_ranges:
  assumes "0 \<le> c" "c < ns_day"
  shows "0 \<le> hour_of c \<and> hour_of c < 24" "0 \<le> minute_of c \<and> minute_of c < 60"
    "0 \<le> second_of c \<and> second_of c < 60" "0 \<le> milli_of c \<and> milli_of c < 1000"
  using assms unfolding clock_defs by (simp_all, linarith+)

lemma clock_in_day: "0 \<le> clock_ns z t \<and> clock_ns z t < ns_day"
  by (simp add: clock_ns_def)

text \<open>The fields are the digits of the milliseconds of the day in the bases 24, 60, 60, 1000.\<close>

lemma clock_fields:
  assumes "0 \<le> c"
  shows "c div 1000000 = ((hour_of c * 60 + minute_of c) * 60 + second_of c) * 1000 + milli_of c"
proof -
  define s m where "s = c div ns_second" and "m = s div 60"
  have a: "c div ns_minute = m" "c div ns_hour = m div 60"
    by (simp_all add: s_def m_def zdiv_zmult2_eq [symmetric])
  have b: "s = m * 60 + s mod 60" "m = (m div 60) * 60 + m mod 60" by (simp_all add: m_def)
  have c: "c = s * ns_second + c mod ns_second" by (simp add: s_def)
  have "c div 1000000 = s * 1000 + c mod ns_second div 1000000"
    by (subst c) (simp add: div_add1_eq [of "s * ns_second"])
  then show ?thesis using a b unfolding clock_defs s_def [symmetric] a by simp
qed

lemma digits_less:
  fixes a b c :: int
  assumes "0 \<le> b" "b < n" "0 \<le> b'" "b' < n"
  shows "a * n + b < a' * n + b' \<longleftrightarrow> a < a' \<or> a = a' \<and> b < b'"
proof -
  have "a * n + b < a' * n + b'" if "a < a'"
  proof -
    have "a * n + n \<le> a' * n" using that assms mult_right_mono [of "a + 1" a' n]
      by (simp add: algebra_simps)
    then show ?thesis using assms by linarith
  qed
  moreover have "a' * n + b' < a * n + b" if "a' < a"
  proof -
    have "a' * n + n \<le> a * n" using that assms mult_right_mono [of "a' + 1" a n]
      by (simp add: algebra_simps)
    then show ?thesis using assms by linarith
  qed
  ultimately show ?thesis by (cases a a' rule: linorder_cases) fastforce+
qed

lemma digits_eq:
  fixes a b c :: int
  assumes "0 \<le> b" "b < n" "0 \<le> b'" "b' < n"
  shows "a * n + b = a' * n + b' \<longleftrightarrow> a = a' \<and> b = b'"
  using digits_less [OF assms, of a a'] digits_less [of b' n b a' a] assms by auto

lemma clock_less:
  assumes "0 \<le> c" "c < ns_day" "0 \<le> c'" "c' < ns_day"
  shows "c div 1000000 < c' div 1000000 \<longleftrightarrow> hour_of c < hour_of c' \<or> hour_of c = hour_of c' \<and>
    (minute_of c < minute_of c' \<or> minute_of c = minute_of c' \<and>
      (second_of c < second_of c' \<or> second_of c = second_of c' \<and> milli_of c < milli_of c'))"
  unfolding clock_fields [OF assms(1)] clock_fields [OF assms(3)]
  using clock_ranges [OF assms(1,2)] clock_ranges [OF assms(3,4)]
  by (simp only: digits_less digits_eq) blast

section \<open>period.TimestampLayout\<close>

definition fmt_clock :: "int \<Rightarrow> string" where
  "fmt_clock c = append_int (hour_of c) 2 @ '':'' @ append_int (minute_of c) 2 @ '':'' @
     append_int (second_of c) 2 @ ''.'' @ padded 3 (nat (milli_of c)) @ ''Z''"

definition fmt_stamp :: "int \<Rightarrow> string" where
  "fmt_stamp t = fmt_day (civil utc t) @ ''T'' @ fmt_clock (clock_ns utc t)"

text \<open>The milliseconds of an instant, which is what the text keeps of it.\<close>

definition ms_of :: "int \<Rightarrow> int" where
  "ms_of t = t div 1000000"

definition stamp_ok :: "int \<Rightarrow> bool" where
  "stamp_ok t \<longleftrightarrow> year_ok (dyear (civil utc t))"

lemma fmt_clock_padded:
  assumes "0 \<le> c" "c < ns_day"
  shows "fmt_clock c = padded 2 (nat (hour_of c)) @ '':'' @ padded 2 (nat (minute_of c)) @ '':'' @
     padded 2 (nat (second_of c)) @ ''.'' @ padded 3 (nat (milli_of c)) @ ''Z''"
  using clock_ranges [OF assms] by (simp add: fmt_clock_def key_simps)

lemma fmt_clock_less:
  assumes "0 \<le> c" "c < ns_day" "0 \<le> c'" "c' < ns_day"
  shows "fmt_clock c < fmt_clock c' \<longleftrightarrow> c div 1000000 < c' div 1000000"
  using clock_ranges [OF assms(1,2)] clock_ranges [OF assms(3,4)]
  by (simp add: clock_less [OF assms] fmt_clock_padded assms append_less_append_iff
      padded_less_iff padded_eq_iff nat_less_iff eq_nat_nat_iff) auto

lemma ms_split: "ms_of t = day_number (civil utc t) * 86400000 + clock_ns utc t div 1000000
    - epoch_day * 86400000"
proof -
  have "t = t div ns_day * ns_day + t mod ns_day" by simp
  then have "t div 1000000 = t div ns_day * 86400000 + t mod ns_day div 1000000"
    using div_add1_eq [of "t div ns_day * ns_day" "t mod ns_day" 1000000] by simp
  then show ?thesis
    by (simp add: ms_of_def civil_def day_index_def local_time_def utc_def clock_ns_def)
qed

lemma civil_valid [simp]: "valid_date (civil z t)"
  by (simp add: civil_def)

lemma length_fmt_day: "valid_date d \<Longrightarrow> year_ok (dyear d) \<Longrightarrow> length (fmt_day d) = 10"
  by (simp add: fmt_day_padded)

lemma fmt_day_inj:
  "valid_date d \<Longrightarrow> valid_date e \<Longrightarrow> year_ok (dyear d) \<Longrightarrow> year_ok (dyear e) \<Longrightarrow>
    fmt_day d = fmt_day e \<longleftrightarrow> d = e"
  using parse_day_fmt by (metis option.inject)

lemma ms_of_less_iff:
  "ms_of s < ms_of t \<longleftrightarrow> civil utc s < civil utc t \<or> civil utc s = civil utc t \<and>
     clock_ns utc s div 1000000 < clock_ns utc t div 1000000"
proof -
  have r: "0 \<le> clock_ns utc x div 1000000 \<and> clock_ns utc x div 1000000 < 86400000" for x
    using clock_in_day [of utc x] by linarith
  have "ms_of s < ms_of t \<longleftrightarrow> day_number (civil utc s) < day_number (civil utc t) \<or>
      day_number (civil utc s) = day_number (civil utc t) \<and>
      clock_ns utc s div 1000000 < clock_ns utc t div 1000000"
    unfolding ms_split [of s] ms_split [of t]
    using digits_less [of "clock_ns utc s div 1000000" 86400000 "clock_ns utc t div 1000000"
        "day_number (civil utc s)" "day_number (civil utc t)"] r [of s] r [of t] by linarith
  then show ?thesis by (simp add: day_number_less_iff) (metis civil_valid day_number_inj)
qed

lemma fmt_stamp_less:
  assumes "stamp_ok s" "stamp_ok t"
  shows "fmt_stamp s < fmt_stamp t \<longleftrightarrow> ms_of s < ms_of t"
proof -
  have y: "year_ok (dyear (civil utc s))" "year_ok (dyear (civil utc t))"
    using assms by (simp_all add: stamp_ok_def)
  have "length (fmt_day (civil utc s)) = length (fmt_day (civil utc t))"
    using y by (simp add: length_fmt_day)
  then show ?thesis
    using y clock_in_day [of utc s] clock_in_day [of utc t]
    by (simp add: fmt_stamp_def append_less_append_iff fmt_day_less_iff fmt_day_inj
        fmt_clock_less ms_of_less_iff)
qed

lemma fmt_stamp_le:
  "stamp_ok s \<Longrightarrow> stamp_ok t \<Longrightarrow> fmt_stamp s \<le> fmt_stamp t \<longleftrightarrow> ms_of s \<le> ms_of t"
  by (meson fmt_stamp_less leD leI)

lemma fmt_stamp_eq:
  "stamp_ok s \<Longrightarrow> stamp_ok t \<Longrightarrow> fmt_stamp s = fmt_stamp t \<longleftrightarrow> ms_of s = ms_of t"
  by (metis fmt_stamp_less less_irrefl linorder_less_linear)

end
