(* ===== verification/Service.thy ===== *)
theory Service
  imports PollerStore Hub Stamps Supervisor "HOL-Library.Multiset"
begin

text \<open>
  internal/storage/read_store.go, internal/history, internal/service and the handlers of
  internal/http/httphandler: what the API reads. The rows of a table come from the database
  of \<open>Store\<close>; a query fails or succeeds as the state says, with the failure a context has. The
  text of an instant is the one of \<open>Stamps\<close>; the instant of a total is kept as an instant.
\<close>

section \<open>Reading the store (storage/read_store.go, history/history.go)\<close>

definition max_error_rows :: nat where "max_error_rows = 50000"
definition max_period_rows :: nat where "max_period_rows = 10000"
definition max_year_rows :: nat where "max_year_rows = 1000"

text \<open>A Go time: the instant and its location.\<close>

record gtime =
  g_at :: int
  g_zone :: zone

definition format_key :: "gtime \<Rightarrow> level \<Rightarrow> string" where
  "format_key t l = period_key (period_of (g_zone t) (g_at t)) l"

record bounds =
  bo_key :: string
  bo_start :: gtime
  bo_end :: gtime
  bo_layout :: level
  bo_limit :: nat

record data_point =
  dp_period :: string
  dp_value :: float64
  dp_raw :: float64

record error_point =
  ep_stamp :: string
  ep_raw :: float64

record total_point =
  tp_value :: float64
  tp_raw :: float64
  tp_time :: int

datatype failure = Deadline | Canceled | QueryFailed

text \<open>
  \<open>WHERE register_key = ? AND col >= ? AND col <= ? ORDER BY col LIMIT ?\<close>, whose text order is
  the order of strings; \<open>col\<close> is the column's expression.
\<close>

definition range_query :: "bounds \<Rightarrow> (string \<Rightarrow> string) \<Rightarrow> rows \<Rightarrow> data_point list" where
  "range_query b col rs = take (bo_limit b) (sort_key dp_period
     (map (\<lambda>((k, p), v, r). \<lparr>dp_period = col p, dp_value = v, dp_raw = r\<rparr>)
       (filter (\<lambda>((k, p), v, r). k = bo_key b \<and> format_key (bo_start b) (bo_layout b) \<le> p \<and>
          p \<le> format_key (bo_end b) (bo_layout b)) rs)))"

definition get_daily_history :: "db \<Rightarrow> string \<Rightarrow> gtime \<Rightarrow> gtime \<Rightarrow> data_point list" where
  "get_daily_history d key s e = range_query
     \<lparr>bo_key = key, bo_start = s, bo_end = e, bo_layout = Daily, bo_limit = max_period_rows\<rparr>
     (take 10) (d_daily d)"

definition get_monthly_history :: "db \<Rightarrow> string \<Rightarrow> gtime \<Rightarrow> gtime \<Rightarrow> data_point list" where
  "get_monthly_history d key s e = range_query
     \<lparr>bo_key = key, bo_start = s, bo_end = e, bo_layout = Monthly, bo_limit = max_period_rows\<rparr>
     id (d_monthly d)"

definition get_yearly_history :: "db \<Rightarrow> string \<Rightarrow> gtime \<Rightarrow> gtime \<Rightarrow> data_point list" where
  "get_yearly_history d key s e = range_query
     \<lparr>bo_key = key, bo_start = s, bo_end = e, bo_layout = Yearly, bo_limit = max_year_rows\<rparr>
     id (d_yearly d)"

definition get_total_history :: "db \<Rightarrow> string \<Rightarrow> total_point option" where
  "get_total_history d key = map_option (\<lambda>(v, r, t). \<lparr>tp_value = v, tp_raw = r, tp_time = t\<rparr>)
     (map_of (d_total d) key)"

text \<open>
  The rows of \<open>error_data\<close> carry milliseconds; their text is the one the poller stored. The query
  orders them by text, newest first, and the slice is reversed.
\<close>

definition stamp_text :: "int \<Rightarrow> string" where
  "stamp_text ms = fmt_stamp (ms * 1000000)"

definition get_error_history :: "db \<Rightarrow> string \<Rightarrow> int \<Rightarrow> int \<Rightarrow> error_point list" where
  "get_error_history d key s e = rev (take max_error_rows (rev (sort_key ep_stamp
     (map (\<lambda>((k, ms), r). \<lparr>ep_stamp = stamp_text ms, ep_raw = r\<rparr>)
       (filter (\<lambda>((k, ms), r). k = key \<and> fmt_stamp s \<le> stamp_text ms \<and> stamp_text ms \<le> fmt_stamp e)
         (d_error d))))))"

text \<open>The JSON of a point rounds its values to two decimals.\<close>

definition marshal_point :: "data_point \<Rightarrow> data_point" where
  "marshal_point p = p\<lparr>dp_value := round_to_2_decimal_places (dp_value p),
     dp_raw := round_to_2_decimal_places (dp_raw p)\<rparr>"

section \<open>Errors of the service\<close>

datatype sentinel = ErrUnknownKey | ErrWrongKind | ErrNoData

datatype range_problem = NotATime string | StartAfterEnd string string

datatype service_error =
    SvcKeyError (ske_key: string) (ske_detail: string) (ske_err: sentinel)
  | InvalidRange range_problem
  | StoreError failure

fun sentinel_text :: "sentinel \<Rightarrow> string" where
  "sentinel_text ErrUnknownKey = ''unknown register key''"
| "sentinel_text ErrWrongKind = ''unsupported for register''"
| "sentinel_text ErrNoData = ''no data''"

text \<open>\<open>KeyError.Error\<close>\<close>

definition key_error_text :: "string \<Rightarrow> string \<Rightarrow> sentinel \<Rightarrow> string" where
  "key_error_text key detail e = (if detail = [] then sentinel_text e @ '': '' @ key
     else sentinel_text e @ '': '' @ key @ '' ('' @ detail @ '')'')"

section \<open>The read service (service/service.go)\<close>

text \<open>\<open>rs_fault\<close>: what the next query of the store returns, if it fails.\<close>

record read_service =
  rs_db :: db
  rs_fault :: "failure option"
  rs_cache :: cache
  rs_health :: snapshot
  rs_registry :: registry

definition queried :: "read_service \<Rightarrow> (db \<Rightarrow> 'a) \<Rightarrow> service_error + 'a" where
  "queried s f = (case rs_fault s of Some e \<Rightarrow> Inl (StoreError e) | None \<Rightarrow> Inr (f (rs_db s)))"

definition service_health :: "read_service \<Rightarrow> snapshot" where
  "service_health s = rs_health s"

definition service_keys :: "read_service \<Rightarrow> register list" where
  "service_keys s = sort_key reg_key (g_regs (rs_registry s))"

definition service_register :: "read_service \<Rightarrow> string \<Rightarrow> service_error + register" where
  "service_register s key = (case by_key (rs_registry s) key of
     None \<Rightarrow> Inl (SvcKeyError key [] ErrUnknownKey) | Some r \<Rightarrow> Inr r)"

definition current_value :: "read_service \<Rightarrow> string \<Rightarrow> service_error + reg_value" where
  "current_value s key = (case service_register s key of Inl e \<Rightarrow> Inl e
     | Inr r \<Rightarrow> (case cache_get (rs_cache s) key of
         None \<Rightarrow> Inl (SvcKeyError key ''no current value'' ErrNoData) | Some v \<Rightarrow> Inr v))"

definition require_store :: "read_service \<Rightarrow> string \<Rightarrow> Registers.store \<Rightarrow> service_error + unit" where
  "require_store s key want = (case service_register s key of Inl e \<Rightarrow> Inl e
     | Inr r \<Rightarrow> if reg_store r \<noteq> want
         then Inl (SvcKeyError key (''not a '' @ store_string want @ '' register'') ErrWrongKind)
         else Inr ())"

definition read_history :: "read_service \<Rightarrow> Registers.store \<Rightarrow> (db \<Rightarrow> string \<Rightarrow> gtime \<Rightarrow> gtime \<Rightarrow> 'a)
    \<Rightarrow> string \<Rightarrow> gtime \<Rightarrow> gtime \<Rightarrow> service_error + 'a" where
  "read_history s want get key st en = (case require_store s key want of Inl e \<Rightarrow> Inl e
     | Inr u \<Rightarrow> queried s (\<lambda>d. get d key st en))"

definition daily_history :: "read_service \<Rightarrow> string \<Rightarrow> gtime \<Rightarrow> gtime \<Rightarrow> service_error + data_point list" where
  "daily_history s = read_history s StoreDaily get_daily_history"

definition monthly_history :: "read_service \<Rightarrow> string \<Rightarrow> gtime \<Rightarrow> gtime \<Rightarrow> service_error + data_point list" where
  "monthly_history s = read_history s StoreMonthly get_monthly_history"

definition yearly_history :: "read_service \<Rightarrow> string \<Rightarrow> gtime \<Rightarrow> gtime \<Rightarrow> service_error + data_point list" where
  "yearly_history s = read_history s StoreYearly get_yearly_history"

definition service_total :: "read_service \<Rightarrow> string \<Rightarrow> service_error + total_point" where
  "service_total s key = (case require_store s key StoreTotal of Inl e \<Rightarrow> Inl e
     | Inr u \<Rightarrow> (case queried s (\<lambda>d. get_total_history d key) of Inl e \<Rightarrow> Inl e
         | Inr None \<Rightarrow> Inl (SvcKeyError key ''no total data'' ErrNoData)
         | Inr (Some p) \<Rightarrow> Inr p))"

record status_entry =
  se_stamp :: string
  se_status :: "Decoder.status"

record status_history =
  sh_key :: string
  sh_name :: string
  sh_history :: "status_entry list"

text \<open>\<open>lastIs\<close>: the newest stored change has the cached raw value.\<close>

definition last_is :: "error_point list \<Rightarrow> reg_value \<Rightarrow> bool" where
  "last_is points v \<longleftrightarrow> points \<noteq> [] \<and> feq (ep_raw (List.last points)) (v_raw v)"

definition min_time :: int where "min_time = midnight_utc (Date 1 1 1)"
definition max_time :: int where "max_time = midnight_utc (Date 9999 12 31)"

definition stored_entries :: "string \<Rightarrow> error_point list \<Rightarrow> status_entry list" where
  "stored_entries key points =
     map (\<lambda>p. \<lparr>se_stamp = ep_stamp p, se_status = decode_status key (f_to_uint16 (ep_raw p))\<rparr>) points"

definition cached_entry :: "read_service \<Rightarrow> string \<Rightarrow> error_point list \<Rightarrow> status_entry list" where
  "cached_entry s key points = (case cache_get (rs_cache s) key of None \<Rightarrow> []
     | Some v \<Rightarrow> (case v_status v of None \<Rightarrow> []
         | Some st \<Rightarrow> if last_is points v then []
             else [\<lparr>se_stamp = fmt_stamp (v_time v), se_status = st\<rparr>]))"

text \<open>\<open>sort.SliceStable\<close> with a descending order: equal elements keep their order.\<close>

definition newest_first :: "status_entry list \<Rightarrow> status_entry list" where
  "newest_first es = rev (sort_key se_stamp (rev es))"

definition read_status_history :: "read_service \<Rightarrow> string \<Rightarrow> service_error + status_history" where
  "read_status_history s key = (case require_store s key StoreStatus of Inl e \<Rightarrow> Inl e
     | Inr u \<Rightarrow>
        let name = (case by_key (rs_registry s) key of Some r \<Rightarrow> reg_name r | None \<Rightarrow> []);
            points = (case queried s (\<lambda>d. get_error_history d key min_time max_time) of
              Inl e \<Rightarrow> [] | Inr ps \<Rightarrow> ps)
        in Inr \<lparr>sh_key = key, sh_name = name,
             sh_history = newest_first (stored_entries key points @ cached_entry s key points)\<rparr>)"

section \<open>Answering /api/data (service/data.go)\<close>

definition default_history_window :: int where "default_history_window = 30 * 24 * ns_hour"

record data_query =
  dq_key :: string
  dq_start :: string
  dq_end :: string
  dq_now :: gtime

record data_result =
  dr_register :: register
  dr_current :: "reg_value option"
  dr_total :: "total_point option"
  dr_status :: "status_history option"
  dr_rows :: "data_point list"

definition new_result :: "register \<Rightarrow> data_result" where
  "new_result r = \<lparr>dr_register = r, dr_current = None, dr_total = None, dr_status = None, dr_rows = []\<rparr>"

definition history_capable :: "Registers.store \<Rightarrow> bool" where
  "history_capable s \<longleftrightarrow> s = StoreDaily \<or> s = StoreMonthly \<or> s = StoreYearly"

text \<open>The layouts are tried in this order; a parsed time is in UTC.\<close>

definition parse_time :: "string \<Rightarrow> gtime \<Rightarrow> service_error + gtime \<times> level option" where
  "parse_time s def = (if s = [] then Inr (def, None) else
     case parse_day s of Some d \<Rightarrow> Inr (\<lparr>g_at = midnight_utc d, g_zone = utc\<rparr>, Some Daily)
     | None \<Rightarrow> (case parse_month s of
         Some ym \<Rightarrow> Inr (\<lparr>g_at = month_start_time ym, g_zone = utc\<rparr>, Some Monthly)
       | None \<Rightarrow> (case parse_year s of
           Some y \<Rightarrow> Inr (\<lparr>g_at = midnight_utc (Date y 1 1), g_zone = utc\<rparr>, Some Yearly)
         | None \<Rightarrow> Inl (InvalidRange (NotATime s)))))"

definition range_end :: "gtime \<times> level option \<Rightarrow> gtime" where
  "range_end x = (case x of (e, l) \<Rightarrow> (case l of
       Some Monthly \<Rightarrow> e\<lparr>g_at := add_date (g_zone e) (g_at e) 0 1 (-1)\<rparr>
     | Some Yearly \<Rightarrow> e\<lparr>g_at := add_date (g_zone e) (g_at e) 1 0 (-1)\<rparr>
     | _ \<Rightarrow> e))"

definition parse_time_range :: "string \<Rightarrow> string \<Rightarrow> gtime \<Rightarrow> service_error + gtime \<times> gtime" where
  "parse_time_range st en now =
     (case parse_time st (now\<lparr>g_at := g_at now - default_history_window\<rparr>) of Inl e \<Rightarrow> Inl e
      | Inr (s, u) \<Rightarrow> (case parse_time en now of Inl e \<Rightarrow> Inl e
          | Inr x \<Rightarrow> let e = range_end x in
              if g_at e < g_at s
              then Inl (InvalidRange (StartAfterEnd (format_key s Daily) (format_key e Daily)))
              else Inr (s, e)))"

definition period_history :: "read_service \<Rightarrow> register \<Rightarrow> data_query \<Rightarrow> service_error + data_point list" where
  "period_history s reg q = (case parse_time_range (dq_start q) (dq_end q) (dq_now q) of Inl e \<Rightarrow> Inl e
     | Inr (st, en) \<Rightarrow>
        (if reg_store reg = StoreMonthly then monthly_history s (reg_key reg) st en
         else if reg_store reg = StoreYearly then yearly_history s (reg_key reg) st en
         else daily_history s (reg_key reg) st en))"

definition dispatch :: "read_service \<Rightarrow> register \<Rightarrow> data_query \<Rightarrow> bool \<Rightarrow> service_error + data_result" where
  "dispatch s reg q ranged = (let res = new_result reg in
     if reg_store reg = StoreTotal then
       (case service_total s (dq_key q) of Inl e \<Rightarrow> Inl e | Inr p \<Rightarrow> Inr (res\<lparr>dr_total := Some p\<rparr>))
     else if reg_store reg = StoreStatus then
       (case read_status_history s (dq_key q) of Inl e \<Rightarrow> Inl e
        | Inr h \<Rightarrow> Inr (res\<lparr>dr_status := Some h\<rparr>))
     else if ranged then
       (case period_history s reg q of Inl e \<Rightarrow> Inl e | Inr ps \<Rightarrow> Inr (res\<lparr>dr_rows := ps\<rparr>))
     else (case current_value s (dq_key q) of Inl e \<Rightarrow> Inl e
        | Inr v \<Rightarrow> Inr (res\<lparr>dr_current := Some v\<rparr>)))"

definition no_history_detail :: string where
  "no_history_detail = ''historical queries (start/end) are only supported for daily, '' @
     ''monthly and yearly registers''"

definition service_data :: "read_service \<Rightarrow> data_query \<Rightarrow> service_error + data_result" where
  "service_data s q = (case service_register s (dq_key q) of Inl e \<Rightarrow> Inl e
     | Inr reg \<Rightarrow> let ranged = dq_start q \<noteq> [] \<or> dq_end q \<noteq> [] in
        if ranged \<and> \<not> history_capable (reg_store reg)
        then Inl (SvcKeyError (dq_key q) no_history_detail ErrWrongKind)
        else dispatch s reg q ranged)"

section \<open>The handlers (http/httphandler)\<close>

fun error_status :: "service_error \<Rightarrow> nat" where
  "error_status (SvcKeyError k d ErrUnknownKey) = 404"
| "error_status (SvcKeyError k d ErrNoData) = 404"
| "error_status (SvcKeyError k d ErrWrongKind) = 400"
| "error_status (InvalidRange p) = 400"
| "error_status (StoreError Deadline) = 504"
| "error_status (StoreError Canceled) = 499"
| "error_status (StoreError QueryFailed) = 500"

datatype message = ErrorText service_error | ClientClosed | StatusText nat

record data_response =
  ds_key :: string
  ds_name :: string
  ds_unit :: string
  ds_value :: float64
  ds_raw :: float64
  ds_time :: int
  ds_status :: "Decoder.status option"

datatype body = DataBody data_response | StatusBody status_history | RowsBody "data_point list"
  | ErrorBody message nat

definition write_error :: "service_error \<Rightarrow> nat \<times> body" where
  "write_error e = (let status = error_status e in
     (status, ErrorBody (if status = 499 then ClientClosed else if 500 \<le> status then StatusText status
        else ErrorText e) status))"

definition new_data_response :: "reg_value \<Rightarrow> data_response" where
  "new_data_response v = \<lparr>ds_key = v_key v, ds_name = v_name v, ds_unit = v_unit v,
     ds_value = round_to_2_decimal_places (v_decoded v), ds_raw = round_to_2_decimal_places (v_raw v),
     ds_time = v_time v, ds_status = v_status v\<rparr>"

definition total_response :: "register \<Rightarrow> total_point \<Rightarrow> data_response" where
  "total_response r p = \<lparr>ds_key = reg_key r, ds_name = reg_name r, ds_unit = reg_unit r,
     ds_value = round_to_2_decimal_places (tp_value p), ds_raw = round_to_2_decimal_places (tp_raw p),
     ds_time = tp_time p, ds_status = None\<rparr>"

definition render :: "data_result \<Rightarrow> body" where
  "render res = (case dr_current res of Some v \<Rightarrow> DataBody (new_data_response v)
     | None \<Rightarrow> (case dr_total res of Some p \<Rightarrow> DataBody (total_response (dr_register res) p)
       | None \<Rightarrow> (case dr_status res of Some h \<Rightarrow> StatusBody h
         | None \<Rightarrow> RowsBody (map marshal_point (dr_rows res)))))"

definition get_data :: "read_service \<Rightarrow> data_query \<Rightarrow> nat \<times> body" where
  "get_data s q = (case service_data s q of Inl e \<Rightarrow> write_error e | Inr res \<Rightarrow> (200, render res))"

definition get_health :: "read_service \<Rightarrow> nat \<times> snapshot" where
  "get_health s = (let snap = service_health s in
     (if sn_status snap = StatusFailed then 503 else 200, snap))"

record register_info =
  ri_key :: string
  ri_name :: string
  ri_address :: "16 word"
  ri_type :: string
  ri_unit :: string
  ri_store :: string
  ri_description :: string

definition register_info_of :: "register \<Rightarrow> register_info" where
  "register_info_of r = (let desc = reg_name r @ '' ('' @ reg_unit r @ '')'' in
     \<lparr>ri_key = reg_key r, ri_name = reg_name r, ri_address = reg_address r,
      ri_type = data_type_string (reg_type r), ri_unit = reg_unit r, ri_store = store_string (reg_store r),
      ri_description = (if history_capable (reg_store r)
        then desc @ '' - Use with start/end query parameters for historical data'' else desc)\<rparr>)"

definition get_keys :: "read_service \<Rightarrow> register_info list" where
  "get_keys s = map register_info_of (service_keys s)"

section \<open>Ranges\<close>

text \<open>The days a parameter names: one day, a month or a year.\<close>

definition named_days :: "string \<Rightarrow> (date \<times> date) option" where
  "named_days s = (case parse_day s of Some d \<Rightarrow> Some (d, d)
     | None \<Rightarrow> (case parse_month s of Some (y, m) \<Rightarrow> Some (Date y m 1, Date y m (days_in y m))
       | None \<Rightarrow> (case parse_year s of Some y \<Rightarrow> Some (Date y 1 1, Date y 12 31) | None \<Rightarrow> None)))"

fun level_key :: "level \<Rightarrow> date \<Rightarrow> string" where
  "level_key Daily d = fmt_day d"
| "level_key Monthly d = fmt_month (dyear d) (dmonth d)"
| "level_key Yearly d = fmt_year (dyear d)"
| "level_key Total d = []"

definition utc_day :: "date \<Rightarrow> gtime" where
  "utc_day d = \<lparr>g_at = midnight_utc d, g_zone = utc\<rparr>"

lemma format_utc_day [simp]: "valid_date d \<Longrightarrow> format_key (utc_day d) l = level_key l d"
  by (cases d; cases l) (simp_all add: format_key_def utc_day_def period_of_def)

lemma utc_offset: "utc x = 0"
  by (simp add: utc_def)

lemma add_date_utc_midnight:
  "valid_date (Date y m d) \<Longrightarrow> add_date utc (midnight_utc (Date y m d)) a b c =
     (norm_days (y + a) (m + b) (d + c) - epoch_day) * ns_day"
  by (simp add: add_date_def time_date_def Let_def utc_offset)

lemma last_of_month:
  assumes "1 \<le> m" "m \<le> 12"
  shows "valid_date (Date y m (days_in y m))"
    "add_date utc (midnight_utc (Date y m 1)) 0 1 (-1) = midnight_utc (Date y m (days_in y m))"
proof -
  show "valid_date (Date y m (days_in y m))"
    using valid_first [OF assms] by (simp add: valid_date_def)
  have e: "(1::int) + -1 = 0" by simp
  have "norm_days y (m + 1) 0 = day_number (Date y m (days_in y m))"
  proof (cases "m = 12")
    case True
    then show ?thesis using year_start_Suc [of y]
      by (simp add: norm_days_def day_number_def days_in_def month_start_def)
  next
    case False
    then have "norm_days y (m + 1) (1 + -1) = day_number (Date y (m + 1) 1) + -1"
      using assms by (intro norm_days_valid) auto
    then show ?thesis by (simp add: day_number_def days_in_def)
  qed
  then show "add_date utc (midnight_utc (Date y m 1)) 0 1 (-1) = midnight_utc (Date y m (days_in y m))"
    using valid_first [OF assms, of y] by (simp add: add_date_utc_midnight) (simp add: midnight_utc_def)
qed

lemma last_of_year:
  "valid_date (Date y 12 31)"
  "add_date utc (midnight_utc (Date y 1 1)) 1 0 (-1) = midnight_utc (Date y 12 31)"
proof -
  show "valid_date (Date y 12 31)"
    by (simp add: valid_date_def days_in_def month_start_def)
  have "norm_days (y + 1) 1 (1 + -1) = day_number (Date (y + 1) 1 1) + -1"
    by (intro norm_days_valid) auto
  then have "norm_days (y + 1) 1 0 = day_number (Date y 12 31)"
    using year_start_Suc [of y] by (simp add: day_number_def month_start_def)
  then show "add_date utc (midnight_utc (Date y 1 1)) 1 0 (-1) = midnight_utc (Date y 12 31)"
    using valid_first [of 1 y] by (simp add: add_date_utc_midnight) (simp add: midnight_utc_def)
qed

lemma parse_time_named:
  assumes "named_days s = Some (a, b)"
  shows "\<exists>l. parse_time s def = Inr (utc_day a, l) \<and> range_end (utc_day a, l) = utc_day b"
    "valid_date a" "valid_date b" "year_ok (dyear a)" "year_ok (dyear b)"
proof -
  have ne: "s \<noteq> []"
    using assms by (auto simp: named_days_def parse_day_def parse_month_def parse_ym_def
        parse_year_def take_digits_def split: option.splits)
  consider (day) "parse_day s = Some a" "b = a"
    | (month) y m where "parse_day s = None" "parse_month s = Some (y, m)" "a = Date y m 1"
        "b = Date y m (days_in y m)"
    | (year) y where "parse_day s = None" "parse_month s = None" "parse_year s = Some y"
        "a = Date y 1 1" "b = Date y 12 31"
    using assms by (auto simp: named_days_def split: option.splits)
  then have "(\<exists>l. parse_time s def = Inr (utc_day a, l) \<and> range_end (utc_day a, l) = utc_day b) \<and>
    valid_date a \<and> valid_date b \<and> year_ok (dyear a) \<and> year_ok (dyear b)"
  proof cases
    case day
    then show ?thesis using ne parse_day_Some [OF day(1)]
      by (simp add: parse_time_def utc_day_def range_end_def)
  next
    case month
    have m: "year_ok y" "1 \<le> m" "m \<le> 12" using parse_month_Some [OF month(2)] by auto
    then show ?thesis using ne month last_of_month [of m y] valid_first [of m y]
      by (simp add: parse_time_def utc_day_def range_end_def month_start_time_def)
  next
    case year
    then show ?thesis using ne parse_year_Some [OF year(3)] last_of_year [of y] valid_first [of 1 y]
      by (simp add: parse_time_def utc_day_def range_end_def)
  qed
  then show "\<exists>l. parse_time s def = Inr (utc_day a, l) \<and> range_end (utc_day a, l) = utc_day b"
    "valid_date a" "valid_date b" "year_ok (dyear a)" "year_ok (dyear b)"
    by blast+
qed

lemma midnight_utc_le: "valid_date a \<Longrightarrow> valid_date b \<Longrightarrow> midnight_utc a \<le> midnight_utc b \<longleftrightarrow> a \<le> b"
  by (simp add: midnight_utc_def) (meson day_number_less_iff linorder_not_less)

lemma parse_time_range_named:
  assumes "named_days st = Some (a, a')" "named_days en = Some (b', b)" "a \<le> b"
  shows "parse_time_range st en now = Inr (utc_day a, utc_day b)"
proof -
  obtain l l' where p: "parse_time st (now\<lparr>g_at := g_at now - default_history_window\<rparr>) = Inr (utc_day a, l)"
      "parse_time en now = Inr (utc_day b', l')" "range_end (utc_day b', l') = utc_day b"
    using parse_time_named(1) [OF assms(1)] parse_time_named(1) [OF assms(2)] by blast
  have "midnight_utc a \<le> midnight_utc b"
    using midnight_utc_le assms(3) parse_time_named(2) [OF assms(1)] parse_time_named(3) [OF assms(2)]
    by blast
  then show ?thesis
    unfolding parse_time_range_def p sum.case prod.case Let_def p(3)
    by (simp add: utc_day_def)
qed

text \<open>Without both ends in the same location the comparison is one of instants: today, in a zone
  east of UTC and before its offset has passed, is refused as the start of an open range.\<close>

theorem today_refused_east_of_utc:
  assumes "clock_ns z t < z t" "year_ok (dyear (civil z t))"
  shows "parse_time_range (fmt_day (civil z t)) [] \<lparr>g_at = t, g_zone = z\<rparr> =
    Inl (InvalidRange (StartAfterEnd (fmt_day (civil z t)) (fmt_day (civil z t))))"
proof -
  define d where "d = civil z t"
  have v: "valid_date d" "year_ok (dyear d)" using assms by (simp_all add: d_def)
  have ne: "fmt_day d \<noteq> []" using length_fmt_day [OF v] by auto
  have "t + z t = (day_number d - epoch_day) * ns_day + clock_ns z t"
    by (simp add: d_def civil_def day_index_def clock_ns_def local_time_def)
  then have lt: "t < midnight_utc d" using assms(1) by (simp add: midnight_utc_def)
  have f: "format_key \<lparr>g_at = t, g_zone = z\<rparr> Daily = fmt_day d"
    by (cases d) (simp add: format_key_def period_of_def d_def [symmetric])
  show ?thesis
    using lt f ne parse_day_fmt [OF v] format_utc_day [OF v(1), of Daily]
    by (simp add: parse_time_range_def parse_time_def range_end_def d_def [symmetric] utc_day_def)
qed

lemma today_refused_at_half_past_midnight:
  "parse_time_range (fmt_day (civil (\<lambda>_. ns_hour) (midnight_utc (Date 2024 1 5) - 30 * ns_minute))) []
      \<lparr>g_at = midnight_utc (Date 2024 1 5) - 30 * ns_minute, g_zone = (\<lambda>_. ns_hour)\<rparr>
    = Inl (InvalidRange (StartAfterEnd ''2024-01-05'' ''2024-01-05''))"
proof -
  have c: "civil (\<lambda>_. ns_hour) (midnight_utc (Date 2024 1 5) - 30 * ns_minute) = Date 2024 1 5"
    "clock_ns (\<lambda>_. ns_hour) (midnight_utc (Date 2024 1 5) - 30 * ns_minute) < ns_hour"
    "fmt_day (Date 2024 1 5) = ''2024-01-05''"
    by code_simp+
  show ?thesis using today_refused_east_of_utc [OF c(2)] unfolding c by (simp add: year_ok_def)
qed

section \<open>The rows of a range\<close>

definition level_rows :: "level \<Rightarrow> db \<Rightarrow> rows" where
  "level_rows l d = (case l of Daily \<Rightarrow> d_daily d | Monthly \<Rightarrow> d_monthly d | Yearly \<Rightarrow> d_yearly d | Total \<Rightarrow> [])"

definition row_cap :: "level \<Rightarrow> nat" where
  "row_cap l = (case l of Yearly \<Rightarrow> max_year_rows | _ \<Rightarrow> max_period_rows)"

definition point_of :: "string \<Rightarrow> float64 \<times> float64 \<Rightarrow> data_point" where
  "point_of p x = \<lparr>dp_period = p, dp_value = fst x, dp_raw = snd x\<rparr>"

lemma sorted_distinct_keys:
  "distinct (map f xs) \<Longrightarrow> sorted_wrt (<) (map f (sort_key f xs))"
  by (simp add: strict_sorted_iff sorted_sort_key distinct_map)

lemma take_all_filter: "length (filter P xs) \<le> n \<Longrightarrow> take n (sort_key f (map g (filter P xs))) = sort_key f (map g (filter P xs))"
  by (intro take_all) simp

lemma range_query_exact:
  assumes "distinct (map fst rs)" "length (filter (\<lambda>((k, p), x). k = bo_key b) rs) \<le> bo_limit b"
    and col: "\<And>k p x. ((k, p), x) \<in> set rs \<Longrightarrow> col p = p"
    and lo: "format_key (bo_start b) (bo_layout b) = lo" and hi: "format_key (bo_end b) (bo_layout b) = hi"
  shows "sorted_wrt (<) (map dp_period (range_query b col rs))"
    "set (range_query b col rs) = {point_of p x | p x. ((bo_key b, p), x) \<in> set rs \<and> lo \<le> p \<and> p \<le> hi}"
proof -
  define P where "P = (\<lambda>((k, p), v :: float64, r :: float64). k = bo_key b \<and> lo \<le> p \<and> p \<le> hi)"
  define g where "g = (\<lambda>((k :: string, p), v, r). \<lparr>dp_period = col p, dp_value = v, dp_raw = r\<rparr>)"
  have "length (filter P rs) \<le> length (filter (\<lambda>((k, p), x). k = bo_key b) rs)"
    unfolding P_def by (induction rs) auto
  then have q: "range_query b col rs = sort_key dp_period (map g (filter P rs))"
    using assms(2) unfolding range_query_def lo hi P_def [symmetric] g_def [symmetric]
    by (intro take_all) simp
  have key: "dp_period (g e) = snd (fst e) \<and> fst (fst e) = bo_key b" if "e \<in> set (filter P rs)" for e
    using that col by (auto simp: g_def P_def)
  have "inj_on (dp_period \<circ> g) (set (filter P rs))"
  proof (rule inj_onI)
    fix e e' assume e: "e \<in> set (filter P rs)" "e' \<in> set (filter P rs)" "(dp_period \<circ> g) e = (dp_period \<circ> g) e'"
    then have "fst e = fst e'" using key [OF e(1)] key [OF e(2)] by (auto intro: prod_eqI)
    with e show "e = e'" using assms(1) by (auto simp: distinct_map inj_on_def)
  qed
  moreover have "distinct (filter P rs)" using assms(1) by (simp add: distinct_map)
  ultimately have "distinct (map dp_period (map g (filter P rs)))"
    by (simp add: distinct_map comp_inj_on_iff)
  then show "sorted_wrt (<) (map dp_period (range_query b col rs))"
    unfolding q by (rule sorted_distinct_keys)
  show "set (range_query b col rs) = {point_of p x | p x. ((bo_key b, p), x) \<in> set rs \<and> lo \<le> p \<and> p \<le> hi}"
    using col by (fastforce simp: q g_def P_def point_of_def image_iff)
qed

lemma period_read:
  assumes "by_key (rs_registry s) key = Some reg" "reg_key reg = key" "rs_fault s = None"
    and "store_level (reg_store reg) = Some l" "l \<noteq> Total"
    and "parse_time_range (dq_start q) (dq_end q) (dq_now q) = Inr (x, y)"
  shows "period_history s reg q = Inr (range_query \<lparr>bo_key = key, bo_start = x, bo_end = y,
    bo_layout = l, bo_limit = row_cap l\<rparr> (if l = Daily then take 10 else id) (level_rows l (rs_db s)))"
proof -
  have "reg_store reg = store_for_level l"
    using assms(4) by (cases "reg_store reg") auto
  then show ?thesis using assms
    by (cases l) (simp_all add: period_history_def daily_history_def monthly_history_def yearly_history_def
        read_history_def require_store_def service_register_def queried_def get_daily_history_def
        get_monthly_history_def get_yearly_history_def row_cap_def level_rows_def)
qed

lemma ranged_data:
  assumes "by_key (rs_registry s) (dq_key q) = Some reg" "dq_start q \<noteq> []"
    and "store_level (reg_store reg) = Some l" "l \<noteq> Total"
  shows "service_data s q = map_sum id (\<lambda>ps. (new_result reg)\<lparr>dr_rows := ps\<rparr>) (period_history s reg q)"
  using assms
  by (cases "reg_store reg") (auto simp: service_data_def service_register_def history_capable_def
      dispatch_def Let_def split: sum.split)

lemma named_nonempty: "named_days [] = None"
  by (simp add: named_days_def parse_day_def parse_month_def parse_ym_def
      parse_year_def take_digits_def)

text \<open>C27: A range request returns exactly the stored rows of the key whose period lies between the
  first day its start names and the last day its end names (a month or a year as an end covers
  all of it), each once and in ascending order, as long as the key has at most as many rows as
  the table's cap.\<close>

theorem history_exact:
  assumes "by_key (rs_registry s) (dq_key q) = Some reg" "reg_key reg = dq_key q" "rs_fault s = None"
    and "store_level (reg_store reg) = Some l" "l \<noteq> Total"
    and "named_days (dq_start q) = Some (a, a')" "named_days (dq_end q) = Some (b', b)" "a \<le> b"
    and "distinct (map fst (level_rows l (rs_db s)))"
    and "\<And>k p x. ((k, p), x) \<in> set (d_daily (rs_db s)) \<Longrightarrow> length p = 10"
    and "length (filter (\<lambda>((k, p), x). k = dq_key q) (level_rows l (rs_db s))) \<le> row_cap l"
  shows "\<exists>ps. service_data s q = Inr ((new_result reg)\<lparr>dr_rows := ps\<rparr>) \<and>
    sorted_wrt (<) (map dp_period ps) \<and>
    set ps = {point_of p x | p x. ((dq_key q, p), x) \<in> set (level_rows l (rs_db s)) \<and>
      level_key l a \<le> p \<and> p \<le> level_key l b}"
proof -
  have v: "valid_date a" "valid_date b"
    using parse_time_named(2) [OF assms(6)] parse_time_named(3) [OF assms(7)] .
  have ne: "dq_start q \<noteq> []" using assms(6) by (auto simp: named_nonempty)
  define bo where "bo = \<lparr>bo_key = dq_key q, bo_start = utc_day a, bo_end = utc_day b,
    bo_layout = l, bo_limit = row_cap l\<rparr>"
  define col where "col = (if l = Daily then take 10 else (id :: string \<Rightarrow> string))"
  have r: "parse_time_range (dq_start q) (dq_end q) (dq_now q) = Inr (utc_day a, utc_day b)"
    by (rule parse_time_range_named [OF assms(6-8)])
  have "period_history s reg q = Inr (range_query bo col (level_rows l (rs_db s)))"
    unfolding bo_def col_def by (rule period_read [OF assms(1-5) r])
  moreover have "col p = p" if "((k, p), x) \<in> set (level_rows l (rs_db s))" for k p x
    using that assms(10) by (cases "l = Daily") (auto simp: col_def level_rows_def)
  ultimately show ?thesis
    using range_query_exact [of "level_rows l (rs_db s)" bo col "level_key l a" "level_key l b"] assms(9,11) v
    unfolding ranged_data [OF assms(1) ne assms(4,5)]
    by (intro exI [of _ "range_query bo col (level_rows l (rs_db s))"]) (simp add: bo_def)
qed

section \<open>Status histories\<close>

lemma mset_newest_first [simp]: "mset (newest_first es) = mset es"
  by (simp add: newest_first_def)

lemma sorted_newest_first: "sorted_wrt (\<ge>) (map se_stamp (newest_first es))"
  using sorted_sort_key [of se_stamp "rev es"]
  by (simp add: newest_first_def rev_map [symmetric] sorted_wrt_rev)

lemma newest_first_stable:
  "filter (\<lambda>e. se_stamp e = t) (newest_first es) = filter (\<lambda>e. se_stamp e = t) es"
  by (simp add: newest_first_def rev_filter [symmetric] sort_key_stable)

text \<open>The stored changes of a key, their instants within the years that have a text.\<close>

definition changes :: "string \<Rightarrow> db \<Rightarrow> (int \<times> float64) list" where
  "changes key d = map (\<lambda>((k, ms), r). (ms, r)) (filter (\<lambda>((k, ms), r). k = key) (d_error d))"

definition change_ok :: "int \<Rightarrow> bool" where
  "change_ok ms \<longleftrightarrow> min_time \<le> ms * 1000000 \<and> ms * 1000000 \<le> max_time"

lemma civil_mono: "s \<le> t \<Longrightarrow> civil utc s \<le> civil utc t"
proof -
  assume "s \<le> t"
  then have "day_index utc s \<le> day_index utc t"
    by (simp add: day_index_def local_time_def utc_def zdiv_mono1)
  then show ?thesis unfolding civil_def by (metis date_of_less_iff not_le)
qed

lemma stamp_ok_between:
  assumes "min_time \<le> t" "t \<le> max_time"
  shows "stamp_ok t"
proof -
  have "civil utc min_time = Date 1 1 1" "civil utc max_time = Date 9999 12 31"
    unfolding min_time_def max_time_def using last_of_year [of 9999] valid_first [of 1 1] by simp_all
  then have "Date 1 1 1 \<le> civil utc t" "civil utc t \<le> Date 9999 12 31"
    using civil_mono [OF assms(1)] civil_mono [OF assms(2)] by simp_all
  then show ?thesis
    by (cases "civil utc t") (auto simp: stamp_ok_def year_ok_def less_eq_date_def less_date_def)
qed

lemma ms_of_mult [simp]: "ms_of (ms * 1000000) = ms"
  by (simp add: ms_of_def)

lemma stamp_text_less:
  "change_ok m \<Longrightarrow> change_ok n \<Longrightarrow> stamp_text m < stamp_text n \<longleftrightarrow> m < n"
  using stamp_ok_between by (simp add: stamp_text_def change_ok_def fmt_stamp_less)

lemma stamp_text_inj:
  "change_ok m \<Longrightarrow> change_ok n \<Longrightarrow> stamp_text m = stamp_text n \<longleftrightarrow> m = n"
  using stamp_text_less by (metis less_irrefl linorder_less_linear)

lemma stamp_text_window:
  assumes "change_ok ms"
  shows "fmt_stamp min_time \<le> stamp_text ms" "stamp_text ms \<le> fmt_stamp max_time"
proof -
  have m: "min_time \<le> max_time" by (simp add: min_time_def max_time_def midnight_utc_def day_number_def
        year_start_def month_start_def epoch_day_def leap_day_def)
  have ok: "stamp_ok min_time" "stamp_ok max_time" "stamp_ok (ms * 1000000)"
    using m assms by (auto intro: stamp_ok_between simp: change_ok_def)
  show "fmt_stamp min_time \<le> stamp_text ms" "stamp_text ms \<le> fmt_stamp max_time"
    using assms ok unfolding stamp_text_def change_ok_def
    by (simp_all add: fmt_stamp_le ms_of_def zdiv_mono1 del: ms_of_mult)
      (use zdiv_mono1 [of min_time "ms * 1000000" 1000000] zdiv_mono1 [of "ms * 1000000" max_time 1000000] in auto)
qed

definition error_of :: "int \<times> float64 \<Rightarrow> error_point" where
  "error_of x = \<lparr>ep_stamp = stamp_text (fst x), ep_raw = snd x\<rparr>"

lemma error_history_all:
  assumes "\<And>ms r. (ms, r) \<in> set (changes key d) \<Longrightarrow> change_ok ms"
    "length (changes key d) \<le> max_error_rows"
  shows "get_error_history d key min_time max_time = sort_key ep_stamp (map error_of (changes key d))"
proof -
  define P where "P = (\<lambda>((k, ms), r :: float64). k = key \<and> fmt_stamp min_time \<le> stamp_text ms \<and>
      stamp_text ms \<le> fmt_stamp max_time)"
  have w: "change_ok ms" if "((key, ms), r) \<in> set (d_error d)" for ms r
    using assms(1) [of ms r] that by (force simp: changes_def)
  have f: "filter P (d_error d) = filter (\<lambda>((k, ms), r). k = key) (d_error d)"
    using w stamp_text_window by (intro filter_cong refl) (auto simp: P_def)
  have m: "map (\<lambda>((k, ms), r). \<lparr>ep_stamp = stamp_text ms, ep_raw = r\<rparr>)
      (filter (\<lambda>((k, ms), r). k = key) (d_error d)) = map error_of (changes key d)"
    by (auto simp: changes_def error_of_def)
  have "length (changes key d) \<le> max_error_rows" by (rule assms(2))
  then show ?thesis
    unfolding get_error_history_def P_def [symmetric] f m by simp
qed

lemma last_sort_key:
  assumes "x \<in> set xs" "\<And>y. y \<in> set xs \<Longrightarrow> y \<noteq> x \<Longrightarrow> f y < f x"
  shows "List.last (sort_key f xs) = x"
proof -
  have ne: "sort_key f xs \<noteq> []" using assms(1) by (metis empty_iff list.set(1) set_sort)
  define m where "m = List.last (sort_key f xs)"
  have m: "m \<in> set xs" using last_in_set [OF ne] by (simp add: m_def)
  obtain ys where ys: "sort_key f xs = ys @ [m]" using ne append_butlast_last_id m_def by metis
  have "f x \<le> f m"
  proof (cases "x = m")
    case False
    then have "x \<in> set ys" using assms(1) ys by (metis Un_iff empty_iff list.set(1) set_ConsD set_append set_sort)
    then show ?thesis using sorted_sort_key [of f xs] by (simp add: ys sorted_append)
  qed simp
  then show ?thesis using assms(2) [OF m] m_def by fastforce
qed

lemma last_is_iff:
  assumes "\<And>ms r. (ms, r) \<in> set (changes key d) \<Longrightarrow> change_ok ms" "distinct (map fst (changes key d))"
  shows "last_is (sort_key ep_stamp (map error_of (changes key d))) v \<longleftrightarrow>
    (\<exists>ms r. (ms, r) \<in> set (changes key d) \<and> (\<forall>x \<in> set (changes key d). fst x \<le> ms) \<and> feq r (v_raw v))"
proof (cases "changes key d = []")
  case True
  then show ?thesis by (simp add: last_is_def)
next
  case False
  define cs where "cs = changes key d"
  define ms where "ms = Max (set (map fst cs))"
  have mx: "ms \<in> set (map fst cs)" "\<And>x. x \<in> set cs \<Longrightarrow> fst x \<le> ms"
    using False by (simp_all add: ms_def cs_def)
  then obtain r where r: "(ms, r) \<in> set cs" by auto
  have uniq: "x = (ms, r)" if "x \<in> set cs" "fst x = ms" for x
    using that r assms(2) by (metis cs_def distinct_map fst_conv inj_onD)
  have "List.last (sort_key ep_stamp (map error_of cs)) = error_of (ms, r)"
  proof (rule last_sort_key)
    show "error_of (ms, r) \<in> set (map error_of cs)" using r by simp
    fix y assume y: "y \<in> set (map error_of cs)" "y \<noteq> error_of (ms, r)"
    then obtain x where x: "x \<in> set cs" "y = error_of x" by auto
    then have "fst x < ms" using y uniq [of x] mx(2) [of x] by fastforce
    moreover have "change_ok (fst x)" "change_ok ms"
      using assms(1) [of "fst x" "snd x"] assms(1) [of ms r] x r by (auto simp: cs_def)
    ultimately show "ep_stamp y < ep_stamp (error_of (ms, r))"
      using x stamp_text_less by (simp add: error_of_def)
  qed
  then have "last_is (sort_key ep_stamp (map error_of cs)) v \<longleftrightarrow> feq r (v_raw v)"
    using False by (simp add: last_is_def error_of_def cs_def) (metis list.map_disc_iff set_empty set_sort)
  also have "\<dots> \<longleftrightarrow> (\<exists>ms r. (ms, r) \<in> set cs \<and> (\<forall>x \<in> set cs. fst x \<le> ms) \<and> feq r (v_raw v))"
  proof
    assume "feq r (v_raw v)"
    then show "\<exists>ms r. (ms, r) \<in> set cs \<and> (\<forall>x \<in> set cs. fst x \<le> ms) \<and> feq r (v_raw v)"
      using r mx(2) by blast
  next
    assume "\<exists>ms r. (ms, r) \<in> set cs \<and> (\<forall>x \<in> set cs. fst x \<le> ms) \<and> feq r (v_raw v)"
    then obtain m' r' where a: "(m', r') \<in> set cs" "\<forall>x \<in> set cs. fst x \<le> m'" "feq r' (v_raw v)"
      by blast
    then have "m' = ms" using r mx(2) [OF a(1)] by fastforce
    then show "feq r (v_raw v)" using uniq [OF a(1)] a(3) by simp
  qed
  finally show ?thesis by (simp add: cs_def)
qed

definition entry_of :: "string \<Rightarrow> int \<times> float64 \<Rightarrow> status_entry" where
  "entry_of key x = \<lparr>se_stamp = stamp_text (fst x), se_status = decode_status key (f_to_uint16 (snd x))\<rparr>"

lemma stored_entries_sorted:
  "mset (stored_entries key (sort_key ep_stamp (map error_of cs))) = mset (map (entry_of key) cs)"
  by (simp add: stored_entries_def image_mset.compositionality error_of_def
      entry_of_def [abs_def] comp_def)

text \<open>C29: The history of a status key lists, newest first, every stored change decoded, and the
  cached state exactly when the newest stored change does not already record it; a store that
  fails leaves the cached state. It holds for a key with at most 50000 stored changes, the row
  limit of the query, with distinct timestamps the database can read back.\<close>

theorem status_history_exact:
  assumes "by_key (rs_registry s) key = Some reg" "reg_store reg = StoreStatus"
    and "\<And>ms r. (ms, r) \<in> set (changes key (rs_db s)) \<Longrightarrow> change_ok ms"
    and "distinct (map fst (changes key (rs_db s)))" "length (changes key (rs_db s)) \<le> max_error_rows"
  shows "\<exists>h. read_status_history s key = Inr h \<and> sh_key h = key \<and> sh_name h = reg_name reg \<and>
    sorted_wrt (\<ge>) (map se_stamp (sh_history h)) \<and>
    mset (sh_history h) = (if rs_fault s = None then mset (map (entry_of key) (changes key (rs_db s))) else {#}) +
      (case cache_get (rs_cache s) key of None \<Rightarrow> {#}
       | Some v \<Rightarrow> (case v_status v of None \<Rightarrow> {#}
         | Some st \<Rightarrow> if rs_fault s = None \<and> (\<exists>ms r. (ms, r) \<in> set (changes key (rs_db s)) \<and>
               (\<forall>x \<in> set (changes key (rs_db s)). fst x \<le> ms) \<and> feq r (v_raw v)) then {#}
             else {#\<lparr>se_stamp = fmt_stamp (v_time v), se_status = st\<rparr>#}))"
proof -
  define points where "points = (if rs_fault s = None
    then sort_key ep_stamp (map error_of (changes key (rs_db s))) else [])"
  have req: "require_store s key StoreStatus = Inr ()"
    using assms(1,2) by (simp add: require_store_def service_register_def)
  have p: "(case queried s (\<lambda>d. get_error_history d key min_time max_time) of
      Inl e \<Rightarrow> [] | Inr ps \<Rightarrow> ps) = points"
    using error_history_all [OF assms(3,5)]
    by (auto simp: queried_def points_def split: option.splits)
  have li: "last_is points v \<longleftrightarrow> rs_fault s = None \<and> (\<exists>ms r. (ms, r) \<in> set (changes key (rs_db s)) \<and>
      (\<forall>x \<in> set (changes key (rs_db s)). fst x \<le> ms) \<and> feq r (v_raw v))" for v
    using last_is_iff [OF assms(3,4)] by (auto simp: points_def last_is_def)
  have st: "mset (stored_entries key points) =
      (if rs_fault s = None then mset (map (entry_of key) (changes key (rs_db s))) else {#})"
    unfolding points_def using stored_entries_sorted by (auto simp: stored_entries_def)
  define h where "h = \<lparr>sh_key = key, sh_name = reg_name reg,
    sh_history = newest_first (stored_entries key points @ cached_entry s key points)\<rparr>"
  have "read_status_history s key = Inr h"
    unfolding read_status_history_def req sum.case p Let_def using assms(1) by (simp add: h_def)
  moreover have "mset (cached_entry s key points) = (case cache_get (rs_cache s) key of None \<Rightarrow> {#}
       | Some v \<Rightarrow> (case v_status v of None \<Rightarrow> {#}
         | Some st \<Rightarrow> if rs_fault s = None \<and> (\<exists>ms r. (ms, r) \<in> set (changes key (rs_db s)) \<and>
               (\<forall>x \<in> set (changes key (rs_db s)). fst x \<le> ms) \<and> feq r (v_raw v)) then {#}
             else {#\<lparr>se_stamp = fmt_stamp (v_time v), se_status = st\<rparr>#}))"
    unfolding cached_entry_def li by (auto split: option.split)
  ultimately show ?thesis
    by (intro exI [of _ h]) (simp add: h_def st sorted_newest_first)
qed

section \<open>Answers\<close>

text \<open>The instants of a request's range, and the requests whose range is refused.\<close>

definition range_from :: "data_query \<Rightarrow> int" where
  "range_from q = (case named_days (dq_start q) of Some (a, b) \<Rightarrow> midnight_utc a
     | None \<Rightarrow> g_at (dq_now q) - default_history_window)"

definition range_to :: "data_query \<Rightarrow> int" where
  "range_to q = (case named_days (dq_end q) of Some (a, b) \<Rightarrow> midnight_utc b | None \<Rightarrow> g_at (dq_now q))"

definition bad_range :: "data_query \<Rightarrow> bool" where
  "bad_range q \<longleftrightarrow> dq_start q \<noteq> [] \<and> named_days (dq_start q) = None \<or>
     dq_end q \<noteq> [] \<and> named_days (dq_end q) = None \<or> range_to q < range_from q"

lemma parse_time_None: "named_days s = None \<Longrightarrow> s \<noteq> [] \<Longrightarrow> parse_time s def = Inl (InvalidRange (NotATime s))"
  by (auto simp: named_days_def parse_time_def split: option.splits prod.splits)

lemma parse_time_empty: "parse_time [] def = Inr (def, None)"
  by (simp add: parse_time_def)

lemma parse_time_cases:
  "(named_days s = None \<and> s \<noteq> [] \<and> parse_time s def = Inl (InvalidRange (NotATime s))) \<or>
   (s = [] \<and> parse_time s def = Inr (def, None)) \<or>
   (\<exists>a b l. named_days s = Some (a, b) \<and> s \<noteq> [] \<and> parse_time s def = Inr (utc_day a, l) \<and>
     range_end (utc_day a, l) = utc_day b)"
proof (cases "named_days s")
  case None
  then show ?thesis using parse_time_None parse_time_empty by (cases "s = []") auto
next
  case (Some x)
  then obtain a b where "named_days s = Some (a, b)" by (cases x) auto
  moreover from this have "s \<noteq> []" by (auto simp: named_nonempty)
  ultimately show ?thesis using parse_time_named(1) [of s a b def] by blast
qed

lemma range_end_None: "range_end (e, None) = e"
  by (simp add: range_end_def)

lemma bad_range_iff:
  "(\<exists>p. parse_time_range (dq_start q) (dq_end q) (dq_now q) = Inl (InvalidRange p)) \<longleftrightarrow> bad_range q"
  "(\<exists>x. parse_time_range (dq_start q) (dq_end q) (dq_now q) = Inr x) \<longleftrightarrow> \<not> bad_range q"
proof -
  let ?def = "(dq_now q)\<lparr>g_at := g_at (dq_now q) - default_history_window\<rparr>"
  have "(if bad_range q then \<exists>p. parse_time_range (dq_start q) (dq_end q) (dq_now q) = Inl (InvalidRange p)
     else \<exists>x. parse_time_range (dq_start q) (dq_end q) (dq_now q) = Inr x)"
    using parse_time_cases [of "dq_start q" ?def]
  proof (elim disjE conjE exE)
    assume "named_days (dq_start q) = None" "dq_start q \<noteq> []"
      "parse_time (dq_start q) ?def = Inl (InvalidRange (NotATime (dq_start q)))"
    then show ?thesis by (simp add: bad_range_def parse_time_range_def)
  next
    assume s: "dq_start q = []" "parse_time (dq_start q) ?def = Inr (?def, None)"
    from parse_time_cases [of "dq_end q" "dq_now q"] show ?thesis
      using s by (elim disjE conjE exE) (auto simp: bad_range_def parse_time_range_def range_from_def
        range_to_def range_end_None named_nonempty utc_day_def Let_def)
  next
    fix a b l assume s: "named_days (dq_start q) = Some (a, b)" "dq_start q \<noteq> []"
      "parse_time (dq_start q) ?def = Inr (utc_day a, l)"
    from parse_time_cases [of "dq_end q" "dq_now q"] show ?thesis
      using s by (elim disjE conjE exE) (auto simp: bad_range_def parse_time_range_def range_from_def
        range_to_def range_end_None named_nonempty utc_day_def Let_def)
  qed
  then show "(\<exists>p. parse_time_range (dq_start q) (dq_end q) (dq_now q) = Inl (InvalidRange p)) \<longleftrightarrow> bad_range q"
    "(\<exists>x. parse_time_range (dq_start q) (dq_end q) (dq_now q) = Inr x) \<longleftrightarrow> \<not> bad_range q"
    by (auto split: if_splits)
qed

fun failure_status :: "failure option \<Rightarrow> nat" where
  "failure_status None = 200" | "failure_status (Some f) = error_status (StoreError f)"

definition answer_status :: "read_service \<Rightarrow> data_query \<Rightarrow> nat" where
  "answer_status s q = (case by_key (rs_registry s) (dq_key q) of None \<Rightarrow> 404
   | Some r \<Rightarrow>
      if dq_start q \<noteq> [] \<or> dq_end q \<noteq> [] then
        (if store_level (reg_store r) \<in> {None, Some Total} \<or> bad_range q then 400
         else failure_status (rs_fault s))
      else if reg_store r = StoreTotal then
        (if rs_fault s = None \<and> dq_key q \<notin> fst ` set (d_total (rs_db s)) then 404
         else failure_status (rs_fault s))
      else if reg_store r = StoreStatus \<or> dq_key q \<in> fst ` set (ca_data (rs_cache s)) then 200
      else 404)"

lemma history_capable_iff: "history_capable s \<longleftrightarrow> store_level s \<notin> {None, Some Total}"
  by (cases s) (simp_all add: history_capable_def)

lemma period_history_status:
  assumes "by_key (rs_registry s) (reg_key r) = Some r" "history_capable (reg_store r)"
  shows "(if bad_range q then \<exists>p. period_history s r q = Inl (InvalidRange p)
    else case rs_fault s of Some f \<Rightarrow> period_history s r q = Inl (StoreError f)
      | None \<Rightarrow> \<exists>ps. period_history s r q = Inr ps)"
proof (cases "bad_range q")
  case True
  then obtain p where "parse_time_range (dq_start q) (dq_end q) (dq_now q) = Inl (InvalidRange p)"
    using bad_range_iff(1) by blast
  with True show ?thesis by (simp add: period_history_def)
next
  case False
  then obtain x y where x: "parse_time_range (dq_start q) (dq_end q) (dq_now q) = Inr (x, y)"
    using bad_range_iff(2) [of q] by auto
  obtain l where "store_level (reg_store r) = Some l" "l \<noteq> Total"
    using assms(2) by (auto simp: history_capable_iff)
  then have st: "reg_store r = store_for_level l" by (cases "reg_store r") auto
  show ?thesis
    using False assms(1) x st \<open>l \<noteq> Total\<close>
    by (cases l; cases "rs_fault s") (auto simp: period_history_def daily_history_def monthly_history_def
        yearly_history_def read_history_def require_store_def service_register_def queried_def)
qed

text \<open>C28: The status of every answer of /api/data, for every store of a register and every failure
  of the database: 4xx for what the request asks, 5xx (or 499) only for a query that failed, and a
  status history survives a failing database.\<close>

theorem data_status_exact:
  assumes "\<And>k r. by_key (rs_registry s) k = Some r \<Longrightarrow> reg_key r = k"
  shows "fst (get_data s q) = answer_status s q"
proof (cases "by_key (rs_registry s) (dq_key q)")
  case None
  then show ?thesis
    by (simp add: answer_status_def get_data_def service_data_def service_register_def write_error_def Let_def)
next
  case (Some r)
  have k: "reg_key r = dq_key q" using assms Some .
  have reg: "service_register s (dq_key q) = Inr r" using Some by (simp add: service_register_def)
  define ranged where "ranged = (dq_start q \<noteq> [] \<or> dq_end q \<noteq> [])"
  have d: "service_data s q = (if ranged \<and> \<not> history_capable (reg_store r)
      then Inl (SvcKeyError (dq_key q) no_history_detail ErrWrongKind) else dispatch s r q ranged)"
    by (simp add: service_data_def reg ranged_def)
  have a: "answer_status s q = (if ranged then
        (if \<not> history_capable (reg_store r) \<or> bad_range q then 400 else failure_status (rs_fault s))
      else if reg_store r = StoreTotal then
        (if rs_fault s = None \<and> dq_key q \<notin> fst ` set (d_total (rs_db s)) then 404
         else failure_status (rs_fault s))
      else if reg_store r = StoreStatus \<or> dq_key q \<in> fst ` set (ca_data (rs_cache s)) then 200 else 404)"
    by (simp add: answer_status_def Some ranged_def history_capable_iff)
  show ?thesis
  proof (cases ranged)
    case ranged: True
    show ?thesis
    proof (cases "history_capable (reg_store r)")
      case False
      then show ?thesis using ranged unfolding get_data_def d a by (simp add: write_error_def Let_def)
    next
      case cap: True
      then have ne: "reg_store r \<noteq> StoreTotal" "reg_store r \<noteq> StoreStatus" by (auto simp: history_capable_def)
      have "by_key (rs_registry s) (reg_key r) = Some r" using Some k by simp
      from period_history_status [OF this cap, of q] show ?thesis
        using ranged cap ne unfolding get_data_def d a dispatch_def
        by (cases "bad_range q"; cases "rs_fault s") (auto simp: write_error_def Let_def)
    qed
  next
    case False
    have cg: "cache_get (rs_cache s) (dq_key q) = None \<longleftrightarrow> dq_key q \<notin> fst ` set (ca_data (rs_cache s))"
      by (simp add: cache_get_def map_of_eq_None_iff)
    have tg: "get_total_history (rs_db s) (dq_key q) = None \<longleftrightarrow> dq_key q \<notin> fst ` set (d_total (rs_db s))"
      by (simp add: get_total_history_def map_of_eq_None_iff)
    show ?thesis using False reg cg tg unfolding get_data_def d a dispatch_def
      by (auto simp: write_error_def Let_def service_total_def require_store_def queried_def
          read_status_history_def current_value_def split: option.splits)
  qed
qed

section \<open>Reading what the poller wrote\<close>

definition days_ok :: "db \<Rightarrow> bool" where
  "days_ok d \<longleftrightarrow> distinct (map fst (d_daily d)) \<and> (\<forall>x \<in> set (d_daily d). length (snd (fst x)) = 10)"

lemma days_ok_upsert:
  assumes "days_ok d" "length day = 10"
  shows "days_ok (d\<lparr>d_daily := max_upsert k day v raw (d_daily d)\<rparr>)"
proof -
  have "distinct (map fst (max_upsert k day v raw (d_daily d)))"
    using assms(1) distinct_update [of "d_daily d" "(k, day)" "(v, raw)"]
    by (auto simp: days_ok_def max_upsert_def split: option.split)
  moreover have "length (snd (fst x)) = 10" if "x \<in> set (max_upsert k day v raw (d_daily d))" for x
    using that assms set_update [of "fst x" "snd x" "(k, day)" "(v, raw)" "d_daily d"]
    by (auto simp: days_ok_def max_upsert_def split: option.splits if_splits)
  ultimately show ?thesis by (simp add: days_ok_def)
qed

lemma write_poll_days_ok:
  assumes "write_poll g w faults s = (Inr rej, s')" "days_ok (s_db s)"
    "\<forall>r \<in> set (pw_daily w). length (dr_day r) = 10"
  shows "days_ok (s_db s')"
proof -
  obtain tx tx' where tx: "tx_db tx = s_db s" "tx_db tx' = s_db s'"
    and ap: "apply_poll g w (s_meta s, tx) = Inr (rej, s_meta s', tx')"
    using write_poll_Inr [OF assms(1)] by blast
  obtain r1 m1 t1 r2 m2 t2 where
    1: "collect_loop (write_daily g) (pw_daily w) (s_meta s, tx) [] = Inr (r1, m1, t1)" and
    2: "collect_loop (write_status g) (pw_status w) (m1, t1) r1 = Inr (r2, m2, t2)" and
    3: "collect_loop (close_day g) (pw_close w) (m2, t2) r2 = Inr (rej, s_meta s', tx')"
    using ap by (auto simp: apply_poll_def split: sum.splits prod.splits)
  let ?P = "\<lambda>(m :: meta, t :: txn). days_ok (tx_db t)"
  have "?P (m1, t1)"
    by (rule collect_loop_inv [OF 1]) (use assms(2,3) tx in \<open>auto dest!: write_daily_Inr intro!: days_ok_upsert\<close>)
  moreover have "?P (m2, t2)"
    by (rule collect_loop_inv [OF 2]) (use \<open>?P (m1, t1)\<close> in \<open>auto dest!: write_status_Inr simp: days_ok_def\<close>)
  moreover have "?P (s_meta s', tx')"
    by (rule collect_loop_inv [OF 3])
      (use \<open>?P (m2, t2)\<close> in \<open>auto dest!: close_day_Inr advance_Inr simp: days_ok_def split: if_splits\<close>)
  ultimately show ?thesis using tx by simp
qed

lemma history_of_days:
  assumes "by_key (rs_registry s) key = Some reg" "reg_key reg = key" "rs_fault s = None"
    and "reg_store reg = StoreDaily" "parse_day day = Some d" "days_ok (rs_db s)"
    and "length (filter (\<lambda>((k, p), x). k = key) (d_daily (rs_db s))) \<le> max_period_rows"
  shows "\<exists>ps. service_data s \<lparr>dq_key = key, dq_start = day, dq_end = day, dq_now = now\<rparr>
      = Inr ((new_result reg)\<lparr>dr_rows := ps\<rparr>) \<and> sorted_wrt (<) (map dp_period ps) \<and>
    set ps = {point_of day x | x. ((key, day), x) \<in> set (d_daily (rs_db s))}"
proof -
  let ?q = "\<lparr>dq_key = key, dq_start = day, dq_end = day, dq_now = now\<rparr>"
  have n: "named_days day = Some (d, d)" using assms(5) by (simp add: named_days_def)
  have dk: "level_key Daily d = day" using parse_day_Some [OF assms(5)] by simp
  have v: "valid_date d" using parse_day_Some [OF assms(5)] by simp
  have ne: "day \<noteq> []" using n by (auto simp: named_nonempty)
  let ?b = "\<lparr>bo_key = key, bo_start = utc_day d, bo_end = utc_day d, bo_layout = Daily,
    bo_limit = row_cap Daily\<rparr>"
  have "period_history s reg ?q = Inr (range_query ?b (take 10) (d_daily (rs_db s)))"
    using period_read [OF assms(1-3), of Daily ?q] parse_time_range_named [OF n n order_refl, of now]
    by (simp add: assms(4) level_rows_def)
  moreover have col: "take 10 p = p" if "((k, p), x) \<in> set (d_daily (rs_db s))" for k p x
    using assms(6) that by (auto simp: days_ok_def)
  moreover note exact = range_query_exact [of "d_daily (rs_db s)" ?b "take 10" day day, OF _ _ col]
  have dis: "distinct (map fst (d_daily (rs_db s)))" using assms(6) by (simp add: days_ok_def)
  have "set (range_query ?b (take 10) (d_daily (rs_db s))) =
      {point_of p x | p x. ((key, p), x) \<in> set (d_daily (rs_db s)) \<and> day \<le> p \<and> p \<le> day}"
    using exact(2) [OF dis] assms(7) v dk by (simp add: row_cap_def)
  moreover have "sorted_wrt (<) (map dp_period (range_query ?b (take 10) (d_daily (rs_db s))))"
    using exact(1) [OF dis] assms(7) v dk by (simp add: row_cap_def)
  moreover have "{point_of p x | p x. ((key, p), x) \<in> set (d_daily (rs_db s)) \<and> day \<le> p \<and> p \<le> day}
      = {point_of day x | x. ((key, day), x) \<in> set (d_daily (rs_db s))}"
    by (metis (no_types, lifting) order_antisym order_refl)
  moreover have "service_data s ?q = map_sum id (\<lambda>ps. (new_result reg)\<lparr>dr_rows := ps\<rparr>) (period_history s reg ?q)"
    by (rule ranged_data [of _ _ _ Daily]) (simp_all add: assms(1,4) ne)
  ultimately show ?thesis
    by (intro exI [of _ "range_query ?b (take 10) (d_daily (rs_db s))"]) simp
qed

text \<open>C26: What a committed poll wrote is what the API answers: a request for the day of an accepted
  row returns exactly one row, of that day and with at least the written value.\<close>

theorem poll_then_read:
  assumes "write_poll g w faults s = (Inr rej, s')" "r \<in> set (pw_daily w)"
    and "row_accepted g (s_meta s) r" "by_key g (dr_key r) = Some reg" "reg_key reg = dr_key r"
    and "days_ok (s_db s)" "\<forall>r \<in> set (pw_daily w). parse_day (dr_day r) \<noteq> None"
    and "rs_registry rs = g" "rs_db rs = s_db s'" "rs_fault rs = None"
    and "length (filter (\<lambda>((k, p), x). k = dr_key r) (d_daily (s_db s'))) \<le> max_period_rows"
  shows "\<exists>p. service_data rs \<lparr>dq_key = dr_key r, dq_start = dr_day r, dq_end = dr_day r, dq_now = now\<rparr>
      = Inr ((new_result reg)\<lparr>dr_rows := [p]\<rparr>) \<and> dp_period p = dr_day r \<and> \<not> fless (dp_value p) (dr_value r)"
proof -
  obtain d where d: "parse_day (dr_day r) = Some d" using assms(2,7) by blast
  have len: "length (dr_day x) = 10" if "x \<in> set (pw_daily w)" for x
    using that assms(7) parse_day_Some length_fmt_day by (metis not_None_eq)
  have ok: "days_ok (s_db s')" by (rule write_poll_days_ok [OF assms(1,6)]) (simp add: len)
  have st: "reg_store reg = StoreDaily"
    using assms(3,4) by (auto simp: row_accepted_def poller_owned_def)
  have "stored_at_least (d_daily (s_db s')) (dr_key r, dr_day r) (dr_value r)"
    using poll_stores [OF assms(1)] assms(2,3) by blast
  then obtain v raw where v: "map_of (d_daily (s_db s')) (dr_key r, dr_day r) = Some (v, raw)"
      "\<not> fless v (dr_value r)"
    by (auto simp: stored_at_least_def split: option.splits)
  have dis: "distinct (map fst (d_daily (s_db s')))" using ok by (simp add: days_ok_def)
  have m: "((dr_key r, dr_day r), x) \<in> set (d_daily (s_db s')) \<longleftrightarrow> x = (v, raw)" for x
    using v(1) map_of_eq_Some_iff [OF dis] by (metis option.inject)
  obtain ps where ps: "service_data rs \<lparr>dq_key = dr_key r, dq_start = dr_day r, dq_end = dr_day r, dq_now = now\<rparr>
      = Inr ((new_result reg)\<lparr>dr_rows := ps\<rparr>)" "sorted_wrt (<) (map dp_period ps)"
      "set ps = {point_of (dr_day r) x | x. ((dr_key r, dr_day r), x) \<in> set (d_daily (rs_db rs))}"
    using history_of_days [of rs "dr_key r" reg "dr_day r" d now] assms(4,5,8-11) st d ok by auto
  have one: "set ps = {point_of (dr_day r) (v, raw)}" using ps(3) by (auto simp: assms(9) m)
  have "distinct ps" using ps(2) by (auto simp: strict_sorted_iff distinct_map)
  then have "length ps = Suc 0" using distinct_card [of ps] one by simp
  then obtain p where "ps = [p]" unfolding length_Suc_conv by blast
  then have "ps = [point_of (dr_day r) (v, raw)]" using one by simp
  then show ?thesis using ps(1) v(2)
    by (intro exI [of _ "point_of (dr_day r) (v, raw)"]) (simp add: point_of_def)
qed

section \<open>A small service\<close>

definition fault_reg :: register where
  "fault_reg = \<lparr>reg_key = ''grid_fault_1'', reg_name = ''Grid Fault 1'', reg_address = 33116,
     reg_type = Uint16, reg_scale = Fin 1, reg_unit = [], reg_store = StoreStatus, reg_net = False\<rparr>"

definition api_registry :: registry where
  "api_registry = \<lparr>g_regs = [pv_reg, fault_reg], g_by_key = [(reg_key pv_reg, pv_reg), (reg_key fault_reg, fault_reg)],
     g_by_addr = [], g_edges = [], g_nets = [], g_blocks = []\<rparr>"

definition api_db :: db where
  "api_db = \<lparr>d_daily = [((pv_key, ''2024-02-29''), Fin 7, Fin 70), ((pv_key, ''2024-03-01''), Fin 8, Fin 80)],
     d_monthly = [], d_yearly = [], d_total = [],
     d_error = [((''grid_fault_1'', 1704067200000), Fin 1)], d_meta = []\<rparr>"

definition api_service :: "failure option \<Rightarrow> read_service" where
  "api_service f = \<lparr>rs_db = api_db, rs_fault = f, rs_cache = new_cache,
     rs_health = sv_snap (new_supervisor 1 0), rs_registry = api_registry\<rparr>"

definition feb_query :: data_query where
  "feb_query = \<lparr>dq_key = pv_key, dq_start = ''2024'', dq_end = ''2024-02'',
     dq_now = \<lparr>g_at = 0, g_zone = utc\<rparr>\<rparr>"

lemma pv_reg_key: "reg_key pv_reg = pv_key" and pv_reg_store: "reg_store pv_reg = StoreDaily"
  by (simp_all add: pv_reg_def pv_key_def energy_daily_def kind_def)

lemma api_by_key: "by_key api_registry k = (if k = pv_key then Some pv_reg
    else if k = ''grid_fault_1'' then Some fault_reg else None)"
  by (simp add: by_key_def api_registry_def pv_reg_key fault_reg_def)

lemma feb_days: "named_days ''2024'' = Some (Date 2024 1 1, Date 2024 12 31)"
    "named_days ''2024-02'' = Some (Date 2024 2 1, Date 2024 2 29)"
  by code_simp+

lemma feb_order: "Date 2024 1 1 \<le> Date 2024 2 29"
  by (simp add: less_eq_date_def less_date_def)

theorem history_exact_witness:
  "\<exists>ps. service_data (api_service None) feb_query = Inr ((new_result pv_reg)\<lparr>dr_rows := ps\<rparr>) \<and>
    sorted_wrt (<) (map dp_period ps) \<and>
    set ps = {point_of p x | p x. ((pv_key, p), x) \<in> set (d_daily api_db) \<and>
      fmt_day (Date 2024 1 1) \<le> p \<and> p \<le> fmt_day (Date 2024 2 29)}"
  using history_exact [of "api_service None" feb_query pv_reg Daily "Date 2024 1 1" "Date 2024 12 31"
      "Date 2024 2 1" "Date 2024 2 29"]
  by (force simp: api_service_def feb_query_def api_by_key pv_reg_key pv_reg_store feb_days feb_order
      level_rows_def api_db_def row_cap_def max_period_rows_def)

theorem data_status_exact_witness:
  "fst (get_data (api_service (Some Deadline)) (feb_query\<lparr>dq_key := ''grid_fault_1'', dq_start := [], dq_end := []\<rparr>)) = 200"
proof -
  let ?s = "api_service (Some Deadline)"
  let ?q = "feb_query\<lparr>dq_key := ''grid_fault_1'', dq_start := [], dq_end := []\<rparr>"
  have "fst (get_data ?s ?q) = answer_status ?s ?q"
    by (rule data_status_exact)
      (auto simp: api_service_def api_by_key pv_reg_key fault_reg_def split: if_splits)
  also have "\<dots> = 200"
    by (simp add: api_service_def api_by_key fault_reg_def answer_status_def pv_key_def)
  finally show ?thesis .
qed

theorem status_history_exact_witness:
  "\<exists>h. read_status_history (api_service None) ''grid_fault_1'' = Inr h \<and>
     mset (sh_history h) = {#entry_of ''grid_fault_1'' (1704067200000, Fin 1)#}"
proof -
  have c: "changes ''grid_fault_1'' api_db = [(1704067200000, Fin 1)]"
    by (simp add: changes_def api_db_def)
  have ok: "change_ok 1704067200000"
    by (simp add: change_ok_def min_time_def max_time_def midnight_utc_def day_number_def year_start_def
        month_start_def epoch_day_def leap_day_def is_leap_def)
  show ?thesis
    using status_history_exact [of "api_service None" "''grid_fault_1''" fault_reg]
    by (force simp: api_service_def api_by_key pv_key_def fault_reg_def c ok max_error_rows_def
        cache_get_def new_cache_def)
qed

theorem poll_then_read_witness:
  "\<exists>p. service_data ((api_service None)\<lparr>rs_registry := solis_registry,
        rs_db := s_db (snd (write_poll solis_registry demo_poll [] demo_store))\<rparr>)
      \<lparr>dq_key = pv_key, dq_start = ''2024-01-05'', dq_end = ''2024-01-05'', dq_now = \<lparr>g_at = 0, g_zone = utc\<rparr>\<rparr>
      = Inr ((new_result pv_reg)\<lparr>dr_rows := [p]\<rparr>) \<and> dp_period p = ''2024-01-05''"
proof -
  define r where "r = \<lparr>dr_key = pv_key, dr_day = ''2024-01-05'', dr_value = Fin 2, dr_raw = Fin 20\<rparr>"
  obtain rej s' where w: "write_poll solis_registry demo_poll [] demo_store = (Inr rej, s')"
    using demo_poll_result by blast
  have acc: "row_accepted solis_registry (s_meta demo_store) r"
    using demo_days by (simp add: row_accepted_def by_key_pv pv_owned demo_closed r_def)
  have "\<not> (''2024-01-05'' :: string) \<le> ''2024-01-04''" using demo_days by (simp add: not_le)
  then have "d_daily (s_db (snd (write_poll solis_registry demo_poll [] demo_store)))
      = [((pv_key, ''2024-01-04''), Fin 7, Fin 70), ((pv_key, ''2024-01-05''), Fin 2, Fin 20)]"
    by (simp add: write_poll_def with_tx_def apply_poll_def demo_poll_def write_daily_def lookup_reg_def
        by_key_pv pv_owned demo_closed close_day_def advance_def put_meta_def Let_def max_upsert_def)
      (simp add: demo_store_def demo_db_def)
  then have cap: "length (filter (\<lambda>((k, p), x). k = dr_key r) (d_daily (s_db s'))) \<le> max_period_rows"
    by (simp add: w max_period_rows_def r_def)
  have parse: "parse_day ''2024-01-04'' \<noteq> None" "parse_day ''2024-01-05'' \<noteq> None"
    by code_simp+
  have "days_ok (s_db demo_store)" by (simp add: days_ok_def demo_store_def demo_db_def)
  define rs where "rs = (api_service None)\<lparr>rs_registry := solis_registry, rs_db := s_db s'\<rparr>"
  have rs: "rs_registry rs = solis_registry" "rs_db rs = s_db s'" "rs_fault rs = None"
    by (simp_all add: rs_def api_service_def)
  have r: "r \<in> set (pw_daily demo_poll)" "\<forall>r \<in> set (pw_daily demo_poll). parse_day (dr_day r) \<noteq> None"
    using parse by (simp_all add: r_def demo_poll_def)
  have k: "by_key solis_registry (dr_key r) = Some pv_reg" "reg_key pv_reg = dr_key r"
    by (simp_all add: r_def by_key_pv pv_reg_key)
  from poll_then_read [OF w r(1) acc k \<open>days_ok (s_db demo_store)\<close> r(2) rs cap, of "\<lparr>g_at = 0, g_zone = utc\<rparr>"]
  have "\<exists>p. service_data rs \<lparr>dq_key = pv_key, dq_start = ''2024-01-05'', dq_end = ''2024-01-05'', dq_now = \<lparr>g_at = 0, g_zone = utc\<rparr>\<rparr>
      = Inr ((new_result pv_reg)\<lparr>dr_rows := [p]\<rparr>) \<and> dp_period p = ''2024-01-05''"
    unfolding r_def by auto
  then show ?thesis unfolding rs_def w by simp
qed

end
