(* ===== verification/Paths.thy ===== *)
theory Paths
  imports Prelude
begin

text \<open>
  Slash-separated paths as Go's path and path/filepath treat them on Unix: the functions that the
  backups and the HTTP routes call, over the list of the elements between the slashes.
\<close>

section \<open>Functions\<close>

fun split_path :: "string \<Rightarrow> string list" where
  "split_path [] = [[]]"
| "split_path (c # cs) = (if c = CHR ''/'' then [] # split_path cs
     else case split_path cs of [] \<Rightarrow> [[c]] | x # xs \<Rightarrow> (c # x) # xs)"

fun join_path :: "string list \<Rightarrow> string" where
  "join_path [] = []"
| "join_path [x] = x"
| "join_path (x # y # xs) = x @ CHR ''/'' # join_path (y # xs)"

text \<open>One element of a path onto the cleaned elements before it, the last one first.\<close>

definition clean_step :: "bool \<Rightarrow> string \<Rightarrow> string list \<Rightarrow> string list" where
  "clean_step rooted c out = (if c = [] \<or> c = ''.'' then out
     else if c = ''..'' then (case out of [] \<Rightarrow> if rooted then [] else [''..'']
       | x # xs \<Rightarrow> if x = ''..'' then ''..'' # out else xs)
     else c # out)"

definition is_rooted :: "string \<Rightarrow> bool" where
  "is_rooted p \<longleftrightarrow> p \<noteq> [] \<and> hd p = CHR ''/''"

definition clean_path :: "string \<Rightarrow> string" where
  "clean_path p = (let body = join_path (rev (fold (clean_step (is_rooted p)) (split_path p) [])) in
     if is_rooted p then CHR ''/'' # body else if body = [] then ''.'' else body)"

definition path_join :: "string list \<Rightarrow> string" where
  "path_join es = (case dropWhile (\<lambda>e. e = []) es of [] \<Rightarrow> [] | x # xs \<Rightarrow> clean_path (join_path (x # xs)))"

definition path_base :: "string \<Rightarrow> string" where
  "path_base p = (if p = [] then ''.'' else
     let q = dropWhile (\<lambda>c. c = CHR ''/'') (rev p) in
     if q = [] then ''/'' else rev (takeWhile (\<lambda>c. c \<noteq> CHR ''/'') q))"

definition path_dir :: "string \<Rightarrow> string" where
  "path_dir p = clean_path (rev (dropWhile (\<lambda>c. c \<noteq> CHR ''/'') (rev p)))"

section \<open>Facts\<close>

lemma split_path_nonempty: "split_path p \<noteq> []"
  by (induction p) (auto split: list.split)

lemma split_path_single: "CHR ''/'' \<notin> set n \<Longrightarrow> split_path n = [n]"
  by (induction n) auto

lemma split_path_append: "CHR ''/'' \<notin> set n \<Longrightarrow> split_path (d @ CHR ''/'' # n) = split_path d @ [n]"
  by (induction d) (auto simp: split_path_single split_path_nonempty split: list.split)

lemma join_path_snoc: "xs \<noteq> [] \<Longrightarrow> join_path (xs @ [n]) = join_path xs @ CHR ''/'' # n"
  by (induction xs rule: join_path.induct) auto

definition plain_name :: "string \<Rightarrow> bool" where
  "plain_name n \<longleftrightarrow> CHR ''/'' \<notin> set n \<and> n \<noteq> [] \<and> n \<noteq> ''.'' \<and> n \<noteq> ''..''"

lemma path_base_after:
  assumes "CHR ''/'' \<notin> set n" "n \<noteq> []" "pre = [] \<or> List.last pre = CHR ''/''"
  shows "path_base (pre @ n) = n"
proof -
  have r: "rev n \<noteq> []" "\<forall>c \<in> set (rev n). c \<noteq> CHR ''/''" using assms(1,2) by auto
  then have "dropWhile (\<lambda>c. c = CHR ''/'') (rev n @ rev pre) = rev n @ rev pre"
    by (cases "rev n") auto
  moreover have "takeWhile (\<lambda>c. c \<noteq> CHR ''/'') (rev n @ rev pre) = rev n"
  proof (cases "pre = []")
    case False
    then obtain a where "pre = a @ [CHR ''/'']" using assms(3) by (metis append_butlast_last_id)
    then show ?thesis using r(2) by (simp add: takeWhile_append2 del: set_rev)
  qed (use r(2) in \<open>simp add: takeWhile_eq_all_conv\<close>)
  ultimately show ?thesis using assms(2) by (simp add: path_base_def)
qed

lemma path_join_plain:
  assumes "plain_name n" "d \<noteq> []"
  shows "\<exists>pre. path_join [d, n] = pre @ n \<and> (pre = [] \<or> List.last pre = CHR ''/'')"
proof -
  define r where "r = is_rooted (d @ CHR ''/'' # n)"
  define out where "out = fold (clean_step r) (split_path d) []"
  have n: "CHR ''/'' \<notin> set n" "n \<noteq> []" using assms(1) by (auto simp: plain_name_def)
  have j: "path_join [d, n] = clean_path (d @ CHR ''/'' # n)"
    using assms(2) by (simp add: path_join_def)
  have body: "join_path (rev (fold (clean_step r) (split_path (d @ CHR ''/'' # n)) []))
      = (if out = [] then n else join_path (rev out) @ CHR ''/'' # n)"
    using assms(1) by (simp add: split_path_append [OF n(1)] out_def [symmetric] clean_step_def plain_name_def
        join_path_snoc)
  show ?thesis
    unfolding j clean_path_def r_def [symmetric] body Let_def
    by (rule exI [of _ "(if r then ''/'' else []) @ (if out = [] then [] else join_path (rev out) @ ''/'')"])
      (use n in auto)
qed

lemma path_base_join: "plain_name n \<Longrightarrow> d \<noteq> [] \<Longrightarrow> path_base (path_join [d, n]) = n"
  using path_join_plain [of n d] path_base_after plain_name_def by metis

lemma path_join_inj:
  assumes "plain_name n" "plain_name m" "d \<noteq> []" "path_join [d, n] = path_join [d, m]"
  shows "n = m"
  using assms path_base_join by metis

lemma path_base_slashless: "path_base p = ''/'' \<or> CHR ''/'' \<notin> set (path_base p)"
  by (auto simp: path_base_def Let_def dest: set_takeWhileD)

lemma path_base_nonempty: "path_base p \<noteq> []"
proof (cases "p = [] \<or> dropWhile (\<lambda>c. c = CHR ''/'') (rev p) = []")
  case False
  then obtain c cs where c: "dropWhile (\<lambda>c. c = CHR ''/'') (rev p) = c # cs" by (meson neq_Nil_conv)
  then have "c \<noteq> CHR ''/''" using hd_dropWhile [of "\<lambda>c. c = CHR ''/''" "rev p"] by simp
  then show ?thesis using False c by (simp add: path_base_def)
qed (auto simp: path_base_def)

lemma clean_path_nonempty: "clean_path p \<noteq> []"
  by (auto simp: clean_path_def Let_def)

end
