(* ===== verification/Backup.thy ===== *)
theory Backup
  imports Stamps Paths "HOL-Library.Sublist"
begin

text \<open>
  internal/database/backup.go: names of backup files, listing and rotating them, and taking a
  verified backup. A directory is the list of its entries; what the file system and SQLite answer
  (whether a file can be read, copied or removed) is an argument.
\<close>

section \<open>File names\<close>

definition utc_stamp_suffix :: string where "utc_stamp_suffix = ''Z''"
definition stamp_len :: nat where "stamp_len = 15"
definition ms_per_second :: int where "ms_per_second = 1000"
definition backup_ext :: string where "backup_ext = ''.backup''"

text \<open>The layout \<open>20060102_150405\<close>.\<close>

definition fmt_backup_stamp :: "int \<Rightarrow> string" where
  "fmt_backup_stamp t = (case civil utc t of Date y m d \<Rightarrow> let c = clock_ns utc t in
     append_int y 4 @ append_int m 2 @ append_int d 2 @ ''_'' @ append_int (hour_of c) 2 @
     append_int (minute_of c) 2 @ append_int (second_of c) 2)"

definition backups_dir :: "string \<Rightarrow> string" where
  "backups_dir path = path_join [path_dir path, ''backups'']"

definition backup_stamp :: "int \<Rightarrow> string" where
  "backup_stamp now = fmt_backup_stamp now @ ''_'' @
     padded 3 (nat (milli_of (clock_ns utc now) mod ms_per_second)) @ utc_stamp_suffix"

definition generate_backup_filename :: "string \<Rightarrow> int \<Rightarrow> string" where
  "generate_backup_filename path now =
     path_join [backups_dir path, path_base path @ ''.'' @ backup_stamp now @ backup_ext]"

definition cut_suffix :: "string \<Rightarrow> string \<Rightarrow> string option" where
  "cut_suffix s suf = (if suffix suf s then Some (take (length s - length suf) s) else None)"

text \<open>\<open>time.ParseInLocation\<close> with the layout \<open>20060102_150405\<close>.\<close>

definition take_below :: "nat \<Rightarrow> string \<Rightarrow> (int \<times> string) option" where
  "take_below n s = (case take_digits 2 s of None \<Rightarrow> None
     | Some (k, r) \<Rightarrow> if k < n then Some (int k, r) else None)"

definition parse_stamp_day :: "string \<Rightarrow> (date \<times> string) option" where
  "parse_stamp_day s = (case take_digits 4 s of None \<Rightarrow> None | Some (y, r) \<Rightarrow>
     (case take_below 13 r of None \<Rightarrow> None | Some (m, r) \<Rightarrow>
       (case take_digits 2 r of None \<Rightarrow> None | Some (d, r) \<Rightarrow>
         if valid_date (Date (int y) m (int d)) then Some (Date (int y) m (int d), r) else None)))"

definition parse_stamp_clock :: "string \<Rightarrow> int option" where
  "parse_stamp_clock s = (case take_below 24 s of None \<Rightarrow> None | Some (h, r) \<Rightarrow>
     (case take_below 60 r of None \<Rightarrow> None | Some (mi, r) \<Rightarrow>
       (case take_below 60 r of None \<Rightarrow> None | Some (se, r) \<Rightarrow>
         if r = [] then Some (h * ns_hour + mi * ns_minute + se * ns_second) else None)))"

definition parse_stamp_secs :: "zone \<Rightarrow> string \<Rightarrow> int option" where
  "parse_stamp_secs z s = (case parse_stamp_day s of None \<Rightarrow> None | Some (Date y m d, r) \<Rightarrow>
     (case expect CHR ''_'' r of None \<Rightarrow> None | Some r \<Rightarrow>
       map_option (time_date z y m d) (parse_stamp_clock r)))"

text \<open>
  \<open>strconv.Atoi\<close>: an optional sign and digits. A number outside an int is an error there and too
  large for the caller here.
\<close>

definition atoi :: "string \<Rightarrow> int option" where
  "atoi s = (let neg = (s \<noteq> [] \<and> hd s = CHR ''-''); signed = (s \<noteq> [] \<and> hd s \<in> {CHR ''-'', CHR ''+''});
       ds = (if signed then tl s else s) in
     if ds = [] \<or> \<not> list_all is_digit ds then None
     else Some (if neg then - int (num_of ds 0) else int (num_of ds 0)))"

definition parse_backup_millis :: "string \<Rightarrow> int option" where
  "parse_backup_millis part = (case expect CHR ''_'' part of None \<Rightarrow> None
     | Some digits \<Rightarrow> (case atoi digits of None \<Rightarrow> None
         | Some ms \<Rightarrow> if ms < 0 \<or> ms_per_second \<le> ms then None else Some ms))"

text \<open>\<open>loc\<close> is the local zone, which legacy stamps without \<open>Z\<close> carry.\<close>

definition parse_backup_stamp :: "zone \<Rightarrow> string \<Rightarrow> int option" where
  "parse_backup_stamp loc stamp =
     (let (stamp, z) = (case cut_suffix stamp utc_stamp_suffix of Some s \<Rightarrow> (s, utc) | None \<Rightarrow> (stamp, loc));
          (secs, ms) = (if stamp_len < length stamp then (take stamp_len stamp, drop stamp_len stamp)
            else (stamp, [])) in
      case parse_stamp_secs z secs of None \<Rightarrow> None
      | Some t \<Rightarrow> if ms = [] then Some t
          else map_option (\<lambda>m. t + m * 1000000) (parse_backup_millis ms))"

record backup_info =
  bi_file :: string
  bi_time :: int
  bi_size :: nat

datatype name_error = NotABackup string | NoBaseName string | NoTimestamp string

definition extract_backup_info :: "zone \<Rightarrow> string \<Rightarrow> name_error + backup_info" where
  "extract_backup_info loc filename = (case cut_suffix (path_base filename) backup_ext of
       None \<Rightarrow> Inl (NotABackup filename)
     | Some name \<Rightarrow>
        let tail = takeWhile (\<lambda>c. c \<noteq> CHR ''.'') (rev name); rest = dropWhile (\<lambda>c. c \<noteq> CHR ''.'') (rev name) in
        if length rest \<le> 1 then Inl (NoBaseName filename)
        else (case parse_backup_stamp loc (rev tail) of
            Some t \<Rightarrow> Inr \<lparr>bi_file = filename, bi_time = t, bi_size = 0\<rparr>
          | None \<Rightarrow> Inl (NoTimestamp filename)))"

section \<open>Listing and rotation\<close>

text \<open>A file: its size, whether SQLite finds it sound, whether its header says WAL, and whether only
  the owner may read it.\<close>

record db_file =
  fi_size :: nat
  fi_sound :: bool
  fi_wal :: bool
  fi_private :: bool

datatype node = Folder | Plain db_file

type_synonym dir = "(string \<times> node) list"

datatype dir_error = ReadFailed

text \<open>\<open>None\<close>: the directory does not exist. A file whose \<open>os.Stat\<close> fails is skipped.\<close>

record disk =
  dk_backups :: "dir option"
  dk_unreadable :: bool
  dk_stat_fails :: "string \<Rightarrow> bool"
  dk_stuck :: "string \<Rightarrow> bool"

definition backup_entry :: "zone \<Rightarrow> disk \<Rightarrow> string \<Rightarrow> string \<times> node \<Rightarrow> backup_info option" where
  "backup_entry loc dk bdir e = (case e of
       (name, Folder) \<Rightarrow> None
     | (name, Plain f) \<Rightarrow> if \<not> suffix backup_ext name then None else
         let full = path_join [bdir, name] in
         (case extract_backup_info loc full of Inl err \<Rightarrow> None
          | Inr info \<Rightarrow> if dk_stat_fails dk full then None else Some (info\<lparr>bi_size := fi_size f\<rparr>)))"

definition own_entries :: "zone \<Rightarrow> disk \<Rightarrow> string \<Rightarrow> dir \<Rightarrow> backup_info list" where
  "own_entries loc dk path es = List.map_filter (backup_entry loc dk (backups_dir path))
     (filter (\<lambda>e. prefix (path_base path @ ''.'') (fst e)) es)"

text \<open>Newest first; \<open>sort.Slice\<close> may order equal timestamps in another way.\<close>

definition list_backups :: "zone \<Rightarrow> disk \<Rightarrow> string \<Rightarrow> dir_error + backup_info list" where
  "list_backups loc dk path = (if dk_unreadable dk then Inl ReadFailed
     else case dk_backups dk of None \<Rightarrow> Inr []
     | Some es \<Rightarrow> Inr (rev (sort_key bi_time (rev (own_entries loc dk path es)))))"

text \<open>\<open>removeBackupFiles\<close>: the file and its sidecars, each unless its removal fails.\<close>

definition remove_file :: "string \<Rightarrow> string \<Rightarrow> disk \<Rightarrow> disk" where
  "remove_file bdir p dk = (if dk_stuck dk p then dk
     else dk\<lparr>dk_backups := map_option (filter (\<lambda>(name, n). path_join [bdir, name] \<noteq> p)) (dk_backups dk)\<rparr>)"

definition remove_backup_files :: "string \<Rightarrow> string \<Rightarrow> disk \<Rightarrow> disk" where
  "remove_backup_files bdir p dk = foldl (\<lambda>dk q. remove_file bdir q dk) dk
     [p, p @ ''-wal'', p @ ''-shm'']"

definition cleanup_backups :: "zone \<Rightarrow> string \<Rightarrow> int \<Rightarrow> disk \<Rightarrow> dir_error option \<times> disk" where
  "cleanup_backups loc path max_backups dk = (if max_backups \<le> 0 then (None, dk)
     else case list_backups loc dk path of Inl e \<Rightarrow> (Some e, dk)
     | Inr backups \<Rightarrow> if int (length backups) \<le> max_backups then (None, dk)
         else (None, foldl (\<lambda>dk b. remove_backup_files (backups_dir path) (bi_file b) dk) dk
           (drop (nat max_backups) backups)))"

section \<open>Taking a backup\<close>

text \<open>
  What SQLite and the file system answer: the stat of the database, each step that may fail, the
  file the copy leaves when it fails, and the copy it makes when it does not.
\<close>

datatype stat = Found | NotFound | StatFailed

datatype copied = NoCopy | PartialCopy db_file | FullCopy db_file

record copy_env =
  ce_stat :: stat
  ce_mkdir :: bool
  ce_open :: bool
  ce_conn :: bool
  ce_copy :: copied
  ce_rollback :: bool
  ce_chmod :: bool
  ce_reopen :: bool
  ce_close :: bool

datatype backup_error = NoDatabase string | StatError | MkdirError | OpenError | ConnError
  | CopyError | JournalError | ChmodError | VerifyError | CloseError

text \<open>The backups directory with a file written into it.\<close>

definition put_file :: "string \<Rightarrow> db_file \<Rightarrow> disk \<Rightarrow> disk" where
  "put_file name f dk = (let es = (case dk_backups dk of None \<Rightarrow> [] | Some es \<Rightarrow> es) in
     dk\<lparr>dk_backups := Some (filter (\<lambda>e. fst e \<noteq> name) es @ [(name, Plain f)])\<rparr>)"

definition make_dir :: "disk \<Rightarrow> disk" where
  "make_dir dk = (case dk_backups dk of None \<Rightarrow> dk\<lparr>dk_backups := Some []\<rparr> | Some es \<Rightarrow> dk)"

definition check_backup_integrity :: "copy_env \<Rightarrow> db_file \<Rightarrow> bool" where
  "check_backup_integrity env f \<longleftrightarrow> fi_size f \<noteq> 0 \<and> ce_reopen env \<and> fi_sound f"

definition verify_backup_file :: "copy_env \<Rightarrow> string \<Rightarrow> string \<Rightarrow> db_file \<Rightarrow> disk \<Rightarrow> backup_error option \<times> disk" where
  "verify_backup_file env bdir dest f dk = (if check_backup_integrity env f then (None, dk)
     else (Some VerifyError, remove_backup_files bdir dest dk))"

text \<open>After the copy: the rollback journal, the permissions, the check.\<close>

definition finish_copy :: "copy_env \<Rightarrow> string \<Rightarrow> string \<Rightarrow> db_file \<Rightarrow> disk \<Rightarrow> backup_error option \<times> disk" where
  "finish_copy env bdir dest f dk =
     (let name = path_base dest; dk = put_file name f dk in
      if \<not> ce_rollback env then (Some JournalError, dk)
      else let f = f\<lparr>fi_wal := False\<rparr>; dk = put_file name f dk in
      if \<not> ce_chmod env then (Some ChmodError, dk)
      else let f = f\<lparr>fi_private := True\<rparr>; dk = put_file name f dk in
      verify_backup_file env bdir dest f dk)"

text \<open>A failure to close counts when nothing failed before.\<close>

definition create_sqlite_backup :: "copy_env \<Rightarrow> string \<Rightarrow> string \<Rightarrow> disk \<Rightarrow> backup_error option \<times> disk" where
  "create_sqlite_backup env bdir dest dk =
     (if \<not> ce_open env then (Some OpenError, dk)
      else if \<not> ce_mkdir env then (Some MkdirError, dk)
      else if \<not> ce_conn env then (Some ConnError, dk)
      else case ce_copy env of
        NoCopy \<Rightarrow> (Some CopyError, dk)
      | PartialCopy f \<Rightarrow> (Some CopyError, put_file (path_base dest) f dk)
      | FullCopy f \<Rightarrow> (case finish_copy env bdir dest f dk of
            (Some e, dk') \<Rightarrow> (Some e, dk')
          | (None, dk') \<Rightarrow> (if ce_close env then None else Some CloseError, dk')))"

definition write_backup :: "copy_env \<Rightarrow> string \<Rightarrow> int \<Rightarrow> disk \<Rightarrow> (backup_error + string) \<times> disk" where
  "write_backup env path now dk = (case ce_stat env of
       NotFound \<Rightarrow> (Inl (NoDatabase path), dk)
     | StatFailed \<Rightarrow> (Inl StatError, dk)
     | Found \<Rightarrow> if \<not> ce_mkdir env then (Inl MkdirError, dk)
         else let dest = generate_backup_filename path now in
           (case create_sqlite_backup env (backups_dir path) dest (make_dir dk) of
              (Some e, dk') \<Rightarrow> (Inl e, dk')
            | (None, dk') \<Rightarrow> if dk_stat_fails dk' dest then (Inl StatError, dk') else (Inr dest, dk')))"

record backup_config =
  bc_enabled :: bool
  bc_max :: int
  bc_interval :: int

text \<open>\<open>None\<close>: backups are disabled (the empty path).\<close>

definition create_backup :: "copy_env \<Rightarrow> backup_config \<Rightarrow> string \<Rightarrow> int \<Rightarrow> disk
    \<Rightarrow> (backup_error + string) option \<times> disk" where
  "create_backup env cfg path now dk = (if \<not> bc_enabled cfg then (None, dk)
     else (case write_backup env path now dk of (r, dk') \<Rightarrow> (Some r, dk')))"

section \<open>The manager's backups (database/manager.go)\<close>

definition manager_cleanup :: "zone \<Rightarrow> backup_config \<Rightarrow> string \<Rightarrow> disk \<Rightarrow> disk" where
  "manager_cleanup loc cfg path dk = (if bc_max cfg \<le> 0 then dk
     else snd (cleanup_backups loc path (bc_max cfg) dk))"

text \<open>One tick of \<open>RunPeriodicBackups\<close>, which runs when backups are enabled with an interval.\<close>

definition periodic_backups :: "backup_config \<Rightarrow> bool" where
  "periodic_backups cfg \<longleftrightarrow> \<not> (\<not> bc_enabled cfg \<or> bc_interval cfg \<le> 0)"

definition backup_tick :: "zone \<Rightarrow> copy_env \<Rightarrow> backup_config \<Rightarrow> string \<Rightarrow> int \<Rightarrow> disk \<Rightarrow> disk" where
  "backup_tick loc env cfg path now dk =
     manager_cleanup loc cfg path (snd (create_backup env cfg path now dk))"

lemma backups_dir_nonempty: "backups_dir p \<noteq> []"
  using clean_path_nonempty by (simp add: backups_dir_def path_join_def path_dir_def)

section \<open>Stamps\<close>

lemma take_below_padded:
  "n \<le> 100 \<Longrightarrow> 0 \<le> k \<Longrightarrow> k < int n \<Longrightarrow> take_below n (padded 2 (nat k) @ r) = Some (k, r)"
  by (auto simp: take_below_def take_digits_padded)

lemma take_below_padded_end:
  "n \<le> 100 \<Longrightarrow> 0 \<le> k \<Longrightarrow> k < int n \<Longrightarrow> take_below n (padded 2 (nat k)) = Some (k, [])"
  using take_below_padded [of n k "[]"] by simp

lemma parse_stamp_day_fmt:
  assumes "valid_date (Date y m d)" "year_ok y"
  shows "parse_stamp_day (padded 4 (nat y) @ padded 2 (nat m) @ padded 2 (nat d) @ r) = Some (Date y m d, r)"
proof -
  note b = valid_date_bounds [OF assms(1)]
  have y: "take_digits 4 (padded 4 (nat y) @ s) = Some (nat y, s)" for s
    using assms(2) by (intro take_digits_padded) (auto simp: year_ok_def)
  have d: "take_digits 2 (padded 2 (nat d) @ r) = Some (nat d, r)"
    using b by (intro take_digits_padded) auto
  show ?thesis using assms b by (simp add: parse_stamp_day_def y d take_below_padded year_ok_def)
qed

lemma parse_stamp_clock_fmt:
  assumes "0 \<le> c" "c < ns_day"
  shows "parse_stamp_clock (padded 2 (nat (hour_of c)) @ padded 2 (nat (minute_of c)) @ padded 2 (nat (second_of c)))
    = Some (hour_of c * ns_hour + minute_of c * ns_minute + second_of c * ns_second)"
  using clock_ranges [OF assms] by (simp add: parse_stamp_clock_def take_below_padded take_below_padded_end)

lemma time_date_utc:
  assumes "civil utc t = Date y m d"
  shows "time_date utc y m d tod = t - clock_ns utc t + tod"
proof -
  have v: "valid_date (Date y m d)" using civil_valid [of utc t] assms by simp
  have "norm_days y m d = day_number (Date y m d)"
    using norm_days_valid [of m y d 0] valid_date_bounds [OF v] by simp
  moreover have "day_number (Date y m d) = day_index utc t"
    using assms by (simp add: civil_def flip: assms)
  ultimately show ?thesis
    by (simp add: time_date_def utc_def day_index_def local_time_def clock_ns_def Let_def)
      (simp add: minus_mod_eq_div_mult)
qed

lemma fmt_backup_padded:
  assumes "stamp_ok t" "civil utc t = Date y m d"
  shows "fmt_backup_stamp t = padded 4 (nat y) @ padded 2 (nat m) @ padded 2 (nat d) @ CHR ''_'' #
    padded 2 (nat (hour_of (clock_ns utc t))) @ padded 2 (nat (minute_of (clock_ns utc t))) @
    padded 2 (nat (second_of (clock_ns utc t)))"
proof -
  have v: "valid_date (Date y m d)" using civil_valid [of utc t] assms by simp
  have "year_ok y" using assms by (simp add: stamp_ok_def)
  then show ?thesis
    using clock_ranges [of "clock_ns utc t"] clock_in_day [of utc t] valid_date_bounds [OF v]
    by (simp add: fmt_backup_stamp_def assms(2) key_simps Let_def)
qed

lemma fmt_backup_length: "stamp_ok t \<Longrightarrow> length (fmt_backup_stamp t) = stamp_len"
  by (cases "civil utc t") (simp add: fmt_backup_padded stamp_len_def)

lemma parse_fmt_backup:
  assumes "stamp_ok t"
  shows "parse_stamp_secs utc (fmt_backup_stamp t) = Some (t - clock_ns utc t +
    (hour_of (clock_ns utc t) * ns_hour + minute_of (clock_ns utc t) * ns_minute + second_of (clock_ns utc t) * ns_second))"
proof -
  obtain y m d where c: "civil utc t = Date y m d" by (cases "civil utc t")
  have v: "valid_date (Date y m d)" "year_ok y"
    using civil_valid [of utc t] assms c by (simp_all add: stamp_ok_def)
  note r = clock_in_day [of utc t]
  show ?thesis
    by (simp add: parse_stamp_secs_def fmt_backup_padded [OF assms c] parse_stamp_day_fmt [OF v] expect_Cons
        parse_stamp_clock_fmt r time_date_utc [OF c])
qed

lemma atoi_padded:
  assumes "n < 10 ^ w" "0 < w"
  shows "atoi (padded w n) = Some (int n)"
proof -
  have d: "\<forall>c \<in> set (padded w n). is_digit c" by (auto intro: padded_digits)
  have ne: "padded w n \<noteq> []" using assms(2) by (metis length_padded list.size(3) less_irrefl)
  then have "is_digit (hd (padded w n))" using d by simp
  then have "hd (padded w n) \<noteq> CHR ''-''" "hd (padded w n) \<noteq> CHR ''+''"
    by (auto simp: is_digit_def)
  then show ?thesis using ne d num_of_padded [OF assms(1)] by (simp add: atoi_def list_all_iff)
qed

lemma cut_suffix_append: "cut_suffix (a @ s) s = Some a"
  by (simp add: cut_suffix_def suffix_def)

lemma parse_backup_stamp_fmt:
  assumes "stamp_ok t"
  shows "parse_backup_stamp loc (backup_stamp t) = Some (ms_of t * 1000000)"
proof -
  define c where "c = clock_ns utc t"
  have c: "0 \<le> c" "c < ns_day" using clock_in_day [of utc t] by (simp_all add: c_def)
  note r = clock_ranges [OF c]
  have ms: "milli_of c mod ms_per_second = milli_of c" using r(4) by (simp add: ms_per_second_def)
  have cut: "cut_suffix (backup_stamp t) utc_stamp_suffix = Some (fmt_backup_stamp t @ ''_'' @ padded 3 (nat (milli_of c)))"
    using cut_suffix_append [of "fmt_backup_stamp t @ ''_'' @ padded 3 (nat (milli_of c))" utc_stamp_suffix]
    by (simp add: backup_stamp_def c_def [symmetric] ms)
  have len: "length (fmt_backup_stamp t) = stamp_len" by (rule fmt_backup_length [OF assms])
  have mp: "parse_backup_millis (CHR ''_'' # padded 3 (nat (milli_of c))) = Some (milli_of c)"
    using r(4) atoi_padded [of "nat (milli_of c)" 3]
    by (simp add: parse_backup_millis_def expect_Cons ms_per_second_def nat_less_iff del: padded.simps)
  have "t - c + (hour_of c * ns_hour + minute_of c * ns_minute + second_of c * ns_second) + milli_of c * 1000000
      = ms_of t * 1000000"
  proof -
    have "t - c = (day_number (civil utc t) - epoch_day) * ns_day"
      by (simp add: c_def clock_ns_def civil_def day_index_def local_time_def utc_def minus_mod_eq_div_mult)
    then show ?thesis using clock_fields [OF c(1)] ms_split [of t] by (simp add: c_def)
  qed
  then show ?thesis
    unfolding parse_backup_stamp_def cut
    by (simp add: len [symmetric] Let_def mp parse_fmt_backup [OF assms] c_def [symmetric] del: padded.simps)
qed

lemma stamp_chars: "c \<in> set (backup_stamp t) \<Longrightarrow> stamp_ok t \<Longrightarrow> c \<noteq> CHR ''.'' \<and> c \<noteq> CHR ''/''"
proof -
  assume a: "c \<in> set (backup_stamp t)" "stamp_ok t"
  obtain y m d where e: "civil utc t = Date y m d" by (cases "civil utc t")
  have "is_digit c \<or> c = CHR ''_'' \<or> c = CHR ''Z''"
    using a(1) padded_digits unfolding backup_stamp_def fmt_backup_padded [OF a(2) e]
    by (auto simp: utc_stamp_suffix_def simp del: padded.simps)
  then show ?thesis by (auto simp: is_digit_def)
qed

definition backup_name :: "string \<Rightarrow> int \<Rightarrow> string" where
  "backup_name path t = path_base path @ ''.'' @ backup_stamp t @ backup_ext"

lemma plain_backup_name:
  assumes "stamp_ok t" "path_base path \<noteq> ''/''"
  shows "plain_name (backup_name path t)"
proof -
  have "CHR ''/'' \<notin> set (backup_name path t)"
    using path_base_slashless [of path] stamp_chars [OF _ assms(1)] assms(2)
    by (auto simp: backup_name_def backup_ext_def)
  moreover have "7 < length (backup_name path t)" by (simp add: backup_name_def backup_ext_def)
  ultimately show ?thesis by (auto simp: plain_name_def)
qed

lemma generate_name: "generate_backup_filename path t = path_join [backups_dir path, backup_name path t]"
  by (simp add: generate_backup_filename_def backup_name_def)

lemma extract_of_name:
  assumes "path_base f = a @ ''.'' @ st @ backup_ext" "a \<noteq> []" "CHR ''.'' \<notin> set st"
  shows "extract_backup_info loc f = (case parse_backup_stamp loc st of
      Some t \<Rightarrow> Inr \<lparr>bi_file = f, bi_time = t, bi_size = 0\<rparr> | None \<Rightarrow> Inl (NoTimestamp f))"
proof -
  have "cut_suffix (path_base f) backup_ext = Some (a @ ''.'' @ st)"
    using cut_suffix_append [of "a @ ''.'' @ st" backup_ext] by (simp add: assms(1))
  moreover have "takeWhile (\<lambda>c. c \<noteq> CHR ''.'') (rev (a @ ''.'' @ st)) = rev st"
    "dropWhile (\<lambda>c. c \<noteq> CHR ''.'') (rev (a @ ''.'' @ st)) = CHR ''.'' # rev a"
  proof -
    have "\<forall>c \<in> set (rev st). c \<noteq> CHR ''.''" using assms(3) by auto
    then show "takeWhile (\<lambda>c. c \<noteq> CHR ''.'') (rev (a @ ''.'' @ st)) = rev st"
      "dropWhile (\<lambda>c. c \<noteq> CHR ''.'') (rev (a @ ''.'' @ st)) = CHR ''.'' # rev a"
      by (simp_all add: takeWhile_append2 dropWhile_append2 del: set_rev)
  qed
  ultimately show ?thesis using assms(2) by (simp add: extract_backup_info_def Let_def del: rev_append)
qed

text \<open>The name of a backup carries its instant: from the generated file name the instant in
  milliseconds is read back, in every local time zone and for every path of a database.\<close>

theorem backup_name_roundtrip:
  assumes "stamp_ok now" "path_base path \<noteq> ''/''"
  shows "extract_backup_info loc (generate_backup_filename path now) =
    Inr \<lparr>bi_file = generate_backup_filename path now, bi_time = ms_of now * 1000000, bi_size = 0\<rparr>"
proof -
  have "path_base (generate_backup_filename path now) = backup_name path now"
    unfolding generate_name by (rule path_base_join [OF plain_backup_name [OF assms] backups_dir_nonempty])
  then show ?thesis
    using extract_of_name [of "generate_backup_filename path now" "path_base path" "backup_stamp now"]
      path_base_nonempty stamp_chars [OF _ assms(1)] parse_backup_stamp_fmt [OF assms(1)]
    by (fastforce simp: backup_name_def)
qed

section \<open>Rotation\<close>

definition dir_ok :: "dir \<Rightarrow> bool" where
  "dir_ok es \<longleftrightarrow> distinct (map fst es) \<and> (\<forall>e \<in> set es. plain_name (fst e))"

lemma map_filter_cong_filter:
  "(\<And>e b. e \<in> set es \<Longrightarrow> f e = Some b \<Longrightarrow> Q' b = Q e) \<Longrightarrow>
    List.map_filter f (filter Q es) = filter Q' (List.map_filter f es)"
  by (induction es) (auto simp: map_filter_simps split: option.split)

lemma in_map_filter: "b \<in> set (List.map_filter f xs) \<longleftrightarrow> (\<exists>x \<in> set xs. f x = Some b)"
  by (induction xs) (auto simp: map_filter_simps split: option.split)

lemma backup_entry_Some:
  assumes "backup_entry loc dk bdir e = Some b"
  shows "bi_file b = path_join [bdir, fst e]" "suffix backup_ext (fst e)"
  using assms by (auto simp: backup_entry_def Let_def extract_backup_info_def
      split: prod.splits node.splits if_splits sum.splits option.splits)

lemma own_entries_files:
  assumes "b \<in> set (own_entries loc dk path es)"
  shows "\<exists>e \<in> set es. backup_entry loc dk (backups_dir path) e = Some b"
  using assms by (auto simp: own_entries_def in_map_filter)

lemma own_entries_distinct:
  assumes "dir_ok es"
  shows "distinct (map bi_file (own_entries loc dk path es))"
  using assms
proof (induction es)
  case Nil
  then show ?case by (simp add: own_entries_def map_filter_simps)
next
  case (Cons e es)
  have ok: "dir_ok es" "plain_name (fst e)" "fst e \<notin> fst ` set es"
    using Cons.prems by (auto simp: dir_ok_def)
  have new: "path_join [backups_dir path, fst e] \<notin> bi_file ` set (own_entries loc dk path es)"
  proof
    assume "path_join [backups_dir path, fst e] \<in> bi_file ` set (own_entries loc dk path es)"
    then obtain b e' where b: "bi_file b = path_join [backups_dir path, fst e]" "e' \<in> set es"
        "backup_entry loc dk (backups_dir path) e' = Some b"
      using own_entries_files by (metis (no_types, lifting) image_iff)
    then have "path_join [backups_dir path, fst e'] = path_join [backups_dir path, fst e]"
      using backup_entry_Some(1) by metis
    moreover have "plain_name (fst e')" using ok(1) b(2) by (simp add: dir_ok_def)
    ultimately have "fst e' = fst e"
      using path_join_inj [OF _ ok(2) backups_dir_nonempty] by blast
    then show False using ok(3) b(2) by (metis rev_image_eqI)
  qed
  show ?case
  proof (cases "prefix (path_base path @ ''.'') (fst e)")
    case False
    then show ?thesis using Cons.IH ok(1) by (simp add: own_entries_def)
  next
    case True
    show ?thesis
    proof (cases "backup_entry loc dk (backups_dir path) e")
      case None
      then show ?thesis using Cons.IH ok(1) True by (simp add: own_entries_def map_filter_simps)
    next
      case (Some b)
      then have "own_entries loc dk path (e # es) = b # own_entries loc dk path es"
        using True by (simp add: own_entries_def map_filter_simps)
      then show ?thesis using Cons.IH ok(1) new backup_entry_Some(1) [OF Some] by simp
    qed
  qed
qed

text \<open>What the removals of a list of backups delete, when none fails.\<close>

definition doomed :: "backup_info list \<Rightarrow> string set" where
  "doomed bs = (\<Union>b \<in> set bs. {bi_file b, bi_file b @ ''-wal'', bi_file b @ ''-shm''})"

lemma remove_free:
  assumes "\<And>p. \<not> dk_stuck dk p" "dk_backups dk = Some es"
  shows "remove_backup_files bdir p dk = dk\<lparr>dk_backups :=
    Some (filter (\<lambda>e. path_join [bdir, fst e] \<notin> {p, p @ ''-wal'', p @ ''-shm''}) es)\<rparr>"
  using assms by (simp add: remove_backup_files_def remove_file_def case_prod_unfold conj_ac)

lemma remove_all_free:
  assumes "\<And>p. \<not> dk_stuck dk p" "dk_backups dk = Some es"
  shows "foldl (\<lambda>dk b. remove_backup_files bdir (bi_file b) dk) dk bs =
    dk\<lparr>dk_backups := Some (filter (\<lambda>e. path_join [bdir, fst e] \<notin> doomed bs) es)\<rparr>"
  using assms
proof (induction bs arbitrary: dk es)
  case Nil
  then show ?case by (simp add: doomed_def)
next
  case (Cons b bs)
  have "filter (\<lambda>e. path_join [bdir, fst e] \<notin> doomed bs) (filter (\<lambda>e. path_join [bdir, fst e]
      \<notin> {bi_file b, bi_file b @ ''-wal'', bi_file b @ ''-shm''}) es)
    = filter (\<lambda>e. path_join [bdir, fst e] \<notin> doomed (b # bs)) es"
    unfolding filter_filter by (rule filter_cong [OF refl]) (simp add: doomed_def conj_ac)
  note eq = this
  define es1 where "es1 = filter (\<lambda>e. path_join [bdir, fst e]
      \<notin> {bi_file b, bi_file b @ ''-wal'', bi_file b @ ''-shm''}) es"
  have "foldl (\<lambda>dk b. remove_backup_files bdir (bi_file b) dk) (dk\<lparr>dk_backups := Some es1\<rparr>) bs
      = dk\<lparr>dk_backups := Some (filter (\<lambda>e. path_join [bdir, fst e] \<notin> doomed bs) es1)\<rparr>"
    by (subst Cons.IH [where es = es1]) (simp_all add: Cons.prems(1))
  then show ?case
    unfolding foldl_Cons remove_free [OF Cons.prems] es1_def [symmetric]
    using eq [folded es1_def] by simp
qed

lemma filter_take_drop: "distinct xs \<Longrightarrow> filter (\<lambda>x. x \<notin> set (drop n xs)) xs = take n xs"
proof -
  assume d: "distinct xs"
  have "filter (\<lambda>x. x \<notin> set (drop n xs)) (take n xs @ drop n xs) = take n xs"
    using set_take_disj_set_drop_if_distinct [OF d, of n n] unfolding filter_append
    by (auto simp: filter_id_conv filter_empty_conv)
  then show ?thesis by simp
qed

lemma list_of_entries:
  "\<not> dk_unreadable dk \<Longrightarrow> dk_backups dk = Some es \<Longrightarrow>
    list_backups loc dk path = Inr (rev (sort_key bi_time (rev (own_entries loc dk path es))))"
  by (simp add: list_backups_def)

lemma remaining_entries:
  assumes "dir_ok es" "distinct bs" "set bs = set (own_entries loc dk path es)"
  shows "own_entries loc (dk\<lparr>dk_backups := x\<rparr>) path
      (filter (\<lambda>e. path_join [backups_dir path, fst e] \<notin> doomed (drop n bs)) es) =
    filter (\<lambda>b. b \<notin> set (drop n bs)) (own_entries loc dk path es)"
proof -
  define bdir where "bdir = backups_dir path"
  have be: "backup_entry loc (dk\<lparr>dk_backups := x\<rparr>) bdir = backup_entry loc dk bdir"
    by (rule ext) (simp add: backup_entry_def Let_def split: prod.split node.split sum.split)
  have inj: "b = c" if "b \<in> set bs" "c \<in> set bs" "bi_file b = bi_file c" for b c
    using own_entries_distinct [OF assms(1), of loc dk path] that assms(3) by (auto simp: distinct_map inj_on_def)
  have q: "(b \<notin> set (drop n bs)) = (path_join [bdir, fst e] \<notin> doomed (drop n bs))"
    if "e \<in> set (filter (\<lambda>e. prefix (path_base path @ ''.'') (fst e)) es)" "backup_entry loc dk bdir e = Some b" for e b
  proof -
    have b: "b \<in> set bs"
      using that unfolding assms(3) own_entries_def bdir_def in_map_filter by blast
    have ext: "suffix backup_ext (bi_file b)"
    proof -
      have "plain_name (fst e)" using that(1) assms(1) by (simp add: dir_ok_def)
      then obtain pre where "path_join [bdir, fst e] = pre @ fst e"
        using path_join_plain [of "fst e" bdir] backups_dir_nonempty [of path]
        unfolding bdir_def by blast
      then show ?thesis using backup_entry_Some [OF that(2)] by (simp add: suffix_append)
    qed
    have "bi_file b \<noteq> bi_file c @ ''-wal'' \<and> bi_file b \<noteq> bi_file c @ ''-shm''" for c
      using ext by (auto simp: backup_ext_def suffix_def append_eq_append_conv2 Cons_eq_append_conv append_eq_Cons_conv)
    then have "bi_file b \<in> doomed (drop n bs) \<longleftrightarrow> (\<exists>c \<in> set (drop n bs). bi_file b = bi_file c)"
      by (auto simp: doomed_def)
    also have "\<dots> \<longleftrightarrow> b \<in> set (drop n bs)" using inj b by (metis in_set_dropD)
    finally show ?thesis using backup_entry_Some(1) [OF that(2)] by simp
  qed
  have swap: "filter P (filter Q xs) = filter Q (filter P xs)" for P Q and xs :: dir
    by (simp add: conj_commute)
  show ?thesis
    unfolding own_entries_def bdir_def [symmetric] be
    by (subst swap, rule map_filter_cong_filter) (rule q)
qed

text \<open>The name of a backup of this database: its file name, a stamp without a dot, \<open>.backup\<close>.\<close>

definition own_backup :: "string \<Rightarrow> string \<Rightarrow> bool" where
  "own_backup path name \<longleftrightarrow> (\<exists>stamp. CHR ''.'' \<notin> set stamp \<and> name = path_base path @ ''.'' @ stamp @ backup_ext)"

lemma doomed_entry:
  assumes "dir_ok es" "e \<in> set es" "path_join [backups_dir path, fst e] \<in> doomed bs"
    "set bs \<subseteq> set (own_entries loc dk path es)"
  shows "\<exists>b \<in> set bs. \<exists>e' \<in> set es. bi_file b = path_join [backups_dir path, fst e'] \<and>
    prefix (path_base path @ ''.'') (fst e') \<and> suffix backup_ext (fst e') \<and>
    fst e \<in> {fst e', fst e' @ ''-wal'', fst e' @ ''-shm''}"
proof -
  obtain b sfx where b: "b \<in> set bs" "path_join [backups_dir path, fst e] = bi_file b @ sfx" "sfx \<in> {[], ''-wal'', ''-shm''}"
    using assms(3) by (auto simp: doomed_def)
  have "b \<in> set (own_entries loc dk path es)" using b(1) assms(4) by blast
  then obtain e' where e': "e' \<in> set es" "prefix (path_base path @ ''.'') (fst e')"
    "backup_entry loc dk (backups_dir path) e' = Some b" unfolding own_entries_def in_map_filter by auto
  note bf = backup_entry_Some [OF e'(3)]
  have plain: "plain_name (fst e)" "plain_name (fst e')" using assms(1,2) e'(1) by (auto simp: dir_ok_def)
  obtain pre where pre: "path_join [backups_dir path, fst e'] = pre @ fst e'" "pre = [] \<or> List.last pre = CHR ''/''"
    using path_join_plain [OF plain(2) backups_dir_nonempty] by blast
  have "path_base (pre @ (fst e' @ sfx)) = fst e' @ sfx"
    by (rule path_base_after) (use pre(2) plain(2) b(3) in \<open>auto simp: plain_name_def\<close>)
  then have "fst e = fst e' @ sfx"
    using path_base_join [OF plain(1) backups_dir_nonempty [of path]] b(2) bf(1) pre(1) by simp
  then show ?thesis using b(1,3) e'(1,2) bf by auto
qed

lemma rotation_result:
  assumes "dk_backups dk = Some es" "dir_ok es" "\<not> dk_unreadable dk" "\<And>p. \<not> dk_stuck dk p" "0 < n"
  shows "\<exists>bs dk' es'. list_backups loc dk path = Inr bs \<and> cleanup_backups loc path n dk = (None, dk') \<and>
    sorted_wrt (\<lambda>a b. bi_time b \<le> bi_time a) bs \<and> list_backups loc dk' path = Inr (take (nat n) bs) \<and>
    dk_backups dk' = Some es' \<and> set bs = set (own_entries loc dk path es) \<and>
    es' = filter (\<lambda>e. path_join [backups_dir path, fst e] \<notin> doomed (drop (nat n) bs)) es"
proof -
  define L where "L = own_entries loc dk path es"
  define bs where "bs = rev (sort_key bi_time (rev L))"
  have list: "list_backups loc dk path = Inr bs"
    using list_of_entries [OF assms(3,1)] by (simp add: bs_def L_def)
  have dist: "distinct bs"
    using own_entries_distinct [OF assms(2), of loc dk path] by (simp add: bs_def L_def distinct_map)
  have sorted: "sorted_wrt (\<lambda>a b. bi_time b \<le> bi_time a) bs"
    using sorted_sort_key [of bi_time "rev L"] by (simp add: bs_def sorted_wrt_rev sorted_map)
  define es' where "es' = filter (\<lambda>e. path_join [backups_dir path, fst e] \<notin> doomed (drop (nat n) bs)) es"
  define dk' where "dk' = dk\<lparr>dk_backups := Some es'\<rparr>"
  have cl: "cleanup_backups loc path n dk = (None, dk')"
  proof (cases "int (length bs) \<le> n")
    case True
    then have "drop (nat n) bs = []" by simp
    then have "dk' = dk" using assms(1) by (simp add: dk'_def es'_def doomed_def)
    then show ?thesis using True assms(5) list by (simp add: cleanup_backups_def)
  next
    case False
    then show ?thesis using assms(5) list remove_all_free [OF assms(4,1)]
      by (simp add: cleanup_backups_def dk'_def es'_def)
  qed
  have "own_entries loc dk' path es' = filter (\<lambda>b. b \<notin> set (drop (nat n) bs)) L"
    unfolding dk'_def es'_def L_def
    by (rule remaining_entries [OF assms(2) dist]) (simp add: bs_def L_def)
  moreover have "list_backups loc dk' path = Inr (rev (sort_key bi_time (rev (own_entries loc dk' path es'))))"
    by (rule list_of_entries) (use assms(3) in \<open>simp_all add: dk'_def\<close>)
  ultimately have "list_backups loc dk' path = Inr (filter (\<lambda>b. b \<notin> set (drop (nat n) bs)) bs)"
    by (simp add: bs_def filter_sort flip: rev_filter)
  then have "list_backups loc dk' path = Inr (take (nat n) bs)"
    by (simp add: filter_take_drop [OF dist])
  moreover have "set bs = set (own_entries loc dk path es)" by (simp add: bs_def L_def)
  moreover have "dk_backups dk' = Some es'" by (simp add: dk'_def)
  ultimately show ?thesis using list cl sorted es'_def by blast
qed

text \<open>C32: Rotation keeps exactly the newest backups and nothing of another database is lost. In a
  directory where every entry that starts with this database's name and a dot and ends in
  .backup is a backup of it (no other database's name extends this one's with a dot; where one
  does, the prefix test of ListBackups takes its backups too, see
  \<open>rotation_takes_other_database\<close>), and when no removal fails: the backups listed afterwards
  are the first ones of the list before, which is ordered by time, newest first; no entry
  appears; and every entry that disappears is one of the listed backups past the first ones,
  named with this database's own name and a stamp, or its -wal or -shm sidecar.\<close>

theorem rotation_keeps_newest:
  assumes "dk_backups dk = Some es" "dir_ok es" "\<not> dk_unreadable dk" "\<And>p. \<not> dk_stuck dk p" "0 < n"
    "\<forall>e \<in> set es. prefix (path_base path @ ''.'') (fst e) \<and> suffix backup_ext (fst e) \<longrightarrow> own_backup path (fst e)"
  shows "\<exists>bs dk' es'. list_backups loc dk path = Inr bs \<and> cleanup_backups loc path n dk = (None, dk') \<and>
    sorted_wrt (\<lambda>a b. bi_time b \<le> bi_time a) bs \<and> list_backups loc dk' path = Inr (take (nat n) bs) \<and>
    dk_backups dk' = Some es' \<and> set es' \<subseteq> set es \<and>
    (\<forall>e \<in> set es. e \<notin> set es' \<longrightarrow> (\<exists>b \<in> set (drop (nat n) bs). \<exists>x. own_backup path x \<and>
      bi_file b = path_join [backups_dir path, x] \<and> fst e \<in> {x, x @ ''-wal'', x @ ''-shm''}))"
proof -
  obtain bs dk' es' where r: "list_backups loc dk path = Inr bs" "cleanup_backups loc path n dk = (None, dk')"
    "sorted_wrt (\<lambda>a b. bi_time b \<le> bi_time a) bs" "list_backups loc dk' path = Inr (take (nat n) bs)"
    "dk_backups dk' = Some es'" "set bs = set (own_entries loc dk path es)"
    "es' = filter (\<lambda>e. path_join [backups_dir path, fst e] \<notin> doomed (drop (nat n) bs)) es"
    using rotation_result [OF assms(1-5)] by metis
  have "\<exists>b \<in> set (drop (nat n) bs). \<exists>x. own_backup path x \<and> bi_file b = path_join [backups_dir path, x] \<and>
      fst e \<in> {x, x @ ''-wal'', x @ ''-shm''}" if e: "e \<in> set es" and gone: "e \<notin> set es'" for e
  proof -
    have "path_join [backups_dir path, fst e] \<in> doomed (drop (nat n) bs)" using e gone r(7) by auto
    moreover have "set (drop (nat n) bs) \<subseteq> set (own_entries loc dk path es)" using r(6) set_drop_subset by fastforce
    ultimately obtain b e' where "b \<in> set (drop (nat n) bs)" "e' \<in> set es" "bi_file b = path_join [backups_dir path, fst e']"
      "prefix (path_base path @ ''.'') (fst e')" "suffix backup_ext (fst e')" "fst e \<in> {fst e', fst e' @ ''-wal'', fst e' @ ''-shm''}"
      using doomed_entry [OF assms(2) e] by blast
    with assms(6) show ?thesis by blast
  qed
  moreover have "set es' \<subseteq> set es" using r(7) by simp
  ultimately show ?thesis using r(1-5) by blast
qed

section \<open>A verified backup\<close>

definition entries :: "disk \<Rightarrow> dir" where
  "entries dk = (case dk_backups dk of None \<Rightarrow> [] | Some es \<Rightarrow> es)"

definition good_copy :: "db_file \<Rightarrow> bool" where
  "good_copy f \<longleftrightarrow> fi_size f \<noteq> 0 \<and> fi_sound f \<and> \<not> fi_wal f \<and> fi_private f"

definition sidecars :: "string \<Rightarrow> string set" where
  "sidecars p = {p, p @ ''-wal'', p @ ''-shm''}"

lemma entries_put [simp]: "entries (put_file n f dk) = filter (\<lambda>e. fst e \<noteq> n) (entries dk) @ [(n, Plain f)]"
  by (simp add: entries_def put_file_def Let_def split: option.split)

lemma entries_make_dir [simp]: "entries (make_dir dk) = entries dk"
  by (simp add: entries_def make_dir_def split: option.split)

lemma stuck_frame [simp]: "dk_stuck (put_file n f dk) = dk_stuck dk" "dk_stuck (make_dir dk) = dk_stuck dk"
  by (simp_all add: put_file_def make_dir_def Let_def split: option.split)

lemma entries_remove:
  "entries (remove_file bdir p dk) = (if dk_stuck dk p then entries dk
     else filter (\<lambda>e. path_join [bdir, fst e] \<noteq> p) (entries dk))"
  by (auto simp: remove_file_def entries_def case_prod_unfold split: option.split)

lemma stuck_remove [simp]: "dk_stuck (remove_file bdir p dk) = dk_stuck dk"
  by (simp add: remove_file_def)

lemma entries_remove_backup:
  "e \<in> set (entries (remove_backup_files bdir p dk)) \<longleftrightarrow> e \<in> set (entries dk) \<and>
     \<not> (path_join [bdir, fst e] \<in> sidecars p \<and> \<not> dk_stuck dk (path_join [bdir, fst e]))"
  by (auto simp: remove_backup_files_def entries_remove sidecars_def)

definition kept :: "string \<Rightarrow> string \<Rightarrow> disk \<Rightarrow> disk \<Rightarrow> bool" where
  "kept bdir dest dk dk' \<longleftrightarrow> (\<forall>e \<in> set (entries dk). path_join [bdir, fst e] \<notin> sidecars dest \<longrightarrow> e \<in> set (entries dk'))"

lemma kept_put: "path_join [bdir, n] = dest \<Longrightarrow> kept bdir dest dk dk' \<Longrightarrow> kept bdir dest dk (put_file n f dk')"
  by (auto simp: kept_def sidecars_def)

lemma kept_remove: "kept bdir dest dk dk' \<Longrightarrow> kept bdir dest dk (remove_backup_files bdir dest dk')"
  by (auto simp: kept_def entries_remove_backup)

lemma finish_copy_result:
  assumes "finish_copy env bdir dest f dk = (r, dk')" "path_base dest = n" "path_join [bdir, n] = dest"
  shows "kept bdir dest dk dk'"
    "r = None \<Longrightarrow> \<exists>f. (n, Plain f) \<in> set (entries dk') \<and> good_copy f"
    "r = Some VerifyError \<Longrightarrow> \<not> dk_stuck dk dest \<Longrightarrow> n \<notin> fst ` set (entries dk')"
proof -
  have k: "kept bdir dest dk dk" by (simp add: kept_def)
  show "kept bdir dest dk dk'"
    using assms kept_put [OF assms(3)] kept_remove k
    by (auto simp: finish_copy_def Let_def verify_backup_file_def split: if_splits)
  show "\<exists>f. (n, Plain f) \<in> set (entries dk') \<and> good_copy f" if "r = None"
    using assms that by (auto simp: finish_copy_def Let_def verify_backup_file_def check_backup_integrity_def
        good_copy_def split: if_splits)
  show "n \<notin> fst ` set (entries dk')" if "r = Some VerifyError" "\<not> dk_stuck dk dest"
    using assms that by (auto simp: finish_copy_def Let_def verify_backup_file_def entries_remove_backup
        sidecars_def simp del: entries_put split: if_splits)
qed

lemma verified_backup:
  assumes "write_backup env path now dk = (r, dk')" "stamp_ok now" "path_base path \<noteq> ''/''"
  shows "(\<forall>dest. r = Inr dest \<longrightarrow> dest = generate_backup_filename path now \<and>
      (\<exists>f. (backup_name path now, Plain f) \<in> set (entries dk') \<and> good_copy f)) \<and>
    (r = Inl VerifyError \<and> \<not> dk_stuck dk (generate_backup_filename path now) \<longrightarrow>
      backup_name path now \<notin> fst ` set (entries dk')) \<and>
    kept (backups_dir path) (generate_backup_filename path now) dk dk'"
proof -
  define dest where "dest = generate_backup_filename path now"
  define bdir where "bdir = backups_dir path"
  have n: "path_base dest = backup_name path now" "path_join [bdir, backup_name path now] = dest"
    using path_base_join [OF plain_backup_name [OF assms(2,3)] backups_dir_nonempty [of path]]
    by (simp_all add: dest_def bdir_def generate_name)
  have k: "kept bdir dest dk dk" "kept bdir dest dk (make_dir dk)" by (simp_all add: kept_def)
  have kt: "kept bdir dest dk d" if "kept bdir dest (make_dir dk) d" for d
    using that by (simp add: kept_def)
  define fc fd where "fc = (\<lambda>f. fst (finish_copy env bdir dest f (make_dir dk)))"
    and "fd = (\<lambda>f. snd (finish_copy env bdir dest f (make_dir dk)))"
  then have fin: "finish_copy env bdir dest f (make_dir dk) = (fc f, fd f)" for f by simp
  note res = finish_copy_result [OF fin n]
  show ?thesis
    using assms(1) k kt [OF res(1)] res(2,3) kept_put [OF n(2) k(2)]
    unfolding write_backup_def create_sqlite_backup_def dest_def [symmetric] bdir_def [symmetric]
    by (auto simp: Let_def fin n(1) split: stat.splits if_splits copied.splits option.splits prod.splits)
qed

text \<open>C33: A backup that is reported as taken is there and is a nonempty, sound, owner-only copy out of
  WAL mode; one that fails its check is gone (when it can be removed); and whatever happens, no
  other file of the directory is touched.\<close>

theorem backup_verified:
  assumes "write_backup env path now dk = (r, dk')" "stamp_ok now" "path_base path \<noteq> ''/''"
  shows "(\<forall>dest. r = Inr dest \<longrightarrow> dest = generate_backup_filename path now \<and>
      (\<exists>f. (backup_name path now, Plain f) \<in> set (entries dk') \<and> good_copy f)) \<and>
    (r = Inl VerifyError \<and> \<not> dk_stuck dk (generate_backup_filename path now) \<longrightarrow>
      backup_name path now \<notin> fst ` set (entries dk')) \<and>
    kept (backups_dir path) (generate_backup_filename path now) dk dk'"
  by (rule verified_backup [OF assms])

section \<open>Names that share a prefix\<close>

text \<open>Rotation compares a prefix of the file name, so the backups of a database whose name extends
  this one's with a dot count as its own and are rotated away with them.\<close>

definition quiet_disk :: "dir \<Rightarrow> disk" where
  "quiet_disk es = \<lparr>dk_backups = Some es, dk_unreadable = False, dk_stat_fails = (\<lambda>p. False), dk_stuck = (\<lambda>p. False)\<rparr>"

definition sound_file :: db_file where
  "sound_file = \<lparr>fi_size = 1, fi_sound = True, fi_wal = False, fi_private = True\<rparr>"

definition demo_dir :: dir where
  "demo_dir = [(''solis.db.20240101_000000_000Z.backup'', Plain sound_file),
     (''solis.db.old.20230101_000000_000Z.backup'', Plain sound_file)]"

theorem rotation_takes_other_database:
  "dk_backups (snd (cleanup_backups utc ''/data/solis.db'' 1 (quiet_disk demo_dir))) =
    Some [(''solis.db.20240101_000000_000Z.backup'', Plain sound_file)]"
  by code_simp

text \<open>A copy that fails leaves its file, which rotation counts: with one backup kept, a failing
  copy costs the good one.\<close>

theorem failed_copy_rotates_good_one:
  "dk_backups (backup_tick utc \<lparr>ce_stat = Found, ce_mkdir = True, ce_open = True, ce_conn = True,
      ce_copy = PartialCopy (sound_file\<lparr>fi_size := 0\<rparr>), ce_rollback = True, ce_chmod = True, ce_reopen = True,
      ce_close = True\<rparr> \<lparr>bc_enabled = True, bc_max = 1, bc_interval = 1\<rparr> ''/data/solis.db'' (midnight_utc (Date 2024 1 2))
      (quiet_disk [(''solis.db.20240101_000000_000Z.backup'', Plain sound_file)]))
    = Some [(''solis.db.20240102_000000_000Z.backup'', Plain (sound_file\<lparr>fi_size := 0\<rparr>))]"
  by code_simp

section \<open>Examples\<close>

lemma demo_stamp_ok: "stamp_ok (midnight_utc (Date 2024 1 2))"
  by code_simp

lemma demo_base: "path_base ''/data/solis.db'' = ''solis.db''"
  by code_simp

theorem backup_name_roundtrip_witness:
  "extract_backup_info (\<lambda>t. ns_hour) (generate_backup_filename ''/data/solis.db'' (midnight_utc (Date 2024 1 2))) =
    Inr \<lparr>bi_file = generate_backup_filename ''/data/solis.db'' (midnight_utc (Date 2024 1 2)),
      bi_time = ms_of (midnight_utc (Date 2024 1 2)) * 1000000, bi_size = 0\<rparr>"
  by (rule backup_name_roundtrip [OF demo_stamp_ok]) (simp add: demo_base)

text \<open>Two backups of one database, a sidecar, and a backup of another database, which stays.\<close>

definition shared_dir :: dir where
  "shared_dir = [(''solis.db.20240101_000000_000Z.backup'', Plain sound_file),
     (''solis.db.20230101_000000_000Z.backup'', Plain sound_file),
     (''solis.db.20230101_000000_000Z.backup-wal'', Plain sound_file),
     (''other.db.20220101_000000_000Z.backup'', Plain sound_file)]"

lemma shared_dir_ok: "dir_ok shared_dir"
  by (simp add: dir_ok_def shared_dir_def plain_name_def)

lemma shared_dir_own:
  "\<forall>e \<in> set shared_dir. prefix (path_base ''/data/solis.db'' @ ''.'') (fst e) \<and> suffix backup_ext (fst e) \<longrightarrow>
    own_backup ''/data/solis.db'' (fst e)"
proof -
  have "own_backup ''/data/solis.db'' ''solis.db.20240101_000000_000Z.backup''"
    unfolding own_backup_def by (rule exI [of _ "''20240101_000000_000Z''"]) (simp add: demo_base backup_ext_def)
  moreover have "own_backup ''/data/solis.db'' ''solis.db.20230101_000000_000Z.backup''"
    unfolding own_backup_def by (rule exI [of _ "''20230101_000000_000Z''"]) (simp add: demo_base backup_ext_def)
  moreover have "\<not> suffix backup_ext ''solis.db.20230101_000000_000Z.backup-wal''" by code_simp
  ultimately show ?thesis by (simp add: shared_dir_def demo_base)
qed

theorem rotation_keeps_newest_witness:
  "\<exists>es'. dk_backups (snd (cleanup_backups utc ''/data/solis.db'' 1 (quiet_disk shared_dir))) = Some es' \<and>
    (''other.db.20220101_000000_000Z.backup'', Plain sound_file) \<in> set es'"
proof -
  let ?e = "(''other.db.20220101_000000_000Z.backup'', Plain sound_file)"
  have d: "dk_backups (quiet_disk shared_dir) = Some shared_dir" "\<not> dk_unreadable (quiet_disk shared_dir)"
    "\<And>p. \<not> dk_stuck (quiet_disk shared_dir) p" "(0 :: int) < 1" by (simp_all add: quiet_disk_def)
  obtain dk' es' where r: "cleanup_backups utc ''/data/solis.db'' 1 (quiet_disk shared_dir) = (None, dk')"
    "dk_backups dk' = Some es'"
    "\<forall>e \<in> set shared_dir. e \<notin> set es' \<longrightarrow> (\<exists>x. own_backup ''/data/solis.db'' x \<and> fst e \<in> {x, x @ ''-wal'', x @ ''-shm''})"
    using rotation_keeps_newest [OF d(1) shared_dir_ok d(2-4) shared_dir_own, of utc] by blast
  have "?e \<in> set shared_dir" by (simp add: shared_dir_def)
  then have "?e \<in> set es'" using r(3) by (force simp: own_backup_def demo_base)
  with r show ?thesis by simp
qed

definition good_env :: copy_env where
  "good_env = \<lparr>ce_stat = Found, ce_mkdir = True, ce_open = True, ce_conn = True,
     ce_copy = FullCopy \<lparr>fi_size = 1, fi_sound = True, fi_wal = True, fi_private = False\<rparr>,
     ce_rollback = True, ce_chmod = True, ce_reopen = True, ce_close = True\<rparr>"

lemma good_env_writes:
  "fst (write_backup good_env ''/data/solis.db'' t (quiet_disk [])) =
    Inr (generate_backup_filename ''/data/solis.db'' t)"
  by (simp add: write_backup_def good_env_def create_sqlite_backup_def finish_copy_def verify_backup_file_def
      check_backup_integrity_def Let_def quiet_disk_def make_dir_def put_file_def)

theorem backup_verified_witness:
  "\<exists>f. (backup_name ''/data/solis.db'' (midnight_utc (Date 2024 1 2)), Plain f) \<in>
      set (entries (snd (write_backup good_env ''/data/solis.db'' (midnight_utc (Date 2024 1 2)) (quiet_disk [])))) \<and>
    good_copy f"
  using backup_verified [OF prod.collapse [symmetric] demo_stamp_ok, of "''/data/solis.db''" good_env "quiet_disk []"]
    demo_base good_env_writes
  by simp

end
