(* ===== verification/Migration.thy ===== *)
theory Migration
  imports Backup Float64
begin

text \<open>
  internal/database: the migration registry and executor, the v3 migration with its parser of
  legacy timestamps (the four layouts that package time parses there), and Prepare, which backs
  up and migrates. A statement fails or succeeds as a list of faults says; a transaction that
  fails leaves the database as it was. Texts are bytes; \<open>TrimSpace\<close> trims ASCII spaces.
\<close>

section \<open>Parsing legacy timestamps (package time)\<close>

text \<open>A space of a layout matches any run of spaces, or nothing at the end of the text.\<close>

definition skip_space :: "string \<Rightarrow> string option" where
  "skip_space v = (if v \<noteq> [] \<and> hd v \<noteq> CHR '' '' then None else Some (dropWhile (\<lambda>c. c = CHR '' '') v))"

text \<open>\<open>15\<close>: one or two digits.\<close>

definition take_hour :: "string \<Rightarrow> (int \<times> string) option" where
  "take_hour v = (case v of [] \<Rightarrow> None | c # r \<Rightarrow> if \<not> is_digit c then None else
     (case take_digits 2 v of Some (h, r') \<Rightarrow> if h < 24 then Some (int h, r') else None
      | None \<Rightarrow> Some (int (digit_val c), r)))"

text \<open>A fraction after the seconds: a dot or a comma and digits, of which nine count.\<close>

definition take_fraction :: "string \<Rightarrow> int \<times> string" where
  "take_fraction v = (case v of [] \<Rightarrow> (0, v) | c # r \<Rightarrow>
     let ds = takeWhile is_digit r in
     if c \<in> {CHR ''.'', CHR '',''} \<and> ds \<noteq> []
     then (int (num_of (take 9 ds) 0 * 10 ^ (9 - length (take 9 ds))), drop (length ds) r)
     else (0, v))"

definition take_date :: "string \<Rightarrow> (date \<times> string) option" where
  "take_date v = (case parse_ym v of None \<Rightarrow> None | Some (y, m, r) \<Rightarrow>
     (case expect CHR ''-'' r of None \<Rightarrow> None | Some r \<Rightarrow>
       (case take_digits 2 r of None \<Rightarrow> None | Some (d, r) \<Rightarrow>
         if valid_date (Date y m (int d)) then Some (Date y m (int d), r) else None)))"

definition take_clock :: "string \<Rightarrow> (int \<times> string) option" where
  "take_clock v = (case take_hour v of None \<Rightarrow> None | Some (h, r) \<Rightarrow>
     (case expect CHR '':'' r of None \<Rightarrow> None | Some r \<Rightarrow>
     (case take_below 60 r of None \<Rightarrow> None | Some (mi, r) \<Rightarrow>
     (case expect CHR '':'' r of None \<Rightarrow> None | Some r \<Rightarrow>
     (case take_below 60 r of None \<Rightarrow> None | Some (se, r) \<Rightarrow>
       (case take_fraction r of (ns, r) \<Rightarrow>
         Some (h * ns_hour + mi * ns_minute + se * ns_second + ns, r)))))))"

text \<open>The offset: a sign, hours up to 24 and minutes up to 60, with or without a colon.\<close>

definition take_offset :: "bool \<Rightarrow> string \<Rightarrow> (int \<times> string) option" where
  "take_offset colon v = (case v of [] \<Rightarrow> None | sign # r \<Rightarrow>
     (case take_digits 2 r of None \<Rightarrow> None | Some (h, r) \<Rightarrow>
     (case (if colon then expect CHR '':'' r else Some r) of None \<Rightarrow> None | Some r \<Rightarrow>
     (case take_digits 2 r of None \<Rightarrow> None | Some (m, r) \<Rightarrow>
       if 24 < h \<or> 60 < m \<or> sign \<notin> {CHR ''+'', CHR ''-''} then None
       else let o' = int (h * 60 + m) * ns_minute in Some (if sign = CHR ''-'' then - o' else o', r)))))"

definition is_upper :: "char \<Rightarrow> bool" where
  "is_upper c \<longleftrightarrow> 65 \<le> (of_char c :: nat) \<and> (of_char c :: nat) \<le> 90"

text \<open>\<open>parseSignedOffset\<close>: the bytes of a sign and hours up to 23, 0 when there are none.\<close>

definition signed_offset_len :: "string \<Rightarrow> nat" where
  "signed_offset_len v = (case v of [] \<Rightarrow> 0 | c # r \<Rightarrow>
     let ds = takeWhile is_digit r in
     if c \<notin> {CHR ''+'', CHR ''-''} \<or> ds = [] \<or> 23 < num_of ds 0 then 0 else 1 + length ds)"

definition zone_name_len :: "string \<Rightarrow> nat option" where
  "zone_name_len v = (if length v < 3 then None
     else if take 4 v = ''ChST'' \<or> take 4 v = ''MeST'' then Some 4
     else if take 3 v = ''GMT'' then Some (3 + signed_offset_len (drop 3 v))
     else if hd v \<in> {CHR ''+'', CHR ''-''}
       then (if signed_offset_len v = 0 then None else Some (signed_offset_len v))
     else let n = length (takeWhile is_upper (take 6 v)) in
       if n = 5 then (if v ! 4 = CHR ''T'' then Some 5 else None)
       else if n = 4 then (if v ! 3 = CHR ''T'' \<or> take 4 v = ''WITA'' then Some 4 else None)
       else if n = 3 then Some 3 else None)"

text \<open>\<open>MST\<close>: whether the name is UTC, which overrides the offset, and the rest.\<close>

definition take_zone_name :: "string \<Rightarrow> (bool \<times> string) option" where
  "take_zone_name v = (if take 3 v = ''UTC'' then Some (True, drop 3 v)
     else map_option (\<lambda>n. (False, drop n v)) (zone_name_len v))"

definition instant_of :: "date \<Rightarrow> int \<Rightarrow> int \<Rightarrow> int" where
  "instant_of d clock offset = midnight_utc d + clock - offset"

definition parse_go_string :: "string \<Rightarrow> int option" where
  "parse_go_string v = (case take_date v of None \<Rightarrow> None | Some (d, r) \<Rightarrow>
     (case skip_space r of None \<Rightarrow> None | Some r \<Rightarrow>
     (case take_clock r of None \<Rightarrow> None | Some (c, r) \<Rightarrow>
     (case skip_space r of None \<Rightarrow> None | Some r \<Rightarrow>
     (case take_offset False r of None \<Rightarrow> None | Some (o', r) \<Rightarrow>
     (case skip_space r of None \<Rightarrow> None | Some r \<Rightarrow>
     (case take_zone_name r of None \<Rightarrow> None | Some (u, r) \<Rightarrow>
       if r = [] then Some (instant_of d c (if u then 0 else o')) else None)))))))"

definition parse_rfc3339 :: "string \<Rightarrow> int option" where
  "parse_rfc3339 v = (case take_date v of None \<Rightarrow> None | Some (d, r) \<Rightarrow>
     (case expect CHR ''T'' r of None \<Rightarrow> None | Some r \<Rightarrow>
     (case take_clock r of None \<Rightarrow> None | Some (c, r) \<Rightarrow>
       (case (if r \<noteq> [] \<and> hd r = CHR ''Z'' then Some (0, tl r) else take_offset True r) of
         None \<Rightarrow> None
       | Some (o', r) \<Rightarrow> if r = [] then Some (instant_of d c o') else None))))"

definition parse_spaced_offset :: "string \<Rightarrow> int option" where
  "parse_spaced_offset v = (case take_date v of None \<Rightarrow> None | Some (d, r) \<Rightarrow>
     (case skip_space r of None \<Rightarrow> None | Some r \<Rightarrow>
     (case take_clock r of None \<Rightarrow> None | Some (c, r) \<Rightarrow>
       (case take_offset True r of None \<Rightarrow> None
       | Some (o', r) \<Rightarrow> if r = [] then Some (instant_of d c o') else None))))"

definition parse_sqlite :: "string \<Rightarrow> int option" where
  "parse_sqlite v = (case take_date v of None \<Rightarrow> None | Some (d, r) \<Rightarrow>
     (case skip_space r of None \<Rightarrow> None | Some r \<Rightarrow>
     (case take_clock r of None \<Rightarrow> None
      | Some (c, r) \<Rightarrow> if r = [] then Some (instant_of d c 0) else None)))"

definition parse_legacy :: "string \<Rightarrow> int option" where
  "parse_legacy v = (case parse_go_string v of Some t \<Rightarrow> Some t | None \<Rightarrow>
     (case parse_rfc3339 v of Some t \<Rightarrow> Some t | None \<Rightarrow>
       (case parse_spaced_offset v of Some t \<Rightarrow> Some t | None \<Rightarrow> parse_sqlite v)))"

definition is_space :: "char \<Rightarrow> bool" where
  "is_space c \<longleftrightarrow> (of_char c :: nat) \<in> {9, 10, 11, 12, 13, 32}"

definition trim_space :: "string \<Rightarrow> string" where
  "trim_space s = rev (dropWhile is_space (rev (dropWhile is_space s)))"

fun cut_monotonic :: "string \<Rightarrow> string" where
  "cut_monotonic [] = []"
| "cut_monotonic (c # s) = (if take 3 (c # s) = '' m='' then [] else c # cut_monotonic s)"

definition legacy_instant :: "string \<Rightarrow> int option" where
  "legacy_instant raw = parse_legacy (cut_monotonic (trim_space raw))"

definition normalize_stamp :: "string \<Rightarrow> string option" where
  "normalize_stamp raw = map_option fmt_stamp (legacy_instant raw)"

section \<open>The database a migration sees\<close>

record error_row =
  er_id :: int
  er_stamp :: string
  er_key :: string
  er_raw :: float64

text \<open>A table that does not exist is \<open>None\<close>.\<close>

record mdb =
  md_versions :: "(int \<times> bool) list option"
  md_data :: bool
  md_errors :: "error_row list option"
  md_meta :: bool

record mtx =
  mt_db :: mdb
  mt_faults :: "bool list"

definition statement :: "(mdb \<Rightarrow> mdb) \<Rightarrow> mtx \<Rightarrow> mtx option" where
  "statement f tx = (case mt_faults tx of [] \<Rightarrow> Some \<lparr>mt_db = f (mt_db tx), mt_faults = []\<rparr>
     | b # bs \<Rightarrow> if b then None else Some \<lparr>mt_db = f (mt_db tx), mt_faults = bs\<rparr>)"

section \<open>The v3 migration (database/migrations/v3_migration.go)\<close>

definition v3_version :: int where "v3_version = 3"

text \<open>The rows that change, by id, in id order.\<close>

definition pending_stamps :: "error_row list \<Rightarrow> (int \<times> string) list" where
  "pending_stamps rows = sort_key fst (List.map_filter (\<lambda>r. case normalize_stamp (er_stamp r) of None \<Rightarrow> None
     | Some ts \<Rightarrow> if ts = er_stamp r then None else Some (er_id r, ts)) rows)"

text \<open>\<open>UPDATE OR IGNORE\<close> under UNIQUE(register_key, timestamp); no affected row means a delete.\<close>

definition stamp_taken :: "int \<Rightarrow> string \<Rightarrow> error_row list \<Rightarrow> bool" where
  "stamp_taken i ts rows \<longleftrightarrow> (\<exists>r \<in> set rows. er_id r = i \<and>
     (\<exists>c \<in> set rows. er_id c \<noteq> i \<and> er_key c = er_key r \<and> er_stamp c = ts))"

definition set_stamp :: "int \<Rightarrow> string \<Rightarrow> error_row list \<Rightarrow> error_row list" where
  "set_stamp i ts rows = (if stamp_taken i ts rows then rows
     else map (\<lambda>r. if er_id r = i then r\<lparr>er_stamp := ts\<rparr> else r) rows)"

definition affects :: "int \<Rightarrow> string \<Rightarrow> error_row list \<Rightarrow> bool" where
  "affects i ts rows \<longleftrightarrow> \<not> stamp_taken i ts rows \<and> i \<in> er_id ` set rows"

definition delete_row :: "int \<Rightarrow> error_row list \<Rightarrow> error_row list" where
  "delete_row i rows = filter (\<lambda>r. er_id r \<noteq> i) rows"

definition on_errors :: "(error_row list \<Rightarrow> error_row list) \<Rightarrow> mdb \<Rightarrow> mdb" where
  "on_errors f d = d\<lparr>md_errors := map_option f (md_errors d)\<rparr>"

definition error_rows :: "mdb \<Rightarrow> error_row list" where
  "error_rows d = (case md_errors d of None \<Rightarrow> [] | Some rows \<Rightarrow> rows)"

definition rewrite_stamp :: "int \<times> string \<Rightarrow> mtx \<Rightarrow> mtx option" where
  "rewrite_stamp p tx = (case p of (i, ts) \<Rightarrow>
     let n = affects i ts (error_rows (mt_db tx)) in
     case statement (on_errors (set_stamp i ts)) tx of None \<Rightarrow> None
     | Some tx' \<Rightarrow> if n then Some tx' else statement (on_errors (delete_row i)) tx')"

fun rewrite_all :: "(int \<times> string) list \<Rightarrow> mtx \<Rightarrow> mtx option" where
  "rewrite_all [] tx = Some tx"
| "rewrite_all (p # ps) tx = (case rewrite_stamp p tx of None \<Rightarrow> None | Some tx' \<Rightarrow> rewrite_all ps tx')"

definition normalize_status_timestamps :: "mtx \<Rightarrow> mtx option" where
  "normalize_status_timestamps tx = (case statement id tx of None \<Rightarrow> None
     | Some tx \<Rightarrow> (case md_errors (mt_db tx) of None \<Rightarrow> Some tx
       | Some rows \<Rightarrow> (case statement id tx of None \<Rightarrow> None
         | Some tx \<Rightarrow> rewrite_all (pending_stamps rows) tx)))"

definition v3_up :: "mtx \<Rightarrow> mtx option" where
  "v3_up tx = (case statement (\<lambda>d. d\<lparr>md_meta := True\<rparr>) tx of None \<Rightarrow> None
     | Some tx' \<Rightarrow> normalize_status_timestamps tx')"

definition v3_down :: "mtx \<Rightarrow> mtx option" where
  "v3_down tx = statement (\<lambda>d. d\<lparr>md_meta := False\<rparr>) tx"

section \<open>The registry (database/registry.go)\<close>

text \<open>A migration: its version and its steps. The map and the sorted versions of the registry.\<close>

record migration =
  mg_version :: int
  mg_up :: "mtx \<Rightarrow> mtx option"

record migrations =
  rg_map :: "(int \<times> migration) list"
  rg_versions :: "int list"

definition new_migrations :: migrations where
  "new_migrations = \<lparr>rg_map = [], rg_versions = []\<rparr>"

definition register_migration :: "migration \<Rightarrow> migrations \<Rightarrow> bool \<times> migrations" where
  "register_migration m g = (if map_of (rg_map g) (mg_version m) \<noteq> None then (False, g)
     else (True, \<lparr>rg_map = (mg_version m, m) # rg_map g, rg_versions = sort (rg_versions g @ [mg_version m])\<rparr>))"

definition get_migrations_from :: "migrations \<Rightarrow> int \<Rightarrow> migration list" where
  "get_migrations_from g v = map (\<lambda>x. the (map_of (rg_map g) x)) (filter (\<lambda>x. v < x) (rg_versions g))"

definition current_schema_version :: int where "current_schema_version = 3"
definition min_compatible_version :: int where "min_compatible_version = 2"

definition v3_migration :: migration where
  "v3_migration = \<lparr>mg_version = v3_version, mg_up = v3_up\<rparr>"

section \<open>The executor (database/migration.go)\<close>

definition max_version :: "(int \<times> bool) list \<Rightarrow> int" where
  "max_version vs = (case map fst (filter snd vs) of [] \<Rightarrow> 0 | x # xs \<Rightarrow> foldl max x xs)"

text \<open>A query outside a transaction: the first answer of the faults.\<close>

definition get_current_version :: "bool list \<Rightarrow> mdb \<Rightarrow> (int \<times> bool list) option" where
  "get_current_version faults d = (case statement id \<lparr>mt_db = d, mt_faults = faults\<rparr> of None \<Rightarrow> None
     | Some tx \<Rightarrow> (case md_versions d of None \<Rightarrow> Some (0, mt_faults tx)
       | Some vs \<Rightarrow> (case statement id tx of None \<Rightarrow> None
         | Some tx \<Rightarrow> Some (max_version vs, mt_faults tx))))"

definition ensure_versions :: "mdb \<Rightarrow> mdb" where
  "ensure_versions d = (case md_versions d of None \<Rightarrow> d\<lparr>md_versions := Some []\<rparr> | Some vs \<Rightarrow> d)"

text \<open>\<open>INSERT OR REPLACE\<close> with success = 1, on the unique version.\<close>

definition record_version :: "int \<Rightarrow> mdb \<Rightarrow> mdb" where
  "record_version v d = d\<lparr>md_versions := map_option (\<lambda>vs. filter (\<lambda>x. fst x \<noteq> v) vs @ [(v, True)]) (md_versions d)\<rparr>"

definition apply_in_tx :: "migration \<Rightarrow> mtx \<Rightarrow> mtx option" where
  "apply_in_tx m tx = (case mg_up m tx of None \<Rightarrow> None
     | Some tx \<Rightarrow> (case statement ensure_versions tx of None \<Rightarrow> None
       | Some tx \<Rightarrow> statement (record_version (mg_version m)) tx))"

text \<open>Begin, the migration, commit; the result is whether it succeeded, the rest of the faults and
  the database, which changes only at the commit.\<close>

definition apply_migration :: "migration \<Rightarrow> bool list \<Rightarrow> mdb \<Rightarrow> bool \<times> bool list \<times> mdb" where
  "apply_migration m faults d = (case statement id \<lparr>mt_db = d, mt_faults = faults\<rparr> of None \<Rightarrow> (False, [], d)
     | Some tx \<Rightarrow> (case apply_in_tx m tx of None \<Rightarrow> (False, [], d)
       | Some tx \<Rightarrow> (case statement id tx of None \<Rightarrow> (False, [], d)
         | Some tx \<Rightarrow> (True, mt_faults tx, mt_db tx))))"

text \<open>The number of migrations applied, or the version that failed.\<close>

fun apply_list :: "migration list \<Rightarrow> nat \<Rightarrow> bool list \<Rightarrow> mdb \<Rightarrow> (int + nat) \<times> mdb" where
  "apply_list [] n faults d = (Inr n, d)"
| "apply_list (m # ms) n faults d = (case apply_migration m faults d of
       (True, faults', d') \<Rightarrow> apply_list ms (Suc n) faults' d'
     | (False, faults', d') \<Rightarrow> (Inl (mg_version m), d'))"

definition apply_pending_migrations :: "migrations \<Rightarrow> int \<Rightarrow> bool list \<Rightarrow> mdb \<Rightarrow> (int + nat) \<times> mdb" where
  "apply_pending_migrations g cur faults d = apply_list (get_migrations_from g cur) 0 faults d"

section \<open>Prepare (database/manager.go)\<close>

datatype prepare_error = StatDatabase | OpenDatabase | CurrentVersion | SchemaTooNew int | SchemaTooOld int
  | CheckTables | BackupFailed backup_error | MigrationFailed int | CloseConnection

definition manager_registry :: migrations where
  "manager_registry = snd (register_migration v3_migration new_migrations)"

definition check_compatible :: "bool list \<Rightarrow> mdb \<Rightarrow> int \<Rightarrow> prepare_error + bool list" where
  "check_compatible faults d cur = (if min_compatible_version \<le> cur then Inr faults
     else if cur = 0 then (case statement id \<lparr>mt_db = d, mt_faults = faults\<rparr> of None \<Rightarrow> Inl CheckTables
       | Some tx \<Rightarrow> if \<not> md_data d then Inr (mt_faults tx) else Inl (SchemaTooOld cur))
     else Inl (SchemaTooOld cur))"

text \<open>What the manager acts on: the database behind its connection and the directory of backups.\<close>

record installation =
  in_db :: mdb
  in_disk :: disk

definition backup_before_migration :: "copy_env \<Rightarrow> string \<Rightarrow> int \<Rightarrow> installation \<Rightarrow> prepare_error option \<times> installation" where
  "backup_before_migration env path now p = (case write_backup env path now (in_disk p) of
       (Inl e, dk) \<Rightarrow> (Some (BackupFailed e), p\<lparr>in_disk := dk\<rparr>)
     | (Inr f, dk) \<Rightarrow> (None, p\<lparr>in_disk := dk\<rparr>))"

definition run_migrations :: "int \<Rightarrow> bool list \<Rightarrow> installation \<Rightarrow> prepare_error option \<times> installation" where
  "run_migrations cur faults p = (case apply_pending_migrations manager_registry cur faults (in_db p) of
       (Inl v, d) \<Rightarrow> (Some (MigrationFailed v), p\<lparr>in_db := d\<rparr>)
     | (Inr n, d) \<Rightarrow> (None, p\<lparr>in_db := d\<rparr>))"

definition migrate :: "copy_env \<Rightarrow> string \<Rightarrow> int \<Rightarrow> bool list \<Rightarrow> int \<Rightarrow> bool \<Rightarrow> installation
    \<Rightarrow> prepare_error option \<times> installation" where
  "migrate env path now faults cur existed p = (case check_compatible faults (in_db p) cur of
       Inl e \<Rightarrow> (Some e, p)
     | Inr faults \<Rightarrow> (case (if existed then backup_before_migration env path now p else (None, p)) of
         (Some e, p') \<Rightarrow> (Some e, p')
       | (None, p') \<Rightarrow> run_migrations cur faults p'))"

text \<open>The checkpoint after the migrations is best effort and changes no row.\<close>

definition upgrade :: "zone \<Rightarrow> copy_env \<Rightarrow> backup_config \<Rightarrow> string \<Rightarrow> int \<Rightarrow> bool list \<Rightarrow> bool \<Rightarrow> installation
    \<Rightarrow> prepare_error option \<times> installation" where
  "upgrade loc env cfg path now faults existed p = (case get_current_version faults (in_db p) of
       None \<Rightarrow> (Some CurrentVersion, p)
     | Some (cur, faults) \<Rightarrow>
        if current_schema_version < cur then (Some (SchemaTooNew cur), p)
        else if cur = current_schema_version then (None, p)
        else (case migrate env path now faults cur existed p of
            (Some e, p') \<Rightarrow> (Some e, p')
          | (None, p') \<Rightarrow> (None, p'\<lparr>in_disk := manager_cleanup loc cfg path (in_disk p')\<rparr>)))"

text \<open>\<open>existing\<close> is the stat of the file before the connection is opened; a failure to close it
  is the error when nothing else failed.\<close>

definition prepare :: "zone \<Rightarrow> copy_env \<Rightarrow> backup_config \<Rightarrow> string \<Rightarrow> int \<Rightarrow> bool list \<Rightarrow> stat \<Rightarrow> bool \<Rightarrow> bool
    \<Rightarrow> installation \<Rightarrow> prepare_error option \<times> installation" where
  "prepare loc env cfg path now faults existing opens closes p = (case existing of
       StatFailed \<Rightarrow> (Some StatDatabase, p)
     | _ \<Rightarrow> if \<not> opens then (Some OpenDatabase, p)
         else (case upgrade loc env cfg path now faults (existing = Found) p of
           (r, p') \<Rightarrow> (if r = None \<and> \<not> closes then Some CloseConnection else r, p')))"

section \<open>Legacy texts\<close>

definition hms :: "int \<Rightarrow> int \<Rightarrow> int \<Rightarrow> string" where
  "hms h m s = padded 2 (nat h) @ '':'' @ padded 2 (nat m) @ '':'' @ padded 2 (nat s)"

text \<open>A fraction of \<open>k\<close> digits, none when \<open>k\<close> is 0.\<close>

definition fraction_text :: "nat \<Rightarrow> nat \<Rightarrow> string" where
  "fraction_text k n = (if k = 0 then [] else CHR ''.'' # padded k n)"

definition offset_text :: "bool \<Rightarrow> bool \<Rightarrow> nat \<Rightarrow> nat \<Rightarrow> string" where
  "offset_text colon neg h m = (if neg then CHR ''-'' else CHR ''+'') # padded 2 h @
     (if colon then '':'' else []) @ padded 2 m"

definition offset_value :: "bool \<Rightarrow> nat \<Rightarrow> nat \<Rightarrow> int" where
  "offset_value neg h m = (let o' = int (h * 60 + m) * ns_minute in if neg then - o' else o')"

definition clock_ok :: "int \<Rightarrow> int \<Rightarrow> int \<Rightarrow> nat \<Rightarrow> nat \<Rightarrow> bool" where
  "clock_ok h m s k n \<longleftrightarrow> 0 \<le> h \<and> h < 24 \<and> 0 \<le> m \<and> m < 60 \<and> 0 \<le> s \<and> s < 60 \<and> k \<le> 9 \<and> n < 10 ^ k"

definition clock_value :: "int \<Rightarrow> int \<Rightarrow> int \<Rightarrow> nat \<Rightarrow> nat \<Rightarrow> int" where
  "clock_value h m s k n = h * ns_hour + m * ns_minute + s * ns_second + int (n * 10 ^ (9 - k))"

lemma take_date_fmt:
  assumes "valid_date d" "year_ok (dyear d)"
  shows "take_date (fmt_day d @ r) = Some (d, r)"
proof -
  note b = valid_date_bounds [OF assms(1)]
  have d: "take_digits 2 (padded 2 (nat (dday d)) @ r) = Some (nat (dday d), r)"
    using b by (intro take_digits_padded) auto
  then show ?thesis using assms b
    by (simp add: take_date_def fmt_day_padded parse_ym_fmt expect_Cons)
qed

definition no_digit :: "string \<Rightarrow> bool" where
  "no_digit r \<longleftrightarrow> r = [] \<or> \<not> is_digit (hd r)"

definition no_fraction :: "string \<Rightarrow> bool" where
  "no_fraction r \<longleftrightarrow> r = [] \<or> hd r \<notin> {CHR ''.'', CHR '',''}"

lemma takeWhile_padded: "no_digit r \<Longrightarrow> takeWhile is_digit (padded k n @ r) = padded k n"
  by (cases r) (auto simp: no_digit_def takeWhile_append2 padded_digits takeWhile_eq_all_conv)

lemma take_fraction_text:
  assumes "k \<le> 9" "n < 10 ^ k" "no_digit r" "no_fraction r"
  shows "take_fraction (fraction_text k n @ r) = (int (n * 10 ^ (9 - k)), r)"
proof (cases "k = 0")
  case True
  then show ?thesis using assms
    by (cases r) (auto simp: fraction_text_def take_fraction_def no_fraction_def)
next
  case False
  then have "padded k n \<noteq> []" by (metis length_padded list.size(3))
  moreover have "take 9 (padded k n) = padded k n" using assms(1) by simp
  ultimately show ?thesis using False assms
    by (simp add: fraction_text_def take_fraction_def takeWhile_padded num_of_padded)
qed

lemma take_hour_padded:
  assumes "0 \<le> h" "h < 24"
  shows "take_hour (padded 2 (nat h) @ r) = Some (h, r)"
proof -
  obtain c cs where c: "padded 2 (nat h) = c # cs"
    by (metis length_padded list.exhaust list.size(3) zero_neq_numeral)
  then have "is_digit c" using padded_digits [of c 2 "nat h"] by simp
  moreover have "take_digits 2 (padded 2 (nat h) @ r) = Some (nat h, r)"
    using assms by (intro take_digits_padded) auto
  ultimately show ?thesis using assms c by (simp add: take_hour_def)
qed

lemma take_clock_text:
  assumes "clock_ok h m s k n" "no_digit r" "no_fraction r"
  shows "take_clock (hms h m s @ fraction_text k n @ r) = Some (clock_value h m s k n, r)"
  using assms take_fraction_text [of k n r]
  by (simp add: take_clock_def hms_def clock_ok_def clock_value_def take_hour_padded take_below_padded expect_Cons
      del: padded.simps)

lemma take_offset_text:
  assumes "h \<le> 24" "m \<le> 60"
  shows "take_offset colon (offset_text colon neg h m @ r) = Some (offset_value neg h m, r)"
  using assms take_digits_padded [of h 2] take_digits_padded [of m 2]
  by (auto simp: take_offset_def offset_text_def offset_value_def expect_Cons Let_def simp del: padded.simps)

lemma offset_text_hd: "hd (offset_text colon neg h m @ r) \<in> {CHR ''+'', CHR ''-''}" "offset_text colon neg h m \<noteq> []"
  by (simp_all add: offset_text_def)

lemma no_digit_offset: "no_digit (offset_text colon neg h m @ r)" "no_fraction (offset_text colon neg h m @ r)"
  by (auto simp: no_digit_def no_fraction_def offset_text_def is_digit_def)

lemma skip_space_one: "r = [] \<or> hd r \<noteq> CHR '' '' \<Longrightarrow> skip_space (CHR '' '' # r) = Some r"
  by (cases r) (auto simp: skip_space_def)

lemma skip_space_empty: "skip_space [] = Some []"
  by (simp add: skip_space_def)

lemma hms_hd: "hms h m s @ r \<noteq> [] \<and> hd (hms h m s @ r) \<noteq> CHR '' ''"
proof -
  obtain c cs where c: "padded 2 (nat h) = c # cs"
    by (metis length_padded list.exhaust list.size(3) zero_neq_numeral)
  then have "is_digit c" using padded_digits [of c 2 "nat h"] by simp
  then show ?thesis using c by (auto simp: hms_def is_digit_def)
qed

text \<open>The abbreviations of zones as Go prints them: three capitals, or four that end in T.\<close>

definition zone_ok :: "string \<Rightarrow> bool" where
  "zone_ok name \<longleftrightarrow> list_all is_upper name \<and> take 3 name \<noteq> ''UTC'' \<and> take 3 name \<noteq> ''GMT'' \<and>
     (length name = 3 \<or> length name = 4 \<and> List.last name = CHR ''T'')"

lemma zone_ok_name:
  assumes "zone_ok name"
  shows "zone_name_len name = Some (length name)" "name \<noteq> []" "hd name \<noteq> CHR '' ''"
proof -
  show ne: "name \<noteq> []" using assms by (auto simp: zone_ok_def)
  then have up: "is_upper (hd name)" using assms by (simp add: zone_ok_def list_all_iff)
  then have hd: "hd name \<notin> {CHR ''+'', CHR ''-''}" by (auto simp: is_upper_def)
  show "hd name \<noteq> CHR '' ''" using up by (auto simp: is_upper_def)
  have tw: "takeWhile is_upper (take 6 name) = name"
    using assms by (auto simp: zone_ok_def list_all_iff takeWhile_eq_all_conv)
  have ch: "take 4 name \<noteq> ''ChST'' \<and> take 4 name \<noteq> ''MeST''"
  proof -
    have "is_upper (name ! 1)" using assms by (auto simp: zone_ok_def list_all_iff)
    then have "take 4 name ! 1 \<noteq> CHR ''h''" "take 4 name ! 1 \<noteq> CHR ''e''" by (auto simp: is_upper_def)
    then show ?thesis by (metis One_nat_def nth_Cons_0 nth_Cons_Suc)
  qed
  have "List.last name = name ! 3" if "length name = 4" using that ne by (simp add: last_conv_nth)
  then show "zone_name_len name = Some (length name)"
    using assms hd ch by (auto simp: zone_name_len_def tw Let_def zone_ok_def)
qed

definition go_text :: "date \<Rightarrow> string \<Rightarrow> string \<Rightarrow> string \<Rightarrow> string" where
  "go_text d clock offset name = fmt_day d @ '' '' @ clock @ '' '' @ offset @ '' '' @ name"

lemma parse_go_text:
  assumes "valid_date d" "year_ok (dyear d)" "clock_ok h m s k n" "oh \<le> 24" "om \<le> 60" "zone_ok name"
  shows "parse_go_string (go_text d (hms h m s @ fraction_text k n) (offset_text False neg oh om) name) =
    Some (instant_of d (clock_value h m s k n) (offset_value neg oh om))"
proof -
  define off where "off = offset_text False neg oh om"
  have 1: "skip_space (CHR '' '' # hms h m s @ r) = Some (hms h m s @ r)" for r
    by (rule skip_space_one) (use hms_hd in blast)
  have 2: "skip_space (CHR '' '' # off @ r) = Some (off @ r)" for r
    by (rule skip_space_one) (use offset_text_hd(1) [of False neg oh om r] in \<open>auto simp: off_def\<close>)
  have 3: "skip_space (CHR '' '' # name) = Some name"
    by (rule skip_space_one) (use zone_ok_name [OF assms(6)] in blast)
  have 4: "take_clock (hms h m s @ fraction_text k n @ CHR '' '' # r) = Some (clock_value h m s k n, CHR '' '' # r)" for r
    by (rule take_clock_text [OF assms(3)]) (auto simp: no_digit_def no_fraction_def is_digit_def)
  have 6: "take_offset False (off @ r) = Some (offset_value neg oh om, r)" for r
    unfolding off_def by (rule take_offset_text [OF assms(4,5)])
  have 5: "take_zone_name name = Some (False, [])"
    using assms(6) zone_ok_name [OF assms(6)] by (simp add: take_zone_name_def zone_ok_def)
  show ?thesis
    unfolding parse_go_string_def go_text_def off_def [symmetric]
    by (simp add: take_date_fmt [OF assms(1,2)] 1 2 3 4 5 6)
qed

lemma parse_rfc_text:
  assumes "valid_date d" "year_ok (dyear d)" "clock_ok h m s k n" "oh \<le> 24" "om \<le> 60"
  shows "parse_rfc3339 (fmt_day d @ ''T'' @ hms h m s @ fraction_text k n @ ''Z'') =
      Some (instant_of d (clock_value h m s k n) 0)"
    "parse_rfc3339 (fmt_day d @ ''T'' @ hms h m s @ fraction_text k n @ offset_text True neg oh om) =
      Some (instant_of d (clock_value h m s k n) (offset_value neg oh om))"
    "parse_go_string (fmt_day d @ ''T'' @ r) = None"
proof -
  have z: "no_digit ''Z''" "no_fraction ''Z''" by (simp_all add: no_digit_def no_fraction_def is_digit_def)
  show "parse_rfc3339 (fmt_day d @ ''T'' @ hms h m s @ fraction_text k n @ ''Z'') =
      Some (instant_of d (clock_value h m s k n) 0)"
    by (simp add: parse_rfc3339_def take_date_fmt [OF assms(1,2)] expect_Cons take_clock_text [OF assms(3) z])
  have o: "no_digit (offset_text True neg oh om)" "no_fraction (offset_text True neg oh om)"
    using no_digit_offset [of True neg oh om "[]"] by simp_all
  show "parse_rfc3339 (fmt_day d @ ''T'' @ hms h m s @ fraction_text k n @ offset_text True neg oh om) =
      Some (instant_of d (clock_value h m s k n) (offset_value neg oh om))"
    using offset_text_hd(1) [of True neg oh om "[]"] take_offset_text [OF assms(4,5), of True neg "[]"]
    by (auto simp: parse_rfc3339_def take_date_fmt [OF assms(1,2)] expect_Cons take_clock_text [OF assms(3) o])
  show "parse_go_string (fmt_day d @ ''T'' @ r) = None"
    by (simp add: parse_go_string_def take_date_fmt [OF assms(1,2)] skip_space_def)
qed

lemma parse_spaced_text:
  assumes "valid_date d" "year_ok (dyear d)" "clock_ok h m s k n" "oh \<le> 24" "om \<le> 60"
  shows "parse_go_string (fmt_day d @ '' '' @ hms h m s @ fraction_text k n @ offset_text True neg oh om) = None"
    "parse_rfc3339 (fmt_day d @ '' '' @ r) = None"
    "parse_spaced_offset (fmt_day d @ '' '' @ hms h m s @ fraction_text k n @ offset_text True neg oh om) =
      Some (instant_of d (clock_value h m s k n) (offset_value neg oh om))"
    "parse_go_string (fmt_day d @ '' '' @ hms h m s @ fraction_text k n) = None"
    "parse_spaced_offset (fmt_day d @ '' '' @ hms h m s @ fraction_text k n) = None"
    "parse_sqlite (fmt_day d @ '' '' @ hms h m s @ fraction_text k n) = Some (instant_of d (clock_value h m s k n) 0)"
proof -
  have 1: "skip_space (CHR '' '' # hms h m s @ r) = Some (hms h m s @ r)" for r
    by (rule skip_space_one) (use hms_hd in blast)
  have o: "no_digit (offset_text True neg oh om)" "no_fraction (offset_text True neg oh om)"
    using no_digit_offset [of True neg oh om "[]"] by simp_all
  have e: "take_clock (hms h m s @ fraction_text k n) = Some (clock_value h m s k n, [])"
    using take_clock_text [OF assms(3), of "[]"] by (simp add: no_digit_def no_fraction_def)
  have so: "skip_space (offset_text True neg oh om) = None"
    by (simp add: skip_space_def offset_text_def)
  show "parse_go_string (fmt_day d @ '' '' @ hms h m s @ fraction_text k n @ offset_text True neg oh om) = None"
    by (simp add: parse_go_string_def take_date_fmt [OF assms(1,2)] 1 take_clock_text [OF assms(3) o] so)
  show "parse_rfc3339 (fmt_day d @ '' '' @ r) = None"
    by (simp add: parse_rfc3339_def take_date_fmt [OF assms(1,2)] expect_Cons)
  show "parse_spaced_offset (fmt_day d @ '' '' @ hms h m s @ fraction_text k n @ offset_text True neg oh om) =
      Some (instant_of d (clock_value h m s k n) (offset_value neg oh om))"
    using take_offset_text [OF assms(4,5), of True neg "[]"]
    by (simp add: parse_spaced_offset_def take_date_fmt [OF assms(1,2)] 1 take_clock_text [OF assms(3) o])
  show "parse_go_string (fmt_day d @ '' '' @ hms h m s @ fraction_text k n) = None"
    using 1 [of "fraction_text k n"]
    by (simp add: parse_go_string_def take_date_fmt [OF assms(1,2)] e skip_space_empty take_offset_def)
  show "parse_spaced_offset (fmt_day d @ '' '' @ hms h m s @ fraction_text k n) = None"
    by (simp add: parse_spaced_offset_def take_date_fmt [OF assms(1,2)] 1 e take_offset_def)
  show "parse_sqlite (fmt_day d @ '' '' @ hms h m s @ fraction_text k n) = Some (instant_of d (clock_value h m s k n) 0)"
    by (simp add: parse_sqlite_def take_date_fmt [OF assms(1,2)] 1 e)
qed

section \<open>Normalisation\<close>

lemma trim_space_id: "s \<noteq> [] \<Longrightarrow> \<not> is_space (hd s) \<Longrightarrow> \<not> is_space (List.last s) \<Longrightarrow> trim_space s = s"
proof -
  assume a: "s \<noteq> []" "\<not> is_space (hd s)" "\<not> is_space (List.last s)"
  have "dropWhile is_space s = s" using a(1,2) by (cases s) auto
  moreover have "dropWhile is_space (rev s) = rev s"
    using a(1,3) by (cases s rule: rev_cases) auto
  ultimately show ?thesis by (simp add: trim_space_def)
qed

lemma cut_monotonic_plain: "CHR ''m'' \<notin> set x \<Longrightarrow> cut_monotonic x = x"
proof (induction x)
  case (Cons c x)
  have "take 3 (c # x) \<noteq> '' m=''"
  proof
    assume "take 3 (c # x) = '' m=''"
    then have "CHR ''m'' \<in> set (take 3 (c # x))" by simp
    then show False using Cons.prems in_set_takeD by metis
  qed
  then show ?case using Cons by simp
qed simp

lemma cut_monotonic_suffix: "CHR ''m'' \<notin> set x \<Longrightarrow> cut_monotonic (x @ '' m='' @ y) = x"
proof (induction x)
  case (Cons c x)
  have "take 3 (c # x @ '' m='' @ y) \<noteq> '' m=''"
    using Cons.prems by (cases x; cases "tl x") (auto simp: numeral_3_eq_3)
  then show ?case using Cons by simp
qed simp

lemma digit_not: "is_digit c \<Longrightarrow> c \<noteq> CHR ''m'' \<and> \<not> is_space c"
  by (auto simp: is_digit_def is_space_def)

lemma padded_no_m: "CHR ''m'' \<notin> set (padded w n)"
  using padded_digits digit_not by blast

lemma fmt_day_chars:
  assumes "valid_date d" "year_ok (dyear d)"
  shows "CHR ''m'' \<notin> set (fmt_day d)" "fmt_day d \<noteq> []" "is_digit (hd (fmt_day d))"
proof -
  obtain c cs where c: "padded 4 (nat (dyear d)) = c # cs"
    by (metis length_padded list.exhaust list.size(3) zero_neq_numeral)
  show "CHR ''m'' \<notin> set (fmt_day d)"
    by (simp add: fmt_day_padded [OF assms] padded_no_m del: padded.simps)
  have "is_digit c" using padded_digits [of c 4 "nat (dyear d)"] c by simp
  then show "fmt_day d \<noteq> []" "is_digit (hd (fmt_day d))"
    by (simp_all add: fmt_day_padded [OF assms] c)
qed

lemma padded_last: "0 < k \<Longrightarrow> is_digit (List.last (padded k n))"
  by (cases k) simp_all

lemma clock_chars:
  "CHR ''m'' \<notin> set (hms h m s @ fraction_text k n)"
  "is_digit (List.last (hms h m s @ fraction_text k n))" "hms h m s @ fraction_text k n \<noteq> []"
proof -
  show "CHR ''m'' \<notin> set (hms h m s @ fraction_text k n)"
    by (simp add: hms_def fraction_text_def padded_no_m del: padded.simps)
  show "hms h m s @ fraction_text k n \<noteq> []" by (simp add: hms_def)
  show "is_digit (List.last (hms h m s @ fraction_text k n))"
  proof (cases "k = 0")
    case True
    have "padded 2 (nat s) \<noteq> []" by (metis length_padded list.size(3) zero_neq_numeral)
    then show ?thesis using True padded_last [of 2 "nat s"]
      by (simp add: hms_def fraction_text_def del: padded.simps)
  next
    case False
    then have "padded k n \<noteq> []" by (metis length_padded list.size(3))
    then show ?thesis using False padded_last [of k n] by (simp add: fraction_text_def del: padded.simps)
  qed
qed

lemma offset_chars:
  "CHR ''m'' \<notin> set (offset_text colon neg h m)" "is_digit (List.last (offset_text colon neg h m))"
  "offset_text colon neg h m \<noteq> []"
proof -
  have "padded 2 m \<noteq> []" by (metis length_padded list.size(3) zero_neq_numeral)
  then show "is_digit (List.last (offset_text colon neg h m))" "offset_text colon neg h m \<noteq> []"
    using padded_last [of 2 m] by (simp_all add: offset_text_def del: padded.simps)
  show "CHR ''m'' \<notin> set (offset_text colon neg h m)"
    by (simp add: offset_text_def padded_no_m del: padded.simps)
qed

lemma zone_chars: "zone_ok name \<Longrightarrow> CHR ''m'' \<notin> set name \<and> \<not> is_space (List.last name)"
proof -
  assume z: "zone_ok name"
  have u: "is_upper c" if "c \<in> set name" for c using z that by (simp add: zone_ok_def list_all_iff)
  then have "is_upper (List.last name)" using zone_ok_name(2) [OF z] by simp
  then have "\<not> is_space (List.last name)" by (auto simp: is_upper_def is_space_def)
  moreover have "CHR ''m'' \<notin> set name" using u by (force simp: is_upper_def)
  ultimately show ?thesis by blast
qed

text \<open>The text proper: no edge spaces and no monotonic reading.\<close>

lemma legacy_plain:
  assumes "x \<noteq> []" "is_digit (hd x)" "\<not> is_space (List.last x)" "CHR ''m'' \<notin> set x"
  shows "legacy_instant x = parse_legacy x"
  using assms digit_not trim_space_id [of x] cut_monotonic_plain [of x] by (simp add: legacy_instant_def)

lemma legacy_monotonic:
  assumes "x \<noteq> []" "is_digit (hd x)" "CHR ''m'' \<notin> set x" "y \<noteq> []" "\<not> is_space (List.last y)"
  shows "legacy_instant (x @ '' m='' @ y) = parse_legacy x"
  using assms digit_not trim_space_id [of "x @ '' m='' @ y"] cut_monotonic_suffix [of x y]
  by (simp add: legacy_instant_def)

definition away_texts :: "date \<Rightarrow> string \<Rightarrow> bool \<Rightarrow> nat \<Rightarrow> nat \<Rightarrow> string \<Rightarrow> string \<Rightarrow> string list" where
  "away_texts d clock neg h m name reading =
     [go_text d clock (offset_text False neg h m) name,
      go_text d clock (offset_text False neg h m) name @ '' m='' @ reading,
      fmt_day d @ ''T'' @ clock @ offset_text True neg h m,
      fmt_day d @ '' '' @ clock @ offset_text True neg h m]"

definition home_texts :: "date \<Rightarrow> string \<Rightarrow> string list" where
  "home_texts d clock = [fmt_day d @ ''T'' @ clock @ ''Z'', fmt_day d @ '' '' @ clock]"

lemma normalize_utc_text:
  assumes "valid_date d" "year_ok (dyear d)" "clock_ok h m s k n"
  shows "normalize_stamp (fmt_day d @ ''T'' @ (hms h m s @ fraction_text k n) @ ''Z'') =
    Some (fmt_stamp (instant_of d (clock_value h m s k n) 0))"
  using legacy_plain [of "fmt_day d @ ''T'' @ (hms h m s @ fraction_text k n) @ ''Z''"]
    fmt_day_chars [OF assms(1,2)] clock_chars [of h m s k n] parse_rfc_text [OF assms, of 0 0]
  by (simp add: normalize_stamp_def parse_legacy_def is_space_def)

lemma legacy_sqlite_text:
  assumes "valid_date d" "year_ok (dyear d)" "clock_ok h m s k n"
  shows "legacy_instant (fmt_day d @ '' '' @ hms h m s @ fraction_text k n) =
    Some (instant_of d (clock_value h m s k n) 0)"
proof -
  note dc = fmt_day_chars [OF assms(1,2)]
  note cc = clock_chars [of h m s k n]
  have "List.last (fmt_day d @ '' '' @ hms h m s @ fraction_text k n) = List.last (hms h m s @ fraction_text k n)"
    using cc(3) by (auto simp: last_append)
  then have "\<not> is_space (List.last (fmt_day d @ '' '' @ hms h m s @ fraction_text k n))"
    using cc(2) digit_not by metis
  then have "legacy_instant (fmt_day d @ '' '' @ hms h m s @ fraction_text k n) =
      parse_legacy (fmt_day d @ '' '' @ hms h m s @ fraction_text k n)"
    using dc cc(1) by (intro legacy_plain) simp_all
  then show ?thesis using parse_spaced_text [OF assms, of 0 0] by (simp add: parse_legacy_def)
qed

text \<open>The four layouts of early timestamps are recognised and read as the instant they mean:
  the text of a Go time with its zone (and with a monotonic reading), RFC 3339 in UTC or with an
  offset, a space-separated time with an offset, and SQLite's own, each with any fraction of up to
  nine digits, all become the fixed-width UTC text of that instant.\<close>

theorem legacy_texts_normalise:
  assumes "valid_date d" "year_ok (dyear d)" "clock_ok h m s k n" "oh \<le> 24" "om \<le> 60" "zone_ok name"
    and "reading \<noteq> []" "\<not> is_space (List.last reading)"
  shows "(\<forall>x \<in> set (away_texts d (hms h m s @ fraction_text k n) neg oh om name reading).
      normalize_stamp x = Some (fmt_stamp (instant_of d (clock_value h m s k n) (offset_value neg oh om)))) \<and>
    (\<forall>x \<in> set (home_texts d (hms h m s @ fraction_text k n)).
      normalize_stamp x = Some (fmt_stamp (instant_of d (clock_value h m s k n) 0)))"
proof -
  define clock where "clock = hms h m s @ fraction_text k n"
  define away where "away = Some (fmt_stamp (instant_of d (clock_value h m s k n) (offset_value neg oh om)))"
  define home where "home = Some (fmt_stamp (instant_of d (clock_value h m s k n) 0))"
  note dc = fmt_day_chars [OF assms(1,2)]
  note cc = clock_chars [of h m s k n, folded clock_def]
  have oc: "CHR ''m'' \<notin> set (offset_text b neg oh om)" "\<not> is_space (List.last (offset_text b neg oh om))"
      "offset_text b neg oh om \<noteq> []" for b
    using offset_chars [of b neg oh om] digit_not by blast+
  note zc = zone_chars [OF assms(6)] zone_ok_name(2) [OF assms(6)]
  define g where "g = go_text d clock (offset_text False neg oh om) name"
  have g: "g \<noteq> []" "is_digit (hd g)" "\<not> is_space (List.last g)" "CHR ''m'' \<notin> set g"
    using dc cc(1) oc(1) zc by (simp_all add: g_def go_text_def)
  have "parse_legacy g = Some (instant_of d (clock_value h m s k n) (offset_value neg oh om))"
    using parse_go_text [OF assms(1-6)] by (simp add: parse_legacy_def g_def clock_def)
  then have 1: "normalize_stamp g = away" "normalize_stamp (g @ '' m='' @ reading) = away"
    using legacy_plain [OF g] legacy_monotonic [OF g(1,2,4) assms(7,8)]
    by (simp_all add: normalize_stamp_def away_def)
  note rfc = parse_rfc_text [OF assms(1-5)]
  note spc = parse_spaced_text [OF assms(1-5)]
  have 2: "normalize_stamp (fmt_day d @ ''T'' @ clock @ ''Z'') = home"
    using normalize_utc_text [OF assms(1-3)] by (simp add: home_def clock_def)
  have 3: "normalize_stamp (fmt_day d @ ''T'' @ clock @ offset_text True neg oh om) = away"
    using legacy_plain [of "fmt_day d @ ''T'' @ clock @ offset_text True neg oh om"] dc cc oc [of True] rfc
    by (simp add: normalize_stamp_def away_def parse_legacy_def clock_def)
  have 4: "normalize_stamp (fmt_day d @ '' '' @ clock @ offset_text True neg oh om) = away"
    using legacy_plain [of "fmt_day d @ '' '' @ clock @ offset_text True neg oh om"] dc cc oc [of True] spc
    by (simp add: normalize_stamp_def away_def parse_legacy_def clock_def)
  have 5: "normalize_stamp (fmt_day d @ '' '' @ clock) = home"
    using legacy_sqlite_text [OF assms(1-3)] by (simp add: normalize_stamp_def home_def clock_def)
  show ?thesis using 1 2 3 4 5
    unfolding g_def clock_def [symmetric] away_def [symmetric] home_def [symmetric] away_texts_def home_texts_def
    by simp
qed

lemma civil_clock:
  assumes "valid_date d" "0 \<le> c" "c < ns_day"
  shows "civil utc (midnight_utc d + c) = d" "clock_ns utc (midnight_utc d + c) = c"
  using assms day_div_mod [OF assms(2,3), of "day_number d - epoch_day"]
  by (simp_all add: civil_def day_index_def clock_ns_def local_time_def utc_def midnight_utc_def)

lemma day_start: "midnight_utc (civil utc t) + clock_ns utc t = t"
  by (simp add: midnight_utc_def civil_def day_index_def clock_ns_def local_time_def utc_def
      minus_mod_eq_div_mult [symmetric])

text \<open>A normal timestamp is its own normal form.\<close>

lemma normalize_fmt_stamp:
  assumes "stamp_ok t"
  shows "normalize_stamp (fmt_stamp t) = Some (fmt_stamp t)"
proof -
  define d c where "d = civil utc t" and "c = clock_ns utc t"
  have c: "0 \<le> c" "c < ns_day" using clock_in_day [of utc t] by (simp_all add: c_def)
  note r = clock_ranges [OF c]
  have v: "valid_date d" "year_ok (dyear d)" using assms by (simp_all add: d_def stamp_ok_def)
  define h m s ms where "h = hour_of c" and "m = minute_of c" and "s = second_of c" and "ms = nat (milli_of c)"
  have ok: "clock_ok h m s 3 ms" using r by (simp add: clock_ok_def h_def m_def s_def ms_def nat_less_iff)
  have stamp: "fmt_stamp t = fmt_day d @ ''T'' @ (hms h m s @ fraction_text 3 ms) @ ''Z''"
    by (simp add: fmt_stamp_def d_def [symmetric] c_def [symmetric] fmt_clock_padded [OF c] hms_def fraction_text_def
        h_def m_def s_def ms_def)
  define c' where "c' = clock_value h m s 3 ms"
  have c': "c' = c div 1000000 * 1000000"
    using clock_fields [OF c(1)] r by (simp add: c'_def clock_value_def h_def m_def s_def ms_def)
  have "c' = c - c mod 1000000" by (simp add: c' minus_mod_eq_div_mult)
  then have cr: "0 \<le> c'" "c' < ns_day" 
    using c zmod_le_nonneg_dividend [of c 1000000] pos_mod_sign [of 1000000 c] by linarith+
  have i: "instant_of d c' 0 = midnight_utc d + c'" by (simp add: instant_of_def)
  note cc = civil_clock [OF v(1) cr]
  have "ms_of (midnight_utc d + c') = ms_of t"
    unfolding ms_split cc by (simp add: d_def c_def [symmetric] c')
  moreover have "stamp_ok (midnight_utc d + c')" using v cc by (simp add: stamp_ok_def)
  ultimately have "fmt_stamp (instant_of d c' 0) = fmt_stamp t"
    using fmt_stamp_eq assms i by metis
  then show ?thesis unfolding stamp normalize_utc_text [OF v ok] c'_def [symmetric] by simp
qed

section \<open>Rewriting the table\<close>

definition rewrite_rows :: "int \<times> string \<Rightarrow> error_row list \<Rightarrow> error_row list" where
  "rewrite_rows p rows = (case p of (i, ts) \<Rightarrow>
     if affects i ts rows then set_stamp i ts rows else delete_row i (set_stamp i ts rows))"

lemma statement_Some: "statement f tx = Some tx' \<Longrightarrow> mt_db tx' = f (mt_db tx)"
  by (auto simp: statement_def split: list.splits if_splits)

lemma statement_free: "mt_faults tx = [] \<Longrightarrow> statement f tx = Some \<lparr>mt_db = f (mt_db tx), mt_faults = []\<rparr>"
  by (simp add: statement_def)

lemma on_errors_on_errors: "on_errors f (on_errors g d) = on_errors (\<lambda>r. f (g r)) d"
  by (simp add: on_errors_def option.map_comp comp_def)

lemma rewrite_stamp_Some:
  assumes "rewrite_stamp p tx = Some tx'" "md_errors (mt_db tx) = Some rows"
  shows "mt_db tx' = (mt_db tx)\<lparr>md_errors := Some (rewrite_rows p rows)\<rparr>"
  using assms by (cases p) (auto simp: rewrite_stamp_def rewrite_rows_def Let_def on_errors_def error_rows_def
      dest!: statement_Some split: option.splits if_splits)

lemma rewrite_all_Some:
  assumes "rewrite_all ps tx = Some tx'" "md_errors (mt_db tx) = Some rows"
  shows "mt_db tx' = (mt_db tx)\<lparr>md_errors := Some (fold rewrite_rows ps rows)\<rparr>"
  using assms
proof (induction ps arbitrary: tx rows)
  case (Cons p ps)
  obtain tx1 where 1: "rewrite_stamp p tx = Some tx1" "rewrite_all ps tx1 = Some tx'"
    using Cons.prems(1) by (auto split: option.splits)
  show ?case using Cons.IH [OF 1(2)] rewrite_stamp_Some [OF 1(1) Cons.prems(2)] by simp
qed simp

text \<open>What a row's timestamp becomes; a row is settled once it has it.\<close>

definition normal :: "error_row \<Rightarrow> string" where
  "normal r = (case normalize_stamp (er_stamp r) of Some ts \<Rightarrow> ts | None \<Rightarrow> er_stamp r)"

definition keyed :: "error_row \<Rightarrow> string \<times> string" where
  "keyed r = (er_key r, er_stamp r)"

definition table_ok :: "error_row list \<Rightarrow> bool" where
  "table_ok rows \<longleftrightarrow> distinct (map er_id rows) \<and> distinct (map keyed rows)"

definition same_change :: "error_row \<Rightarrow> error_row \<Rightarrow> bool" where
  "same_change r r' \<longleftrightarrow> er_id r' = er_id r \<and> er_key r' = er_key r \<and> er_raw r' = er_raw r"

text \<open>Between two steps: \<open>todo\<close> are the rows still to be rewritten.\<close>

definition midway :: "error_row list \<Rightarrow> int set \<Rightarrow> error_row list \<Rightarrow> bool" where
  "midway rows todo cur \<longleftrightarrow> table_ok cur \<and>
     (\<forall>r' \<in> set cur. \<exists>r \<in> set rows. same_change r r' \<and> er_stamp r' = (if er_id r \<in> todo then er_stamp r else normal r)) \<and>
     (\<forall>r \<in> set rows. if er_id r \<in> todo then r \<in> set cur
        else \<exists>r' \<in> set cur. er_id r' \<notin> todo \<and> keyed r' = (er_key r, normal r))"

definition stays :: "error_row \<Rightarrow> bool" where
  "stays r \<longleftrightarrow> normalize_stamp (normal r) \<in> {None, Some (normal r)}"

lemma table_id: "table_ok rows \<Longrightarrow> r \<in> set rows \<Longrightarrow> r' \<in> set rows \<Longrightarrow> er_id r = er_id r' \<Longrightarrow> r = r'"
  by (auto simp: table_ok_def distinct_map inj_on_def)

lemma table_key: "table_ok rows \<Longrightarrow> r \<in> set rows \<Longrightarrow> r' \<in> set rows \<Longrightarrow> keyed r = keyed r' \<Longrightarrow> r = r'"
  by (auto simp: table_ok_def distinct_map inj_on_def)

lemma table_ok_iff: "table_ok rows \<longleftrightarrow> distinct rows \<and>
    (\<forall>r \<in> set rows. \<forall>r' \<in> set rows. er_id r = er_id r' \<or> keyed r = keyed r' \<longrightarrow> r = r')"
  by (auto simp: table_ok_def distinct_map inj_on_def)

text \<open>One step on a row that is there: it gets its normal timestamp, or goes when that is taken.\<close>

lemma rewrite_rows_step:
  assumes "table_ok cur" "r \<in> set cur" "er_id r = i"
  shows "rewrite_rows (i, ts) cur =
    (if \<exists>c \<in> set cur. er_id c \<noteq> i \<and> keyed c = (er_key r, ts) then filter (\<lambda>x. er_id x \<noteq> i) cur
     else map (\<lambda>x. if er_id x = i then r\<lparr>er_stamp := ts\<rparr> else x) cur)"
proof -
  have u: "x = r" if "x \<in> set cur" "er_id x = i" for x using table_id [OF assms(1) that(1) assms(2)] that assms(3) by simp
  have t: "stamp_taken i ts cur \<longleftrightarrow> (\<exists>c \<in> set cur. er_id c \<noteq> i \<and> keyed c = (er_key r, ts))"
    unfolding stamp_taken_def keyed_def using u assms(2,3) by (metis prod.inject)
  have m: "map (\<lambda>x. if er_id x = i then x\<lparr>er_stamp := ts\<rparr> else x) cur =
      map (\<lambda>x. if er_id x = i then r\<lparr>er_stamp := ts\<rparr> else x) cur"
  proof (rule map_cong [OF refl])
    fix x assume "x \<in> set cur"
    then show "(if er_id x = i then x\<lparr>er_stamp := ts\<rparr> else x) = (if er_id x = i then r\<lparr>er_stamp := ts\<rparr> else x)"
      using u [of x] by (cases "er_id x = i") simp_all
  qed
  have i: "i \<in> er_id ` set cur" using assms(2,3) by blast
  show ?thesis
  proof (cases "stamp_taken i ts cur")
    case True
    then show ?thesis using t by (simp add: rewrite_rows_def affects_def set_stamp_def delete_row_def)
  next
    case False
    then have no: "\<not> (\<exists>c \<in> set cur. er_id c \<noteq> i \<and> keyed c = (er_key r, ts))" using t by simp
    have "set_stamp i ts cur = map (\<lambda>x. if er_id x = i then r\<lparr>er_stamp := ts\<rparr> else x) cur"
      unfolding set_stamp_def m using False by simp
    then show ?thesis unfolding if_not_P [OF no] using False i by (simp add: rewrite_rows_def affects_def)
  qed
qed

lemma table_ok_filter: "table_ok cur \<Longrightarrow> table_ok (filter P cur)"
  by (auto simp: table_ok_iff)

lemma table_ok_update:
  assumes "table_ok cur" "r \<in> set cur" "er_id r = i" "\<not> (\<exists>c \<in> set cur. er_id c \<noteq> i \<and> keyed c = (er_key r, ts))"
  shows "table_ok (map (\<lambda>x. if er_id x = i then r\<lparr>er_stamp := ts\<rparr> else x) cur)"
proof -
  let ?f = "\<lambda>x. if er_id x = i then r\<lparr>er_stamp := ts\<rparr> else x"
  have id: "map er_id (map ?f cur) = map er_id cur" using assms(3) by (auto intro!: map_cong)
  have inj: "inj_on (\<lambda>x. keyed (?f x)) (set cur)"
  proof (rule inj_onI)
    fix x y assume xy: "x \<in> set cur" "y \<in> set cur" "keyed (?f x) = keyed (?f y)"
    have rk: "keyed (r\<lparr>er_stamp := ts\<rparr>) = (er_key r, ts)" by (simp add: keyed_def)
    show "x = y"
    proof (cases "er_id x = i \<or> er_id y = i")
      case False
      then show ?thesis using xy table_key [OF assms(1)] by auto
    next
      case True
      then have "er_id x = i \<and> er_id y = i" using xy assms(4) rk by (cases "er_id x = i"; cases "er_id y = i") auto
      then show ?thesis using xy table_id [OF assms(1)] by auto
    qed
  qed
  have "distinct (map (\<lambda>x. keyed (?f x)) cur)"
    using inj assms(1) by (simp add: distinct_map table_ok_iff)
  moreover have "distinct (map er_id (map ?f cur))" unfolding id using assms(1) by (simp add: table_ok_def)
  ultimately show ?thesis by (simp add: table_ok_def comp_def)
qed

definition changing :: "error_row \<Rightarrow> bool" where
  "changing r \<longleftrightarrow> normal r \<noteq> er_stamp r \<and> normalize_stamp (normal r) = Some (normal r)"

lemma midway_table: "midway rows todo cur \<Longrightarrow> table_ok cur"
  by (simp add: midway_def)

lemma midway_origin:
  "midway rows todo cur \<Longrightarrow> r' \<in> set cur \<Longrightarrow>
    \<exists>r \<in> set rows. same_change r r' \<and> er_stamp r' = (if er_id r \<in> todo then er_stamp r else normal r)"
  by (simp add: midway_def)

lemma midway_todo: "midway rows todo cur \<Longrightarrow> r \<in> set rows \<Longrightarrow> er_id r \<in> todo \<Longrightarrow> r \<in> set cur"
  unfolding midway_def by metis

lemma midway_done:
  "midway rows todo cur \<Longrightarrow> r \<in> set rows \<Longrightarrow> er_id r \<notin> todo \<Longrightarrow>
    \<exists>r' \<in> set cur. er_id r' \<notin> todo \<and> keyed r' = (er_key r, normal r)"
  unfolding midway_def by metis

lemma midway_step:
  assumes mw: "midway rows (insert i todo) cur" and i: "i \<notin> todo" and r: "r \<in> set rows" "er_id r = i"
    and tab: "table_ok rows" and ch: "\<And>x. x \<in> set rows \<Longrightarrow> er_id x \<in> insert i todo \<Longrightarrow> changing x"
  shows "midway rows todo (rewrite_rows (i, normal r) cur)"
proof -
  have tc: "table_ok cur" by (rule midway_table [OF mw])
  have rc: "r \<in> set cur" using midway_todo [OF mw r(1)] r(2) by simp
  have settled: "er_id c \<notin> todo" if c: "c \<in> set cur" "keyed c = (er_key r, normal r)" for c
  proof
    assume t: "er_id c \<in> todo"
    obtain x where x: "x \<in> set rows" "same_change x c"
        "er_stamp c = (if er_id x \<in> insert i todo then er_stamp x else normal x)"
      using midway_origin [OF mw c(1)] by blast
    then have xt: "er_id x \<in> insert i todo" using t by (simp add: same_change_def)
    then have "er_stamp x = normal r" using x(3) c(2) by (simp add: keyed_def)
    then have "normal x = er_stamp x"
      using ch [OF r(1)] r(2) by (simp add: changing_def normal_def [of x])
    then show False using ch [OF x(1) xt] by (simp add: changing_def)
  qed
  have origin: "\<exists>x \<in> set rows. same_change x r' \<and> er_stamp r' = (if er_id x \<in> todo then er_stamp x else normal x)"
    if "r' \<in> set cur" "er_id r' \<noteq> i" for r'
    using midway_origin [OF mw that(1)] that(2) by (auto simp: same_change_def)
  have other: "\<exists>r' \<in> set cur. er_id r' \<noteq> i \<and> er_id r' \<notin> todo \<and> keyed r' = (er_key x, normal x)"
    if "x \<in> set rows" "er_id x \<notin> todo" "er_id x \<noteq> i" for x
    using midway_done [OF mw that(1)] that(2,3) by auto
  have xr: "x = r" if "x \<in> set rows" "er_id x = i" for x
    by (rule table_id [OF tab that(1) r(1)]) (simp add: that(2) r(2))
  note step = rewrite_rows_step [OF tc rc r(2), of "normal r"]
  show ?thesis
  proof (cases "\<exists>c \<in> set cur. er_id c \<noteq> i \<and> keyed c = (er_key r, normal r)")
    case True
    then obtain c where c: "c \<in> set cur" "er_id c \<noteq> i" "keyed c = (er_key r, normal r)" by blast
    have res: "rewrite_rows (i, normal r) cur = filter (\<lambda>x. er_id x \<noteq> i) cur" using step True by simp
    have fin: "\<exists>r' \<in> set (filter (\<lambda>x. er_id x \<noteq> i) cur). er_id r' \<notin> todo \<and> keyed r' = (er_key x, normal x)"
      if "x \<in> set rows" "er_id x \<notin> todo" for x
      using other [OF that] c settled [OF c(1,3)] xr [OF that(1)] by (cases "er_id x = i") auto
    have "x \<in> set (filter (\<lambda>x. er_id x \<noteq> i) cur)" if "x \<in> set rows" "er_id x \<in> todo" for x
      using midway_todo [OF mw that(1)] that(2) i by auto
    then show ?thesis unfolding res midway_def
      using table_ok_filter [OF tc] origin fin by simp
  next
    case False
    let ?f = "\<lambda>x. if er_id x = i then r\<lparr>er_stamp := normal r\<rparr> else x"
    have res: "rewrite_rows (i, normal r) cur = map ?f cur" using step False by simp
    have set: "set (map ?f cur) = insert (r\<lparr>er_stamp := normal r\<rparr>) {x \<in> set cur. er_id x \<noteq> i}"
      using rc r(2) by auto
    have "\<exists>r' \<in> set (map ?f cur). er_id r' \<notin> todo \<and> keyed r' = (er_key x, normal x)"
      if "x \<in> set rows" "er_id x \<notin> todo" for x
    proof (cases "er_id x = i")
      case True
      then show ?thesis unfolding set using xr [OF that(1)] r(2) i by (auto simp: keyed_def)
    next
      case False
      then show ?thesis unfolding set using other [OF that] by auto
    qed
    moreover have "\<exists>x \<in> set rows. same_change x r' \<and> er_stamp r' = (if er_id x \<in> todo then er_stamp x else normal x)"
      if "r' \<in> set (map ?f cur)" for r'
      using that unfolding set
    proof
      assume "r' = r\<lparr>er_stamp := normal r\<rparr>"
      then show ?thesis using r i by (intro bexI [of _ r]) (simp_all add: same_change_def)
    qed (use origin in blast)
    moreover have "x \<in> set (map ?f cur)" if "x \<in> set rows" "er_id x \<in> todo" for x
      unfolding set using midway_todo [OF mw that(1)] that(2) i by auto
    ultimately show ?thesis unfolding res midway_def
      using table_ok_update [OF tc rc r(2) False] by simp
  qed
qed

lemma midway_fold:
  assumes "midway rows (fst ` set ps) cur" "distinct (map fst ps)" "table_ok rows"
    and "\<And>i ts. (i, ts) \<in> set ps \<Longrightarrow> \<exists>r \<in> set rows. er_id r = i \<and> ts = normal r"
    and "\<And>x. x \<in> set rows \<Longrightarrow> er_id x \<in> fst ` set ps \<Longrightarrow> changing x"
  shows "midway rows {} (fold rewrite_rows ps cur)"
  using assms
proof (induction ps arbitrary: cur)
  case (Cons p ps)
  obtain i ts where p: "p = (i, ts)" by (cases p)
  obtain r where r: "r \<in> set rows" "er_id r = i" "ts = normal r" using Cons.prems(4) [of i ts] p by auto
  have "midway rows (fst ` set ps) (rewrite_rows (i, normal r) cur)"
    by (rule midway_step [OF _ _ r(1,2) Cons.prems(3)]) (use Cons.prems p in auto)
  then have "midway rows {} (fold rewrite_rows ps (rewrite_rows p cur))"
    by (intro Cons.IH) (use Cons.prems r p in auto)
  then show ?case by simp
qed simp

lemma in_pending:
  "(i, ts) \<in> set (pending_stamps rows) \<longleftrightarrow>
    (\<exists>r \<in> set rows. er_id r = i \<and> normalize_stamp (er_stamp r) = Some ts \<and> ts \<noteq> er_stamp r)"
  unfolding pending_stamps_def set_sort in_map_filter
  by (auto split: option.splits if_splits)

lemma distinct_pending:
  assumes "distinct (map er_id rows)"
  shows "distinct (map fst (pending_stamps rows))"
proof -
  define f where "f = (\<lambda>r :: error_row. case normalize_stamp (er_stamp r) of None \<Rightarrow> None
     | Some ts \<Rightarrow> if ts = er_stamp r then None else Some (er_id r, ts))"
  have sub: "fst ` set (List.map_filter f rs) \<subseteq> er_id ` set rs" for rs
  proof
    fix i assume "i \<in> fst ` set (List.map_filter f rs)"
    then obtain p r where "p = (i, snd p)" "r \<in> set rs" "f r = Some p" by (force simp: in_map_filter)
    then show "i \<in> er_id ` set rs" by (auto simp: f_def split: option.splits if_splits)
  qed
  have "distinct (map fst (List.map_filter f rows))"
    using assms
  proof (induction rows)
    case (Cons r rows)
    have "er_id r \<notin> fst ` set (List.map_filter f rows)" using sub [of rows] Cons.prems by auto
    moreover have "f r = Some p \<Longrightarrow> fst p = er_id r" for p by (auto simp: f_def split: option.splits if_splits)
    ultimately show ?case using Cons by (auto simp: map_filter_simps split: option.split)
  qed (simp add: map_filter_simps)
  then show ?thesis
    unfolding pending_stamps_def f_def [symmetric] by (simp add: distinct_map)
qed

definition instants_ok :: "error_row list \<Rightarrow> bool" where
  "instants_ok rows \<longleftrightarrow> (\<forall>r \<in> set rows. case legacy_instant (er_stamp r) of None \<Rightarrow> True | Some t \<Rightarrow> stamp_ok t)"

lemma normal_settled:
  assumes "instants_ok rows" "r \<in> set rows"
  shows "normalize_stamp (normal r) \<in> {None, Some (normal r)}"
    "normal r \<noteq> er_stamp r \<Longrightarrow> changing r"
    "normal r \<noteq> er_stamp r \<longleftrightarrow> (\<exists>ts. normalize_stamp (er_stamp r) = Some ts \<and> ts \<noteq> er_stamp r)"
proof -
  have n: "normalize_stamp ts = Some ts" if ts: "normalize_stamp (er_stamp r) = Some ts" for ts
  proof -
    obtain t where t: "legacy_instant (er_stamp r) = Some t" "ts = fmt_stamp t"
      using ts by (auto simp: normalize_stamp_def)
    then have "stamp_ok t" using assms by (auto simp: instants_ok_def)
    then show ?thesis using normalize_fmt_stamp t(2) by simp
  qed
  show "normalize_stamp (normal r) \<in> {None, Some (normal r)}" "normal r \<noteq> er_stamp r \<Longrightarrow> changing r"
    "normal r \<noteq> er_stamp r \<longleftrightarrow> (\<exists>ts. normalize_stamp (er_stamp r) = Some ts \<and> ts \<noteq> er_stamp r)"
    using n by (auto simp: normal_def changing_def split: option.splits)
qed

lemma rewritten_rows:
  assumes "table_ok rows" "instants_ok rows"
  shows "midway rows {} (fold rewrite_rows (pending_stamps rows) rows)"
proof (rule midway_fold [OF _ _ assms(1)])
  have pend: "er_id x \<in> fst ` set (pending_stamps rows) \<longleftrightarrow> normal x \<noteq> er_stamp x" if "x \<in> set rows" for x
  proof -
    have "er_id x \<in> fst ` set (pending_stamps rows) \<longleftrightarrow> (\<exists>ts. (er_id x, ts) \<in> set (pending_stamps rows))"
      by force
    also have "\<dots> \<longleftrightarrow> (\<exists>ts. normalize_stamp (er_stamp x) = Some ts \<and> ts \<noteq> er_stamp x)"
      unfolding in_pending using table_id [OF assms(1) that] that by metis
    finally show ?thesis using normal_settled(3) [OF assms(2) that] by simp
  qed
  show "midway rows (fst ` set (pending_stamps rows)) rows"
    unfolding midway_def
    by (use assms(1) pend in \<open>auto simp: same_change_def keyed_def\<close>)
  show "distinct (map fst (pending_stamps rows))"
    using assms(1) by (intro distinct_pending) (simp add: table_ok_def)
  show "\<exists>r \<in> set rows. er_id r = i \<and> ts = normal r" if "(i, ts) \<in> set (pending_stamps rows)" for i ts
    using that unfolding in_pending by (auto simp: normal_def)
  show "changing x" if "x \<in> set rows" "er_id x \<in> fst ` set (pending_stamps rows)" for x
    using that pend normal_settled(2) [OF assms(2)] by blast
qed

lemma v3_up_rows:
  assumes "v3_up tx = Some tx'" "md_errors (mt_db tx) = Some rows"
  shows "mt_db tx' = (mt_db tx)\<lparr>md_meta := True, md_errors := Some (fold rewrite_rows (pending_stamps rows) rows)\<rparr>"
  using assms by (auto simp: v3_up_def normalize_status_timestamps_def dest!: statement_Some rewrite_all_Some
      split: option.splits)

text \<open>C31: The v3 migration loses no status change: afterwards the pairs of key and timestamp are those
  from before with every readable timestamp in fixed-width UTC, each once; every row that is left
  is a row from before with its id, key and value; and no row with a legacy layout remains.\<close>

theorem v3_normalises:
  assumes "v3_up tx = Some tx'" "md_errors (mt_db tx) = Some rows" "table_ok rows" "instants_ok rows"
  shows "\<exists>rows'. mt_db tx' = (mt_db tx)\<lparr>md_meta := True, md_errors := Some rows'\<rparr> \<and> table_ok rows' \<and>
    keyed ` set rows' = (\<lambda>r. (er_key r, normal r)) ` set rows \<and>
    (\<forall>r' \<in> set rows'. \<exists>r \<in> set rows. same_change r r' \<and> er_stamp r' = normal r) \<and>
    (\<forall>r' \<in> set rows'. normalize_stamp (er_stamp r') \<in> {None, Some (er_stamp r')})"
proof -
  define rows' where "rows' = fold rewrite_rows (pending_stamps rows) rows"
  have mw: "midway rows {} rows'" unfolding rows'_def by (rule rewritten_rows [OF assms(3,4)])
  have o': "\<exists>r \<in> set rows. same_change r r' \<and> er_stamp r' = normal r" if "r' \<in> set rows'" for r'
    using midway_origin [OF mw that] by simp
  have "keyed ` set rows' = (\<lambda>r. (er_key r, normal r)) ` set rows"
  proof
    show "keyed ` set rows' \<subseteq> (\<lambda>r. (er_key r, normal r)) ` set rows"
      using o' by (fastforce simp: keyed_def same_change_def)
    show "(\<lambda>r. (er_key r, normal r)) ` set rows \<subseteq> keyed ` set rows'"
      using midway_done [OF mw] by (force simp: image_iff)
  qed
  moreover have "normalize_stamp (er_stamp r') \<in> {None, Some (er_stamp r')}" if "r' \<in> set rows'" for r'
    using o' [OF that] normal_settled(1) [OF assms(4)] by metis
  ultimately show ?thesis
    using v3_up_rows [OF assms(1,2)] o' midway_table [OF mw]
    by (intro exI [of _ rows']) (simp add: rows'_def)
qed

text \<open>Of two rows of one instant the older one goes when the newer one has its fixed-width text
  already: what is kept is not always the older row.\<close>

theorem older_row_dropped:
  assumes "normalize_stamp (er_stamp a) = Some (er_stamp b)" "er_stamp a \<noteq> er_stamp b"
    "normalize_stamp (er_stamp b) = Some (er_stamp b)" "er_key a = er_key b" "er_id a < er_id b"
  shows "fold rewrite_rows (pending_stamps [a, b]) [a, b] = [b]"
  using assms by (auto simp: pending_stamps_def map_filter_simps rewrite_rows_def affects_def set_stamp_def
      stamp_taken_def delete_row_def)

section \<open>Prepare\<close>

definition schema_version :: "mdb \<Rightarrow> int" where
  "schema_version d = (case md_versions d of None \<Rightarrow> 0 | Some vs \<Rightarrow> max_version vs)"

lemma foldl_max: "foldl max (x :: int) xs = Max (insert x (set xs))"
proof (induction xs arbitrary: x)
  case (Cons y xs)
  then show ?case by (cases "xs = []") (simp_all add: max.assoc Max_insert)
qed simp

lemma max_version_eq:
  "max_version vs = (if {v. (v, True) \<in> set vs} = {} then 0 else Max {v. (v, True) \<in> set vs})"
proof -
  have s: "set (map fst (filter snd vs)) = {v. (v, True) \<in> set vs}" by force
  show ?thesis
  proof (cases "map fst (filter snd vs)")
    case Nil
    then show ?thesis using s by (simp add: max_version_def)
  next
    case (Cons x xs)
    then have "{v. (v, True) \<in> set vs} = insert x (set xs)" using s by simp
    then show ?thesis using Cons by (simp add: max_version_def foldl_max)
  qed
qed

lemma max_version_record:
  assumes "max_version vs < v" "0 < v"
  shows "max_version (filter (\<lambda>x. fst x \<noteq> v) vs @ [(v, True)]) = v"
proof -
  have fin: "finite {w. (w, True) \<in> set vs}"
    by (rule finite_subset [of _ "fst ` set vs"]) force+
  have le: "w < v" if "(w, True) \<in> set vs" for w
  proof -
    have "w \<le> Max {w. (w, True) \<in> set vs}" using that fin by simp
    moreover have "{w. (w, True) \<in> set vs} \<noteq> {}" using that by blast
    ultimately show ?thesis using assms(1) unfolding max_version_eq by (simp split: if_splits)
  qed
  have "{w. (w, True) \<in> set (filter (\<lambda>x. fst x \<noteq> v) vs @ [(v, True)])} = insert v {w. (w, True) \<in> set vs}"
    using le by auto
  moreover have "Max (insert v {w. (w, True) \<in> set vs}) = v"
    using le fin by (intro Max_eqI) (auto intro: less_imp_le)
  ultimately show ?thesis by (simp add: max_version_eq)
qed

lemma get_current_version_Some:
  "get_current_version faults d = Some (v, faults') \<Longrightarrow> v = schema_version d"
  by (auto simp: get_current_version_def schema_version_def split: option.splits)

lemma v3_up_versions: "v3_up tx = Some tx' \<Longrightarrow> md_versions (mt_db tx') = md_versions (mt_db tx)"
  by (auto simp: v3_up_def normalize_status_timestamps_def dest!: statement_Some rewrite_all_Some
      split: option.splits)

lemma apply_v3:
  assumes "apply_migration v3_migration faults d = (ok, faults', d')"
  shows "if ok then schema_version d < 3 \<longrightarrow> schema_version d' = 3 else d' = d"
proof (cases ok)
  case False
  then show ?thesis using assms by (auto simp: apply_migration_def split: option.splits)
next
  case True
  obtain t0 t1 t2 t3 t4 where t: "statement id \<lparr>mt_db = d, mt_faults = faults\<rparr> = Some t0" "v3_up t0 = Some t1"
      "statement ensure_versions t1 = Some t2" "statement (record_version 3) t2 = Some t3"
      "statement id t3 = Some t4" "mt_db t4 = d'"
    using True assms by (auto simp: apply_migration_def apply_in_tx_def v3_migration_def v3_version_def
        split: option.splits)
  have "md_versions (mt_db t1) = md_versions d"
    using v3_up_versions [OF t(2)] statement_Some [OF t(1)] by simp
  moreover have "d' = record_version 3 (ensure_versions (mt_db t1))"
    using statement_Some [OF t(3)] statement_Some [OF t(4)] statement_Some [OF t(5)] t(6) by simp
  ultimately have "md_versions d' = Some (filter (\<lambda>x. fst x \<noteq> 3)
      (case md_versions d of None \<Rightarrow> [] | Some vs \<Rightarrow> vs) @ [(3, True)])"
    by (auto simp: record_version_def ensure_versions_def split: option.splits)
  moreover have "schema_version d = max_version (case md_versions d of None \<Rightarrow> [] | Some vs \<Rightarrow> vs)"
    by (simp add: schema_version_def max_version_def split: option.split)
  ultimately show ?thesis using True max_version_record [of _ 3] by (simp add: schema_version_def)
qed

lemma manager_pending: "cur < 3 \<Longrightarrow> get_migrations_from manager_registry cur = [v3_migration]"
  by (simp add: get_migrations_from_def manager_registry_def register_migration_def new_migrations_def
      v3_migration_def v3_version_def)

lemma run_migrations_result:
  assumes "run_migrations cur faults p = (r, p')" "cur < 3" "cur = schema_version (in_db p)"
  shows "in_disk p' = in_disk p" "if r = None then schema_version (in_db p') = 3 else in_db p' = in_db p"
proof -
  obtain ok f' d' where a: "apply_migration v3_migration faults (in_db p) = (ok, f', d')" by (metis surj_pair)
  have "apply_pending_migrations manager_registry cur faults (in_db p)
      = (if ok then Inr 1 else Inl 3, d')"
    using a by (simp add: apply_pending_migrations_def manager_pending [OF assms(2)] v3_migration_def v3_version_def
        split: bool.split)
  then have "(r, p') = (if ok then None else Some (MigrationFailed 3), p\<lparr>in_db := d'\<rparr>)"
    using assms(1) by (simp add: run_migrations_def split: if_splits)
  then show "in_disk p' = in_disk p" "if r = None then schema_version (in_db p') = 3 else in_db p' = in_db p"
    using apply_v3 [OF a] assms(2,3) by (auto split: if_splits)
qed

definition backed_up :: "copy_env \<Rightarrow> string \<Rightarrow> int \<Rightarrow> disk \<Rightarrow> bool" where
  "backed_up env path now dk \<longleftrightarrow> (case write_backup env path now dk of (Inr f, dk') \<Rightarrow>
     \<exists>c. (backup_name path now, Plain c) \<in> set (entries dk') \<and> good_copy c | _ \<Rightarrow> False)"

definition migratable :: "mdb \<Rightarrow> bool" where
  "migratable d \<longleftrightarrow> schema_version d = 2 \<or> schema_version d = 0 \<and> \<not> md_data d"

lemma migrate_result:
  assumes "migrate env path now faults cur existed p = (r, p')" "cur < 3" "cur = schema_version (in_db p)"
    and "stamp_ok now" "path_base path \<noteq> ''/''"
  shows "(if r = None then schema_version (in_db p') = 3 else in_db p' = in_db p) \<and>
    (in_db p' \<noteq> in_db p \<longrightarrow> migratable (in_db p) \<and> (existed \<longrightarrow> backed_up env path now (in_disk p)))"
proof (cases "check_compatible faults (in_db p) cur")
  case (Inl e)
  then show ?thesis using assms(1) by (auto simp: migrate_def)
next
  case (Inr fs)
  then have m: "migratable (in_db p)"
    using assms(2,3) by (auto simp: check_compatible_def migratable_def min_compatible_version_def
        split: if_splits option.splits)
  define b where "b = (if existed then backup_before_migration env path now p else (None, p))"
  obtain e p1 where b1: "b = (e, p1)" by (cases b)
  have p1: "in_db p1 = in_db p" "e = None \<Longrightarrow> existed \<Longrightarrow> backed_up env path now (in_disk p)"
    using b1 verified_backup [OF prod.collapse [symmetric] assms(4,5), of env "in_disk p"]
    by (auto simp: b_def backup_before_migration_def backed_up_def split: if_splits sum.splits prod.splits)
  show ?thesis
  proof (cases e)
    case None
    then have "run_migrations cur fs p1 = (r, p')" using assms(1) Inr b1 by (simp add: migrate_def b_def)
    from run_migrations_result [OF this assms(2)] show ?thesis
      using p1 None m assms(3) by (auto split: if_splits)
  next
    case (Some x)
    then have "r = Some x" "p' = p1" using assms(1) Inr b1 by (simp_all add: migrate_def b_def)
    then show ?thesis using p1 by simp
  qed
qed

text \<open>C30: Prepare succeeds only on a database at the current schema version; it changes the database
  only from version 2 or from an empty one, and an existing database only after a sound backup of
  it was written; and when it fails the database is as it was (only a failure to close the
  connection comes after the fact).\<close>

theorem prepare_safe:
  assumes "prepare loc env cfg path now faults existing opens closes p = (r, p')"
    and "stamp_ok now" "path_base path \<noteq> ''/''"
  shows "(r = None \<longrightarrow> schema_version (in_db p') = 3) \<and>
    (r \<notin> {None, Some CloseConnection} \<longrightarrow> in_db p' = in_db p) \<and>
    (in_db p' \<noteq> in_db p \<longrightarrow> migratable (in_db p) \<and>
      (existing = Found \<longrightarrow> backed_up env path now (in_disk p)))"
proof (cases "existing = StatFailed \<or> \<not> opens")
  case True
  then show ?thesis using assms(1) by (cases existing) (auto simp: prepare_def)
next
  case False
  obtain r0 p0 where u: "upgrade loc env cfg path now faults (existing = Found) p = (r0, p0)" by (metis surj_pair)
  have rp: "r = (if r0 = None \<and> \<not> closes then Some CloseConnection else r0)" "p' = p0"
    using assms(1) False u by (cases existing; simp add: prepare_def)+
  have "(if r0 = None then schema_version (in_db p0) = 3 else in_db p0 = in_db p) \<and>
    (in_db p0 \<noteq> in_db p \<longrightarrow> migratable (in_db p) \<and> (existing = Found \<longrightarrow> backed_up env path now (in_disk p)))"
  proof (cases "get_current_version faults (in_db p)")
    case None
    then show ?thesis using u by (auto simp: upgrade_def)
  next
    case (Some x)
    then obtain cur fs where c: "get_current_version faults (in_db p) = Some (cur, fs)" by (cases x) simp
    have cur: "cur = schema_version (in_db p)" by (rule get_current_version_Some [OF c])
    show ?thesis
    proof (cases "cur < 3")
      case False
      then show ?thesis using u c cur by (auto simp: upgrade_def current_schema_version_def split: if_splits)
    next
      case True
      obtain e p1 where m: "migrate env path now fs cur (existing = Found) p = (e, p1)" by (metis surj_pair)
      show ?thesis using u migrate_result [OF m True cur assms(2,3)] True
        by (auto simp: upgrade_def c m current_schema_version_def split: option.splits)
    qed
  qed
  then show ?thesis using rp by (auto split: if_splits)
qed

section \<open>Examples\<close>

lemma demo_day: "valid_date (Date 2026 9 27)" "year_ok (dyear (Date 2026 9 27))"
  by (simp_all add: valid_date_def days_in_def month_start_def year_ok_def)

theorem legacy_texts_normalise_witness:
  "normalize_stamp (go_text (Date 2026 9 27) (hms 20 58 18 @ fraction_text 9 612840635)
      (offset_text False False 2 0) ''CEST'' @ '' m='' @ ''+0.000546397'') =
    Some (fmt_stamp (instant_of (Date 2026 9 27) (clock_value 20 58 18 9 612840635) (offset_value False 2 0)))"
proof -
  have "clock_ok 20 58 18 9 612840635" by (simp add: clock_ok_def)
  moreover have "zone_ok ''CEST''" by (simp add: zone_ok_def is_upper_def)
  ultimately show ?thesis
    using legacy_texts_normalise [OF demo_day, of 20 58 18 9 612840635 2 0 "''CEST''" "''+0.000546397''" False]
    by (simp add: away_texts_def is_space_def)
qed

lemma rewrite_stamp_free: "mt_faults tx = [] \<Longrightarrow> \<exists>tx'. rewrite_stamp p tx = Some tx' \<and> mt_faults tx' = []"
  by (cases p) (simp add: rewrite_stamp_def statement_free Let_def)

lemma rewrite_all_free: "mt_faults tx = [] \<Longrightarrow> \<exists>tx'. rewrite_all ps tx = Some tx'"
proof (induction ps arbitrary: tx)
  case (Cons p ps)
  then show ?case using rewrite_stamp_free [OF Cons.prems, of p] by auto
qed simp

lemma v3_up_free: "mt_faults tx = [] \<Longrightarrow> \<exists>tx'. v3_up tx = Some tx'"
  using rewrite_all_free
  by (simp add: v3_up_def normalize_status_timestamps_def statement_free split: option.split)

definition legacy_row :: error_row where
  "legacy_row = \<lparr>er_id = 1, er_stamp = fmt_day (Date 2026 9 27) @ '' '' @ hms 20 58 18 @ fraction_text 0 0,
     er_key = ''a'', er_raw = Fin 1\<rparr>"

definition garbage_row :: error_row where
  "garbage_row = \<lparr>er_id = 2, er_stamp = ''garbage'', er_key = ''a'', er_raw = Fin 2\<rparr>"

definition old_db :: mdb where
  "old_db = \<lparr>md_versions = Some [(2, True)], md_data = True, md_errors = Some [legacy_row, garbage_row], md_meta = False\<rparr>"

lemma legacy_row_instant: "legacy_instant (er_stamp legacy_row) = Some (midnight_utc (Date 2026 9 27) + 75498000000000)"
  using legacy_sqlite_text [OF demo_day, of 20 58 18 0 0]
  by (simp add: legacy_row_def clock_ok_def clock_value_def instant_of_def)

lemma garbage_unreadable: "legacy_instant ''garbage'' = None"
  by code_simp

lemma old_rows_ok: "table_ok [legacy_row, garbage_row]" "instants_ok [legacy_row, garbage_row]"
proof -
  have "er_stamp legacy_row \<noteq> ''garbage''" using legacy_row_instant garbage_unreadable by auto
  then show "table_ok [legacy_row, garbage_row]"
    by (simp add: table_ok_def keyed_def garbage_row_def) (simp add: legacy_row_def)
  have "stamp_ok (midnight_utc (Date 2026 9 27) + 75498000000000)"
    using civil_clock(1) [OF demo_day(1), of 75498000000000] by (simp add: stamp_ok_def year_ok_def)
  then show "instants_ok [legacy_row, garbage_row]"
    using legacy_row_instant garbage_unreadable by (simp add: instants_ok_def garbage_row_def)
qed

theorem v3_normalises_witness:
  "\<exists>tx' rows'. v3_up \<lparr>mt_db = old_db, mt_faults = []\<rparr> = Some tx' \<and> md_errors (mt_db tx') = Some rows' \<and>
    keyed ` set rows' = (\<lambda>r. (er_key r, normal r)) ` {legacy_row, garbage_row}"
proof -
  obtain tx' where u: "v3_up \<lparr>mt_db = old_db, mt_faults = []\<rparr> = Some tx'"
    using v3_up_free [of "\<lparr>mt_db = old_db, mt_faults = []\<rparr>"] by auto
  have e: "md_errors (mt_db \<lparr>mt_db = old_db, mt_faults = []\<rparr>) = Some [legacy_row, garbage_row]"
    by (simp add: old_db_def)
  from v3_normalises [OF u e old_rows_ok] u show ?thesis by auto
qed

definition small_db :: mdb where
  "small_db = \<lparr>md_versions = Some [(2, True)], md_data = True, md_errors = None, md_meta = False\<rparr>"

theorem prepare_safe_witness:
  "\<exists>p'. prepare utc good_env \<lparr>bc_enabled = False, bc_max = 0, bc_interval = 0\<rparr> ''/data/solis.db''
      (midnight_utc (Date 2024 1 2)) [] Found True True \<lparr>in_db = small_db, in_disk = quiet_disk []\<rparr> = (None, p') \<and>
    schema_version (in_db p') = 3"
proof -
  let ?p = "prepare utc good_env \<lparr>bc_enabled = False, bc_max = 0, bc_interval = 0\<rparr> ''/data/solis.db''
      (midnight_utc (Date 2024 1 2)) [] Found True True \<lparr>in_db = small_db, in_disk = quiet_disk []\<rparr>"
  have v: "apply_pending_migrations manager_registry 2 [] small_db = (Inr 1, snd (apply_pending_migrations manager_registry 2 [] small_db))"
    by (simp add: apply_pending_migrations_def manager_pending v3_migration_def v3_version_def apply_migration_def
        apply_in_tx_def v3_up_def normalize_status_timestamps_def statement_free small_db_def)
  have w: "write_backup good_env ''/data/solis.db'' (midnight_utc (Date 2024 1 2)) (quiet_disk []) =
      (Inr (generate_backup_filename ''/data/solis.db'' (midnight_utc (Date 2024 1 2))),
       snd (write_backup good_env ''/data/solis.db'' (midnight_utc (Date 2024 1 2)) (quiet_disk [])))"
    using good_env_writes by (metis prod.collapse)
  have n: "fst ?p = None"
    by (subst prepare_def, simp add: upgrade_def get_current_version_def statement_free small_db_def max_version_def
        current_schema_version_def migrate_def check_compatible_def min_compatible_version_def backup_before_migration_def)
      (subst w, simp add: run_migrations_def, subst v [unfolded small_db_def], simp)
  then show ?thesis
    using prepare_safe [OF prod.collapse [symmetric] demo_stamp_ok, of "''/data/solis.db''" utc good_env
        "\<lparr>bc_enabled = False, bc_max = 0, bc_interval = 0\<rparr>" "[]" Found True True "\<lparr>in_db = small_db, in_disk = quiet_disk []\<rparr>"]
      demo_base by (intro exI [of _ "snd ?p"]) (auto simp: prod_eq_iff)
qed

end
