(* ===== verification/Duration.thy ===== *)
theory Duration
  imports Float64
begin

text \<open>
  internal/util/duration.go: \<open>ParseDuration\<close>, which reads the durations of the configuration.
  It extends Go's \<open>time.ParseDuration\<close>, modelled here for the one number and unit the code
  hands to it, by days, weeks and years, whose number it reads as a float. A duration is an
  integer of nanoseconds; machine integers never wrap here, and that is one of the results.
\<close>

section \<open>Units\<close>

definition max_int64 :: int where "max_int64 = 9223372036854775807"

definition day_ns :: int where "day_ns = 24 * ns_hour"
definition week_ns :: int where "week_ns = 7 * day_ns"
definition year_ns :: int where "year_ns = 365 * day_ns"

lemmas long_units = day_ns_def week_ns_def year_ns_def

definition long_unit :: "string \<Rightarrow> int option" where
  "long_unit u = (if u = ''d'' then Some day_ns else if u = ''w'' then Some week_ns
     else if u = ''y'' then Some year_ns else None)"

text \<open>The units of package time; the micro sign and the Greek mu are two bytes of UTF-8.\<close>

definition unit_map :: "(string \<times> int) list" where
  "unit_map = [(''ns'', 1), (''us'', 1000), ([CHR 0xC2, CHR 0xB5, CHR ''s''], 1000),
     ([CHR 0xCE, CHR 0xBC, CHR ''s''], 1000), (''ms'', 1000000), (''s'', ns_second), (''m'', ns_minute),
     (''h'', ns_hour)]"

section \<open>\<open>strings.TrimSpace\<close>\<close>

definition space_runes :: "string list" where
  "space_runes = map (\<lambda>n. [char_of (n :: nat)]) [9, 10, 11, 12, 13, 32]
     @ [[CHR 0xC2, CHR 0x85], [CHR 0xC2, CHR 0xA0], [CHR 0xE1, CHR 0x9A, CHR 0x80]]
     @ map (\<lambda>n. [CHR 0xE2, CHR 0x80, char_of (128 + n)]) [0..<11]
     @ [[CHR 0xE2, CHR 0x80, CHR 0xA8], [CHR 0xE2, CHR 0x80, CHR 0xA9], [CHR 0xE2, CHR 0x80, CHR 0xAF],
        [CHR 0xE2, CHR 0x81, CHR 0x9F], [CHR 0xE3, CHR 0x80, CHR 0x80]]"

definition starts :: "string \<Rightarrow> string \<Rightarrow> bool" where
  "starts p s \<longleftrightarrow> p \<noteq> [] \<and> take (length p) s = p"

function trim_front :: "string list \<Rightarrow> string \<Rightarrow> string" where
  "trim_front ps s = (case find (\<lambda>p. starts p s) ps of None \<Rightarrow> s
     | Some p \<Rightarrow> trim_front ps (drop (length p) s))"
  by auto
termination
proof (relation "measure (length \<circ> snd)")
  fix ps s p assume "find (\<lambda>p. starts p s) ps = Some p"
  then have "starts p s" by (simp add: find_Some_iff) blast
  then have "p \<noteq> []" "s \<noteq> []" by (auto simp: starts_def)
  then show "((ps, drop (length p) s), ps, s) \<in> measure (length \<circ> snd)" by simp
qed simp

declare trim_front.simps [simp del]

definition trim_text :: "string \<Rightarrow> string" where
  "trim_text s = rev (trim_front (map rev space_runes) (rev (trim_front space_runes s)))"

section \<open>One number and its unit\<close>

definition number_byte :: "char \<Rightarrow> bool" where
  "number_byte c \<longleftrightarrow> is_digit c \<or> c = CHR ''.''"

definition split_duration_token :: "string \<Rightarrow> string \<times> string \<times> string" where
  "split_duration_token s = (let rest = dropWhile number_byte s in
     (takeWhile number_byte s, takeWhile (\<lambda>c. \<not> number_byte c) rest, dropWhile (\<lambda>c. \<not> number_byte c) rest))"

text \<open>\<open>strconv.ParseFloat\<close> of digits and dots: correctly rounded, an error past the largest float.\<close>

definition parse_float :: "string \<Rightarrow> float64 option" where
  "parse_float s = (let ip = takeWhile is_digit s; rest = dropWhile is_digit s; fp = tl rest in
     if ip @ fp = [] \<or> (rest \<noteq> [] \<and> hd rest \<noteq> CHR ''.'') \<or> \<not> list_all is_digit fp then None
     else case rnd (of_nat (num_of (ip @ fp) 0) / 10 ^ length fp) of Inf sg \<Rightarrow> None | x \<Rightarrow> Some x)"

text \<open>The two scanners of \<open>time.ParseDuration\<close> with their guards against overflow.\<close>

fun leading_int :: "string \<Rightarrow> int \<Rightarrow> int option" where
  "leading_int [] x = Some x"
| "leading_int (c # cs) x = (if x > 2 ^ 63 div 10 then None
     else let x = x * 10 + int (digit_val c) in if x > 2 ^ 63 then None else leading_int cs x)"

fun leading_fraction :: "string \<Rightarrow> int \<Rightarrow> float64 \<Rightarrow> int \<times> float64" where
  "leading_fraction [] x scale = (x, scale)"
| "leading_fraction (c # cs) x scale = (if x > (2 ^ 63 - 1) div 10 then (x, scale)
     else let y = x * 10 + int (digit_val c) in if y > 2 ^ 63 then (x, scale)
     else leading_fraction cs y (fmul scale (Fin 10)))"

definition go_duration :: "string \<Rightarrow> string \<Rightarrow> int option" where
  "go_duration num u = (let ip = takeWhile is_digit num; rest = dropWhile is_digit num;
       fp = takeWhile is_digit (tl rest); rest = dropWhile is_digit (tl rest) in
     case leading_int ip 0 of None \<Rightarrow> None
     | Some v \<Rightarrow> if ip = [] \<and> fp = [] \<or> rest \<noteq> [] then None
       else case map_of unit_map u of None \<Rightarrow> None
       | Some ns \<Rightarrow> if v > 2 ^ 63 div ns then None
         else case leading_fraction fp 0 (Fin 1) of (f, scale) \<Rightarrow>
           let d = v * ns + (if f > 0 then \<lfloor>fval (fmul (f_of_int f) (fdiv (f_of_int ns) scale))\<rfloor> else 0) in
           if d > 2 ^ 63 - 1 then None else Some d)"

definition duration_token :: "string \<Rightarrow> string \<Rightarrow> int option" where
  "duration_token num u = (case long_unit u of
       Some base \<Rightarrow> (case parse_float num of None \<Rightarrow> None
         | Some n \<Rightarrow> let f = fmul n (f_of_int base) in
             if fle (f_of_int max_int64) f then None else Some \<lfloor>fval f\<rfloor>)
     | None \<Rightarrow> go_duration num u)"

section \<open>The whole text\<close>

datatype duration_error = DurationError string

text \<open>What is left after a token is shorter.\<close>

lemma split_shorter:
  assumes "split_duration_token s = (num, u, r)" "num \<noteq> []"
  shows "length r < length s"
proof -
  have n: "num = takeWhile number_byte s" and r: "r = dropWhile (\<lambda>c. \<not> number_byte c) (dropWhile number_byte s)"
    using assms by (auto simp: split_duration_token_def Let_def)
  have "length r \<le> length (dropWhile number_byte s)" unfolding r by (rule length_dropWhile_le)
  also have "length (dropWhile number_byte s) < length s"
    using n assms(2) takeWhile_dropWhile_id [of number_byte s]
    by (metis length_append length_greater_0_conv less_add_same_cancel2)
  finally show ?thesis .
qed

function parse_tokens :: "string \<Rightarrow> int \<Rightarrow> int option" where
  "parse_tokens rest acc = (if rest = [] then Some acc
     else case split_duration_token rest of (num, u, rest') \<Rightarrow>
       if num = [] \<or> u = [] then None
       else case duration_token num u of None \<Rightarrow> None
       | Some d \<Rightarrow> if acc > max_int64 - d then None else parse_tokens rest' (acc + d))"
  by pat_completeness auto
termination
  by (relation "measure (length \<circ> fst)") (auto intro: split_shorter [OF sym])

declare parse_tokens.simps [simp del]

definition parse_duration :: "string \<Rightarrow> duration_error + int" where
  "parse_duration s = (let t = trim_text s in
     if t = [] then Inl (DurationError [])
     else case parse_tokens t 0 of None \<Rightarrow> Inl (DurationError s) | Some d \<Rightarrow> Inr d)"

section \<open>Bounds\<close>

lemma leading_int_bounds: "leading_int s x = Some v \<Longrightarrow> 0 \<le> x \<Longrightarrow> 0 \<le> v"
  by (induction s x rule: leading_int.induct) (auto simp: Let_def split: if_splits)

lemma leading_fraction_bounds:
  "leading_fraction s x sc = (f, sc') \<Longrightarrow> 0 \<le> x \<Longrightarrow> 0 \<le> f"
  by (induction s x sc rule: leading_fraction.induct) (auto simp: Let_def split: if_splits)

lemma fval_rnd_nonneg: "0 \<le> r \<Longrightarrow> 0 \<le> fval (rnd r)"
  using rnd_sign [of r] by (cases "rnd r") auto

lemma fval_fmul_nonneg: "0 \<le> fval x \<Longrightarrow> 0 \<le> fval y \<Longrightarrow> 0 \<le> fval (fmul x y)"
  by (simp add: fmul_def Let_def fval_rnd_nonneg signed_zero_def)

lemma fval_fdiv_nonneg: "0 \<le> fval x \<Longrightarrow> 0 \<le> fval y \<Longrightarrow> 0 \<le> fval (fdiv x y)"
  by (simp add: fdiv_def Let_def fval_rnd_nonneg signed_zero_def)

lemma leading_fraction_scale:
  "leading_fraction s x sc = (f, sc') \<Longrightarrow> 0 \<le> fval sc \<Longrightarrow> 0 \<le> fval sc'"
  by (induction s x sc rule: leading_fraction.induct) (auto simp: Let_def fval_fmul_nonneg split: if_splits)

lemma long_unit_pos: "long_unit u = Some b \<Longrightarrow> 0 < b \<and> b \<le> year_ns"
  by (auto simp: long_unit_def long_units split: if_splits)

lemma unit_map_pos: "map_of unit_map u = Some b \<Longrightarrow> 0 < b \<and> b \<le> ns_hour"
  by (auto simp: unit_map_def split: if_splits)

lemma f_of_max_int64: "f_of_int max_int64 = Fin (2 ^ 63)"
proof -
  have "rnd 9223372036854775807 = Fin (of_int (2 ^ 53) * pow2 (62 - 52))"
    by (rule rnd_normal) (simp_all add: pow2_def round_even_eqI)
  then show ?thesis by (simp add: f_of_int_def max_int64_def pow2_def)
qed

lemma go_duration_bounds:
  assumes "go_duration num u = Some d" shows "0 \<le> d \<and> d \<le> max_int64"
proof -
  obtain v ns fp f sc where v: "leading_int (takeWhile is_digit num) 0 = Some v"
    and ns: "map_of unit_map u = Some ns" and f: "leading_fraction fp 0 (Fin 1) = (f, sc)"
    and d: "d = v * ns + (if f > 0 then \<lfloor>fval (fmul (f_of_int f) (fdiv (f_of_int ns) sc))\<rfloor> else 0)"
      "d \<le> 2 ^ 63 - 1"
    using assms by (auto simp: go_duration_def Let_def split: option.splits if_splits prod.splits)
  have pos: "0 \<le> v" "0 < ns" "0 \<le> f" "0 \<le> fval sc"
    using leading_int_bounds [OF v] unit_map_pos [OF ns] leading_fraction_bounds [OF f]
      leading_fraction_scale [OF f] by auto
  have "0 \<le> fval (fmul (f_of_int f) (fdiv (f_of_int ns) sc))"
    using pos by (intro fval_fmul_nonneg fval_fdiv_nonneg) (simp_all add: f_of_int_def fval_rnd_nonneg)
  then have "0 \<le> d" using pos d(1) by (simp split: if_splits)
  then show ?thesis using d(2) by (simp add: max_int64_def)
qed

lemma parse_float_nonneg: "parse_float s = Some x \<Longrightarrow> 0 \<le> fval x"
  by (auto simp: parse_float_def Let_def fval_rnd_nonneg split: if_splits float64.splits)

lemma duration_token_bounds:
  assumes "duration_token num u = Some d" shows "0 \<le> d \<and> d \<le> max_int64"
proof (cases "long_unit u")
  case None
  then show ?thesis using assms go_duration_bounds by (simp add: duration_token_def)
next
  case (Some b)
  then obtain x where x: "parse_float num = Some x"
    using assms by (auto simp: duration_token_def split: option.splits)
  define f where "f = fmul x (f_of_int b)"
  have d: "d = \<lfloor>fval f\<rfloor>" "\<not> fle (Fin (2 ^ 63)) f"
    using assms Some x by (auto simp: duration_token_def f_def Let_def f_of_max_int64 split: if_splits)
  have nn: "0 \<le> fval f" using parse_float_nonneg [OF x] long_unit_pos [OF Some]
    by (simp add: f_def fval_fmul_nonneg f_of_int_def fval_rnd_nonneg)
  have "fval f < 2 ^ 63" using d(2) by (cases f) auto
  then have "\<lfloor>fval f\<rfloor> < 2 ^ 63" by (simp add: floor_less_iff)
  then show ?thesis using d(1) nn by (simp add: max_int64_def)
qed

section \<open>What is accepted\<close>

text \<open>A token as the text shows it, and a list of them as a text.\<close>

definition token_ok :: "string \<times> string \<Rightarrow> bool" where
  "token_ok t \<longleftrightarrow> fst t \<noteq> [] \<and> list_all number_byte (fst t)
     \<and> snd t \<noteq> [] \<and> list_all (\<lambda>c. \<not> number_byte c) (snd t)"

definition token_text :: "string \<times> string \<Rightarrow> string" where
  "token_text t = fst t @ snd t"

lemma token_front:
  assumes "list_all token_ok ts"
  shows "takeWhile (\<lambda>c. \<not> number_byte c) (concat (map token_text ts)) = []"
    "dropWhile (\<lambda>c. \<not> number_byte c) (concat (map token_text ts)) = concat (map token_text ts)"
  using assms by (cases ts; cases "fst (hd ts)"; auto simp: token_ok_def token_text_def)+

lemma split_token_text:
  assumes "token_ok t" "list_all token_ok ts"
  shows "split_duration_token (token_text t @ concat (map token_text ts))
    = (fst t, snd t, concat (map token_text ts))"
proof -
  obtain c u where u: "snd t = c # u" "\<not> number_byte c" "list_all (\<lambda>c. \<not> number_byte c) u"
    using assms(1) by (cases "snd t") (auto simp: token_ok_def)
  have n: "\<forall>x \<in> set (fst t). number_byte x" using assms(1) by (auto simp: token_ok_def list_all_iff)
  have front: "takeWhile number_byte (token_text t @ xs) = fst t"
    "dropWhile number_byte (token_text t @ xs) = snd t @ xs" for xs
    using n u by (simp_all add: token_text_def takeWhile_append2 dropWhile_append2)
  have "\<forall>x \<in> set (snd t). \<not> number_byte x" using u by (simp add: list_all_iff)
  then show ?thesis unfolding split_duration_token_def Let_def front
    by (simp add: takeWhile_append2 dropWhile_append2 token_front assms(2))
qed

lemma split_token_Some:
  assumes "split_duration_token s = (num, u, r)" "num \<noteq> []" "u \<noteq> []"
  shows "token_ok (num, u) \<and> s = token_text (num, u) @ r"
  using assms by (auto simp: split_duration_token_def Let_def token_ok_def token_text_def list_all_iff
    dest: set_takeWhileD)

definition tokens_value :: "(string \<times> string) list \<Rightarrow> int \<Rightarrow> bool" where
  "tokens_value ts d \<longleftrightarrow> (\<exists>ds. map (\<lambda>t. duration_token (fst t) (snd t)) ts = map Some ds \<and> sum_list ds = d)"

lemma tokens_value_Nil [simp]: "tokens_value [] d \<longleftrightarrow> d = 0"
  by (auto simp: tokens_value_def)

lemma tokens_value_Cons [simp]:
  "tokens_value (t # ts) d \<longleftrightarrow> (\<exists>x. duration_token (fst t) (snd t) = Some x \<and> tokens_value ts (d - x))"
proof
  assume "tokens_value (t # ts) d"
  then obtain ds where "map (\<lambda>t. duration_token (fst t) (snd t)) (t # ts) = map Some ds" "sum_list ds = d"
    unfolding tokens_value_def by blast
  then show "\<exists>x. duration_token (fst t) (snd t) = Some x \<and> tokens_value ts (d - x)"
    by (cases ds) (auto simp: tokens_value_def)
next
  assume "\<exists>x. duration_token (fst t) (snd t) = Some x \<and> tokens_value ts (d - x)"
  then obtain x ds where "duration_token (fst t) (snd t) = Some x"
    "map (\<lambda>t. duration_token (fst t) (snd t)) ts = map Some ds" "sum_list ds = d - x"
    by (auto simp: tokens_value_def)
  then show "tokens_value (t # ts) d" unfolding tokens_value_def by (intro exI [of _ "x # ds"]) simp
qed

lemma tokens_value_nonneg: "tokens_value ts d \<Longrightarrow> 0 \<le> d"
proof (induction ts arbitrary: d)
  case (Cons t ts)
  then show ?case using duration_token_bounds by fastforce
qed simp

lemma parse_tokens_text:
  assumes "list_all token_ok ts" "tokens_value ts d" "0 \<le> acc" "acc + d \<le> max_int64"
  shows "parse_tokens (concat (map token_text ts)) acc = Some (acc + d)"
  using assms
proof (induction ts arbitrary: acc d)
  case Nil
  then show ?case by (simp add: parse_tokens.simps)
next
  case (Cons t ts)
  then obtain x where x: "duration_token (fst t) (snd t) = Some x" "tokens_value ts (d - x)" by auto
  have "0 \<le> x" "0 \<le> d - x" using duration_token_bounds [OF x(1)] tokens_value_nonneg [OF x(2)] by auto
  moreover have "parse_tokens (concat (map token_text ts)) (acc + x) = Some (acc + x + (d - x))"
    using Cons.prems x calculation by (intro Cons.IH) auto
  moreover have "token_text t \<noteq> []" "fst t \<noteq> []" "snd t \<noteq> []"
    using Cons.prems by (auto simp: token_ok_def token_text_def)
  ultimately show ?case using Cons.prems x
    by (subst parse_tokens.simps) (simp add: split_token_text)
qed

lemma parse_tokens_Some:
  assumes "parse_tokens s acc = Some e" "0 \<le> acc" "acc \<le> max_int64"
  shows "\<exists>ts. list_all token_ok ts \<and> s = concat (map token_text ts) \<and> tokens_value ts (e - acc)
    \<and> e \<le> max_int64"
  using assms
proof (induction s acc rule: parse_tokens.induct)
  case (1 s acc)
  show ?case
  proof (cases "s = []")
    case True
    then show ?thesis using 1(2-) by (intro exI [of _ "[]"]) (simp add: parse_tokens.simps)
  next
    case False
    obtain num u r where sp: "split_duration_token s = (num, u, r)" by (metis prod_cases3)
    then obtain d where d: "num \<noteq> []" "u \<noteq> []" "duration_token num u = Some d" "acc \<le> max_int64 - d"
      "parse_tokens r (acc + d) = Some e"
      using 1(2) False by (subst (asm) parse_tokens.simps) (auto split: if_splits option.splits)
    have "0 \<le> d" using duration_token_bounds [OF d(3)] by simp
    then have "\<exists>ts. list_all token_ok ts \<and> r = concat (map token_text ts) \<and> tokens_value ts (e - (acc + d))
        \<and> e \<le> max_int64"
      using 1(3) d by (intro 1(1) [OF False sp [symmetric] refl _ d(3)]) auto
    then obtain ts where ts: "list_all token_ok ts" "r = concat (map token_text ts)"
      "tokens_value ts (e - (acc + d))" "e \<le> max_int64" by blast
    moreover have "token_ok (num, u) \<and> s = token_text (num, u) @ r"
      using split_token_Some [OF sp d(1,2)] .
    ultimately show ?thesis using d(3)
      by (intro exI [of _ "(num, u) # ts"]) (simp add: algebra_simps)
  qed
qed

lemma parse_duration_iff:
  "parse_duration s = Inr d \<longleftrightarrow> (\<exists>ts. ts \<noteq> [] \<and> list_all token_ok ts \<and>
     trim_text s = concat (map token_text ts) \<and> tokens_value ts d \<and> 0 \<le> d \<and> d \<le> max_int64)"
proof
  assume "parse_duration s = Inr d"
  then have t: "trim_text s \<noteq> []" "parse_tokens (trim_text s) 0 = Some d"
    by (auto simp: parse_duration_def Let_def split: if_splits option.splits)
  have "0 \<le> max_int64" by (simp add: max_int64_def)
  then obtain ts where ts: "list_all token_ok ts" "trim_text s = concat (map token_text ts)"
    "tokens_value ts d" "d \<le> max_int64" using parse_tokens_Some [OF t(2)] by auto
  moreover have "ts \<noteq> []" using t ts by auto
  moreover have "0 \<le> d" using ts(3) by (rule tokens_value_nonneg)
  ultimately show "\<exists>ts. ts \<noteq> [] \<and> list_all token_ok ts \<and> trim_text s = concat (map token_text ts) \<and>
      tokens_value ts d \<and> 0 \<le> d \<and> d \<le> max_int64" by blast
next
  assume "\<exists>ts. ts \<noteq> [] \<and> list_all token_ok ts \<and> trim_text s = concat (map token_text ts) \<and>
      tokens_value ts d \<and> 0 \<le> d \<and> d \<le> max_int64"
  then obtain ts where ts: "ts \<noteq> []" "list_all token_ok ts" "trim_text s = concat (map token_text ts)"
    "tokens_value ts d" "d \<le> max_int64" by blast
  have "trim_text s \<noteq> []" using ts by (cases ts) (auto simp: token_ok_def token_text_def)
  moreover have "parse_tokens (trim_text s) 0 = Some d"
    unfolding ts(3) using parse_tokens_text [OF ts(2,4), of 0] ts(5) by simp
  ultimately show "parse_duration s = Inr d" by (simp add: parse_duration_def)
qed

text \<open>\<open>ParseDuration\<close> accepts exactly the texts that, without surrounding space, are a non-empty row
  of numbers with a unit whose values are all defined and whose sum fits a duration, and the result is
  that sum: it lies between 0 and the largest 64 bit integer, so no addition wraps.\<close>

theorem parse_duration_exact:
  "parse_duration s = Inr d \<longleftrightarrow> (\<exists>ts. ts \<noteq> [] \<and> list_all token_ok ts \<and>
     trim_text s = concat (map token_text ts) \<and> tokens_value ts d \<and> 0 \<le> d \<and> d \<le> max_int64)"
  by (rule parse_duration_iff)

section \<open>Whole numbers of a unit\<close>

lemma rnd_shifted:
  assumes "0 < m" "m < 2 ^ 53" "j \<le> 900"
  shows "rnd (of_int (m * 2 ^ j)) = Fin (of_int (m * 2 ^ j))"
proof -
  define e where "e = bitlen m - 1"
  have b: "0 \<le> e" "e \<le> 52" using bitlen_pos [OF assms(1)] bitlen_le_iff_power [of m 53] assms
    by (auto simp: e_def)
  have r: "of_int (m * 2 ^ j) = (of_int m :: rat) * pow2 (int j)" by (simp add: pow2_nat)
  have lo: "pow2 (e + int j) \<le> of_int (m * 2 ^ j)"
    unfolding r pow2_add e_def by (intro mult_right_mono pow2_bitlen assms less_imp_le [OF pow2_pos])
  have "of_int m * pow2 (int j) < pow2 (bitlen m) * pow2 (int j)"
    by (intro mult_strict_right_mono pow2_bitlen assms pow2_pos)
  then have hi: "of_int (m * 2 ^ j) < pow2 (e + int j + 1)"
    unfolding r by (simp add: e_def algebra_simps flip: pow2_add)
  have eq: "(of_int (m * 2 ^ j) :: rat) = of_int (m * 2 ^ nat (52 - e)) * pow2 (e + int j - 52)"
  proof -
    have "pow2 (int j) = pow2 (52 - e) * pow2 (e + int j - 52)" by (simp flip: pow2_add)
    then show ?thesis using b by (simp add: r pow2_def)
  qed
  then have q: "of_int (m * 2 ^ j) / pow2 (e + int j - 52) = (of_int (m * 2 ^ nat (52 - e)) :: rat)"
  proof -
    have "pow2 (e + int j - 52) \<noteq> 0" using pow2_pos [of "e + int j - 52"] by linarith
    then show ?thesis unfolding eq by (rule nonzero_mult_div_cancel_right)
  qed
  then have re: "round_even (of_int (m * 2 ^ j) / pow2 (e + int j - 52)) = m * 2 ^ nat (52 - e)"
    by (simp only: round_even_of_int)
  have n: "0 < m * 2 ^ nat (52 - e)" using assms by simp
  have "m < 2 ^ nat (e + 1)" using bitlen_bounds [OF assms(1)] by (simp add: e_def)
  then have "m * 2 ^ nat (52 - e) < 2 ^ nat (e + 1) * 2 ^ nat (52 - e)" by simp
  also have "\<dots> = 2 ^ 53" using b by (simp flip: power_add nat_add_distrib)
  finally have le: "m * 2 ^ nat (52 - e) \<le> 2 ^ 53" by simp
  have "rnd (of_int (m * 2 ^ j)) = Fin (of_int (m * 2 ^ nat (52 - e)) * pow2 (e + int j - 52))"
    using b assms(3) re by (intro rnd_normal lo hi n le) auto
  then show ?thesis by (simp only: eq)
qed

text \<open>A day is a multiple of $2^{16}$ nanoseconds, so a product that fits 63 bits is exact.\<close>

lemma long_unit_even: "long_unit u = Some b \<Longrightarrow> \<exists>k. b = k * 2 ^ 16 \<and> 0 < k"
proof -
  assume "long_unit u = Some b"
  moreover have "day_ns = 1318359375 * 2 ^ 16" "week_ns = 9228515625 * 2 ^ 16"
    "year_ns = 481201171875 * 2 ^ 16" by (simp_all add: long_units)
  ultimately show ?thesis by (auto simp: long_unit_def simp del: power_numeral split: if_splits)
qed

definition unit_ns :: "string \<Rightarrow> int option" where
  "unit_ns u = (case long_unit u of Some b \<Rightarrow> Some b | None \<Rightarrow> map_of unit_map u)"

lemma is_digit_val: "is_digit c \<Longrightarrow> digit_val c \<le> 9"
  unfolding is_digit_def digit_val_def by linarith

lemma num_of_mono: "acc \<le> num_of ds acc"
proof (induction ds arbitrary: acc)
  case (Cons c ds)
  have "acc \<le> acc * 10 + digit_val c" by simp
  also have "\<dots> \<le> num_of ds (acc * 10 + digit_val c)" by (rule Cons)
  finally show ?case by simp
qed simp

lemma leading_int_digits:
  assumes "int (num_of ds acc) \<le> 2 ^ 63"
  shows "leading_int ds (int acc) = Some (int (num_of ds acc))"
  using assms
proof (induction ds arbitrary: acc)
  case (Cons c ds)
  have le: "int (acc * 10 + digit_val c) \<le> 2 ^ 63"
    using Cons.prems num_of_mono [of "acc * 10 + digit_val c" ds] by simp
  then have "\<not> 2 ^ 63 div 10 < int acc" by simp
  then show ?case using Cons.IH [of "acc * 10 + digit_val c"] Cons.prems le by (simp add: Let_def)
qed simp

lemma all_digits:
  assumes "list_all is_digit ds"
  shows "takeWhile is_digit ds = ds" "dropWhile is_digit ds = []"
  using assms by (induction ds) auto

lemma parse_float_digits:
  assumes "list_all is_digit ds" "ds \<noteq> []" "num_of ds 0 < 2 ^ 53"
  shows "parse_float ds = Some (Fin (of_nat (num_of ds 0)))"
proof -
  have "int (num_of ds 0) < int (2 ^ 53)" using assms(3) by (simp only: of_nat_less_iff)
  then have "rnd (of_nat (num_of ds 0)) = Fin (of_nat (num_of ds 0))"
    using f_of_int_exact [of "int (num_of ds 0)"] by (simp add: f_of_int_def)
  then show ?thesis using assms by (simp add: parse_float_def all_digits Let_def)
qed

lemma whole_token:
  assumes "list_all is_digit ds" "ds \<noteq> []" "unit_ns u = Some b" "int (num_of ds 0) * b \<le> max_int64"
  shows "duration_token ds u = Some (int (num_of ds 0) * b)"
proof (cases "long_unit u")
  case None
  then have b: "map_of unit_map u = Some b" "0 < b"
    using assms(3) unit_map_pos by (auto simp: unit_ns_def)
  define n where "n = int (num_of ds 0)"
  have nb: "n * b \<le> 2 ^ 63 - 1" using assms(4) by (simp add: n_def max_int64_def)
  have "n * 1 \<le> n * b" using b by (intro mult_left_mono) (auto simp: n_def)
  then have n: "n \<le> 2 ^ 63" using nb by simp
  have "n * b div b \<le> 2 ^ 63 div b" using b nb by (intro zdiv_mono1) auto
  then have "n \<le> 2 ^ 63 div b" using b by simp
  then show ?thesis using None b nb leading_int_digits [of ds 0] n assms(1,2)
    by (simp add: duration_token_def go_duration_def all_digits Let_def n_def)
next
  case (Some b')
  then have b: "long_unit u = Some b" using assms(3) by (simp add: unit_ns_def)
  obtain k where k: "b = k * 2 ^ 16" "0 < k" using long_unit_even [OF b] by blast
  define n where "n = num_of ds 0"
  have nb: "int n * b < 2 ^ 63" using assms(4) by (simp add: n_def max_int64_def)
  have "int n * b = (int n * k) * 65536" by (simp add: k)
  then have "(int n * k) * 65536 < 9223372036854775808" using nb by (simp only: power_numeral) simp
  then have "int n * k < 140737488355328" by linarith
  then have nk: "int n * k < 2 ^ 47" by simp
  have "int n * 1 \<le> int n * k" using k by (intro mult_left_mono) auto
  then have n: "int n < 2 ^ 47" using nk by simp
  then have "int n < int (2 ^ 53)" by simp
  then have n': "n < 2 ^ 53" by (simp only: of_nat_less_iff)
  have fb: "f_of_int b = Fin (of_int b)"
    using rnd_shifted [of k 16] long_unit_pos [OF b] k by (simp add: f_of_int_def long_units)
  have prod: "fmul (Fin (of_nat n)) (Fin (of_int b)) = Fin (of_int (int n * b))"
  proof (cases "n = 0")
    case False
    then have "rnd (of_int (int n * k * 2 ^ 16)) = Fin (of_int (int n * k * 2 ^ 16))"
      using nk k by (intro rnd_shifted) auto
    then show ?thesis using k False by (simp add: fmul_def Let_def algebra_simps)
  qed (use k in \<open>simp add: fmul_def signed_zero_def\<close>)
  have "(of_int (int n * b) :: rat) < 2 ^ 63"
  proof -
    have "(of_int (int n * b) :: rat) < of_int (2 ^ 63)" using nb by (simp only: of_int_less_iff)
    then show ?thesis by simp
  qed
  then have lt: "\<not> fle (Fin (2 ^ 63)) (Fin (of_int (int n * b)))" by simp
  have pf: "parse_float ds = Some (Fin (of_nat n))"
    using parse_float_digits [OF assms(1,2)] n' by (simp add: n_def)
  have "\<lfloor>fval (Fin (of_int (int n * b)))\<rfloor> = int n * b" by (simp only: fval.simps floor_of_int)
  then show ?thesis unfolding duration_token_def b pf n_def [symmetric] option.case Let_def fb prod f_of_max_int64
    using lt by (simp only: if_False)
qed

lemma unit_no_number: "unit_ns u = Some b \<Longrightarrow> u \<noteq> [] \<and> list_all (\<lambda>c. \<not> number_byte c) u \<and> 0 < b"
  by (auto simp: unit_ns_def long_unit_def long_units unit_map_def number_byte_def is_digit_def split: if_splits)

lemma trim_front_id:
  assumes "s \<noteq> []" "\<And>p. p \<in> set ps \<Longrightarrow> p \<noteq> [] \<Longrightarrow> hd p \<noteq> hd s"
  shows "trim_front ps s = s"
proof -
  have "\<not> starts p s" if "p \<in> set ps" for p
    using assms(2) [OF that] assms(1) by (cases p; cases s) (auto simp: starts_def)
  then have "find (\<lambda>p. starts p s) ps = None" by (simp add: find_None_iff)
  then show ?thesis by (simp add: trim_front.simps)
qed

lemma space_rune_ends:
  assumes "p \<in> set space_runes"
  shows "p \<noteq> []" "\<not> is_digit (hd p)" "hd p \<noteq> CHR ''.''"
    "hd (rev p) \<notin> {CHR ''s'', CHR ''m'', CHR ''h'', CHR ''d'', CHR ''w'', CHR ''y''}"
proof -
  have "list_all (\<lambda>p. p \<noteq> [] \<and> \<not> is_digit (hd p) \<and> hd p \<noteq> CHR ''.'' \<and>
      hd (rev p) \<notin> {CHR ''s'', CHR ''m'', CHR ''h'', CHR ''d'', CHR ''w'', CHR ''y''}) space_runes" by code_simp
  then show "p \<noteq> []" "\<not> is_digit (hd p)" "hd p \<noteq> CHR ''.''"
    "hd (rev p) \<notin> {CHR ''s'', CHR ''m'', CHR ''h'', CHR ''d'', CHR ''w'', CHR ''y''}"
    using assms by (auto simp: list_all_iff)
qed

lemma unit_end: "unit_ns u = Some b \<Longrightarrow> hd (rev u) \<in> {CHR ''s'', CHR ''m'', CHR ''h'', CHR ''d'', CHR ''w'', CHR ''y''}"
  by (auto simp: unit_ns_def long_unit_def unit_map_def split: if_splits)

lemma trim_text_id:
  assumes "s \<noteq> []" "is_digit (hd s)" "hd (rev s) \<in> {CHR ''s'', CHR ''m'', CHR ''h'', CHR ''d'', CHR ''w'', CHR ''y''}"
  shows "trim_text s = s"
proof -
  have "trim_front space_runes s = s"
    using assms(1,2) space_rune_ends(2) by (intro trim_front_id) metis+
  moreover have "hd q \<noteq> hd (rev s)" if q: "q \<in> set (map rev space_runes)" for q
  proof -
    obtain p where p: "p \<in> set space_runes" "q = rev p" using q by auto
    then show ?thesis using space_rune_ends(4) [OF p(1)] assms(3) by auto
  qed
  then have "trim_front (map rev space_runes) (rev s) = rev s"
    using assms(1) by (intro trim_front_id) auto
  ultimately show ?thesis by (simp add: trim_text_def)
qed

lemma whole_durations:
  assumes "ts \<noteq> []" "\<forall>(num, u) \<in> set ts. num \<noteq> [] \<and> list_all is_digit num \<and> unit_ns u \<noteq> None"
    and "(\<Sum>(num, u) \<leftarrow> ts. int (num_of num 0) * the (unit_ns u)) \<le> max_int64"
  shows "parse_duration (concat (map (\<lambda>(num, u). num @ u) ts))
    = Inr (\<Sum>(num, u) \<leftarrow> ts. int (num_of num 0) * the (unit_ns u))"
proof -
  let ?v = "\<lambda>(num, u). int (num_of num 0) * the (unit_ns u)"
  have tt: "(\<lambda>(num, u). num @ u) = token_text" by (auto simp: token_text_def)
  have pos: "0 \<le> ?v t" if "t \<in> set ts" for t
    using assms(2) that unit_no_number by (fastforce split: prod.splits)
  have le: "?v t \<le> max_int64" if "t \<in> set ts" for t
  proof -
    have "?v t \<le> sum_list (map ?v ts)" using pos that by (intro member_le_sum_list) auto
    then show ?thesis using assms(3) by simp
  qed
  have ok: "list_all token_ok ts"
    using assms(2) unit_no_number by (fastforce simp: list_all_iff token_ok_def number_byte_def)
  have "duration_token (fst t) (snd t) = Some (?v t)" if "t \<in> set ts" for t
  proof -
    obtain num u b where "t = (num, u)" "unit_ns u = Some b" "num \<noteq> []" "list_all is_digit num"
      using assms(2) \<open>t \<in> set ts\<close> by fastforce
    then show ?thesis using whole_token [of num u b] le [OF that] by simp
  qed
  then have val: "tokens_value ts (sum_list (map ?v ts))"
    unfolding tokens_value_def by (intro exI [of _ "map ?v ts"]) auto
  obtain num u where ends: "hd ts = (num, u)" "num \<noteq> []" "list_all is_digit num"
    using assms(1,2) by (cases ts) auto
  obtain num' u' b' where fin: "last ts = (num', u')" "unit_ns u' = Some b'"
    using assms(1,2) last_in_set [of ts] by fastforce
  have "trim_text (concat (map token_text ts)) = concat (map token_text ts)"
  proof (rule trim_text_id)
    show "concat (map token_text ts) \<noteq> []" "is_digit (hd (concat (map token_text ts)))"
      using assms(1) ends by (cases ts; cases num; auto simp: token_text_def)+
    obtain ts' where "ts = ts' @ [(num', u')]" using assms(1) fin(1) by (cases ts rule: rev_cases) auto
    then have "rev (concat (map token_text ts)) = rev u' @ rev num' @ rev (concat (map token_text ts'))"
      by (simp add: token_text_def)
    then show "hd (rev (concat (map token_text ts))) \<in> {CHR ''s'', CHR ''m'', CHR ''h'', CHR ''d'', CHR ''w'', CHR ''y''}"
      using unit_end [OF fin(2)] unit_no_number [OF fin(2)] by (simp add: hd_append)
  qed
  then have "ts \<noteq> [] \<and> list_all token_ok ts \<and> trim_text (concat (map token_text ts)) = concat (map token_text ts)
      \<and> tokens_value ts (sum_list (map ?v ts)) \<and> 0 \<le> sum_list (map ?v ts) \<and> sum_list (map ?v ts) \<le> max_int64"
    using ok val assms(1,3) tokens_value_nonneg [OF val] by simp
  then show ?thesis unfolding tt parse_duration_iff by (rule exI)
qed

text \<open>C39: Every row of whole numbers, written in decimal with any number of leading zeros, with the units
  ns, us, ms, s, m, h, d, w and y reads as exactly the sum of the products, as long as that sum fits a
  duration: the long units, which the code computes with floats, are never off by rounding.\<close>

theorem whole_durations_exact:
  assumes "ts \<noteq> []" "\<forall>(num, u) \<in> set ts. num \<noteq> [] \<and> list_all is_digit num \<and> unit_ns u \<noteq> None"
    and "(\<Sum>(num, u) \<leftarrow> ts. int (num_of num 0) * the (unit_ns u)) \<le> max_int64"
  shows "parse_duration (concat (map (\<lambda>(num, u). num @ u) ts))
    = Inr (\<Sum>(num, u) \<leftarrow> ts. int (num_of num 0) * the (unit_ns u))"
  using assms by (rule whole_durations)

theorem whole_durations_exact_witness:
  "parse_duration ''10y02w1d12h'' = Inr (10 * year_ns + 2 * week_ns + day_ns + 12 * ns_hour)"
  using whole_durations_exact [of "[(''10'', ''y''), (''02'', ''w''), (''1'', ''d''), (''12'', ''h'')]"]
  by (simp add: unit_ns_def long_unit_def unit_map_def long_units max_int64_def is_digit_def digit_val_def)

end
