(* ===== verification/Config.thy ===== *)
theory Config
  imports Duration Modbus Rollover Supervisor Poller
begin

text \<open>
  internal/config/config.go with the rules that app/config_mapping.go injects, and what the
  accepted settings are handed to: the requirements of the poller and the aggregator
  (util/errors.go, poller.go, aggregator.go), the Modbus client, the rollover time, the health
  supervisor and the connection string of the storage (storage/storage.go). Reading and
  merging file, environment and defaults is the viper library: what it holds for a key is the
  argument of \<open>load_config\<close>. A section is polymorphic in its durations: raw values before
  decoding, nanoseconds after.
\<close>

section \<open>Settings\<close>

record 'd app_settings =
  ap_debug :: string
  ap_port :: int
  ap_timeout :: 'd

record 'd poller_section =
  po_interval :: 'd
  po_block_attempts :: int
  po_block_retry_delay :: 'd
  po_block_interval :: 'd
  po_poll_timeout :: 'd

record 'd modbus_section =
  mo_address :: string
  mo_timeout :: 'd
  mo_slave_id :: int
  mo_speed :: int
  mo_data_bits :: int
  mo_parity :: string
  mo_stop_bits :: int

record rollover_section =
  ro_time :: string

record 'd storage_section =
  st_path :: string
  st_daily_retention :: 'd
  st_error_retention :: 'd
  st_wal_mode :: bool
  st_synchronous :: string
  st_temp_store :: string
  st_enable_backup :: bool
  st_max_backups :: int
  st_backup_interval :: 'd
  st_cleanup_interval :: 'd

record 'd app_config =
  cf_app :: "'d app_settings"
  cf_poller :: "'d poller_section"
  cf_modbus :: "'d modbus_section"
  cf_rollover :: rollover_section
  cf_storage :: "'d storage_section"
  cf_warnings :: "string list"

text \<open>A raw value of a duration key: a text, or anything else (a bare number).\<close>

datatype raw = RawText string | RawOther

definition set_defaults :: "raw app_config" where
  "set_defaults = \<lparr>
     cf_app = \<lparr>ap_debug = ''INFO'', ap_port = 8080, ap_timeout = RawText ''30s''\<rparr>,
     cf_poller = \<lparr>po_interval = RawText ''30s'', po_block_attempts = 3, po_block_retry_delay = RawText ''1s'',
       po_block_interval = RawText ''0s'', po_poll_timeout = RawText ''30s''\<rparr>,
     cf_modbus = \<lparr>mo_address = ''tcp://192.168.1.100:502'', mo_timeout = RawText ''5s'', mo_slave_id = 1,
       mo_speed = 0, mo_data_bits = 0, mo_parity = [], mo_stop_bits = 0\<rparr>,
     cf_rollover = \<lparr>ro_time = ''23:59''\<rparr>,
     cf_storage = \<lparr>st_path = ''./data/solis.db'', st_daily_retention = RawText ''10y'',
       st_error_retention = RawText ''10y'', st_wal_mode = True, st_synchronous = ''NORMAL'',
       st_temp_store = ''MEMORY'', st_enable_backup = True, st_max_backups = 3,
       st_backup_interval = RawText ''24h'', st_cleanup_interval = RawText ''24h''\<rparr>,
     cf_warnings = []\<rparr>"

section \<open>Problems\<close>

datatype problem = BadLevel string | TooShort int | BadServerPort int | AtLeastOne int | NotPositive int
  | NotNegative int | BadSlave int | Required | BadMode string | BadTempStore string
  | BadModbus settings_error | BadRollover rollover_error | PollTooLong int int

type_synonym validation_error = "string \<times> problem"

text \<open>What a rule returns: its own list, one error, or an error without a field.\<close>

datatype rule_error = ManyErrors "validation_error list" | OneError validation_error | PlainError problem

definition add_rule :: "rule_error \<Rightarrow> validation_error list \<Rightarrow> validation_error list" where
  "add_rule e errs = (case e of ManyErrors es \<Rightarrow> errs @ es | OneError v \<Rightarrow> errs @ [v]
     | PlainError p \<Rightarrow> errs @ [(''rule'', p)])"

definition check :: "bool \<Rightarrow> string \<Rightarrow> problem \<Rightarrow> validation_error list" where
  "check bad field p = (if bad then [(field, p)] else [])"

definition min_slave_id :: int where "min_slave_id = 1"
definition max_slave_id :: int where "max_slave_id = 247"
definition min_interval :: int where "min_interval = ns_second"

lemmas config_bounds = min_slave_id_def max_slave_id_def min_interval_def

text \<open>\<open>strings.ToUpper\<close>: besides the ASCII letters, the dotless i and the long s have ASCII capitals; every
  other letter stays outside ASCII.\<close>

fun to_upper :: "string \<Rightarrow> string" where
  "to_upper (c # d # s) = (if c = CHR 0xC4 \<and> d = CHR 0xB1 then CHR ''I'' # to_upper s
     else if c = CHR 0xC5 \<and> d = CHR 0xBF then CHR ''S'' # to_upper s
     else (if CHR ''a'' \<le> c \<and> c \<le> CHR ''z'' then char_of ((of_char c :: nat) - 32) else c) # to_upper (d # s))"
| "to_upper [c] = [if CHR ''a'' \<le> c \<and> c \<le> CHR ''z'' then char_of ((of_char c :: nat) - 32) else c]"
| "to_upper [] = []"

definition one_of :: "string \<Rightarrow> string list \<Rightarrow> bool" where
  "one_of v allowed = list_ex (\<lambda>a. v = a) allowed"

section \<open>Validation of the sections\<close>

definition validate_app :: "int app_settings \<Rightarrow> validation_error list" where
  "validate_app a =
     check (\<not> one_of (to_upper (ap_debug a)) [''DEBUG'', ''INFO'', ''WARN'', ''ERROR'', ''FATAL''])
       ''app.debug'' (BadLevel (ap_debug a))
     @ check (ap_timeout a < min_interval) ''app.timeout'' (TooShort (ap_timeout a))
     @ check (ap_port a \<le> 0 \<or> 65535 < ap_port a) ''app.port'' (BadServerPort (ap_port a))"

definition validate_poller :: "int poller_section \<Rightarrow> validation_error list" where
  "validate_poller p =
     check (po_interval p < min_interval) ''poller.interval'' (TooShort (po_interval p))
     @ check (po_block_attempts p \<le> 0) ''poller.block_attempts'' (AtLeastOne (po_block_attempts p))
     @ check (po_poll_timeout p \<le> 0) ''poller.poll_timeout'' (NotPositive (po_poll_timeout p))
     @ check (po_block_retry_delay p < 0) ''poller.block_retry_delay'' (NotNegative (po_block_retry_delay p))
     @ check (po_block_interval p < 0) ''poller.block_interval'' (NotNegative (po_block_interval p))"

definition validate_modbus_section :: "int modbus_section \<Rightarrow> validation_error list" where
  "validate_modbus_section m =
     check (mo_slave_id m < min_slave_id \<or> max_slave_id < mo_slave_id m) ''modbus.slave_id'' (BadSlave (mo_slave_id m))"

definition validate_backups :: "int storage_section \<Rightarrow> validation_error list" where
  "validate_backups s =
     check (st_max_backups s < 0) ''storage.max_backups'' (NotNegative (st_max_backups s))
     @ check (st_backup_interval s < 0) ''storage.backup_interval'' (NotNegative (st_backup_interval s))"

definition validate_storage :: "int storage_section \<Rightarrow> validation_error list" where
  "validate_storage s =
     check (st_path s = []) ''storage.path'' Required
     @ concat (map (\<lambda>(field, d). check (d \<le> 0) field (NotPositive d))
         [(''storage.daily_retention'', st_daily_retention s), (''storage.error_retention'', st_error_retention s),
          (''storage.cleanup_interval'', st_cleanup_interval s)])
     @ check (\<not> one_of (st_synchronous s) [''OFF'', ''NORMAL'', ''FULL'', ''EXTRA''])
         ''storage.synchronous'' (BadMode (st_synchronous s))
     @ check (\<not> one_of (st_temp_store s) [''DEFAULT'', ''FILE'', ''MEMORY''])
         ''storage.temp_store'' (BadTempStore (st_temp_store s))
     @ validate_backups s"

definition apply_rules :: "(int app_config \<Rightarrow> rule_error option) list \<Rightarrow> int app_config \<Rightarrow> validation_error list
    \<Rightarrow> validation_error list" where
  "apply_rules rules c errs =
     fold (\<lambda>r errs. case r c of None \<Rightarrow> errs | Some e \<Rightarrow> add_rule e errs) rules errs"

definition validate :: "(int app_config \<Rightarrow> rule_error option) list \<Rightarrow> int app_config \<Rightarrow> validation_error list" where
  "validate rules c = apply_rules rules c (validate_app (cf_app c) @ validate_poller (cf_poller c)
     @ validate_modbus_section (cf_modbus c) @ validate_storage (cf_storage c))"

section \<open>The rules of the other packages\<close>

text \<open>Arithmetic on durations is that of 64 bit integers.\<close>

definition wrap64 :: "int \<Rightarrow> int" where
  "wrap64 x = (x + 2 ^ 63) mod 2 ^ 64 - 2 ^ 63"

definition modbus_settings :: "int modbus_section \<Rightarrow> settings" where
  "modbus_settings m = \<lparr>set_address = mo_address m, set_unit = of_int (mo_slave_id m), set_timeout = mo_timeout m,
     set_speed = mo_speed m, set_data_bits = mo_data_bits m, set_parity = mo_parity m,
     set_stop_bits = mo_stop_bits m\<rparr>"

definition validate_modbus :: "int app_config \<Rightarrow> rule_error option" where
  "validate_modbus c = (case validate_settings (modbus_settings (cf_modbus c)) of None \<Rightarrow> None
     | Some e \<Rightarrow> Some (OneError (''modbus'', BadModbus e)))"

definition validate_rollover :: "int app_config \<Rightarrow> rule_error option" where
  "validate_rollover c = (case parse_rollover (ro_time (cf_rollover c)) of Inr r \<Rightarrow> None
     | Inl e \<Rightarrow> Some (OneError (''rollover.time'', BadRollover e)))"

definition validate_poll_timeout :: "int app_config \<Rightarrow> rule_error option" where
  "validate_poll_timeout c =
     (let grace = wrap64 (healthy_grace_factor * po_interval (cf_poller c));
          worst = wrap64 (po_poll_timeout (cf_poller c) + mo_timeout (cf_modbus c)) in
      if worst \<ge> grace then Some (OneError (''poller.poll_timeout'', PollTooLong worst grace)) else None)"

definition config_rules :: "(int app_config \<Rightarrow> rule_error option) list" where
  "config_rules = [validate_modbus, validate_rollover, validate_poll_timeout]"

section \<open>Loading\<close>

datatype hook_error = BadText duration_error | NotAText

definition duration_hook :: "raw \<Rightarrow> hook_error + int" where
  "duration_hook r = (case r of RawOther \<Rightarrow> Inl NotAText
     | RawText s \<Rightarrow> (case parse_duration s of Inl e \<Rightarrow> Inl (BadText e) | Inr d \<Rightarrow> Inr d))"

definition config_durations :: "'d app_config \<Rightarrow> 'd list" where
  "config_durations c = [ap_timeout (cf_app c), po_interval (cf_poller c), po_block_retry_delay (cf_poller c),
     po_block_interval (cf_poller c), po_poll_timeout (cf_poller c), mo_timeout (cf_modbus c),
     st_daily_retention (cf_storage c), st_error_retention (cf_storage c), st_backup_interval (cf_storage c),
     st_cleanup_interval (cf_storage c)]"

definition map_config :: "('d \<Rightarrow> 'e) \<Rightarrow> 'd app_config \<Rightarrow> 'e app_config" where
  "map_config f c = (let a = cf_app c; p = cf_poller c; m = cf_modbus c; s = cf_storage c in \<lparr>
     cf_app = \<lparr>ap_debug = ap_debug a, ap_port = ap_port a, ap_timeout = f (ap_timeout a)\<rparr>,
     cf_poller = \<lparr>po_interval = f (po_interval p), po_block_attempts = po_block_attempts p,
       po_block_retry_delay = f (po_block_retry_delay p), po_block_interval = f (po_block_interval p),
       po_poll_timeout = f (po_poll_timeout p)\<rparr>,
     cf_modbus = \<lparr>mo_address = mo_address m, mo_timeout = f (mo_timeout m), mo_slave_id = mo_slave_id m,
       mo_speed = mo_speed m, mo_data_bits = mo_data_bits m, mo_parity = mo_parity m, mo_stop_bits = mo_stop_bits m\<rparr>,
     cf_rollover = cf_rollover c,
     cf_storage = \<lparr>st_path = st_path s, st_daily_retention = f (st_daily_retention s),
       st_error_retention = f (st_error_retention s), st_wal_mode = st_wal_mode s,
       st_synchronous = st_synchronous s, st_temp_store = st_temp_store s, st_enable_backup = st_enable_backup s,
       st_max_backups = st_max_backups s, st_backup_interval = f (st_backup_interval s),
       st_cleanup_interval = f (st_cleanup_interval s)\<rparr>,
     cf_warnings = cf_warnings c\<rparr>)"

text \<open>\<open>Unmarshal\<close> with the hook reports the fields it cannot decode.\<close>

definition decode_config :: "raw app_config \<Rightarrow> hook_error list + int app_config" where
  "decode_config c =
     (let errs = concat (map (\<lambda>r. case duration_hook r of Inl e \<Rightarrow> [e] | Inr d \<Rightarrow> []) (config_durations c)) in
      if errs \<noteq> [] then Inl errs
      else Inr (map_config (\<lambda>r. case duration_hook r of Inl e \<Rightarrow> 0 | Inr d \<Rightarrow> d) c))"

datatype file_read = FileRead | FileMissing | FileFailed

datatype config_error = UnreadableFile | Undecodable "hook_error list" | InvalidConfig "validation_error list"

definition removed_keys :: "string list" where
  "removed_keys = [''app.serve_only'', ''aggregator'', ''storage.monthly_retention'',
     ''storage.yearly_retention'', ''storage.enable_migrations'']"

definition env_name :: "string \<Rightarrow> string" where
  "env_name key = ''SOLIS_'' @ to_upper (map (\<lambda>c. if c = CHR ''.'' then CHR ''_'' else c) key)"

definition read_config_file :: "file_read \<Rightarrow> config_error + string list" where
  "read_config_file f = (case f of FileRead \<Rightarrow> Inr [] | FileFailed \<Rightarrow> Inl UnreadableFile
     | FileMissing \<Rightarrow> Inr [''config file not found, using defaults''])"

text \<open>A warning names the key; the source walks a map, so the order of the warnings is arbitrary.\<close>

definition removed_key_warnings :: "(string \<Rightarrow> bool) \<Rightarrow> (string \<Rightarrow> bool) \<Rightarrow> string list" where
  "removed_key_warnings in_file env = filter (\<lambda>k. in_file k \<or> env (env_name k)) removed_keys"

definition load_config :: "file_read \<Rightarrow> (string \<Rightarrow> bool) \<Rightarrow> (string \<Rightarrow> bool) \<Rightarrow> raw app_config
    \<Rightarrow> (int app_config \<Rightarrow> rule_error option) list \<Rightarrow> config_error + int app_config" where
  "load_config f in_file env held rules = (case read_config_file f of Inl e \<Rightarrow> Inl e
     | Inr warnings \<Rightarrow> (case decode_config held of Inl es \<Rightarrow> Inl (Undecodable es)
       | Inr c \<Rightarrow> let c = c\<lparr>cf_warnings := warnings @ removed_key_warnings in_file env\<rparr>;
              errs = validate rules c in
           if errs \<noteq> [] then Inl (InvalidConfig errs) else Inr c))"

section \<open>Where the settings go\<close>

text \<open>\<open>RequireAll\<close> names the first requirement that is not met; the constructors of the poller and the
  aggregator ask for their dependencies and for sane settings.\<close>

definition require_all :: "(string \<times> bool) list \<Rightarrow> string option" where
  "require_all reqs = map_option fst (find (\<lambda>(name, ok). \<not> ok) reqs)"

record poller_plan = poller_settings +
  se_interval :: int
  se_block_retry_delay :: int
  se_poll_timeout :: int

definition poller_plan_of :: "int poller_section \<Rightarrow> poller_plan" where
  "poller_plan_of p = \<lparr>se_block_attempts = po_block_attempts p, se_block_interval = po_block_interval p,
     se_interval = po_interval p, se_block_retry_delay = po_block_retry_delay p,
     se_poll_timeout = po_poll_timeout p\<rparr>"

definition poller_requirements :: "(string \<Rightarrow> bool) \<Rightarrow> poller_plan \<Rightarrow> string option" where
  "poller_requirements present s = require_all
     (map (\<lambda>d. (d, present d)) [''Source'', ''Store'', ''Cache'', ''Bus'', ''Decoder'', ''Registry'', ''Clock'', ''Reporter'']
      @ [(''Settings.Interval'', 0 < se_interval s), (''Settings.PollTimeout'', 0 < se_poll_timeout s),
         (''Settings.BlockAttempts'', 0 \<le> se_block_attempts s)])"

definition aggregator_requirements :: "(string \<Rightarrow> bool) \<Rightarrow> int \<Rightarrow> string option" where
  "aggregator_requirements present interval = require_all
     (map (\<lambda>d. (d, present d)) [''Store'', ''Cache'', ''Bus'', ''Registry'', ''Clock'', ''Reporter'']
      @ [(''PollInterval'', 0 < interval)])"

record server_settings =
  sr_port :: int
  sr_timeout :: int

definition server_settings_of :: "int app_settings \<Rightarrow> server_settings" where
  "server_settings_of a = \<lparr>sr_port = ap_port a, sr_timeout = ap_timeout a\<rparr>"

record storage_settings =
  ss_path :: string
  ss_daily_retention :: int
  ss_error_retention :: int
  ss_wal_mode :: bool
  ss_synchronous :: string
  ss_temp_store :: string

definition storage_settings_of :: "int storage_section \<Rightarrow> storage_settings" where
  "storage_settings_of s = \<lparr>ss_path = st_path s, ss_daily_retention = st_daily_retention s,
     ss_error_retention = st_error_retention s, ss_wal_mode = st_wal_mode s,
     ss_synchronous = st_synchronous s, ss_temp_store = st_temp_store s\<rparr>"

text \<open>The connection string: the pragmas as query parameters, escaped by \<open>url.Values.Encode\<close>.\<close>

definition hex_upper :: "nat \<Rightarrow> char" where
  "hex_upper n = (if n < 10 then char_of (48 + n) else char_of (55 + n))"

definition unreserved :: "char \<Rightarrow> bool" where
  "unreserved c \<longleftrightarrow> is_digit c \<or> (CHR ''a'' \<le> c \<and> c \<le> CHR ''z'') \<or> (CHR ''A'' \<le> c \<and> c \<le> CHR ''Z'')
     \<or> c \<in> {CHR ''-'', CHR ''_'', CHR ''.'', CHR ''~''}"

definition query_escape :: "string \<Rightarrow> string" where
  "query_escape s = concat (map (\<lambda>c. if unreserved c then [c] else if c = CHR '' '' then ''+''
     else [CHR ''%'', hex_upper ((of_char c :: nat) div 16), hex_upper ((of_char c :: nat) mod 16)]) s)"

fun join_params :: "string list \<Rightarrow> string" where
  "join_params [] = []"
| "join_params [p] = p"
| "join_params (p # ps) = p @ ''&'' @ join_params ps"

definition dsn :: "storage_settings \<Rightarrow> string" where
  "dsn s = (let q = (if ss_wal_mode s then [''journal_mode(WAL)''] else [])
       @ (if ss_synchronous s \<noteq> [] then [''synchronous('' @ ss_synchronous s @ '')''] else [])
       @ (if ss_temp_store s \<noteq> [] then [''temp_store('' @ ss_temp_store s @ '')''] else []) in
     if q = [] then ss_path s
     else ss_path s @ ''?'' @ join_params (map (\<lambda>v. ''_pragma='' @ query_escape v) q))"

section \<open>What validation accepts\<close>

definition accepted :: "int app_config \<Rightarrow> bool" where
  "accepted c \<longleftrightarrow> (let a = cf_app c; p = cf_poller c; m = cf_modbus c; s = cf_storage c in
     to_upper (ap_debug a) \<in> {''DEBUG'', ''INFO'', ''WARN'', ''ERROR'', ''FATAL''} \<and>
     ns_second \<le> ap_timeout a \<and> 1 \<le> ap_port a \<and> ap_port a \<le> 65535 \<and>
     ns_second \<le> po_interval p \<and> 1 \<le> po_block_attempts p \<and> 0 < po_poll_timeout p \<and>
     0 \<le> po_block_retry_delay p \<and> 0 \<le> po_block_interval p \<and>
     1 \<le> mo_slave_id m \<and> mo_slave_id m \<le> 247 \<and> validate_settings (modbus_settings m) = None \<and>
     (\<exists>r. parse_rollover (ro_time (cf_rollover c)) = Inr r) \<and>
     wrap64 (po_poll_timeout p + mo_timeout m) < wrap64 (3 * po_interval p) \<and>
     st_path s \<noteq> [] \<and> 0 < st_daily_retention s \<and> 0 < st_error_retention s \<and> 0 < st_cleanup_interval s \<and>
     st_synchronous s \<in> {''OFF'', ''NORMAL'', ''FULL'', ''EXTRA''} \<and>
     st_temp_store s \<in> {''DEFAULT'', ''FILE'', ''MEMORY''} \<and> 0 \<le> st_max_backups s \<and> 0 \<le> st_backup_interval s)"

lemma check_Nil [simp]: "check bad field p = [] \<longleftrightarrow> \<not> bad"
  by (simp add: check_def)

lemma one_of_set [simp]: "one_of v allowed \<longleftrightarrow> v \<in> set allowed"
  by (induction allowed) (auto simp: one_of_def)

lemma add_one [simp]: "add_rule (OneError v) errs = errs @ [v]"
  by (simp add: add_rule_def)

lemmas validations = validate_app_def validate_poller_def validate_modbus_section_def validate_storage_def
  validate_backups_def

lemma apply_config_rules:
  "apply_rules config_rules c errs = [] \<longleftrightarrow> errs = [] \<and> validate_modbus c = None \<and> validate_rollover c = None
     \<and> validate_poll_timeout c = None"
  by (auto simp: apply_rules_def config_rules_def validate_modbus_def validate_rollover_def
      validate_poll_timeout_def Let_def split: option.splits sum.splits)

lemma validate_accepted: "validate config_rules c = [] \<longleftrightarrow> accepted c"
proof -
  have r: "validate_modbus c = None \<longleftrightarrow> validate_settings (modbus_settings (cf_modbus c)) = None"
    "validate_rollover c = None \<longleftrightarrow> (\<exists>r. parse_rollover (ro_time (cf_rollover c)) = Inr r)"
    "validate_poll_timeout c = None \<longleftrightarrow>
      wrap64 (po_poll_timeout (cf_poller c) + mo_timeout (cf_modbus c)) < wrap64 (3 * po_interval (cf_poller c))"
    by (auto simp: validate_modbus_def validate_rollover_def validate_poll_timeout_def Let_def
        healthy_grace_factor_def split: option.splits sum.splits)
  have s: "validate_app (cf_app c) = [] \<longleftrightarrow>
      to_upper (ap_debug (cf_app c)) \<in> {''DEBUG'', ''INFO'', ''WARN'', ''ERROR'', ''FATAL''} \<and>
      ns_second \<le> ap_timeout (cf_app c) \<and> 1 \<le> ap_port (cf_app c) \<and> ap_port (cf_app c) \<le> 65535"
    "validate_poller (cf_poller c) = [] \<longleftrightarrow> ns_second \<le> po_interval (cf_poller c) \<and>
      1 \<le> po_block_attempts (cf_poller c) \<and> 0 < po_poll_timeout (cf_poller c) \<and>
      0 \<le> po_block_retry_delay (cf_poller c) \<and> 0 \<le> po_block_interval (cf_poller c)"
    "validate_modbus_section (cf_modbus c) = [] \<longleftrightarrow> 1 \<le> mo_slave_id (cf_modbus c) \<and> mo_slave_id (cf_modbus c) \<le> 247"
    "validate_storage (cf_storage c) = [] \<longleftrightarrow> st_path (cf_storage c) \<noteq> [] \<and> 0 < st_daily_retention (cf_storage c) \<and>
      0 < st_error_retention (cf_storage c) \<and> 0 < st_cleanup_interval (cf_storage c) \<and>
      st_synchronous (cf_storage c) \<in> {''OFF'', ''NORMAL'', ''FULL'', ''EXTRA''} \<and>
      st_temp_store (cf_storage c) \<in> {''DEFAULT'', ''FILE'', ''MEMORY''} \<and> 0 \<le> st_max_backups (cf_storage c) \<and>
      0 \<le> st_backup_interval (cf_storage c)"
    by (simp_all add: validations config_bounds, auto)
  show ?thesis unfolding validate_def apply_config_rules accepted_def Let_def append_is_Nil_conv r s
    by blast
qed

section \<open>What loads\<close>

lemma duration_hook_range: "duration_hook r = Inr d \<Longrightarrow> 0 \<le> d \<and> d \<le> max_int64"
  using parse_duration_iff by (auto simp: duration_hook_def split: raw.splits sum.splits)

lemma map_config_durations [simp]: "config_durations (map_config f c) = map f (config_durations c)"
  by (simp add: config_durations_def map_config_def Let_def)

lemma decoded_durations:
  assumes "decode_config held = Inr c" "d \<in> set (config_durations c)"
  shows "0 \<le> d \<and> d \<le> max_int64"
proof -
  have c: "c = map_config (\<lambda>r. case duration_hook r of Inl e \<Rightarrow> 0 | Inr d \<Rightarrow> d) held"
    using assms(1) by (auto simp: decode_config_def Let_def split: if_splits)
  show ?thesis using assms(2) duration_hook_range unfolding c map_config_durations
    by (auto simp: max_int64_def split: sum.splits)
qed

lemma load_config_Inr:
  "load_config f in_file env held config_rules = Inr c \<longleftrightarrow> (\<exists>w c0. read_config_file f = Inr w \<and>
     decode_config held = Inr c0 \<and> c = c0\<lparr>cf_warnings := w @ removed_key_warnings in_file env\<rparr> \<and> accepted c)"
  by (auto simp: load_config_def Let_def validate_accepted split: sum.splits)

lemma wrap64_id: "- (2 ^ 63) \<le> x \<Longrightarrow> x < 2 ^ 63 \<Longrightarrow> wrap64 x = x"
  by (simp add: wrap64_def)

lemma parse_rollover_ok: "parse_rollover t = Inr r \<Longrightarrow> rollover_ok r"
  using parse_rollover_Inr by blast

lemma slave_byte: "1 \<le> n \<Longrightarrow> n \<le> 247 \<Longrightarrow> uint (of_int n :: 8 word) = n"
  by (simp add: uint_word_of_int)

lemma accepted_plan:
  assumes "accepted c" "\<forall>d. present d"
  shows "poller_requirements present (poller_plan_of (cf_poller c)) = None"
    "aggregator_requirements present (po_interval (cf_poller c)) = None"
  using assms by (simp_all add: poller_requirements_def aggregator_requirements_def require_all_def
      poller_plan_of_def accepted_def Let_def)

lemma accepted_modbus:
  assumes "accepted c"
  shows "\<exists>client. new_modbus (modbus_settings (cf_modbus c)) (po_interval (cf_poller c)) = Inr client"
    "uint (set_unit (modbus_settings (cf_modbus c))) = mo_slave_id (cf_modbus c)"
  using assms slave_byte by (simp_all add: new_modbus_def accepted_def Let_def modbus_settings_def)

text \<open>The parameters of the connection string after the journal mode.\<close>

definition pragma_params :: "string \<Rightarrow> string \<Rightarrow> string" where
  "pragma_params sync temp = ''_pragma=synchronous%28'' @ sync @ ''%29&_pragma=temp_store%28'' @ temp @ ''%29''"

lemma escape_append: "query_escape (x @ y) = query_escape x @ query_escape y"
  by (simp add: query_escape_def)

lemma escape_words:
  "query_escape ''journal_mode(WAL)'' = ''journal_mode%28WAL%29''"
  "query_escape ''synchronous('' = ''synchronous%28''" "query_escape ''temp_store('' = ''temp_store%28''"
  "query_escape '')'' = ''%29''"
  by code_simp+

lemma escape_modes:
  "s \<in> {''OFF'', ''NORMAL'', ''FULL'', ''EXTRA'', ''DEFAULT'', ''FILE'', ''MEMORY''} \<Longrightarrow> query_escape s = s"
  by (auto simp: query_escape_def unreserved_def)

lemma accepted_dsn:
  assumes "accepted c"
  shows "dsn (storage_settings_of (cf_storage c)) = st_path (cf_storage c) @ ''?'' @
      (if st_wal_mode (cf_storage c) then ''_pragma=journal_mode%28WAL%29&'' else []) @
      pragma_params (st_synchronous (cf_storage c)) (st_temp_store (cf_storage c))"
proof -
  have v: "st_synchronous (cf_storage c) \<in> {''OFF'', ''NORMAL'', ''FULL'', ''EXTRA''}"
    "st_temp_store (cf_storage c) \<in> {''DEFAULT'', ''FILE'', ''MEMORY''}"
    using assms by (simp_all add: accepted_def Let_def)
  then have e: "query_escape (st_synchronous (cf_storage c)) = st_synchronous (cf_storage c)"
    "query_escape (st_temp_store (cf_storage c)) = st_temp_store (cf_storage c)"
    "st_synchronous (cf_storage c) \<noteq> []" "st_temp_store (cf_storage c) \<noteq> []"
    by (auto intro!: escape_modes)
  show ?thesis by (simp add: dsn_def storage_settings_of_def Let_def e escape_append [of "''synchronous(''"]
      escape_append [of "''temp_store(''"] escape_append [of "st_synchronous (cf_storage c)"]
      escape_append [of "st_temp_store (cf_storage c)"] escape_words pragma_params_def del: append.simps(2)) simp
qed

text \<open>C15: A configuration that loads is fit to run whatever the file and the environment hold: every duration
  is within 0 and the largest 64 bit integer and those that need it are positive, the slave id is the byte
  handed to the Modbus client, the client can be created, the rollover time is a time of day, the poller's
  and the aggregator's constructors accept their settings once their dependencies are present, the server's
  port is one, and the connection string carries only known pragma values.\<close>

theorem loaded_config_runs:
  assumes "load_config f in_file env held config_rules = Inr c" "\<forall>d. present d"
  shows "(\<forall>d \<in> set (config_durations c). 0 \<le> d \<and> d \<le> max_int64) \<and>
    uint (set_unit (modbus_settings (cf_modbus c))) = mo_slave_id (cf_modbus c) \<and>
    (\<exists>client. new_modbus (modbus_settings (cf_modbus c)) (po_interval (cf_poller c)) = Inr client) \<and>
    (\<exists>r. parse_rollover (ro_time (cf_rollover c)) = Inr r \<and> rollover_ok r) \<and>
    poller_requirements present (poller_plan_of (cf_poller c)) = None \<and>
    aggregator_requirements present (po_interval (cf_poller c)) = None \<and>
    (let server = server_settings_of (cf_app c) in
      1 \<le> sr_port server \<and> sr_port server \<le> 65535 \<and> ns_second \<le> sr_timeout server) \<and>
    (\<exists>sync \<in> {''OFF'', ''NORMAL'', ''FULL'', ''EXTRA''}. \<exists>temp \<in> {''DEFAULT'', ''FILE'', ''MEMORY''}.
      dsn (storage_settings_of (cf_storage c)) = st_path (cf_storage c) @ ''?'' @
        (if st_wal_mode (cf_storage c) then ''_pragma=journal_mode%28WAL%29&'' else []) @ pragma_params sync temp)"
proof -
  obtain w c0 where c: "decode_config held = Inr c0" "c = c0\<lparr>cf_warnings := w\<rparr>" "accepted c"
    using assms(1) unfolding load_config_Inr by blast
  have "config_durations c = config_durations c0" by (simp add: c(2) config_durations_def)
  then have "\<forall>d \<in> set (config_durations c). 0 \<le> d \<and> d \<le> max_int64" using decoded_durations [OF c(1)] by simp
  moreover obtain r where "parse_rollover (ro_time (cf_rollover c)) = Inr r"
    using c(3) by (auto simp: accepted_def Let_def)
  moreover have "st_synchronous (cf_storage c) \<in> {''OFF'', ''NORMAL'', ''FULL'', ''EXTRA''}"
    "st_temp_store (cf_storage c) \<in> {''DEFAULT'', ''FILE'', ''MEMORY''}"
    "1 \<le> ap_port (cf_app c)" "ap_port (cf_app c) \<le> 65535" "ns_second \<le> ap_timeout (cf_app c)"
    using c(3) by (simp_all add: accepted_def Let_def)
  ultimately show ?thesis
    using accepted_modbus [OF c(3)] accepted_plan [OF c(3) assms(2)] accepted_dsn [OF c(3)] parse_rollover_ok
    by (auto simp: server_settings_of_def Let_def)
qed

section \<open>The supervisor's patience\<close>

text \<open>C16: With a configuration that loads, and intervals and timeouts that do not overflow a duration, the
  supervisor never restarts the poller for silence: a poller that beats when a cycle starts and when it ends,
  whose cycles last no longer than the poll timeout and one read, and that waits at most an interval between
  cycles, is within its grace at every instant in between.\<close>

theorem poller_within_grace:
  assumes "load_config f in_file env held config_rules = Inr c"
    and "3 * po_interval (cf_poller c) \<le> max_int64"
    and "po_poll_timeout (cf_poller c) + mo_timeout (cf_modbus c) \<le> max_int64"
    and "mg_comp m = Some s" "managed_state m \<noteq> Failed" "0 < mg_started m"
    and "now - max (mg_started m) (hs_beat s)
      \<le> max (po_poll_timeout (cf_poller c) + mo_timeout (cf_modbus c)) (po_interval (cf_poller c))"
  shows "fst (evaluate now (po_interval (cf_poller c)) m) = None"
proof -
  define iv where "iv = po_interval (cf_poller c)"
  define worst where "worst = po_poll_timeout (cf_poller c) + mo_timeout (cf_modbus c)"
  obtain w c0 where c: "decode_config held = Inr c0" "c = c0\<lparr>cf_warnings := w\<rparr>" "accepted c"
    using assms(1) unfolding load_config_Inr by blast
  have "0 \<le> po_poll_timeout (cf_poller c)" "0 \<le> mo_timeout (cf_modbus c)"
    using decoded_durations [OF c(1)] by (simp_all add: c(2) config_durations_def)
  then have "wrap64 worst = worst" using assms(3) by (intro wrap64_id) (simp_all add: worst_def max_int64_def)
  moreover have iv: "0 < iv" using c(3) by (simp add: accepted_def Let_def iv_def)
  then have "wrap64 (3 * iv) = 3 * iv" using assms(2) by (intro wrap64_id) (simp_all add: iv_def max_int64_def)
  moreover have "wrap64 worst < wrap64 (3 * iv)"
    using c(3) by (simp add: accepted_def Let_def iv_def worst_def)
  ultimately have "worst < 3 * iv" by simp
  then have quiet: "now - max (mg_started m) (hs_beat s) < 3 * iv"
    using assms(7) iv by (simp add: worst_def iv_def)
  then show ?thesis
    using assms(4,5,6) iv unfolding iv_def [symmetric]
    by (auto simp: evaluate_def Let_def last_beat_def grace_for_def supervision_constants)
qed

section \<open>The defaults\<close>

definition default_config :: "int app_config" where
  "default_config = \<lparr>
     cf_app = \<lparr>ap_debug = ''INFO'', ap_port = 8080, ap_timeout = 30000000000\<rparr>,
     cf_poller = \<lparr>po_interval = 30000000000, po_block_attempts = 3, po_block_retry_delay = 1000000000,
       po_block_interval = 0, po_poll_timeout = 30000000000\<rparr>,
     cf_modbus = \<lparr>mo_address = ''tcp://192.168.1.100:502'', mo_timeout = 5000000000, mo_slave_id = 1,
       mo_speed = 0, mo_data_bits = 0, mo_parity = [], mo_stop_bits = 0\<rparr>,
     cf_rollover = \<lparr>ro_time = ''23:59''\<rparr>,
     cf_storage = \<lparr>st_path = ''./data/solis.db'', st_daily_retention = 315360000000000000,
       st_error_retention = 315360000000000000, st_wal_mode = True, st_synchronous = ''NORMAL'',
       st_temp_store = ''MEMORY'', st_enable_backup = True, st_max_backups = 3,
       st_backup_interval = 86400000000000, st_cleanup_interval = 86400000000000\<rparr>,
     cf_warnings = []\<rparr>"

lemma default_durations:
  "duration_hook (RawText ''30s'') = Inr 30000000000" "duration_hook (RawText ''5s'') = Inr 5000000000"
  "duration_hook (RawText ''1s'') = Inr 1000000000" "duration_hook (RawText ''0s'') = Inr 0"
  "duration_hook (RawText ''10y'') = Inr 315360000000000000" "duration_hook (RawText ''24h'') = Inr 86400000000000"
  using whole_durations [of "[(''30'', ''s'')]"] whole_durations [of "[(''5'', ''s'')]"]
    whole_durations [of "[(''1'', ''s'')]"] whole_durations [of "[(''0'', ''s'')]"]
    whole_durations [of "[(''10'', ''y'')]"] whole_durations [of "[(''24'', ''h'')]"]
  by (simp_all add: duration_hook_def unit_ns_def long_unit_def unit_map_def long_units max_int64_def
      is_digit_def digit_val_def)

lemma decode_defaults: "decode_config set_defaults = Inr default_config"
  by (simp add: decode_config_def config_durations_def map_config_def set_defaults_def default_config_def
      default_durations Let_def)

lemma accepted_warnings [simp]: "accepted (c\<lparr>cf_warnings := w\<rparr>) = accepted c"
  by (simp add: accepted_def Let_def)

lemma accepted_default: "accepted default_config"
proof -
  have "validate_settings (modbus_settings (cf_modbus default_config)) = None" by code_simp
  moreover have "parse_rollover (ro_time (cf_rollover default_config)) = Inr \<lparr>r_hour = 23, r_minute = 59\<rparr>"
    by code_simp
  moreover have "to_upper (ap_debug (cf_app default_config)) = ''INFO''" by code_simp
  moreover have "wrap64 (po_poll_timeout (cf_poller default_config) + mo_timeout (cf_modbus default_config))
      < wrap64 (3 * po_interval (cf_poller default_config))" by code_simp
  ultimately show ?thesis unfolding accepted_def Let_def by (simp add: default_config_def)
qed

text \<open>Without a configuration file and without overrides the program starts: the defaults decode, pass
  every check, and are the documented ones, with a warning about the missing file and one for each removed
  setting that is still set.\<close>

theorem defaults_load:
  "\<exists>c. load_config FileMissing in_file env set_defaults config_rules = Inr c \<and>
    po_interval (cf_poller c) = 30 * ns_second \<and> po_poll_timeout (cf_poller c) = 30 * ns_second \<and>
    mo_timeout (cf_modbus c) = 5 * ns_second \<and> st_daily_retention (cf_storage c) = 10 * year_ns \<and>
    st_backup_interval (cf_storage c) = day_ns \<and>
    (\<forall>k. k \<in> set (cf_warnings c) \<longleftrightarrow> k = ''config file not found, using defaults'' \<or>
      k \<in> set removed_keys \<and> (in_file k \<or> env (env_name k)))"
proof -
  let ?w = "''config file not found, using defaults'' # removed_key_warnings in_file env"
  have "load_config FileMissing in_file env set_defaults config_rules = Inr (default_config\<lparr>cf_warnings := ?w\<rparr>)"
    unfolding load_config_Inr decode_defaults by (simp add: read_config_file_def accepted_default)
  then show ?thesis
    by (intro exI conjI, assumption) (simp_all add: default_config_def long_units removed_key_warnings_def)
qed

text \<open>Timeouts whose sum overflows a duration pass the check they are meant to fail: 200 years each.\<close>

lemma overflowing_timeouts_accepted:
  "let c = default_config\<lparr>cf_poller := (cf_poller default_config)\<lparr>po_poll_timeout := 200 * year_ns\<rparr>,
      cf_modbus := (cf_modbus default_config)\<lparr>mo_timeout := 200 * year_ns\<rparr>\<rparr> in
    validate_poll_timeout c = None \<and>
    \<not> po_poll_timeout (cf_poller c) + mo_timeout (cf_modbus c) < healthy_grace_factor * po_interval (cf_poller c)"
  by code_simp

lemma default_config_loads:
  "load_config FileRead (\<lambda>_. False) (\<lambda>_. False) set_defaults config_rules = Inr default_config"
proof -
  have "default_config = default_config\<lparr>cf_warnings := [] @ removed_key_warnings (\<lambda>_. False) (\<lambda>_. False)\<rparr>"
    by (simp add: default_config_def removed_key_warnings_def)
  then show ?thesis unfolding load_config_Inr decode_defaults using accepted_default
    by (auto simp: read_config_file_def)
qed

theorem loaded_config_runs_witness:
  "\<exists>client. new_modbus (modbus_settings (cf_modbus default_config)) (po_interval (cf_poller default_config)) = Inr client"
proof -
  from loaded_config_runs [OF default_config_loads, of "\<lambda>_. True"] show ?thesis by simp
qed

theorem poller_within_grace_witness:
  "fst (evaluate (1000 + 35 * ns_second) (po_interval (cf_poller default_config))
    ((new_managed ''poller'')\<lparr>mg_comp := Some \<lparr>hs_state = Healthy, hs_beat = 1000, hs_reports = []\<rparr>,
      mg_started := 500\<rparr>)) = None"
proof -
  from poller_within_grace [OF default_config_loads] show ?thesis
    by (simp add: default_config_def max_int64_def new_managed_def managed_state_def)
qed

end
