(* ===== verification/Router.thy ===== *)
theory Router
  imports Paths "HOL-Library.Sublist"
begin

text \<open>
  internal/http/router/router.go and the recovery of middleware.go: which file of the embedded
  frontend or API documentation a request gets, the cache headers, the table of routes and what
  a panic of a handler becomes. Matching a path against the table is the chi library and not
  modelled; an embedded file system is a map from names to entries, and a name that is not one
  of them is not found. A path is the decoded path of the request's URL.
\<close>

section \<open>Requests and responses\<close>

datatype entry = DirEntry | FileEntry

type_synonym files = "string \<Rightarrow> entry option"

text \<open>What \<open>http.ServeFileFS\<close> makes of a request: it refuses a path with a dot-dot element, redirects a
  path that ends in /index.html to its directory, and otherwise serves the named file.\<close>

datatype response = NotFound | BadPath | ToDirectory | Serve string

definition slash :: "char \<Rightarrow> bool" where
  "slash c \<longleftrightarrow> c = CHR ''/'' \<or> c = CHR 92"

fun fields :: "string \<Rightarrow> string list" where
  "fields [] = [[]]"
| "fields (c # cs) = (if slash c then [] # fields cs
     else case fields cs of [] \<Rightarrow> [[c]] | x # xs \<Rightarrow> (c # x) # xs)"

definition contains_dot_dot :: "string \<Rightarrow> bool" where
  "contains_dot_dot p \<longleftrightarrow> ''..'' \<in> set (fields p)"

definition serve_file_fs :: "string \<Rightarrow> string \<Rightarrow> response" where
  "serve_file_fs url name = (if contains_dot_dot url then BadPath
     else if suffix ''/index.html'' url then ToDirectory else Serve name)"

section \<open>Files of the frontend\<close>

definition fs_path :: "string \<Rightarrow> string" where
  "fs_path url = (let c = clean_path (CHR ''/'' # url) in if c = ''/'' then ''.'' else tl c)"

definition hidden_path :: "string \<Rightarrow> bool" where
  "hidden_path name \<longleftrightarrow> list_ex (\<lambda>seg. seg \<noteq> ''.'' \<and> prefix ''.'' seg) (split_path name)"

definition has_index :: "files option \<Rightarrow> bool" where
  "has_index fs \<longleftrightarrow> (case fs of None \<Rightarrow> False | Some f \<Rightarrow> f ''index.html'' \<noteq> None)"

definition static_dir :: "files \<Rightarrow> string \<Rightarrow> string \<Rightarrow> response" where
  "static_dir fs dir url = (let rel = fs_path url in
     if hidden_path rel then NotFound
     else let name = path_join [dir, rel] in
       case fs name of None \<Rightarrow> NotFound
       | Some FileEntry \<Rightarrow> serve_file_fs url name
       | Some DirEntry \<Rightarrow> let name = path_join [name, ''index.html''] in
           if fs name = None then NotFound else serve_file_fs url name)"

definition backend_prefixes :: "string list" where
  "backend_prefixes = [''/api'', ''/health'', ''/ws'', ''/docs'']"

definition is_backend_path :: "string \<Rightarrow> bool" where
  "is_backend_path p = list_ex (\<lambda>root. p = root \<or> prefix (root @ ''/'') p) backend_prefixes"

definition spa_fallback :: "files \<Rightarrow> string \<Rightarrow> string \<Rightarrow> response" where
  "spa_fallback fs http_method url =
     (if http_method \<noteq> ''GET'' \<or> is_backend_path url then NotFound
      else let name = fs_path url in
        if fs name = Some FileEntry \<and> \<not> hidden_path name then serve_file_fs url name
        else serve_file_fs url ''index.html'')"

section \<open>Headers\<close>

definition has_prefix :: "string \<Rightarrow> string list \<Rightarrow> bool" where
  "has_prefix p ps = list_ex (\<lambda>q. prefix q p) ps"

definition cache_header :: "string \<Rightarrow> string option" where
  "cache_header p =
     (if prefix ''/assets/'' p then Some ''public, max-age=31536000, immutable''
      else if prefix ''/manifest.webmanifest'' p \<or> prefix ''/data/'' p then Some ''no-cache''
      else if prefix ''/sw.js'' p then Some ''no-cache, max-age=0''
      else if has_prefix p [''/favicon'', ''/vite.svg'', ''/pwa-'', ''/apple-touch'', ''/maskable'']
        then Some ''public, max-age=86400''
      else if \<not> is_backend_path p then Some ''no-store'' else None)"

definition security_headers :: "(string \<times> string) list" where
  "security_headers = [(''X-Content-Type-Options'', ''nosniff''), (''Referrer-Policy'', ''no-referrer'')]"

section \<open>Routes\<close>

datatype handler = WebSocketHandler | HealthHandler | KeysHandler | VersionHandler | DataHandler
  | DocsRedirect | DocsFiles | AssetFiles | DataFiles | RootFile string string | IndexFile

record route =
  rt_method :: "string option"
  rt_pattern :: string
  rt_handler :: handler

definition any :: "string \<Rightarrow> handler \<Rightarrow> route" where
  "any p h = \<lparr>rt_method = None, rt_pattern = p, rt_handler = h\<rparr>"

definition get :: "string \<Rightarrow> handler \<Rightarrow> route" where
  "get p h = \<lparr>rt_method = Some ''GET'', rt_pattern = p, rt_handler = h\<rparr>"

definition static_files :: "(string \<times> string) list" where
  "static_files = [(''manifest.webmanifest'', ''application/manifest+json''), (''sw.js'', ''application/javascript''),
     (''vite.svg'', ''image/svg+xml''), (''favicon.ico'', ''image/x-icon''), (''favicon.svg'', ''image/svg+xml''),
     (''pwa-64x64.png'', ''image/png''), (''pwa-192x192.png'', ''image/png''),
     (''pwa-512x512.png'', ''image/png''), (''maskable-icon-512x512.png'', ''image/png''),
     (''apple-touch-icon-180x180.png'', ''image/png''), (''apple-touch-icon.png'', ''image/png'')]"

definition mount_docs :: "files option \<Rightarrow> route list" where
  "mount_docs docs = (if \<not> has_index docs then [] else [any ''/docs'' DocsRedirect, any ''/docs/*'' DocsFiles])"

definition mount_frontend :: "files option \<Rightarrow> route list" where
  "mount_frontend fe = (if \<not> has_index fe then []
     else [any ''/assets/*'' AssetFiles, any ''/data/*'' DataFiles]
       @ map (\<lambda>(name, ct). any (CHR ''/'' # name) (RootFile name ct)) static_files
       @ [get ''/'' IndexFile])"

definition setup_routes :: "bool \<Rightarrow> files option \<Rightarrow> files option \<Rightarrow> route list" where
  "setup_routes ws docs fe =
     (if ws then [any ''/ws'' WebSocketHandler, any ''/ws/'' WebSocketHandler] else [])
     @ [get ''/health'' HealthHandler]
     @ map (\<lambda>r. r\<lparr>rt_pattern := ''/api'' @ rt_pattern r\<rparr>)
         [get ''/keys'' KeysHandler, get ''/version'' VersionHandler, get ''/data/{key}'' DataHandler]
     @ mount_docs docs @ mount_frontend fe"

text \<open>The file handlers see the path without the prefix of their route; a path without it is not found.\<close>

definition strip_prefix :: "string \<Rightarrow> (string \<Rightarrow> response) \<Rightarrow> string \<Rightarrow> response" where
  "strip_prefix p h url = (if prefix p url then h (drop (length p) url) else NotFound)"

definition serve_route :: "files \<Rightarrow> files \<Rightarrow> handler \<Rightarrow> string \<Rightarrow> response option" where
  "serve_route docs fe h url = (case h of
       DocsFiles \<Rightarrow> Some (strip_prefix ''/docs/'' (static_dir docs ''.'') url)
     | AssetFiles \<Rightarrow> Some (strip_prefix ''/assets/'' (static_dir fe ''assets'') url)
     | DataFiles \<Rightarrow> Some (strip_prefix ''/data/'' (static_dir fe ''data'') url)
     | RootFile name ct \<Rightarrow> Some (serve_file_fs url name)
     | IndexFile \<Rightarrow> Some (serve_file_fs url ''index.html'')
     | _ \<Rightarrow> None)"

section \<open>Panics\<close>

text \<open>How a handler ends: it returns, or panics with net/http's abort value or another; \<open>wrote\<close> says whether
  it had sent the response head before.\<close>

datatype ending = Returned | Panicked bool

datatype recovered = Done | Aborted | InternalError

definition recover_panic :: "ending \<Rightarrow> bool \<Rightarrow> recovered" where
  "recover_panic e wrote = (case e of Returned \<Rightarrow> Done
     | Panicked abort \<Rightarrow> if abort \<or> wrote then Aborted else InternalError)"

section \<open>Cleaned paths\<close>

lemma split_path_slashless: "s \<in> set (split_path p) \<Longrightarrow> CHR ''/'' \<notin> set s"
  by (induction p arbitrary: s) (auto split: list.splits if_splits)

lemma split_path_join_two: "split_path (a @ CHR ''/'' # b) = split_path a @ split_path b"
  by (induction a) (auto simp: split_path_nonempty split: list.split)

lemma split_join_path:
  "xs \<noteq> [] \<Longrightarrow> list_all plain_name xs \<Longrightarrow> split_path (join_path xs) = xs"
  by (induction xs rule: join_path.induct) (auto simp: split_path_join_two split_path_single plain_name_def)

lemma join_path_nonempty: "list_all plain_name xs \<Longrightarrow> join_path xs = [] \<longleftrightarrow> xs = []"
  by (cases xs rule: join_path.cases) (auto simp: plain_name_def)

lemma fold_clean_plain: "list_all plain_name xs \<Longrightarrow> fold (clean_step r) xs out = rev xs @ out"
  by (induction xs arbitrary: out) (auto simp: clean_step_def plain_name_def)

lemma fold_clean_rooted:
  "\<forall>s \<in> set xs. CHR ''/'' \<notin> set s \<Longrightarrow> list_all plain_name out \<Longrightarrow> list_all plain_name (fold (clean_step True) xs out)"
proof (induction xs arbitrary: out)
  case (Cons x xs)
  have "list_all plain_name (clean_step True x out)"
    using Cons.prems by (cases out) (auto simp: clean_step_def plain_name_def list_all_iff)
  then show ?case using Cons by simp
qed simp

text \<open>The elements of a cleaned request path: none is empty, a dot or a dot-dot.\<close>

definition elements :: "string \<Rightarrow> string list" where
  "elements url = rev (fold (clean_step True) (split_path (CHR ''/'' # url)) [])"

lemma elements_plain: "list_all plain_name (elements url)"
proof -
  have "list_all plain_name (fold (clean_step True) (split_path (CHR ''/'' # url)) [])"
    using split_path_slashless by (intro fold_clean_rooted) auto
  then show ?thesis by (simp add: elements_def list_all_iff)
qed

definition rel_name :: "string list \<Rightarrow> string" where
  "rel_name xs = (if xs = [] then ''.'' else join_path xs)"

lemma fs_path_elements: "fs_path url = rel_name (elements url)"
proof -
  have "clean_path (CHR ''/'' # url) = CHR ''/'' # join_path (elements url)"
    by (simp add: clean_path_def is_rooted_def elements_def Let_def)
  then show ?thesis using join_path_nonempty [OF elements_plain, of url]
    by (auto simp: fs_path_def rel_name_def Let_def)
qed

definition visible :: "string \<Rightarrow> bool" where
  "visible s \<longleftrightarrow> plain_name s \<and> hd s \<noteq> CHR ''.''"

lemma hidden_elements:
  assumes "list_all plain_name xs"
  shows "hidden_path (rel_name xs) \<longleftrightarrow> \<not> list_all visible xs"
proof (cases "xs = []")
  case False
  have "prefix ''.'' s \<longleftrightarrow> hd s = CHR ''.''" if "plain_name s" for s
    using that by (cases s) (auto simp: plain_name_def)
  then show ?thesis using assms False
    by (auto simp: hidden_path_def rel_name_def split_join_path list_ex_iff list_all_iff visible_def
        plain_name_def)
qed (simp add: hidden_path_def rel_name_def)

text \<open>The name of what lies below a directory of the file system, whose root is the dot.\<close>

definition below :: "string \<Rightarrow> string list \<Rightarrow> string" where
  "below dir xs = rel_name ((if dir = ''.'' then [] else [dir]) @ xs)"

lemma clean_relative:
  assumes "list_all plain_name xs" "\<not> is_rooted p"
    "fold (clean_step False) (split_path p) [] = rev xs"
  shows "clean_path p = rel_name xs"
  using assms join_path_nonempty [OF assms(1)] by (simp add: clean_path_def rel_name_def Let_def)

lemma fold_clean_rel:
  "list_all plain_name xs \<Longrightarrow> fold (clean_step r) (split_path (rel_name xs)) out = rev xs @ out"
  by (simp add: rel_name_def split_join_path fold_clean_plain clean_step_def)

lemma plain_append: "list_all plain_name (xs @ ys) \<longleftrightarrow> list_all plain_name xs \<and> list_all plain_name ys"
  by simp

lemma plain_ends: "plain_name x \<Longrightarrow> x \<noteq> [] \<and> hd x \<noteq> CHR ''/''"
  by (cases x) (auto simp: plain_name_def)

lemma rel_name_relative: "list_all plain_name xs \<Longrightarrow> rel_name xs \<noteq> [] \<and> \<not> is_rooted (rel_name xs)"
  by (cases xs rule: join_path.cases) (auto simp: rel_name_def is_rooted_def hd_append plain_ends)

lemma path_join_rel:
  assumes "list_all plain_name xs" "list_all plain_name ys"
  shows "path_join [rel_name xs, rel_name ys] = rel_name (xs @ ys)"
proof -
  have n: "rel_name xs \<noteq> []" "\<not> is_rooted (rel_name xs)" using rel_name_relative [OF assms(1)] by auto
  have "clean_path (rel_name xs @ CHR ''/'' # rel_name ys) = rel_name (xs @ ys)"
    using assms n by (intro clean_relative)
      (auto simp: split_path_join_two fold_clean_rel is_rooted_def hd_append)
  then show ?thesis using n by (simp add: path_join_def)
qed

section \<open>What is served\<close>

definition root_ok :: "string \<Rightarrow> bool" where
  "root_ok dir \<longleftrightarrow> dir = ''.'' \<or> plain_name dir"

lemma root_rel: "root_ok dir \<Longrightarrow> \<exists>xs. list_all plain_name xs \<and> dir = rel_name xs \<and> (\<forall>ys. below dir ys = rel_name (xs @ ys))"
proof -
  assume r: "root_ok dir"
  show ?thesis
  proof (cases "dir = ''.''")
    case False
    then show ?thesis using r by (intro exI [of _ "[dir]"]) (simp add: root_ok_def rel_name_def below_def)
  qed (intro exI [of _ "[]"], simp add: rel_name_def below_def)
qed

lemma static_dir_cases:
  assumes "root_ok dir"
  shows "static_dir fs dir url = (let xs = elements url in
    if \<not> list_all visible xs then NotFound
    else case fs (below dir xs) of None \<Rightarrow> NotFound
      | Some FileEntry \<Rightarrow> serve_file_fs url (below dir xs)
      | Some DirEntry \<Rightarrow> if fs (below dir (xs @ [''index.html''])) = None then NotFound
          else serve_file_fs url (below dir (xs @ [''index.html''])))"
proof -
  obtain ds where ds: "list_all plain_name ds" "dir = rel_name ds" "\<forall>ys. below dir ys = rel_name (ds @ ys)"
    using root_rel [OF assms] by blast
  have j: "path_join [dir, fs_path url] = below dir (elements url)"
    unfolding ds(2) fs_path_elements path_join_rel [OF ds(1) elements_plain] using ds by simp
  have p: "list_all plain_name (ds @ elements url)" "list_all plain_name [''index.html'']"
    using ds(1) elements_plain by (auto simp: plain_name_def)
  have "''index.html'' = rel_name [''index.html'']" by (simp add: rel_name_def)
  then have i: "path_join [below dir (elements url), ''index.html''] = below dir (elements url @ [''index.html''])"
    using path_join_rel [OF p] ds(3) by simp
  have h: "hidden_path (fs_path url) \<longleftrightarrow> \<not> list_all visible (elements url)"
    unfolding fs_path_elements by (rule hidden_elements [OF elements_plain])
  show ?thesis unfolding static_dir_def Let_def j i h ..
qed

text \<open>C38: A file handler never leaves its directory and never shows a dotfile, whatever the request path: the
  served name is an entry of the file system made of the directory and at least one element, and no element
  is empty, a dot, a dot-dot or starts with a dot.\<close>

theorem static_dir_contained:
  assumes "static_dir fs dir url = Serve name" "root_ok dir" "fs dir \<noteq> Some FileEntry"
  shows "fs name \<noteq> None \<and> (\<exists>xs. xs \<noteq> [] \<and> list_all visible xs \<and> name = below dir xs \<and>
    split_path name = (if dir = ''.'' then [] else [dir]) @ xs)"
proof -
  have vis: "visible ''index.html''" by (simp add: visible_def plain_name_def)
  have dir: "below dir [] = dir" by (simp add: below_def rel_name_def)
  obtain xs where xs: "list_all visible xs" "name = below dir xs" "fs name \<noteq> None" "xs \<noteq> []"
  proof (cases "fs (below dir (elements url)) = Some FileEntry")
    case True
    then have "name = below dir (elements url)" "list_all visible (elements url)"
      using assms(1) unfolding static_dir_cases [OF assms(2)]
      by (auto simp: Let_def serve_file_fs_def split: if_splits)
    moreover have "elements url \<noteq> []" using True assms(3) dir by auto
    ultimately show thesis using that True by auto
  next
    case False
    then have "name = below dir (elements url @ [''index.html''])" "list_all visible (elements url)" "fs name \<noteq> None"
      using assms(1) unfolding static_dir_cases [OF assms(2)]
      by (auto simp: Let_def serve_file_fs_def split: if_splits option.splits entry.splits)
    then show thesis using that [of "elements url @ [''index.html'']"] vis by simp
  qed
  have "list_all plain_name xs" using xs(1) by (auto simp: list_all_iff visible_def)
  then have "split_path name = (if dir = ''.'' then [] else [dir]) @ xs"
    using assms(2) xs(2,4) by (auto simp: below_def rel_name_def root_ok_def split_join_path)
  then show ?thesis using xs by blast
qed

text \<open>The fallback for client-side routes answers 404 exactly for requests that are not GET or that lie on
  or below a backend root; every other path is answered with a file of the frontend whose elements are all
  visible, or with its index page, unless net/http refuses or redirects the path itself.\<close>

theorem spa_fallback_exact:
  "(spa_fallback fs http_method url = NotFound \<longleftrightarrow> http_method \<noteq> ''GET'' \<or>
      (\<exists>root \<in> {''/api'', ''/health'', ''/ws'', ''/docs''}. url = root \<or> prefix (root @ ''/'') url)) \<and>
   (\<forall>name. spa_fallback fs http_method url = Serve name \<longrightarrow> name = ''index.html'' \<or>
      fs name = Some FileEntry \<and> list_all visible (elements url) \<and> name = rel_name (elements url))"
  using hidden_elements [OF elements_plain, of url]
  by (auto simp: spa_fallback_def serve_file_fs_def fs_path_elements Let_def is_backend_path_def backend_prefixes_def
      split: if_splits)

text \<open>Backend patterns are the ones the fallback leaves alone, no two routes share a pattern, and every
  root file has a cache policy of its own.\<close>

definition backend_handler :: "handler \<Rightarrow> bool" where
  "backend_handler h \<longleftrightarrow> h \<in> {WebSocketHandler, HealthHandler, KeysHandler, VersionHandler, DataHandler,
     DocsRedirect, DocsFiles}"

lemma routes_agree:
  "list_all (\<lambda>r. is_backend_path (rt_pattern r) = backend_handler (rt_handler r)) (setup_routes ws docs fe)"
  unfolding setup_routes_def mount_docs_def mount_frontend_def
  by (cases ws; cases "has_index docs"; cases "has_index fe"; simp only: if_True if_False simp_thms; code_simp)

lemma routes_distinct: "distinct (map rt_pattern (setup_routes ws docs fe))"
  unfolding setup_routes_def mount_docs_def mount_frontend_def
  by (cases ws; cases "has_index docs"; cases "has_index fe"; simp only: if_True if_False simp_thms; code_simp)

lemma root_files_cached:
  "list_all (\<lambda>(name, ct). cache_header (CHR ''/'' # name) \<notin> {None, Some ''no-store''}) static_files"
  by code_simp

theorem static_dir_contained_witness:
  "\<exists>xs. list_all visible xs \<and> split_path ''assets/js/app.js'' = ''assets'' # xs"
proof -
  define fs :: files where "fs = (\<lambda>n. if n = ''assets/js/app.js'' then Some FileEntry else None)"
  have "static_dir fs ''assets'' ''js//./app.js'' = Serve ''assets/js/app.js''"
    unfolding fs_def by code_simp
  moreover have "root_ok ''assets''" "fs ''assets'' \<noteq> Some FileEntry"
    by (simp_all add: root_ok_def plain_name_def fs_def)
  ultimately have "\<exists>xs. xs \<noteq> [] \<and> list_all visible xs \<and> ''assets/js/app.js'' = below ''assets'' xs \<and>
      split_path ''assets/js/app.js'' = (if ''assets'' = ''.'' then [] else [''assets'']) @ xs"
    by (rule static_dir_contained [THEN conjunct2])
  then show ?thesis by (elim exE conjE) (rule exI, rule conjI, assumption, simp)
qed

theorem spa_fallback_exact_witness:
  "spa_fallback (\<lambda>_. None) ''GET'' ''/api/keys'' = NotFound \<and>
   spa_fallback (\<lambda>_. None) ''GET'' ''/healthz'' \<noteq> NotFound"
  using spa_fallback_exact [of "\<lambda>_. None" "''GET''" "''/api/keys''"]
    spa_fallback_exact [of "\<lambda>_. None" "''GET''" "''/healthz''"] by simp

end
