(* ===== verification/App.thy ===== *)
theory App
  imports Supervisor "HOL-Library.Sublist"
begin

text \<open>
  internal/app/app.go and shutdown.go, internal/maintenance/lock_unix.go, the probe of
  http/server/server.go and the exit codes of cmd/main.go: building the application step by
  step, releasing what was built, bounding the shutdown, and the lock that keeps maintenance
  jobs and the server apart. What an operation of another package answers, or that it panics,
  is the environment; logging is left out.
\<close>

section \<open>The lock file\<close>

text \<open>\<open>flock\<close> on the lock file: any number of shared holders, or one exclusive holder. A symlinked database
  is resolved first, which fails for a file that does not exist.\<close>

datatype lock_mode = SharedLock | ExclusiveLock

type_synonym locks = "string \<Rightarrow> (nat \<times> lock_mode) list"

record lock_env =
  le_mkdir :: bool
  le_open :: bool
  le_flock :: bool

datatype lock_error = LockDir | LockOpen | Locked string | FlockFailed

definition lock_path :: "(string \<Rightarrow> string option) \<Rightarrow> string \<Rightarrow> string" where
  "lock_path resolve db = (case resolve db of None \<Rightarrow> db | Some p \<Rightarrow> p) @ ''.lock''"

definition conflicts :: "lock_mode \<Rightarrow> (nat \<times> lock_mode) list \<Rightarrow> bool" where
  "conflicts how held = (case how of SharedLock \<Rightarrow> ExclusiveLock \<in> snd ` set held | ExclusiveLock \<Rightarrow> held \<noteq> [])"

definition acquire :: "(string \<Rightarrow> string option) \<Rightarrow> lock_env \<Rightarrow> string \<Rightarrow> lock_mode \<Rightarrow> nat \<Rightarrow> locks
    \<Rightarrow> (lock_error + string) \<times> locks" where
  "acquire resolve env db how pid ls = (let path = lock_path resolve db in
     if \<not> le_mkdir env then (Inl LockDir, ls)
     else if \<not> le_open env then (Inl LockOpen, ls)
     else if conflicts how (ls path) then (Inl (Locked path), ls)
     else if \<not> le_flock env then (Inl FlockFailed, ls)
     else (Inr path, ls(path := ls path @ [(pid, how)])))"

definition acquire_shared :: "(string \<Rightarrow> string option) \<Rightarrow> lock_env \<Rightarrow> string \<Rightarrow> nat \<Rightarrow> locks \<Rightarrow> (lock_error + string) \<times> locks" where
  "acquire_shared resolve env db = acquire resolve env db SharedLock"

definition acquire_exclusive :: "(string \<Rightarrow> string option) \<Rightarrow> lock_env \<Rightarrow> string \<Rightarrow> nat \<Rightarrow> locks \<Rightarrow> (lock_error + string) \<times> locks" where
  "acquire_exclusive resolve env db = acquire resolve env db ExclusiveLock"

text \<open>\<open>Release\<close> of the lock a process holds.\<close>

definition release_lock :: "nat \<Rightarrow> string \<Rightarrow> locks \<Rightarrow> locks" where
  "release_lock pid path ls = ls(path := filter (\<lambda>h. fst h \<noteq> pid) (ls path))"

inductive locks_step :: "(string \<Rightarrow> string option) \<Rightarrow> locks \<Rightarrow> locks \<Rightarrow> bool" for resolve where
  server: "locks_step resolve ls (snd (acquire_shared resolve env db pid ls))"
| job: "locks_step resolve ls (snd (acquire_exclusive resolve env db pid ls))"
| release: "locks_step resolve ls (release_lock pid path ls)"

definition locks_ok :: "locks \<Rightarrow> bool" where
  "locks_ok ls \<longleftrightarrow> (\<forall>path. ExclusiveLock \<in> snd ` set (ls path) \<longrightarrow> length (ls path) = 1)"

lemma acquire_ok: "locks_ok ls \<Longrightarrow> locks_ok (snd (acquire resolve env db how pid ls))"
  by (cases how) (auto simp: locks_ok_def acquire_def Let_def conflicts_def image_iff)

lemma release_ok:
  assumes "locks_ok ls" shows "locks_ok (release_lock pid path ls)"
proof -
  have "length (filter (\<lambda>h. fst h \<noteq> pid) (ls path)) = 1"
    if "ExclusiveLock \<in> snd ` set (filter (\<lambda>h. fst h \<noteq> pid) (ls path))"
  proof -
    have "ExclusiveLock \<in> snd ` set (ls path)" using that by auto
    then have "length (ls path) = 1" using assms unfolding locks_ok_def by blast
    then obtain h where h: "ls path = [h]" by (auto simp: length_Suc_conv)
    then show ?thesis using that by (cases "fst h = pid") auto
  qed
  then show ?thesis using assms by (simp add: locks_ok_def release_lock_def)
qed

text \<open>A maintenance job never shares the database with anyone: however servers and jobs start and stop, a
  lock file with an exclusive holder has no other holder, so a job that got its lock runs while no server
  does, and a server that finds a job running is refused.\<close>

theorem jobs_run_alone:
  assumes "(locks_step resolve)\<^sup>*\<^sup>* (\<lambda>_. []) ls" "(job, ExclusiveLock) \<in> set (ls (lock_path resolve db))"
  shows "ls (lock_path resolve db) = [(job, ExclusiveLock)] \<and>
    (\<forall>env pid path ls'. acquire_shared resolve env db pid ls \<noteq> (Inr path, ls')) \<and>
    (\<forall>env pid path ls'. acquire_exclusive resolve env db pid ls \<noteq> (Inr path, ls'))"
proof -
  have "locks_ok ls" using assms(1)
  proof (induction rule: rtranclp_induct)
    case (step y z)
    then show ?case by (auto elim!: locks_step.cases
        simp: acquire_shared_def acquire_exclusive_def acquire_ok release_ok)
  qed (simp add: locks_ok_def)
  moreover have "ExclusiveLock \<in> snd ` set (ls (lock_path resolve db))" using assms(2) by force
  ultimately have "length (ls (lock_path resolve db)) = 1" unfolding locks_ok_def by blast
  then have one: "ls (lock_path resolve db) = [(job, ExclusiveLock)]"
    using assms(2) by (auto simp: length_Suc_conv)
  then have "conflicts SharedLock (ls (lock_path resolve db))" "conflicts ExclusiveLock (ls (lock_path resolve db))"
    by (simp_all add: conflicts_def)
  then show ?thesis using one by (simp add: acquire_shared_def acquire_exclusive_def acquire_def Let_def)
qed

text \<open>A server that starts on a symlink to a database that does not exist yet locks the link's name; once the
  file is there a job locks the resolved name, and neither sees the other.\<close>

lemma dangling_symlink_not_excluded:
  "let before = (\<lambda>_. None); after = (\<lambda>p. if p = ''/link.db'' then Some ''/data/solis.db'' else None);
      env = \<lparr>le_mkdir = True, le_open = True, le_flock = True\<rparr>;
      (r, ls) = acquire_shared before env ''/link.db'' 1 (\<lambda>_. []) in
    r = Inr ''/link.db.lock'' \<and> fst (acquire_exclusive after env ''/link.db'' 2 ls) = Inr ''/data/solis.db.lock''"
  by (simp add: acquire_shared_def acquire_exclusive_def acquire_def lock_path_def conflicts_def Let_def)

section \<open>The HTTP server's lifecycle\<close>

text \<open>How \<open>Serve\<close> ended in the background, and the probe the supervisor asks.\<close>

datatype serve_end = StillServing | ServerClosed | ServeFailed string

definition server_failed :: "serve_end \<Rightarrow> string option" where
  "server_failed e = (case e of ServeFailed why \<Rightarrow> Some why | _ \<Rightarrow> None)"

definition http_probe :: "string option \<Rightarrow> health_state \<times> string" where
  "http_probe failed = (case failed of None \<Rightarrow> (Healthy, []) | Some why \<Rightarrow> (Failed, why))"

definition storage_probe :: "string option \<Rightarrow> health_state \<times> string" where
  "storage_probe ping = (case ping of Some e \<Rightarrow> (Failed, e) | None \<Rightarrow> (Healthy, []))"

definition bus_probe :: "bool \<Rightarrow> health_state \<times> string" where
  "bus_probe bus_closed = (if bus_closed then (Failed, ''event bus closed'') else (Healthy, []))"

section \<open>Building\<close>

datatype part = LockPart | StorePart | BusPart | HttpPart

datatype app_event = Acquired part | Released part | Prepared | CutoverEnsured | Served

text \<open>\<open>ap_log\<close> is what happened outside the process memory, in order.\<close>

record app =
  ap_lock :: bool
  ap_store :: bool
  ap_bus :: bool
  ap_http :: bool
  ap_managed :: "string list"
  ap_watched :: "string list"
  ap_log :: "app_event list"

definition new_app :: app where
  "new_app = \<lparr>ap_lock = False, ap_store = False, ap_bus = False, ap_http = False, ap_managed = [], ap_watched = [],
     ap_log = []\<rparr>"

datatype outcome = Fine | Fails | Panics

datatype app_error = LockRefused | NoRegistry | NotPrepared | NoStore | NoCutover | BadRolloverTime | NoService
  | NoWebSocket | NoAssets | NotListening | FatalHealth reason | NotClosed part | AppPanic | ShutdownTimedOut

record app_env =
  en_lock :: outcome
  en_registry :: outcome
  en_prepare :: outcome
  en_store :: outcome
  en_cutover :: outcome
  en_core :: outcome
  en_rollover :: outcome
  en_manage :: outcome
  en_service :: outcome
  en_websocket :: outcome
  en_assets :: outcome
  en_server :: outcome
  en_listen :: outcome
  en_serve :: outcome
  en_cause :: "cause option"
  en_close :: "part \<Rightarrow> bool"

datatype step_result = StepOk | StepErr app_error | StepPanic

text \<open>A step is a row of calls: the first that fails ends it with an error, a panic unwinds.\<close>

fun calls :: "(outcome \<times> app_error \<times> (app \<Rightarrow> app)) list \<Rightarrow> app \<Rightarrow> step_result \<times> app" where
  "calls [] a = (StepOk, a)"
| "calls ((Fine, e, f) # cs) a = calls cs (f a)"
| "calls ((Fails, e, f) # cs) a = (StepErr e, a)"
| "calls ((Panics, e, f) # cs) a = (StepPanic, a)"

definition logged :: "app_event \<Rightarrow> app \<Rightarrow> app" where
  "logged ev a = a\<lparr>ap_log := ap_log a @ [ev]\<rparr>"

definition build_storage :: "app_env \<Rightarrow> app \<Rightarrow> step_result \<times> app" where
  "build_storage env = calls
     [(en_lock env, LockRefused, \<lambda>a. logged (Acquired LockPart) (a\<lparr>ap_lock := True\<rparr>)),
      (en_registry env, NoRegistry, id),
      (en_prepare env, NotPrepared, logged Prepared),
      (en_store env, NoStore, \<lambda>a. logged (Acquired StorePart) (a\<lparr>ap_store := True\<rparr>)),
      (en_cutover env, NoCutover, logged CutoverEnsured)]"

text \<open>Creating the decoder, the bus and the cache returns no error.\<close>

definition no_error :: "outcome \<Rightarrow> outcome" where
  "no_error c = (if c = Panics then Panics else Fine)"

definition build_core :: "app_env \<Rightarrow> app \<Rightarrow> step_result \<times> app" where
  "build_core env = calls
     [(no_error (en_core env), AppPanic, \<lambda>a. logged (Acquired BusPart) (a\<lparr>ap_bus := True\<rparr>))]"

definition name_modbus :: string where "name_modbus = ''modbus''"
definition name_poller :: string where "name_poller = ''poller''"
definition name_aggregator :: string where "name_aggregator = ''aggregator''"
definition name_hub :: string where "name_hub = ''websocket''"

definition build_supervisor :: "app_env \<Rightarrow> app \<Rightarrow> step_result \<times> app" where
  "build_supervisor env = calls
     [(en_rollover env, BadRolloverTime, id),
      (no_error (en_manage env), AppPanic,
        \<lambda>a. a\<lparr>ap_managed := ap_managed a @ [name_modbus, name_poller, name_aggregator]\<rparr>)]"

definition build_http :: "app_env \<Rightarrow> app \<Rightarrow> step_result \<times> app" where
  "build_http env = calls
     [(Fine, AppPanic, \<lambda>a. a\<lparr>ap_managed := ap_managed a @ [name_hub]\<rparr>),
      (en_service env, NoService, id), (en_websocket env, NoWebSocket, id), (en_assets env, NoAssets, id),
      (no_error (en_server env), AppPanic, \<lambda>a. logged (Acquired HttpPart) (a\<lparr>ap_http := True,
        ap_watched := ap_watched a @ [''storage'', ''eventbus'', ''http'']\<rparr>)),
      (en_listen env, NotListening, id)]"

fun run_steps :: "(app \<Rightarrow> step_result \<times> app) list \<Rightarrow> app \<Rightarrow> step_result \<times> app" where
  "run_steps [] a = (StepOk, a)"
| "run_steps (st # sts) a = (case st a of (StepOk, a) \<Rightarrow> run_steps sts a | (r, a) \<Rightarrow> (r, a))"

definition build :: "app_env \<Rightarrow> app \<Rightarrow> step_result \<times> app" where
  "build env = run_steps [build_storage env, build_core env, build_supervisor env, build_http env]"

section \<open>Serving and closing\<close>

text \<open>\<open>serve\<close> returns once the supervisor stopped the components and the database jobs ended: the cause of
  the root context decides.\<close>

definition serve :: "app_env \<Rightarrow> app \<Rightarrow> step_result \<times> app" where
  "serve env a = (if en_serve env = Panics then (StepPanic, a)
     else case en_cause env of Some (HealthFatal name why) \<Rightarrow> (StepErr (FatalHealth why), logged Served a)
       | _ \<Rightarrow> (StepOk, logged Served a))"

definition close_part :: "app_env \<Rightarrow> bool \<Rightarrow> part \<Rightarrow> app_error list \<times> app \<Rightarrow> app_error list \<times> app" where
  "close_part env present p s = (case s of (errs, a) \<Rightarrow> if \<not> present then (errs, a)
     else (if p = BusPart \<or> en_close env p then errs else errs @ [NotClosed p], logged (Released p) a))"

definition close_app :: "app_env \<Rightarrow> app \<Rightarrow> app_error list \<times> app" where
  "close_app env a = close_part env (ap_lock a) LockPart (close_part env (ap_store a) StorePart
     (close_part env (ap_bus a) BusPart (close_part env (ap_http a) HttpPart ([], a))))"

definition run_recovered :: "app_env \<Rightarrow> app_error list \<times> app" where
  "run_recovered env = (case (case build env new_app of (StepOk, a) \<Rightarrow> serve env a | s \<Rightarrow> s) of (r, a) \<Rightarrow>
     case close_app env a of (errs, a) \<Rightarrow>
     ((case r of StepOk \<Rightarrow> [] | StepErr e \<Rightarrow> [e] | StepPanic \<Rightarrow> [AppPanic]) @ errs, a))"

section \<open>The bound on the shutdown\<close>

definition shutdown_timeout :: int where "shutdown_timeout = 30 * ns_second"

text \<open>When the application run ends and with what, and when the shutdown begins: the instant at which
  \<open>awaitShutdown\<close> returns and its result, or nothing while neither happens. At the deadline itself the
  run's result is taken.\<close>

definition await_shutdown :: "int \<Rightarrow> (int \<times> app_error list) option \<Rightarrow> int option \<Rightarrow> (int \<times> app_error list) option" where
  "await_shutdown timeout ended stopping = (case stopping of
       None \<Rightarrow> ended
     | Some s \<Rightarrow> (case ended of
           Some (t, res) \<Rightarrow> if t \<le> s + timeout then Some (t, res) else Some (s + timeout, [ShutdownTimedOut])
         | None \<Rightarrow> Some (s + timeout, [ShutdownTimedOut])))"

section \<open>The process\<close>

datatype command = RunServer | RunBackfillJob "string list" | ShowUsage | ShowVersion | UnknownCommand string

definition command_of :: "string list \<Rightarrow> command" where
  "command_of args = (case args of [] \<Rightarrow> RunServer
     | c # rest \<Rightarrow> if c = ''serve'' then RunServer else if c = ''backfill'' then RunBackfillJob rest
         else if c = ''help'' then ShowUsage else if c = ''version'' then ShowVersion else UnknownCommand c)"

text \<open>\<open>serve\<close> of the command, \<open>runCommand\<close> and \<open>dispatch\<close>: exit codes, given what the server and the job
  return and what the flag library makes of the arguments.\<close>

definition serve_exit :: "app_error list \<Rightarrow> int" where
  "serve_exit errs = (if errs \<noteq> [] then 1 else 0)"

definition run_command :: "string list \<Rightarrow> app_error list \<Rightarrow> (string list \<Rightarrow> int) \<Rightarrow> int" where
  "run_command args served job = (case command_of args of
       RunServer \<Rightarrow> serve_exit served
     | RunBackfillJob rest \<Rightarrow> job rest
     | ShowUsage \<Rightarrow> 0 | ShowVersion \<Rightarrow> 0 | UnknownCommand c \<Rightarrow> 1)"

datatype 'a flags = HelpShown | BadFlags | Flags 'a

record job_options =
  jo_years :: int
  jo_force :: bool

definition run_backfill :: "job_options flags \<Rightarrow> (job_options \<Rightarrow> bool) \<Rightarrow> int" where
  "run_backfill parsed backfill_ok = (case parsed of HelpShown \<Rightarrow> 0 | BadFlags \<Rightarrow> 1
     | Flags opts \<Rightarrow> if \<not> backfill_ok opts then 1 else 0)"

definition dispatch :: "(bool \<times> string list) flags \<Rightarrow> app_error list \<Rightarrow> (string list \<Rightarrow> int) \<Rightarrow> int" where
  "dispatch parsed served job = (case parsed of HelpShown \<Rightarrow> 0 | BadFlags \<Rightarrow> 1
     | Flags (version, args) \<Rightarrow> run_command (if version then [''version''] else args) served job)"

section \<open>Everything built is released\<close>

definition acquired :: "app \<Rightarrow> part list" where
  "acquired a = concat (map (\<lambda>ev. case ev of Acquired p \<Rightarrow> [p] | _ \<Rightarrow> []) (ap_log a))"

definition released :: "app \<Rightarrow> part list" where
  "released a = concat (map (\<lambda>ev. case ev of Released p \<Rightarrow> [p] | _ \<Rightarrow> []) (ap_log a))"

text \<open>An app under construction: the parts it has, in the order of their creation.\<close>

definition parts_of :: "app \<Rightarrow> part list" where
  "parts_of a = (if ap_lock a then [LockPart] else []) @ (if ap_store a then [StorePart] else [])
     @ (if ap_bus a then [BusPart] else []) @ (if ap_http a then [HttpPart] else [])"

definition built :: "app \<Rightarrow> bool" where
  "built a \<longleftrightarrow> acquired a = parts_of a \<and> released a = [] \<and> (ap_store a \<longrightarrow> ap_lock a) \<and>
     (ap_bus a \<longrightarrow> ap_store a) \<and> (ap_http a \<longrightarrow> ap_bus a)"

lemma log_parts [simp]:
  "acquired (logged ev a) = acquired a @ (case ev of Acquired p \<Rightarrow> [p] | _ \<Rightarrow> [])"
  "released (logged ev a) = released a @ (case ev of Released p \<Rightarrow> [p] | _ \<Rightarrow> [])"
  "ap_lock (logged ev a) = ap_lock a" "ap_store (logged ev a) = ap_store a" "ap_bus (logged ev a) = ap_bus a"
  "ap_http (logged ev a) = ap_http a" "ap_managed (logged ev a) = ap_managed a" "ap_watched (logged ev a) = ap_watched a"
  by (simp_all add: acquired_def released_def logged_def)

lemma log_frame [simp]:
  "acquired (a\<lparr>ap_lock := b\<rparr>) = acquired a" "acquired (a\<lparr>ap_store := b\<rparr>) = acquired a"
  "acquired (a\<lparr>ap_bus := b\<rparr>) = acquired a" "acquired (a\<lparr>ap_http := b\<rparr>) = acquired a"
  "acquired (a\<lparr>ap_managed := ns\<rparr>) = acquired a" "acquired (a\<lparr>ap_watched := ns\<rparr>) = acquired a"
  "released (a\<lparr>ap_lock := b\<rparr>) = released a" "released (a\<lparr>ap_store := b\<rparr>) = released a"
  "released (a\<lparr>ap_bus := b\<rparr>) = released a" "released (a\<lparr>ap_http := b\<rparr>) = released a"
  "released (a\<lparr>ap_managed := ns\<rparr>) = released a" "released (a\<lparr>ap_watched := ns\<rparr>) = released a"
  by (simp_all add: acquired_def released_def)

lemma calls_first:
  "calls ((c, e, f) # cs) a = (case c of Fine \<Rightarrow> calls cs (f a) | Fails \<Rightarrow> (StepErr e, a) | Panics \<Rightarrow> (StepPanic, a))"
  by (cases c) auto

lemma run_steps_Cons: "run_steps (st # sts) a = (if fst (st a) = StepOk then run_steps sts (snd (st a)) else st a)"
  by (cases "st a"; cases "fst (st a)") auto

declare run_steps.simps(2) [simp del]

lemma built_new: "built new_app"
  by (simp add: built_def new_app_def parts_of_def acquired_def released_def)

lemma built_storage:
  assumes "built a" "\<not> ap_lock a" "\<not> ap_bus a" "\<not> ap_http a"
  shows "built (snd (build_storage env a))" "\<not> ap_bus (snd (build_storage env a))" "\<not> ap_http (snd (build_storage env a))"
    "fst (build_storage env a) = StepOk \<Longrightarrow> ap_store (snd (build_storage env a))"
    "ap_managed (snd (build_storage env a)) = ap_managed a" "ap_watched (snd (build_storage env a)) = ap_watched a"
  using assms unfolding build_storage_def calls_first
  by (auto simp: built_def parts_of_def split: outcome.splits if_splits)

lemma built_core:
  assumes "built a" "ap_store a" "\<not> ap_bus a" "\<not> ap_http a"
  shows "built (snd (build_core env a))" "\<not> ap_http (snd (build_core env a))"
    "fst (build_core env a) = StepOk \<Longrightarrow> ap_bus (snd (build_core env a))"
    "ap_store (snd (build_core env a)) = ap_store a"
    "ap_managed (snd (build_core env a)) = ap_managed a" "ap_watched (snd (build_core env a)) = ap_watched a"
  using assms unfolding build_core_def calls_first no_error_def
  by (auto simp: built_def parts_of_def split: outcome.splits if_splits)

lemma built_supervisor:
  assumes "built a" "\<not> ap_http a"
  shows "built (snd (build_supervisor env a))" "\<not> ap_http (snd (build_supervisor env a))"
    "ap_store (snd (build_supervisor env a)) = ap_store a" "ap_bus (snd (build_supervisor env a)) = ap_bus a"
    "fst (build_supervisor env a) = StepOk \<Longrightarrow>
      ap_managed (snd (build_supervisor env a)) = ap_managed a @ [name_modbus, name_poller, name_aggregator]"
    "ap_watched (snd (build_supervisor env a)) = ap_watched a"
  using assms unfolding build_supervisor_def calls_first no_error_def
  by (auto simp: built_def parts_of_def split: outcome.splits if_splits)

lemma built_http:
  assumes "built a" "ap_bus a" "\<not> ap_http a"
  shows "built (snd (build_http env a))"
    "fst (build_http env a) = StepOk \<Longrightarrow> ap_http (snd (build_http env a)) \<and>
      ap_managed (snd (build_http env a)) = ap_managed a @ [name_hub] \<and>
      ap_watched (snd (build_http env a)) = ap_watched a @ [''storage'', ''eventbus'', ''http'']"
    "ap_store (snd (build_http env a)) = ap_store a" "ap_bus (snd (build_http env a)) = ap_bus a"
  using assms unfolding build_http_def calls_first no_error_def
  by (auto simp: built_def parts_of_def split: outcome.splits if_splits)

lemma build_built:
  "built (snd (build env new_app))"
  "fst (build env new_app) = StepOk \<Longrightarrow> parts_of (snd (build env new_app)) = [LockPart, StorePart, BusPart, HttpPart] \<and>
    ap_managed (snd (build env new_app)) = [name_modbus, name_poller, name_aggregator, name_hub] \<and>
    ap_watched (snd (build env new_app)) = [''storage'', ''eventbus'', ''http'']"
proof -
  have n: "\<not> ap_lock new_app" "\<not> ap_bus new_app" "\<not> ap_http new_app" "ap_managed new_app = []" "ap_watched new_app = []"
    by (simp_all add: new_app_def)
  define a1 where "a1 = snd (build_storage env new_app)"
  define a2 where "a2 = snd (build_core env a1)"
  define a3 where "a3 = snd (build_supervisor env a2)"
  define a4 where "a4 = snd (build_http env a3)"
  note s = built_storage [OF built_new n(1-3), of env, folded a1_def]
  have c: "built a2 \<and> \<not> ap_http a2 \<and> ap_managed a2 = [] \<and> ap_watched a2 = [] \<and>
      (fst (build_core env a1) = StepOk \<longrightarrow> ap_bus a2)" if ok: "fst (build_storage env new_app) = StepOk"
    using built_core [OF s(1) s(4) [OF ok] s(2,3), of env, folded a2_def] s(5,6) n(4,5) by simp
  have v: "built a3 \<and> \<not> ap_http a3 \<and> ap_bus a3 \<and> ap_watched a3 = [] \<and>
      (fst (build_supervisor env a2) = StepOk \<longrightarrow> ap_managed a3 = [name_modbus, name_poller, name_aggregator])"
    if "fst (build_storage env new_app) = StepOk" "fst (build_core env a1) = StepOk"
    using built_supervisor [of a2 env, folded a3_def] c that by simp
  have v': "built a3" if "fst (build_storage env new_app) = StepOk"
    using built_supervisor(1) [of a2 env, folded a3_def] c that by simp
  have h: "built a4 \<and> (fst (build_http env a3) = StepOk \<longrightarrow> ap_http a4 \<and>
      ap_managed a4 = [name_modbus, name_poller, name_aggregator, name_hub] \<and>
      ap_watched a4 = [''storage'', ''eventbus'', ''http''])"
    if "fst (build_storage env new_app) = StepOk" "fst (build_core env a1) = StepOk" "fst (build_supervisor env a2) = StepOk"
    using built_http [of a3 env, folded a4_def] v that by simp
  have all: "build env new_app = (if fst (build_storage env new_app) \<noteq> StepOk then build_storage env new_app
      else if fst (build_core env a1) \<noteq> StepOk then build_core env a1
      else if fst (build_supervisor env a2) \<noteq> StepOk then build_supervisor env a2
      else if fst (build_http env a3) \<noteq> StepOk then build_http env a3 else (StepOk, a4))"
    by (simp add: build_def run_steps_Cons a1_def a2_def a3_def a4_def)
  show "built (snd (build env new_app))"
    using s(1) c v' h unfolding all by (simp add: a1_def [symmetric] a2_def [symmetric] a3_def [symmetric] a4_def [symmetric])
  assume "fst (build env new_app) = StepOk"
  then have ok: "fst (build_storage env new_app) = StepOk" "fst (build_core env a1) = StepOk"
    "fst (build_supervisor env a2) = StepOk" "fst (build_http env a3) = StepOk"
    unfolding all by (auto split: if_splits)
  then have "snd (build env new_app) = a4" unfolding all by simp
  moreover have "parts_of a4 = [LockPart, StorePart, BusPart, HttpPart]"
    using h ok by (simp add: built_def parts_of_def)
  ultimately show "parts_of (snd (build env new_app)) = [LockPart, StorePart, BusPart, HttpPart] \<and>
    ap_managed (snd (build env new_app)) = [name_modbus, name_poller, name_aggregator, name_hub] \<and>
    ap_watched (snd (build env new_app)) = [''storage'', ''eventbus'', ''http'']"
    using h ok by simp
qed

lemma close_app_log:
  "released (snd (close_app env a)) = released a @ rev (parts_of a)"
  "acquired (snd (close_app env a)) = acquired a"
  "fst (close_app env a) = [] \<longleftrightarrow> (\<forall>p \<in> set (parts_of a). p = BusPart \<or> en_close env p)"
  by (auto simp: close_app_def close_part_def parts_of_def)

lemma serve_log:
  "acquired (snd (serve env a)) = acquired a" "released (snd (serve env a)) = released a"
  "parts_of (snd (serve env a)) = parts_of a"
  by (auto simp: serve_def parts_of_def split: option.split cause.split)

text \<open>C17: Whatever fails or panics while the application is built or serves, everything that was created is
  released exactly once, in the reverse order of its creation, and nothing else: the server stops before the
  bus and the storage close, and the lock goes last. The run reports no error exactly when everything was
  built, serving ended without a fatal escalation or panic, and every release succeeded.\<close>

theorem run_releases_everything:
  assumes "run_recovered env = (errs, a)"
  shows "released a = rev (acquired a) \<and> distinct (acquired a) \<and>
    prefix (acquired a) [LockPart, StorePart, BusPart, HttpPart] \<and>
    (errs = [] \<longleftrightarrow> fst (build env new_app) = StepOk \<and> en_serve env \<noteq> Panics \<and>
      (\<forall>name why. en_cause env \<noteq> Some (HealthFatal name why)) \<and>
      (\<forall>p \<in> {LockPart, StorePart, HttpPart}. en_close env p))"
proof -
  obtain r b where rb: "(case build env new_app of (StepOk, a) \<Rightarrow> serve env a | s \<Rightarrow> s) = (r, b)" by fastforce
  have bt: "built (snd (build env new_app))" by (rule build_built)
  have b: "acquired b = parts_of b \<and> released b = [] \<and> prefix (parts_of b) [LockPart, StorePart, BusPart, HttpPart]"
  proof -
    have "acquired b = acquired (snd (build env new_app)) \<and> released b = released (snd (build env new_app)) \<and>
        parts_of b = parts_of (snd (build env new_app))"
      using rb serve_log [of env "snd (build env new_app)"]
      by (cases "build env new_app"; cases "fst (build env new_app)") auto
    then show ?thesis using bt by (auto simp: built_def parts_of_def)
  qed
  have e: "errs = (case r of StepOk \<Rightarrow> [] | StepErr e \<Rightarrow> [e] | StepPanic \<Rightarrow> [AppPanic]) @ fst (close_app env b)"
    "a = snd (close_app env b)"
    using assms by (auto simp: run_recovered_def rb split: prod.splits)
  have d: "distinct (parts_of b)" by (simp add: parts_of_def)
  have r: "r = StepOk \<longleftrightarrow> fst (build env new_app) = StepOk \<and> en_serve env \<noteq> Panics \<and>
      (\<forall>name why. en_cause env \<noteq> Some (HealthFatal name why))"
    using rb by (cases "build env new_app"; cases "fst (build env new_app)")
      (auto simp: serve_def split: if_splits option.splits cause.splits)
  have "errs = [] \<longleftrightarrow> r = StepOk \<and> (\<forall>p \<in> set (parts_of b). p = BusPart \<or> en_close env p)"
    by (simp add: e(1) close_app_log(3) split: step_result.split)
  also have "\<dots> \<longleftrightarrow> r = StepOk \<and> (\<forall>p \<in> {LockPart, StorePart, HttpPart}. en_close env p)"
  proof -
    have "parts_of b = [LockPart, StorePart, BusPart, HttpPart]" if "r = StepOk"
      using that rb build_built(2) [of env] serve_log(3) [of env "snd (build env new_app)"] r
      by (cases "build env new_app") auto
    then show ?thesis by auto
  qed
  finally show ?thesis using b d e(2) r close_app_log(1,2) by auto
qed

text \<open>The shutdown is bounded: once it begins the process has a result within the timeout, whatever hangs,
  and the result is the run's own unless the run did not finish in time; before it begins the result is
  the run's. A run without errors, and only that, ends the server process with exit code 0.\<close>

theorem shutdown_bounded:
  assumes "0 \<le> timeout" "stopping = Some s" "\<And>t res. ended = Some (t, res) \<Longrightarrow> 0 \<le> t"
  shows "\<exists>t res. await_shutdown timeout ended stopping = Some (t, res) \<and> t \<le> s + timeout \<and>
    (res = [ShutdownTimedOut] \<or> ended = Some (t, res)) \<and>
    ((\<exists>t0 res0. ended = Some (t0, res0) \<and> t0 \<le> s + timeout) \<longrightarrow> ended = Some (t, res)) \<and>
    (dispatch (Flags (False, [])) res job = 0 \<longleftrightarrow> res = [])"
  using assms by (auto simp: await_shutdown_def dispatch_def run_command_def command_of_def serve_exit_def split: option.splits)

section \<open>Examples\<close>

theorem jobs_run_alone_witness:
  "let ls = snd (acquire_exclusive (\<lambda>_. None) \<lparr>le_mkdir = True, le_open = True, le_flock = True\<rparr> ''solis.db'' 7 (\<lambda>_. [])) in
    ls ''solis.db.lock'' = [(7, ExclusiveLock)]"
proof -
  define ls where "ls = snd (acquire_exclusive (\<lambda>_. None) \<lparr>le_mkdir = True, le_open = True, le_flock = True\<rparr>
      ''solis.db'' 7 (\<lambda>_. []))"
  have "locks_step (\<lambda>_. None) (\<lambda>_. []) ls" unfolding ls_def by (rule locks_step.job)
  then have "(locks_step (\<lambda>_. None))\<^sup>*\<^sup>* (\<lambda>_. []) ls" by blast
  moreover have "(7, ExclusiveLock) \<in> set (ls (lock_path (\<lambda>_. None) ''solis.db''))"
    by (simp add: ls_def acquire_exclusive_def acquire_def conflicts_def Let_def)
  ultimately have "ls (lock_path (\<lambda>_. None) ''solis.db'') = [(7, ExclusiveLock)]"
    by (rule jobs_run_alone [THEN conjunct1])
  then show ?thesis unfolding Let_def ls_def [symmetric] by (simp add: lock_path_def)
qed

text \<open>The port is taken: everything before the server exists and is released again.\<close>

definition busy_port :: app_env where
  "busy_port = \<lparr>en_lock = Fine, en_registry = Fine, en_prepare = Fine, en_store = Fine, en_cutover = Fine,
     en_core = Fine, en_rollover = Fine, en_manage = Fine, en_service = Fine, en_websocket = Fine, en_assets = Fine,
     en_server = Fine, en_listen = Fails, en_serve = Fine, en_cause = None, en_close = (\<lambda>_. True)\<rparr>"

theorem run_releases_everything_witness:
  "released (snd (run_recovered busy_port)) = [HttpPart, BusPart, StorePart, LockPart] \<and>
   fst (run_recovered busy_port) \<noteq> []"
proof -
  obtain errs a where r: "run_recovered busy_port = (errs, a)" by fastforce
  have "acquired (snd (run_recovered busy_port)) = [LockPart, StorePart, BusPart, HttpPart]" by code_simp
  moreover have "fst (build busy_port new_app) \<noteq> StepOk" by code_simp
  ultimately show ?thesis using run_releases_everything [OF r] r by simp
qed

theorem shutdown_bounded_witness:
  "\<exists>t res. await_shutdown shutdown_timeout None (Some 5) = Some (t, res) \<and> t \<le> 5 + 30 * ns_second"
proof -
  have "0 \<le> shutdown_timeout" by (simp add: shutdown_timeout_def)
  then show ?thesis
    using shutdown_bounded [of shutdown_timeout "Some 5" 5 None] unfolding shutdown_timeout_def by blast
qed

end
