(* ===== verification/Socket.thy ===== *)
theory Socket
  imports Hub
begin

text \<open>
  internal/websocket/handler.go, the pumps of client.go and the Start, Stop and Register of hub.go:
  the life of one connection and of the hub's goroutine, as steps that interleave in any order.
  What the hub does with commands and events is theory \<open>Hub\<close>; here a client is a member of the
  hub's map or not. The environment breaks connections (the peer leaves, a deadline passes), drops
  clients (a full queue, no activity) and ends the hub. The frames are left to the gorilla library;
  the check of the origin, which rests on the parsing of URLs and Unicode folding, is not modelled.
\<close>

section \<open>The request\<close>

datatype upgrade_result = Unavailable | UpgradeRejected | Upgraded nat

definition serve_http :: "nat option \<Rightarrow> bool \<Rightarrow> upgrade_result" where
  "serve_http current upgraded = (case current of None \<Rightarrow> Unavailable
     | Some h \<Rightarrow> if \<not> upgraded then UpgradeRejected else Upgraded h)"

section \<open>One connection\<close>

text \<open>\<open>ServeHTTP\<close> has upgraded the connection, then hands the client to the hub and waits for its answer. The
  pumps are idle until they start.\<close>

datatype serve_place = HandsOver | Waits bool | Returned

datatype read_place = ReadIdle | Reading | Leaving | ReadOver

datatype write_place = WriteIdle | Writing | WriteOver

record sock =
  so_hub :: bool
  so_member :: bool
  so_serve :: serve_place
  so_closed :: bool
  so_open :: bool
  so_broken :: bool
  so_read :: read_place
  so_write :: write_place

definition new_sock :: "bool \<Rightarrow> sock" where
  "new_sock running = \<lparr>so_hub = running, so_member = False, so_serve = HandsOver, so_closed = False, so_open = True,
     so_broken = False, so_read = ReadIdle, so_write = WriteIdle\<rparr>"

text \<open>The operation that \<open>Register\<close> hands to the loop, and what \<open>ServeHTTP\<close> makes of the answer.\<close>

definition register_op :: "nat \<Rightarrow> sock \<Rightarrow> sock" where
  "register_op members s = (let ok = members < max_clients in s\<lparr>so_member := ok, so_serve := Waits ok\<rparr>)"

definition serve_answered :: "bool \<Rightarrow> sock \<Rightarrow> sock" where
  "serve_answered ok s = (if ok then s\<lparr>so_serve := Returned, so_read := Reading, so_write := Writing\<rparr>
     else s\<lparr>so_serve := Returned, so_open := False\<rparr>)"

definition serve_hub_stopped :: "sock \<Rightarrow> sock" where
  "serve_hub_stopped s = s\<lparr>so_serve := Returned, so_open := False\<rparr>"

text \<open>\<open>unregisterClient\<close> by a hub that runs; a stopped one takes no operation.\<close>

definition unregister :: "sock \<Rightarrow> sock" where
  "unregister s = (if so_hub s \<and> so_member s then s\<lparr>so_member := False, so_closed := True\<rparr> else s)"

definition read_over :: "sock \<Rightarrow> sock" where
  "read_over s = (unregister s)\<lparr>so_read := ReadOver, so_open := False\<rparr>"

definition write_over :: "sock \<Rightarrow> sock" where
  "write_over s = s\<lparr>so_write := WriteOver, so_open := False\<rparr>"

inductive prog :: "sock \<Rightarrow> sock \<Rightarrow> bool" where
  registered: "so_serve s = HandsOver \<Longrightarrow> so_hub s \<Longrightarrow> prog s (register_op members s)"
| answered: "so_serve s = Waits ok \<Longrightarrow> prog s (serve_answered ok s)"
| stopped: "so_serve s \<noteq> Returned \<Longrightarrow> \<not> so_hub s \<Longrightarrow> prog s (serve_hub_stopped s)"
| read_fails: "so_read s = Reading \<Longrightarrow> so_broken s \<or> \<not> so_open s \<Longrightarrow> prog s (s\<lparr>so_read := Leaving\<rparr>)"
| leaves: "so_read s = Leaving \<Longrightarrow> prog s (read_over s)"
| write_fails: "so_write s = Writing \<Longrightarrow> so_broken s \<or> \<not> so_open s \<Longrightarrow> prog s (write_over s)"
| write_closed: "so_write s = Writing \<Longrightarrow> so_closed s \<Longrightarrow> prog s (write_over s)"

inductive sock_step :: "sock \<Rightarrow> sock \<Rightarrow> bool" where
  prog: "prog s s' \<Longrightarrow> sock_step s s'"
| breaks: "sock_step s (s\<lparr>so_broken := True\<rparr>)"
| dropped: "so_hub s \<Longrightarrow> so_member s \<Longrightarrow> sock_step s (s\<lparr>so_member := False, so_closed := True\<rparr>)"
| hub_ends: "so_hub s \<Longrightarrow> sock_step s (s\<lparr>so_hub := False, so_closed := (so_closed s \<or> so_member s)\<rparr>)"

text \<open>A connection that is served, and one that left nothing behind.\<close>

definition serving :: "sock \<Rightarrow> bool" where
  "serving s \<longleftrightarrow> so_serve s = Returned \<and> so_read s = Reading \<and> so_write s = Writing \<and> so_open s \<and> so_hub s \<and>
     so_member s \<and> \<not> so_closed s \<and> \<not> so_broken s"

definition cleaned :: "sock \<Rightarrow> bool" where
  "cleaned s \<longleftrightarrow> so_serve s = Returned \<and> so_read s \<in> {ReadIdle, ReadOver} \<and> so_write s \<in> {WriteIdle, WriteOver} \<and>
     \<not> so_open s \<and> (so_hub s \<longrightarrow> \<not> so_member s)"

definition sock_inv :: "sock \<Rightarrow> bool" where
  "sock_inv s \<longleftrightarrow> (so_read s = ReadIdle \<longleftrightarrow> so_write s = WriteIdle) \<and> (so_read s \<noteq> ReadIdle \<longrightarrow> so_serve s = Returned) \<and>
     (so_serve s = Waits True \<or> so_read s \<noteq> ReadIdle \<longrightarrow> so_hub s \<and> so_member s \<or> so_closed s) \<and>
     (so_hub s \<and> so_member s \<longrightarrow> \<not> so_closed s \<and> (so_serve s = Waits True \<or> so_read s \<in> {Reading, Leaving})) \<and>
     (so_write s = WriteOver \<or> so_read s = ReadOver \<longrightarrow> \<not> so_open s) \<and>
     (so_serve s = Returned \<and> so_read s = ReadIdle \<longrightarrow> \<not> so_open s) \<and>
     (so_serve s = HandsOver \<longrightarrow> \<not> so_closed s \<and> \<not> so_member s)"

lemma prog_inv: "prog s s' \<Longrightarrow> sock_inv s \<Longrightarrow> sock_inv s'"
  apply (induction rule: prog.induct)
  subgoal by (clarsimp simp: sock_inv_def register_op_def Let_def)
  subgoal for s ok by (cases ok) (auto simp: sock_inv_def serve_answered_def)
  subgoal by (auto simp: sock_inv_def serve_hub_stopped_def)
  subgoal by (auto simp: sock_inv_def)
  subgoal by (auto simp: sock_inv_def read_over_def unregister_def)
  subgoal by (auto simp: sock_inv_def write_over_def)
  subgoal by (auto simp: sock_inv_def write_over_def)
  done

lemma sock_step_inv: "sock_step s s' \<Longrightarrow> sock_inv s \<Longrightarrow> sock_inv s'"
proof (induction rule: sock_step.induct)
  case (prog s s')
  then show ?case by (rule prog_inv)
next
  case (breaks s)
  then show ?case by (simp add: sock_inv_def)
next
  case (dropped s)
  then show ?case by (cases "so_read s"; cases "so_serve s") (simp_all add: sock_inv_def)
next
  case (hub_ends s)
  then show ?case by (cases "so_member s"; cases "so_read s"; cases "so_serve s") (simp_all add: sock_inv_def)
qed

lemma sock_run_inv: "sock_step\<^sup>*\<^sup>* (new_sock running) s \<Longrightarrow> sock_inv s"
proof (induction rule: rtranclp_induct)
  case (step y z)
  then show ?case by (intro sock_step_inv [OF step.hyps(2)])
qed (simp add: new_sock_def sock_inv_def)

text \<open>The steps of the program are few.\<close>

definition rank :: "sock \<Rightarrow> nat" where
  "rank s = (case so_serve s of HandsOver \<Rightarrow> 5 | Waits _ \<Rightarrow> 4 | Returned \<Rightarrow> 0)
     + (case so_read s of Reading \<Rightarrow> 2 | Leaving \<Rightarrow> 1 | _ \<Rightarrow> 0) + (if so_write s = Writing then 1 else 0)"

lemma prog_rank: "prog s s' \<Longrightarrow> sock_inv s \<Longrightarrow> rank s' < rank s"
  apply (induction rule: prog.induct)
  subgoal by (simp add: rank_def register_op_def Let_def)
  subgoal for s ok by (cases ok) (auto simp: rank_def sock_inv_def serve_answered_def)
  subgoal for s by (cases "so_serve s") (auto simp: rank_def serve_hub_stopped_def)
  subgoal by (simp add: rank_def)
  subgoal by (simp add: rank_def read_over_def unregister_def)
  subgoal by (simp add: rank_def write_over_def)
  subgoal by (simp add: rank_def write_over_def)
  done

lemma prog_run_inv: "prog\<^sup>*\<^sup>* s s' \<Longrightarrow> sock_inv s \<Longrightarrow> sock_inv s'"
proof (induction rule: rtranclp_induct)
  case (step y z)
  then show ?case by (intro prog_inv [OF step.hyps(2)])
qed

lemma stuck_cleaned:
  assumes "sock_inv s" "\<nexists>s'. prog s s'"
  shows "cleaned s \<or> serving s"
proof -
  have "so_serve s = Returned"
  proof (cases "so_serve s")
    case HandsOver then show ?thesis using assms(2) prog.registered prog.stopped by (cases "so_hub s") blast+
  next
    case (Waits ok) then show ?thesis using assms(2) prog.answered by blast
  qed
  moreover have "so_read s \<noteq> Leaving" using assms(2) prog.leaves by blast
  moreover have "\<not> so_broken s \<and> so_open s" if "so_read s = Reading" using assms(2) that prog.read_fails by blast
  moreover have "\<not> so_broken s \<and> so_open s \<and> \<not> so_closed s" if "so_write s = Writing"
    using assms(2) that prog.write_fails prog.write_closed by blast
  ultimately show ?thesis using assms(1)
    by (cases "so_read s"; cases "so_write s") (auto simp: sock_inv_def cleaned_def serving_def)
qed

lemma prog_ends:
  assumes "sock_inv s"
  shows "\<exists>s'. prog\<^sup>*\<^sup>* s s' \<and> (\<nexists>s''. prog s' s'')"
  using assms
proof (induction "rank s" arbitrary: s rule: less_induct)
  case less
  show ?case
  proof (cases "\<exists>s'. prog s s'")
    case True
    then obtain s1 where s1: "prog s s1" by blast
    have "sock_inv s1" by (rule prog_inv [OF s1 less.prems])
    then show ?thesis using less.hyps [OF prog_rank [OF s1 less.prems]] s1
      by (meson converse_rtranclp_into_rtranclp)
  qed blast
qed

text \<open>C22: No connection leaks, whatever interleaves: from every reachable state the program's own steps are
  finitely many, and once none is left the connection is either still served - a member of a running hub, with
  both pumps running and neither closed nor broken - or cleaned up: the handler returned, both pumps ended, the
  connection is closed and the client is not in the hub's map. A broken, dropped or hub-less connection is always
  cleaned up.\<close>

theorem connection_never_leaks:
  assumes "sock_step\<^sup>*\<^sup>* (new_sock running) s"
  shows "(\<exists>s'. prog\<^sup>*\<^sup>* s s' \<and> (\<nexists>s''. prog s' s'')) \<and>
    (\<forall>s'. prog s s' \<longrightarrow> rank s' < rank s) \<and>
    (\<forall>s'. prog\<^sup>*\<^sup>* s s' \<and> (\<nexists>s''. prog s' s'') \<longrightarrow> cleaned s' \<or> serving s') \<and>
    (so_broken s \<or> so_closed s \<or> \<not> so_hub s \<longrightarrow> (\<forall>s'. prog\<^sup>*\<^sup>* s s' \<and> (\<nexists>s''. prog s' s'') \<longrightarrow> cleaned s'))"
proof -
  have inv: "sock_inv s" using assms by (rule sock_run_inv)
  have keep: "so_broken s' \<or> so_closed s' \<or> \<not> so_hub s'"
    if "prog\<^sup>*\<^sup>* s s'" "so_broken s \<or> so_closed s \<or> \<not> so_hub s" for s'
    using that
  proof (induction rule: rtranclp_induct)
    case (step y z)
    from step.hyps(2) step.IH [OF step.prems] show ?case
      by (induction rule: prog.induct) (auto simp: register_op_def serve_answered_def serve_hub_stopped_def
        read_over_def unregister_def write_over_def Let_def)
  qed
  have "\<not> serving s'" if "so_broken s' \<or> so_closed s' \<or> \<not> so_hub s'" for s' using that by (auto simp: serving_def)
  then show ?thesis
    using inv keep prog_ends [OF inv] prog_rank [OF _ inv] stuck_cleaned [OF prog_run_inv [OF _ inv]] by blast
qed

section \<open>The hub's goroutine\<close>

text \<open>The channel \<open>done\<close> exists from the start and is closed by the loop, or by a Stop that comes before Start;
  closing it twice would panic, so the closes are counted.\<close>

record hub_life =
  hl_stopped :: bool
  hl_cancel :: bool
  hl_ended :: bool
  hl_closes :: nat
  hl_waits :: bool
  hl_loops :: nat
  hl_subs :: nat

definition new_hub_life :: hub_life where
  "new_hub_life = \<lparr>hl_stopped = False, hl_cancel = False, hl_ended = False, hl_closes = 0, hl_waits = False,
     hl_loops = 0, hl_subs = 0\<rparr>"

definition hub_run_start :: "bool \<Rightarrow> hub_life \<Rightarrow> bool \<times> hub_life" where
  "hub_run_start bus_closed h = (if hl_stopped h \<or> hl_cancel h then (True, h)
     else if bus_closed then (False, h)
     else (True, h\<lparr>hl_cancel := True, hl_subs := hl_subs h + 1, hl_loops := hl_loops h + 1\<rparr>))"

definition hub_run_stop :: "hub_life \<Rightarrow> hub_life" where
  "hub_run_stop h = (if hl_stopped h then h
     else if \<not> hl_cancel h then h\<lparr>hl_stopped := True, hl_closes := hl_closes h + 1\<rparr>
     else h\<lparr>hl_stopped := True, hl_ended := True, hl_waits := True\<rparr>)"

text \<open>The loop closes \<open>done\<close> when it returns, then the goroutine releases its subscription.\<close>

definition hub_loop_end :: "hub_life \<Rightarrow> hub_life" where
  "hub_loop_end h = h\<lparr>hl_closes := hl_closes h + 1, hl_loops := hl_loops h - 1\<rparr>"

inductive hub_life_step :: "hub_life \<Rightarrow> hub_life \<Rightarrow> bool" where
  start: "hub_life_step h (snd (hub_run_start bus_closed h))"
| stop: "hub_life_step h (hub_run_stop h)"
| parent: "hl_cancel h \<Longrightarrow> hub_life_step h (h\<lparr>hl_ended := True\<rparr>)"
| loop_ends: "0 < hl_loops h \<Longrightarrow> hl_ended h \<Longrightarrow> hub_life_step h (hub_loop_end h)"
| unsub: "0 < hl_subs h \<Longrightarrow> hl_loops h = 0 \<Longrightarrow> hub_life_step h (h\<lparr>hl_subs := hl_subs h - 1\<rparr>)"
| stop_returns: "hl_waits h \<Longrightarrow> 0 < hl_closes h \<Longrightarrow> hub_life_step h (h\<lparr>hl_waits := False\<rparr>)"

definition hub_life_inv :: "hub_life \<Rightarrow> bool" where
  "hub_life_inv h \<longleftrightarrow> hl_loops h + hl_closes h = (if hl_cancel h \<or> hl_stopped h then 1 else 0) \<and>
     (hl_waits h \<longrightarrow> hl_stopped h \<and> hl_cancel h \<and> hl_ended h) \<and> (0 < hl_loops h \<longrightarrow> hl_cancel h) \<and>
     (hl_stopped h \<and> \<not> hl_waits h \<longrightarrow> hl_closes h = 1) \<and>
     (0 < hl_loops h \<longrightarrow> hl_subs h = 1) \<and> hl_subs h \<le> (if hl_cancel h then 1 else 0)"

lemma hub_life_step_inv: "hub_life_step h h' \<Longrightarrow> hub_life_inv h \<Longrightarrow> hub_life_inv h'"
  apply (induction rule: hub_life_step.induct)
  subgoal for h by (cases "hl_stopped h"; cases "hl_cancel h") (simp_all add: hub_life_inv_def hub_run_start_def)
  subgoal for h by (cases "hl_stopped h"; cases "hl_cancel h") (simp_all add: hub_life_inv_def hub_run_stop_def)
  subgoal by (simp add: hub_life_inv_def)
  subgoal for h by (cases "hl_stopped h"; cases "hl_cancel h"; cases "hl_waits h")
    (simp_all add: hub_life_inv_def hub_loop_end_def)
  subgoal for h by (cases "hl_cancel h") (simp_all add: hub_life_inv_def)
  subgoal for h by (cases "hl_cancel h"; cases "hl_stopped h") (simp_all add: hub_life_inv_def)
  done

text \<open>The hub's channel is closed at most once, at most one loop and one subscription exist, and a Stop that
  returned leaves no loop behind.\<close>

lemma hub_stops_cleanly:
  assumes "hub_life_step\<^sup>*\<^sup>* new_hub_life h"
  shows "hl_closes h \<le> 1" "hl_loops h \<le> 1" "hl_subs h \<le> 1"
    "hl_stopped h \<Longrightarrow> \<not> hl_waits h \<Longrightarrow> hl_loops h = 0 \<and> hl_closes h = 1"
proof -
  have "hub_life_inv h" using assms
  proof (induction rule: rtranclp_induct)
    case (step y z)
    then show ?case by (intro hub_life_step_inv [OF step.hyps(2)])
  qed (simp add: hub_life_inv_def new_hub_life_def)
  then show "hl_closes h \<le> 1" "hl_loops h \<le> 1" "hl_subs h \<le> 1"
    "hl_stopped h \<Longrightarrow> \<not> hl_waits h \<Longrightarrow> hl_loops h = 0 \<and> hl_closes h = 1"
    by (auto simp: hub_life_inv_def split: if_splits)
qed

section \<open>Keeping a connection alive\<close>

definition write_wait :: int where "write_wait = 10000000000"
definition pong_wait :: int where "pong_wait = 60000000000"
definition ping_margin_divisor :: int where "ping_margin_divisor = 10"
definition ping_period :: int where "ping_period = pong_wait - pong_wait div ping_margin_divisor"

text \<open>A peer that answers every ping within a tenth of the deadline never meets it, and is never stale.\<close>

lemma answering_peer_stays:
  assumes "\<forall>k. 0 \<le> delay k \<and> delay k \<le> pong_wait div ping_margin_divisor"
  shows "start + int (Suc k) * ping_period + delay k \<le> start + pong_wait + int k * ping_period"
    "start + int (Suc (Suc k)) * ping_period + delay (Suc k) \<le> (start + int (Suc k) * ping_period + delay k) + pong_wait"
    "pong_wait \<le> stale_client_timeout"
  using assms [THEN spec, of k] assms [THEN spec, of "Suc k"]
  by (simp_all add: ping_period_def pong_wait_def ping_margin_divisor_def stale_client_timeout_def algebra_simps)

theorem connection_never_leaks_witness:
  "\<exists>s. prog\<^sup>*\<^sup>* ((new_sock True)\<lparr>so_broken := True\<rparr>) s \<and> cleaned s"
proof -
  have "sock_step\<^sup>*\<^sup>* (new_sock True) ((new_sock True)\<lparr>so_broken := True\<rparr>)"
    by (rule r_into_rtranclp [of sock_step, OF sock_step.breaks])
  from connection_never_leaks [OF this] show ?thesis by auto
qed

end
