(* ===== verification/Opening.thy ===== *)
theory Opening
  imports Migration Cleanup Config
begin

text \<open>
  Opening the database and its schedules: New, open and the schema of internal/storage/storage.go,
  the schedules of database/manager.go (\<open>every\<close>, RunPeriodicBackups, RunPeriodicCleanup), and the
  environment that app/backfill.go builds for the maintenance job. Connections are counted, since
  a connection that stays open would hold the database while a job or the next start needs it.
\<close>

section \<open>The schema\<close>

text \<open>A statement creates a table with its columns and unique keys, or an index, unless the name is taken.\<close>

datatype ddl = CreateTable string "string list" "string list list" | CreateIndex string string "string list"

fun ddl_name :: "ddl \<Rightarrow> string" where
  "ddl_name (CreateTable n cols keys) = n"
| "ddl_name (CreateIndex n t cols) = n"

definition v3_meta_table :: ddl where
  "v3_meta_table = CreateTable ''meta'' [''key'', ''value''] [[''key'']]"

definition schema_sql :: "ddl list" where
  "schema_sql = [
     CreateTable ''daily_values'' [''id'', ''date'', ''register_key'', ''value'', ''raw_value'']
       [[''id''], [''register_key'', ''date'']],
     CreateIndex ''idx_daily_key_date'' ''daily_values'' [''register_key'', ''date''],
     CreateIndex ''idx_daily_date'' ''daily_values'' [''date''],
     CreateTable ''monthly_values'' [''id'', ''month'', ''register_key'', ''value'', ''raw_value'']
       [[''id''], [''register_key'', ''month'']],
     CreateIndex ''idx_monthly_key_month'' ''monthly_values'' [''register_key'', ''month''],
     CreateIndex ''idx_monthly_month'' ''monthly_values'' [''month''],
     CreateTable ''yearly_values'' [''id'', ''year'', ''register_key'', ''value'', ''raw_value'']
       [[''id''], [''register_key'', ''year'']],
     CreateIndex ''idx_yearly_key_year'' ''yearly_values'' [''register_key'', ''year''],
     CreateIndex ''idx_yearly_year'' ''yearly_values'' [''year''],
     CreateTable ''total_values'' [''id'', ''register_key'', ''value'', ''raw_value'', ''timestamp'']
       [[''id''], [''register_key'']],
     CreateIndex ''idx_total_key'' ''total_values'' [''register_key''],
     CreateTable ''error_data'' [''id'', ''timestamp'', ''register_key'', ''raw_value'', ''string_value'']
       [[''id''], [''register_key'', ''timestamp'']],
     CreateIndex ''idx_error_key_timestamp'' ''error_data'' [''register_key'', ''timestamp''],
     CreateIndex ''idx_error_timestamp'' ''error_data'' [''timestamp''],
     v3_meta_table]"

definition exec_ddl :: "ddl \<Rightarrow> ddl list \<Rightarrow> ddl list" where
  "exec_ddl d sch = (if ddl_name d \<in> ddl_name ` set sch then sch else sch @ [d])"

text \<open>\<open>initSchema\<close> in one transaction: a statement that fails (the first fault), or the commit, leaves the
  schema as it was.\<close>

fun run_ddl :: "bool list \<Rightarrow> ddl list \<Rightarrow> ddl list \<Rightarrow> ddl list option" where
  "run_ddl faults [] sch = Some sch"
| "run_ddl (True # fs) (d # ds) sch = None"
| "run_ddl (False # fs) (d # ds) sch = run_ddl fs ds (exec_ddl d sch)"
| "run_ddl [] (d # ds) sch = run_ddl [] ds (exec_ddl d sch)"

definition init_schema :: "bool list \<Rightarrow> bool \<Rightarrow> ddl list \<Rightarrow> bool \<times> ddl list" where
  "init_schema faults commits sch = (case run_ddl faults schema_sql sch of None \<Rightarrow> (False, sch)
     | Some sch' \<Rightarrow> if commits then (True, sch') else (False, sch))"

section \<open>Opening the storage\<close>

record open_env =
  oe_mkdir :: bool
  oe_open :: bool
  oe_ping :: bool
  oe_close :: bool
  oe_faults :: "bool list"
  oe_commits :: bool

datatype open_error = NoDirectory | NotOpened | NoPing | NoSchema | NoMeta storage_error | CloseFailed

text \<open>The file as the connection sees it, and how many connections the process has.\<close>

record site =
  si_db :: db
  si_schema :: "ddl list"
  si_conns :: nat

definition close_conn :: "open_env \<Rightarrow> open_error \<Rightarrow> site \<Rightarrow> (open_error list + meta) \<times> site" where
  "close_conn env e s = (Inl (if oe_close env then [e] else [e, CloseFailed]), s\<lparr>si_conns := si_conns s - 1\<rparr>)"

definition open_database :: "open_env \<Rightarrow> storage_settings \<Rightarrow> site \<Rightarrow> open_error list \<times> site" where
  "open_database env cfg s = (let dir = path_dir (ss_path cfg) in
     if dir \<noteq> [] \<and> dir \<noteq> ''.'' \<and> \<not> oe_mkdir env then ([NoDirectory], s)
     else if \<not> oe_open env then ([NotOpened], s)
     else let s = s\<lparr>si_conns := si_conns s + 1\<rparr> in
       if \<not> oe_ping env then (if oe_close env then [NoPing] else [NoPing, CloseFailed], s\<lparr>si_conns := si_conns s - 1\<rparr>)
       else ([], s))"

definition new_storage :: "open_env \<Rightarrow> storage_settings \<Rightarrow> site \<Rightarrow> (open_error list + meta) \<times> site" where
  "new_storage env cfg s = (case open_database env cfg s of (errs, s) \<Rightarrow>
     if errs \<noteq> [] then (Inl errs, s)
     else case init_schema (oe_faults env) (oe_commits env) (si_schema s) of (ok, sch) \<Rightarrow>
       let s = s\<lparr>si_schema := sch\<rparr> in
       if \<not> ok then close_conn env NoSchema s
       else case load_meta (si_db s) of Inl e \<Rightarrow> close_conn env (NoMeta e) s | Inr m \<Rightarrow> (Inr m, s))"

section \<open>Schedules\<close>

text \<open>\<open>every\<close>: the call at the start when there is one, then one call for each tick; a call is given what the
  environment answers it.\<close>

definition every :: "bool \<Rightarrow> ('e \<Rightarrow> 's \<Rightarrow> 's) \<Rightarrow> 'e \<Rightarrow> 'e list \<Rightarrow> 's \<Rightarrow> 's" where
  "every now fn first ticks s = fold fn ticks (if now then fn first s else s)"

record cleanup_call =
  cc_now :: int
  cc_periods :: "bool list"
  cc_status :: "bool list"
  cc_vacuum :: bool

definition cleanup_tick :: "Cleanup.settings \<Rightarrow> zone \<Rightarrow> cleanup_call \<Rightarrow> store \<Rightarrow> store" where
  "cleanup_tick cfg z c s = snd (cleanup_all cfg z (cc_now c) (cc_periods c) (cc_status c) (cc_vacuum c) s)"

definition run_periodic_cleanup :: "int \<Rightarrow> Cleanup.settings \<Rightarrow> zone \<Rightarrow> cleanup_call \<Rightarrow> cleanup_call list \<Rightarrow> store \<Rightarrow> store" where
  "run_periodic_cleanup interval cfg z first ticks s = (if interval \<le> 0 then s
     else every True (cleanup_tick cfg z) first ticks s)"

definition run_periodic_backups :: "zone \<Rightarrow> backup_config \<Rightarrow> string \<Rightarrow> (copy_env \<times> int) \<Rightarrow> (copy_env \<times> int) list \<Rightarrow> disk \<Rightarrow> disk" where
  "run_periodic_backups loc cfg path first ticks dk = (if \<not> periodic_backups cfg then dk
     else every False (\<lambda>(env, now). backup_tick loc env cfg path now) first ticks dk)"

section \<open>The environment of the maintenance job\<close>

definition backfill_backup_config :: "int storage_section \<Rightarrow> backup_config" where
  "backfill_backup_config st = \<lparr>bc_enabled = True, bc_max = st_max_backups st, bc_interval = 0\<rparr>"

datatype job_backup_error = JobBackup backup_error | JobRotation dir_error

definition job_backup :: "zone \<Rightarrow> copy_env \<Rightarrow> int storage_section \<Rightarrow> int \<Rightarrow> disk \<Rightarrow> (job_backup_error + string) \<times> disk" where
  "job_backup loc env st now dk = (case write_backup env (st_path st) now dk of
       (Inl e, dk) \<Rightarrow> (Inl (JobBackup e), dk)
     | (Inr path, dk) \<Rightarrow> (case cleanup_backups loc (st_path st) (st_max_backups st) dk of
           (Some e, dk) \<Rightarrow> (Inl (JobRotation e), dk)
         | (None, dk) \<Rightarrow> (Inr path, dk)))"

datatype job_open_error = JobPrepare prepare_error | JobStorage "open_error list"

definition job_open_store :: "zone \<Rightarrow> copy_env \<Rightarrow> int storage_section \<Rightarrow> int \<Rightarrow> bool list \<Rightarrow> stat \<Rightarrow> bool \<Rightarrow> bool \<Rightarrow> open_env
    \<Rightarrow> installation \<times> site \<Rightarrow> (job_open_error + meta) \<times> installation \<times> site" where
  "job_open_store loc copies st now faults existing opens closed_ok env s = (case s of (p, si) \<Rightarrow>
     (case prepare loc copies (backfill_backup_config st) (st_path st) now faults existing opens closed_ok p of
       (Some e, p) \<Rightarrow> (Inl (JobPrepare e), p, si)
     | (None, p) \<Rightarrow> (case new_storage env (storage_settings_of st) si of
           (Inl es, si) \<Rightarrow> (Inl (JobStorage es), p, si)
         | (Inr m, si) \<Rightarrow> (Inr m, p, si))))"

section \<open>Facts\<close>

lemma exec_ddl_present: "ddl_name d \<in> ddl_name ` set sch \<Longrightarrow> exec_ddl d sch = sch"
  by (simp add: exec_ddl_def)

lemma exec_ddl_set: "ddl_name ` set (exec_ddl d sch) = insert (ddl_name d) (ddl_name ` set sch)"
  by (auto simp: exec_ddl_def)

lemma run_ddl_names:
  "run_ddl faults ds sch = Some sch' \<Longrightarrow> ddl_name ` set sch' = ddl_name ` (set sch \<union> set ds)"
  by (induction faults ds sch rule: run_ddl.induct) (simp_all add: exec_ddl_set image_Un)

lemma run_ddl_keeps: "run_ddl faults ds sch = Some sch' \<Longrightarrow> set sch \<subseteq> set sch'"
proof (induction faults ds sch rule: run_ddl.induct)
  case (3 fs d ds sch)
  have "set sch \<subseteq> set (exec_ddl d sch)" by (auto simp: exec_ddl_def)
  then show ?case using 3 by auto
next
  case (4 d ds sch)
  have "set sch \<subseteq> set (exec_ddl d sch)" by (auto simp: exec_ddl_def)
  then show ?case using 4 by auto
qed simp_all

lemma run_ddl_present:
  "ddl_name ` set ds \<subseteq> ddl_name ` set sch \<Longrightarrow> run_ddl faults ds sch = Some sch' \<Longrightarrow> sch' = sch"
  by (induction faults ds sch rule: run_ddl.induct) (auto simp: exec_ddl_present)

text \<open>A start on a database that has the schema changes nothing, whatever else the file holds.\<close>

lemma init_schema_idempotent:
  assumes "init_schema f1 c1 sch = (True, sch1)"
  shows "snd (init_schema f2 c2 sch1) = sch1" "set sch \<subseteq> set sch1" "ddl_name ` set schema_sql \<subseteq> ddl_name ` set sch1"
proof -
  have r: "run_ddl f1 schema_sql sch = Some sch1" using assms by (auto simp: init_schema_def split: option.splits if_splits)
  show "set sch \<subseteq> set sch1" using r by (rule run_ddl_keeps)
  show n: "ddl_name ` set schema_sql \<subseteq> ddl_name ` set sch1" using run_ddl_names [OF r] by auto
  show "snd (init_schema f2 c2 sch1) = sch1"
    using run_ddl_present [OF n] by (auto simp: init_schema_def split: option.split)
qed

lemma open_database_conns:
  "open_database env cfg s = (errs, s') \<Longrightarrow>
    si_conns s' = si_conns s + (if errs = [] then 1 else 0) \<and> si_db s' = si_db s \<and> si_schema s' = si_schema s"
  by (auto simp: open_database_def Let_def split: if_splits)

text \<open>Opening the storage never leaks its connection and never runs on half a schema: when it fails, in whatever
  step, the process has the connections it had and the schema is complete or untouched; when it succeeds there is
  exactly one more, every table and index of the schema exists beside what was there, and the loaded marks are
  those of the meta table. The rows are never touched, and opening again changes nothing.\<close>

theorem opening_is_clean:
  assumes "new_storage env cfg s = (r, s')"
  shows "si_db s' = si_db s \<and>
    (case r of
       Inl errs \<Rightarrow> errs \<noteq> [] \<and> si_conns s' = si_conns s \<and>
         (si_schema s' = si_schema s \<or> ddl_name ` set schema_sql \<subseteq> ddl_name ` set (si_schema s'))
     | Inr m \<Rightarrow> si_conns s' = si_conns s + 1 \<and> load_meta (si_db s) = Inr m \<and>
         set (si_schema s) \<subseteq> set (si_schema s') \<and> ddl_name ` set schema_sql \<subseteq> ddl_name ` set (si_schema s') \<and>
         (\<forall>env' r' s''. new_storage env' cfg s' = (r', s'') \<longrightarrow> si_schema s'' = si_schema s'))"
proof -
  obtain errs s1 where o: "open_database env cfg s = (errs, s1)" by fastforce
  obtain ok sch where i: "init_schema (oe_faults env) (oe_commits env) (si_schema s) = (ok, sch)" by fastforce
  note c = open_database_conns [OF o]
  have failed: "sch = si_schema s" if "\<not> ok"
    using i that by (auto simp: init_schema_def split: option.splits if_splits)
  have again: "si_schema s'' = si_schema t"
    if n: "new_storage env' cfg t = (r', s'')" and t: "\<And>f co. snd (init_schema f co (si_schema t)) = si_schema t"
    for env' r' s'' and t :: "site"
  proof -
    obtain errs' t1 where o': "open_database env' cfg t = (errs', t1)" by fastforce
    have "si_schema t1 = si_schema t" using open_database_conns [OF o'] by simp
    then show ?thesis using n t by (auto simp: new_storage_def o' close_conn_def Let_def
      split: if_splits prod.splits sum.splits) (metis snd_conv)+
  qed
  show ?thesis
  proof (cases "errs \<noteq> [] \<or> \<not> ok")
    case True
    then show ?thesis using assms c failed
      by (auto simp: new_storage_def o i close_conn_def Let_def split: if_splits)
  next
    case False
    then have d: "init_schema (oe_faults env) (oe_commits env) (si_schema s) = (True, sch)" "errs = []" using i by auto
    note idem = init_schema_idempotent [OF d(1)]
    show ?thesis
    proof (cases "load_meta (si_db s1)")
      case (Inl e)
      then show ?thesis using assms c d idem
        by (auto simp: new_storage_def o close_conn_def Let_def)
    next
      case (Inr m)
      then have "r = Inr m" "s' = s1\<lparr>si_schema := sch\<rparr>" using assms c d by (auto simp: new_storage_def o Let_def)
      then show ?thesis using c d(2) idem Inr again [of _ s'] by auto
    qed
  qed
qed

text \<open>Schedules that are off do nothing; otherwise retention runs once at the start and once per tick.\<close>

lemma every_unfold: "every now fn first ticks s = fold fn (if now then first # ticks else ticks) s"
  by (simp add: every_def)

lemma schedules_off:
  "interval \<le> 0 \<Longrightarrow> run_periodic_cleanup interval cfg z first ticks s = s"
  "\<not> bc_enabled bcfg \<or> bc_interval bcfg \<le> 0 \<Longrightarrow> run_periodic_backups loc bcfg path first' ticks' dk = dk"
  by (auto simp: run_periodic_cleanup_def run_periodic_backups_def periodic_backups_def)

text \<open>A job whose database cannot be prepared or opened holds no connection.\<close>

lemma job_open_store_conns:
  assumes "job_open_store loc copies st now faults existing opens closed_ok env (p, si) = (Inl e, p', si')"
  shows "si_conns si' = si_conns si"
proof -
  have c: "si_conns s' = si_conns s" if "new_storage env cfg s = (Inl es, s')" for cfg s s' es
  proof -
    obtain errs s1 where o: "open_database env cfg s = (errs, s1)" by fastforce
    show ?thesis using that open_database_conns [OF o]
      by (auto simp: new_storage_def o close_conn_def Let_def split: if_splits prod.splits sum.splits)
  qed
  show ?thesis using assms c
    by (auto simp: job_open_store_def split: prod.splits option.splits sum.splits)
qed

section \<open>Examples\<close>

text \<open>The first start: no file yet, and a commit of the schema that fails.\<close>

definition empty_site :: site where
  "empty_site = \<lparr>si_db = \<lparr>d_daily = [], d_monthly = [], d_yearly = [], d_total = [], d_error = [], d_meta = []\<rparr>,
     si_schema = [], si_conns = 0\<rparr>"

theorem opening_is_clean_witness:
  "si_conns (snd (new_storage \<lparr>oe_mkdir = True, oe_open = True, oe_ping = True, oe_close = False, oe_faults = [],
     oe_commits = False\<rparr> (storage_settings_of (cf_storage default_config)) empty_site)) = 0"
proof -
  let ?env = "\<lparr>oe_mkdir = True, oe_open = True, oe_ping = True, oe_close = False, oe_faults = [], oe_commits = False\<rparr>"
  let ?cfg = "storage_settings_of (cf_storage default_config)"
  obtain r s' where n: "new_storage ?env ?cfg empty_site = (r, s')" by fastforce
  then have "\<exists>errs. r = Inl errs"
    by (auto simp: new_storage_def open_database_def init_schema_def close_conn_def empty_site_def Let_def
      split: option.splits prod.splits if_splits)
  then show ?thesis using opening_is_clean [OF n] n by (auto simp: empty_site_def)
qed

end
