(* ===== verification/FakeClock.thy ===== *)
theory FakeClock
  imports Prelude
begin

text \<open>
  internal/util/clocktest/clocktest.go: the clock that stands in for \<open>util.Clock\<close> when loops that
  wait on timers are tested. Time moves only in \<open>Set\<close> and \<open>Advance\<close>, which fire what is due one
  deadline after the other. A waiter is named by its place in the list of waiters; its channel
  holds at most one tick. \<open>BlockUntil\<close>, which polls in real time, is left out.
\<close>

section \<open>State\<close>

record waiter =
  wt_at :: int
  wt_period :: int
  wt_chan :: "int option"
  wt_active :: bool

record fake_clock =
  fc_now :: int
  fc_waiters :: "waiter list"

definition new_clock :: "int \<Rightarrow> fake_clock" where
  "new_clock t = \<lparr>fc_now = t, fc_waiters = []\<rparr>"

definition tick :: "int \<Rightarrow> waiter \<Rightarrow> waiter" where
  "tick t w = (case wt_chan w of None \<Rightarrow> w\<lparr>wt_chan := Some t\<rparr> | Some _ \<Rightarrow> w)"

definition fire_waiter :: "int \<Rightarrow> waiter \<Rightarrow> waiter" where
  "fire_waiter t w = (let w = tick t w in
     if wt_period w > 0 then w\<lparr>wt_at := wt_at w + wt_period w\<rparr> else w\<lparr>wt_active := False\<rparr>)"

definition fire :: "nat \<Rightarrow> fake_clock \<Rightarrow> fake_clock" where
  "fire i c = c\<lparr>fc_waiters := (fc_waiters c)[i := fire_waiter (fc_now c) (fc_waiters c ! i)]\<rparr>"

definition add_waiter :: "int \<Rightarrow> int \<Rightarrow> fake_clock \<Rightarrow> nat \<times> fake_clock" where
  "add_waiter d period c = (let i = length (fc_waiters c);
       w = \<lparr>wt_at = fc_now c + d, wt_period = period, wt_chan = None, wt_active = True\<rparr>;
       c = c\<lparr>fc_waiters := fc_waiters c @ [w]\<rparr> in
     (i, if period = 0 \<and> d \<le> 0 then fire i c else c))"

definition new_timer :: "int \<Rightarrow> fake_clock \<Rightarrow> nat \<times> fake_clock" where
  "new_timer d = add_waiter d 0"

definition new_ticker :: "int \<Rightarrow> fake_clock \<Rightarrow> nat \<times> fake_clock" where
  "new_ticker d = add_waiter d d"

section \<open>Moving the clock\<close>

definition due :: "int \<Rightarrow> waiter \<Rightarrow> bool" where
  "due t w \<longleftrightarrow> wt_active w \<and> wt_at w \<le> t"

definition next_due :: "int \<Rightarrow> fake_clock \<Rightarrow> nat option" where
  "next_due t c = (case filter (\<lambda>i. due t (fc_waiters c ! i)) [0..<length (fc_waiters c)] of
       [] \<Rightarrow> None
     | is \<Rightarrow> Some (hd (sort_key (\<lambda>i. wt_at (fc_waiters c ! i)) is)))"

lemma next_due_Some:
  assumes "next_due t c = Some i"
  shows "i < length (fc_waiters c)" "due t (fc_waiters c ! i)"
    "\<And>j. j < length (fc_waiters c) \<Longrightarrow> due t (fc_waiters c ! j) \<Longrightarrow> wt_at (fc_waiters c ! i) \<le> wt_at (fc_waiters c ! j)"
proof -
  let ?k = "\<lambda>i. wt_at (fc_waiters c ! i)"
  let ?is = "filter (\<lambda>i. due t (fc_waiters c ! i)) [0..<length (fc_waiters c)]"
  have i: "?is \<noteq> []" "i = hd (sort_key ?k ?is)"
    using assms by (auto simp: next_due_def split: list.splits)
  then obtain js where js: "sort_key ?k ?is = i # js" by (metis length_0_conv length_sort list.collapse)
  then have "i \<in> set ?is" by (metis list.set_intros(1) set_sort)
  then show "i < length (fc_waiters c)" "due t (fc_waiters c ! i)" by auto
  fix j assume "j < length (fc_waiters c)" "due t (fc_waiters c ! j)"
  then have "j \<in> set ?is" by simp
  moreover have "set (i # js) = set ?is" by (metis js set_sort)
  ultimately have "j \<in> set (i # js)" by blast
  moreover have "sorted (map ?k (i # js))" using js by (metis sorted_sort_key)
  ultimately show "?k i \<le> ?k j" by auto
qed

lemma next_due_None: "next_due t c = None \<Longrightarrow> w \<in> set (fc_waiters c) \<Longrightarrow> \<not> due t w"
  by (auto simp: next_due_def filter_empty_conv in_set_conv_nth split: list.splits)

text \<open>How far a waiter is from having nothing due.\<close>

definition backlog :: "int \<Rightarrow> waiter \<Rightarrow> nat" where
  "backlog t w = (if wt_active w then nat (t - wt_at w + 1) else 0)"

lemma backlog_fire: "due t w \<Longrightarrow> backlog t (fire_waiter now w) < backlog t w"
  by (cases "wt_chan w") (auto simp: backlog_def due_def fire_waiter_def tick_def Let_def)

lemma backlog_update:
  assumes "i < length ws" "backlog t w < backlog t (ws ! i)"
  shows "sum_list (map (backlog t) (ws[i := w])) < sum_list (map (backlog t) ws)"
proof -
  have "map (backlog t) ws ! i \<le> sum_list (map (backlog t) ws)" using assms(1) by (intro elem_le_sum_list) simp
  then show ?thesis using assms by (simp add: map_update sum_list_update)
qed

function set_clock :: "int \<Rightarrow> fake_clock \<Rightarrow> fake_clock" where
  "set_clock t c = (case next_due t c of
       None \<Rightarrow> if t > fc_now c then c\<lparr>fc_now := t\<rparr> else c
     | Some i \<Rightarrow> set_clock t (fire i (if wt_at (fc_waiters c ! i) > fc_now c
         then c\<lparr>fc_now := wt_at (fc_waiters c ! i)\<rparr> else c)))"
  by auto
termination
proof (relation "measure (\<lambda>(t, c). sum_list (map (backlog t) (fc_waiters c)))")
  fix t c i assume "next_due t c = Some i"
  note d = next_due_Some(1,2) [OF this]
  show "((t, fire i (if wt_at (fc_waiters c ! i) > fc_now c then c\<lparr>fc_now := wt_at (fc_waiters c ! i)\<rparr> else c)), t, c)
      \<in> measure (\<lambda>(t, c). sum_list (map (backlog t) (fc_waiters c)))"
    using backlog_update [OF d(1) backlog_fire [OF d(2)]] by (simp add: fire_def)
qed simp

declare set_clock.simps [simp del]

definition advance :: "int \<Rightarrow> fake_clock \<Rightarrow> fake_clock" where
  "advance d c = set_clock (fc_now c + d) c"

definition active_count :: "fake_clock \<Rightarrow> nat" where
  "active_count c = length (filter wt_active (fc_waiters c))"

section \<open>Timers and tickers\<close>

definition with_waiter :: "nat \<Rightarrow> (waiter \<Rightarrow> waiter) \<Rightarrow> fake_clock \<Rightarrow> fake_clock" where
  "with_waiter i f c = c\<lparr>fc_waiters := (fc_waiters c)[i := f (fc_waiters c ! i)]\<rparr>"

definition timer_stop :: "nat \<Rightarrow> fake_clock \<Rightarrow> bool \<times> fake_clock" where
  "timer_stop i c = (wt_active (fc_waiters c ! i),
     with_waiter i (\<lambda>w. w\<lparr>wt_active := False, wt_chan := None\<rparr>) c)"

definition timer_reset :: "nat \<Rightarrow> int \<Rightarrow> fake_clock \<Rightarrow> bool \<times> fake_clock" where
  "timer_reset i d c = (wt_active (fc_waiters c ! i),
     let c = with_waiter i (\<lambda>w. w\<lparr>wt_at := fc_now c + d, wt_active := True, wt_chan := None\<rparr>) c in
     if d \<le> 0 then fire i c else c)"

definition ticker_stop :: "nat \<Rightarrow> fake_clock \<Rightarrow> fake_clock" where
  "ticker_stop i = with_waiter i (\<lambda>w. w\<lparr>wt_active := False\<rparr>)"

definition ticker_reset :: "nat \<Rightarrow> int \<Rightarrow> fake_clock \<Rightarrow> fake_clock" where
  "ticker_reset i d c = with_waiter i (\<lambda>w. w\<lparr>wt_period := d, wt_at := fc_now c + d, wt_active := True\<rparr>) c"

text \<open>A receive from the channel.\<close>

definition receive :: "nat \<Rightarrow> fake_clock \<Rightarrow> int option \<times> fake_clock" where
  "receive i c = (wt_chan (fc_waiters c ! i), with_waiter i (\<lambda>w. w\<lparr>wt_chan := None\<rparr>) c)"

section \<open>What moving the clock does to a waiter\<close>

text \<open>The state of a waiter once the clock moved from \<open>now\<close> to \<open>t\<close>, without any loop: a timer whose deadline
  is reached is spent, a ticker stands at its first deadline after \<open>t\<close>, and an empty channel holds the
  first deadline.\<close>

definition next_deadline :: "int \<Rightarrow> int \<Rightarrow> int \<Rightarrow> int" where
  "next_deadline p a t = a + p * ((t - a) div p + 1)"

definition settle :: "int \<Rightarrow> int \<Rightarrow> waiter \<Rightarrow> waiter" where
  "settle now t w = (if \<not> due t w then w
     else let w' = tick (max now (wt_at w)) w in
       if wt_period w > 0 then w'\<lparr>wt_at := next_deadline (wt_period w) (wt_at w) t\<rparr>
       else w'\<lparr>wt_active := False\<rparr>)"

lemma next_deadline:
  fixes p :: int
  assumes "0 < p"
  shows "t < next_deadline p a t" "next_deadline p (a + p) t = next_deadline p a t"
    "a \<le> t \<Longrightarrow> t < a + p \<Longrightarrow> next_deadline p a t = a + p"
proof -
  have m: "(t - a) mod p < p" "(t - a) div p * p + (t - a) mod p = t - a" using assms by simp_all
  have "p * ((t - a) div p + 1) = (t - a) div p * p + p" by (simp add: algebra_simps)
  then show "t < next_deadline p a t" using m unfolding next_deadline_def by linarith
  have "(t - a) div p = (t - (a + p)) div p + 1"
    using div_add_self2 [of p "t - (a + p)"] assms by simp
  then show "next_deadline p (a + p) t = next_deadline p a t" by (simp add: next_deadline_def algebra_simps)
  show "next_deadline p a t = a + p" if "a \<le> t" "t < a + p"
    using that by (simp add: next_deadline_def div_pos_pos_trivial)
qed

lemma next_deadline_shift: "0 < p \<Longrightarrow> next_deadline p (a + p * int n) t = next_deadline p a t"
proof (induction n)
  case (Suc n)
  then show ?case using next_deadline(2) [of p "a + p * int n" t] by (simp add: algebra_simps)
qed simp

lemma next_deadline_twice:
  assumes "0 < p" "a \<le> t1" "t1 \<le> t2"
  shows "next_deadline p a t1 \<le> t2 \<Longrightarrow> next_deadline p (next_deadline p a t1) t2 = next_deadline p a t2"
    "t2 < next_deadline p a t1 \<Longrightarrow> next_deadline p a t2 = next_deadline p a t1"
proof -
  define n where "n = nat ((t1 - a) div p)"
  have n: "next_deadline p a t1 = a + p * int n + p"
    using assms by (simp add: next_deadline_def n_def pos_imp_zdiv_nonneg_iff algebra_simps)
  show "next_deadline p (next_deadline p a t1) t2 = next_deadline p a t2"
    using assms(1) by (simp add: n next_deadline(2) next_deadline_shift)
  assume "t2 < next_deadline p a t1"
  moreover have "a + p * int n \<le> t1"
  proof -
    have "p * int n = (t1 - a) div p * p" using assms by (simp add: n_def pos_imp_zdiv_nonneg_iff mult.commute)
    then show ?thesis using pos_mod_sign [OF assms(1), of "t1 - a"] div_mult_mod_eq [of "t1 - a" p] by linarith
  qed
  ultimately have "next_deadline p (a + p * int n) t2 = a + p * int n + p"
    using assms by (intro next_deadline(3)) (simp_all add: n)
  then show "next_deadline p a t2 = next_deadline p a t1" using assms(1) by (simp add: n next_deadline_shift)
qed

lemma settle_fired:
  assumes "due t w"
  shows "settle now' t (fire_waiter (max now (wt_at w)) w) = settle now t w"
proof (cases "wt_period w > 0")
  case True
  have le: "wt_at w \<le> t" using assms by (simp add: due_def)
  then show ?thesis using True assms next_deadline(2,3) [OF True, of "wt_at w" t]
    by (cases "wt_chan w"; cases "wt_at w + wt_period w \<le> t")
      (auto simp: settle_def fire_waiter_def tick_def due_def Let_def)
next
  case False
  then show ?thesis using assms
    by (cases "wt_chan w") (auto simp: settle_def fire_waiter_def tick_def due_def Let_def)
qed

lemma settle_later: "now' \<le> wt_at w \<or> \<not> due t w \<Longrightarrow> settle (max now now') t w = settle now t w"
  by (auto simp: settle_def max_def)

lemma set_clock_settles:
  "set_clock t c = \<lparr>fc_now = max (fc_now c) t, fc_waiters = map (settle (fc_now c) t) (fc_waiters c)\<rparr>"
proof (induction t c rule: set_clock.induct)
  case (1 t c)
  show ?case
  proof (cases "next_due t c")
    case None
    have "map (settle (fc_now c) t) (fc_waiters c) = fc_waiters c"
      by (rule map_idI) (simp add: settle_def next_due_None [OF None])
    then show ?thesis by (subst set_clock.simps) (simp add: None max_def)
  next
    case (Some i)
    note d = next_due_Some [OF Some]
    let ?w = "fc_waiters c ! i"
    define c' where "c' = fire i (if wt_at ?w > fc_now c then c\<lparr>fc_now := wt_at ?w\<rparr> else c)"
    have c': "fc_now c' = max (fc_now c) (wt_at ?w)"
      "fc_waiters c' = (fc_waiters c)[i := fire_waiter (max (fc_now c) (wt_at ?w)) ?w]"
      by (simp_all add: c'_def fire_def max_def)
    have le: "wt_at ?w \<le> t" using d(2) by (simp add: due_def)
    have "map (settle (fc_now c') t) (fc_waiters c') = map (settle (fc_now c) t) (fc_waiters c)"
    proof (rule nth_equalityI)
      fix j assume "j < length (map (settle (fc_now c') t) (fc_waiters c'))"
      then have j: "j < length (fc_waiters c)" by (simp add: c')
      show "map (settle (fc_now c') t) (fc_waiters c') ! j = map (settle (fc_now c) t) (fc_waiters c) ! j"
        using j d(3) [OF j] settle_later [of "wt_at ?w" "fc_waiters c ! j" t "fc_now c"]
        by (cases "j = i") (auto simp: c' settle_fired [OF d(2)])
    qed (simp add: c')
    moreover have "set_clock t c = set_clock t c'"
      by (subst set_clock.simps) (simp add: Some c'_def)
    ultimately show ?thesis using 1 [OF Some, folded c'_def] le by (simp add: c'(1) max.assoc)
  qed
qed

text \<open>Moving in one go or in steps between which nobody looks is the same.\<close>

lemma settle_settle:
  assumes "t1 \<le> t2"
  shows "settle (max now t1) t2 (settle now t1 w) = settle now t2 w"
proof (cases "due t1 w")
  case True
  then have d: "wt_active w" "wt_at w \<le> t1" "due t2 w" using assms by (auto simp: due_def)
  show ?thesis
  proof (cases "wt_period w > 0")
    case p: True
    note n = next_deadline_twice [OF p d(2) assms]
    show ?thesis
      by (cases "wt_chan w"; cases "next_deadline (wt_period w) (wt_at w) t1 \<le> t2")
        (use d p n in \<open>simp_all add: settle_def tick_def due_def Let_def\<close>)
  next
    case False
    then show ?thesis using d by (cases "wt_chan w") (auto simp: settle_def tick_def due_def Let_def)
  qed
next
  case False
  then have "settle now t1 w = w" by (simp add: settle_def)
  moreover have "t1 \<le> wt_at w" if "due t2 w" using that False by (auto simp: due_def)
  ultimately show ?thesis by (auto simp: settle_def max_def)
qed

lemma set_clock_in_steps: "t1 \<le> t2 \<Longrightarrow> set_clock t2 (set_clock t1 c) = set_clock t2 c"
  by (simp add: set_clock_settles settle_settle)

lemma settle_done: "\<not> due t (settle now t w)"
  using next_deadline(1) [of "wt_period w" t "wt_at w"]
  by (cases "wt_chan w") (auto simp: settle_def due_def tick_def Let_def)

lemma set_clock_done: "w \<in> set (fc_waiters (set_clock t c)) \<Longrightarrow> \<not> due t w"
  by (auto simp: set_clock_settles settle_done)

text \<open>What the loops rely on: a timer that is set again forgets an old tick and fires once, at its deadline;
  a stopped one is silent; a ticker ticks at its next deadline however far the clock jumps.\<close>

lemma timer_fires:
  assumes "i < length (fc_waiters c)" "wt_period (fc_waiters c ! i) = 0" "0 < d"
  shows "fst (receive i (set_clock t (snd (timer_reset i d c)))) = (if fc_now c + d \<le> t then Some (fc_now c + d) else None)"
    "fst (receive i (set_clock t (snd (timer_stop i c)))) = None"
  using assms
  by (auto simp: receive_def set_clock_settles timer_reset_def timer_stop_def with_waiter_def settle_def due_def
    tick_def Let_def)

lemma ticker_ticks:
  assumes "0 < d" "new_ticker d c = (i, c')"
  shows "fst (receive i (set_clock t c')) = (if fc_now c + d \<le> t then Some (fc_now c + d) else None)"
  using assms by (auto simp: new_ticker_def add_waiter_def receive_def set_clock_settles settle_def due_def
    tick_def nth_append Let_def)

text \<open>The real ticker panics on an interval that is not positive; the fake one ticks once and is spent.\<close>

lemma fake_ticker_accepts_zero:
  "new_ticker 0 (new_clock 5) = (0, \<lparr>fc_now = 5, fc_waiters =
     [\<lparr>wt_at = 5, wt_period = 0, wt_chan = Some 5, wt_active = False\<rparr>]\<rparr>)"
  by (simp add: new_ticker_def add_waiter_def new_clock_def fire_def fire_waiter_def tick_def Let_def)

end
