(* ===== verification/Spec2Isabelle.thy ===== *)
theory Spec2Isabelle
  imports PollerRun AggregatorRun AggregatorLoop Lifecycle Decoder Supervisor Hub Modbus Backfill Service Migration
    Config Router App Socket Opening FakeClock
begin

text \<open>
  Verification development of solis, a Go service that polls a Solis inverter over Modbus,
  attributes its counters to days, logs daily, monthly and yearly energy in SQLite, aggregates
  periods, watches its own components and pushes live values to browsers. Paths below are under
  src/internal.

  \<^bold>\<open>The program and how its parts interact.\<close>
  The poller (poller/) reads the blocks of the register plan (solis/) through the Modbus client
  (modbus/), decodes them, lets the attributor decide to which day a daily counter belongs, and
  writes rows and day closes in one transaction (storage/poller_store.go). It publishes events on
  the bus (eventbus/); the aggregator (aggregator/) reacts to them, computes periods from the
  stored rows (aggregation/) and freezes those whose last day is closed
  (storage/aggregator_store.go). Retention (storage/cleanup.go) purges old rows, the backfill job
  (maintenance/) recomputes frozen periods while the service is stopped, the supervisor (health/)
  restarts components that stop reporting, and the hub (websocket/) mirrors the cache (cache/) to
  its clients. The read service (service/) answers the HTTP handlers (http/) from the store, the
  cache and the health snapshot. At the start, app/ loads the configuration (config/), takes the
  lock file, lets database/ back up and migrate the file, opens the store, builds the parts in
  order and hands the restartable ones to the supervisor; at the end it releases them in reverse.

  \<^bold>\<open>Theories and the code they model.\<close>
  \<^item> \<open>Prelude\<close>: collections, results (\<open>Inl\<close> is the returned error), and lemmas on
    association lists and sorted lists that the components share.
  \<^item> \<open>Calendar\<close>: days since the epoch, civil dates, instants, zones given by their offset
    function, and the functions of package time that the code calls.
  \<^item> \<open>Period\<close>, \<open>Rollover\<close>: period/period.go and period/rollover.go. Keys, their
    arithmetic, bounds and lists of periods; the window around the rollover time of a day.
  \<^item> \<open>Float64\<close>: IEEE double arithmetic as rationals with rounding, infinities and NaN.
  \<^item> \<open>Registers\<close>, \<open>Table\<close>, \<open>Decoder\<close>: solis/registry.go and types.go, the register
    table itself, and decoder.go with status_tables.go. Words are 16 bit words.
  \<^item> \<open>Cache\<close>, \<open>Aggregation\<close>: cache/cache.go; aggregation/aggregation.go and plan.go.
  \<^item> \<open>Store\<close>: the tables of the database, the meta table (storage/meta.go) and transactions as
    state passing, in which an error returns the state before the transaction.
    \<open>PollerStore\<close>, \<open>AggregatorStore\<close>, \<open>Cutover\<close>, \<open>Cleanup\<close> are the files of storage/
    with these names.
  \<^item> \<open>EventBus\<close>: eventbus/eventbus.go, a step relation whose steps are the critical sections
    of the code.
  \<^item> \<open>Attribution\<close>, \<open>Poller\<close>, \<open>PollerRun\<close>: poller/attribution.go, poller.go and cycle.go:
    the attributor, the reads of a cycle, the cycle itself and its runs with the shared store.
  \<^item> \<open>Aggregator\<close>, \<open>AggregatorRun\<close>: aggregator/compute.go and aggregator.go, a run, the
    reaction to events, and runs interleaved with the poller, the cleanup and restarts.
  \<^item> \<open>Status\<close>, \<open>Supervisor\<close>: health/status.go, health.go, managed.go and supervisor.go.
  \<^item> \<open>Hub\<close>: websocket/hub.go, protocol.go and the queues of client.go, with util/math.go.
  \<^item> \<open>Modbus\<close>: modbus/modbus.go and the heartbeat of app/factories.go.
  \<^item> \<open>Backfill\<close>: maintenance/backfill.go and report.go, storage/backfill.go.

  \<^item> \<open>Stamps\<close>, \<open>Service\<close>: the timestamps of the store; storage/read_store.go, history/history.go,
    service/service.go and data.go, and the handlers of http/httphandler.
  \<^item> \<open>Paths\<close>, \<open>Backup\<close>, \<open>Migration\<close>: package path as the code uses it; database/backup.go with
    the names, the verification and the rotation of backups; registry.go, migration.go,
    manager.go and migrations/v3_migration.go.
  \<^item> \<open>Duration\<close>, \<open>Config\<close>: util/duration.go; config/config.go, app/config_mapping.go and the
    requirements (util/errors.go) of the constructors that get the settings.
  \<^item> \<open>AggregatorLoop\<close>, \<open>Lifecycle\<close>: the select loop of aggregator.go with its timers; Start and
    Stop of the poller and the aggregator, the timer loop of the poller, util/slot.go and the
    components of app/factories.go that publish through it.
  \<^item> \<open>Router\<close>: http/router/router.go, with the recovery and the headers of http/middleware.
  \<^item> \<open>App\<close>: app/app.go and shutdown.go, maintenance/lock_unix.go, the probe of
    http/server/server.go, and the exit codes of src/cmd.
  \<^item> \<open>Socket\<close>: websocket/handler.go, the pumps of client.go, Register, Start and Stop of hub.go.
  \<^item> \<open>Opening\<close>: New, open and the schema of storage/storage.go, the schedules of
    database/manager.go, and app/backfill.go.
  \<^item> \<open>FakeClock\<close>: util/clocktest/clocktest.go, the clock under which the loops are tested.

  \<^bold>\<open>Correspondence.\<close>
  A struct is a record whose fields are prefixed by a letter of its type, a Go map is a map or,
  where its rows matter, an association list; an error is \<open>Inl\<close> of an error datatype; times are
  integers (nanoseconds); a goroutine that shares state is a step relation, and what the
  environment decides (the answer of the inverter, whether a commit goes through, when a timer
  fires) is an argument of the step. Loops that end for a reason other than structure are
  \<open>partial_function (option)\<close>: that they return is a theorem (\<open>months_years_between_return\<close>,
  \<open>backfill_returns\<close>), so \<open>None\<close> never stands for a result. No definition uses fuel.

  \<^bold>\<open>What the lemmas show.\<close>
  \<^item> Calendar and keys: the civil date of a day number and back, keys ordered as days, the
    exact set of instants of a window.
  \<^item> Decoding: the plan covers every register with blocks within the protocol limit, and the
    decoded value of each register is the one of its words.
  \<^item> Attribution and storage: a value that the poller writes is never rejected by the store's
    guard, a closed day and a frozen period never change, closes are written or kept, the store
    changes only when the transaction commits.
  \<^item> Aggregation: jobs refine the specification of a period's sums, every closed year is folded
    into the baseline once, the cutover is not repeated after a restart, frozen periods are
    final over every run of poller, aggregator, cleanup and restarts.
  \<^item> Health: escalation happens exactly when the restart budget is spent, the published health
    is never better than the components. Bus and hub: delivery without a lost wake-up, a flush
    that stays armed after an update, and clients that end with the cache's content.
  \<^item> Modbus: which error loses the connection, and a reconnecting client that keeps beating.
  \<^item> Backfill: it writes what a fresh computation gives for every complete period, leaves
    everything else alone, also after retention, and returns with an exact report.
  \<^item> Reads: the history of a key is what its rows say for the days of the range, the status
    codes are the documented ones, and a value the poller wrote is the one that is read.
  \<^item> Database files: a backup that is reported is a verified copy, rotation keeps the newest
    backups of a database and leaves those of others as long as no other name extends its own, a
    migration runs only after a backup and leaves either the old or the new schema.
  \<^item> Configuration: a configuration that loads satisfies what the constructors ask for and what
    the supervisor's grace needs; durations are read exactly or refused.
  \<^item> Loops and lifecycle: no poller event waits longer than the debounce, the heartbeat runs
    without events, polls do not overlap, one goroutine and one subscription at most, nothing
    left after a stop, and a slot that never holds a closed instance.
  \<^item> Application: whatever fails while building or serving, what was created is released once
    and in reverse; the shutdown is bounded; jobs and the server exclude each other through the
    lock file, but for the symlink that \<open>dangling_symlink_not_excluded\<close> shows.
  \<^item> Router: files are served from inside their directory only. Connections: a connection is served
    or cleaned up, whatever interleaves with the end of the hub.
  \<^item> Opening the storage leaks no connection and leaves no half of a schema; the fake clock
    computes in one step what its loop of single ticks reaches.

  \<^bold>\<open>Not modelled.\<close>
  SQLite itself (a table is a list of rows, a transaction is atomic; opening a file and copying it
  are outcomes of the environment), the wire protocol of the Modbus library, the frames of a
  WebSocket and the check of its origin, encoding to JSON, the matching of chi, the merging of
  viper, the flag library, the file system and the kernel beyond the lock table, logging and the
  texts of messages, the real clock of package time, and the API documentation and frontend that
  are embedded in the binary.
\<close>

end
